(* ===== verification/Prelude.thy ===== *)
theory Prelude
  imports Main "HOL-Library.Word"
begin

text \<open>
  Shared material of the development: the machine types of the kernel (LP64: \<open>unsigned long\<close> and
  pointers are 64 bits wide, \<open>unsigned int\<close> 32, \<open>char\<close> 8), the constants of \<open>src/src/config.h\<close>,
  and the generic facts on words, powers of two and function updates that the components use.
  The collection \<open>unat_simps\<close> moves word arithmetic to the naturals.
\<close>

unbundle bit_operations_syntax

type_synonym u64 = "64 word"
type_synonym u32 = "32 word"
type_synonym u8 = "8 word"

named_theorems unat_simps

section \<open>Constants of src/src/config.h and src/src/mmu.h\<close>

definition PAGE_SHIFT :: nat where
  "PAGE_SHIFT = 12"

definition PAGE_SIZE :: u64 where
  "PAGE_SIZE = push_bit PAGE_SHIFT 1"

definition BUDDY_MAX_ORDER :: nat where
  "BUDDY_MAX_ORDER = 10"

definition MAX_ALLOC_SIZE :: u64 where
  "MAX_ALLOC_SIZE = 2147483647"

definition BUDDY_MAX_POOL_SIZE :: u64 where
  "BUDDY_MAX_POOL_SIZE = 2 * 1024 * 1024 * 1024"

definition BUDDY_TOTAL_PAGES :: u64 where
  "BUDDY_TOTAL_PAGES = drop_bit PAGE_SHIFT BUDDY_MAX_POOL_SIZE"

text \<open>The QEMU branch of the configuration, the default target of the Makefile.\<close>

definition BUDDY_DEFAULT_POOL_START :: u64 where
  "BUDDY_DEFAULT_POOL_START = 0x81000000"

definition BUDDY_DEFAULT_POOL_SIZE :: u64 where
  "BUDDY_DEFAULT_POOL_SIZE = 16 * 1024 * 1024"

definition PAGE_OFFSET :: u64 where
  "PAGE_OFFSET = 0xffffffc000000000"

lemma PAGE_SIZE_eq: "PAGE_SIZE = 4096"
  by (simp add: PAGE_SIZE_def PAGE_SHIFT_def push_bit_eq_mult)

lemma BUDDY_TOTAL_PAGES_eq: "BUDDY_TOTAL_PAGES = 524288"
  by (simp add: BUDDY_TOTAL_PAGES_def BUDDY_MAX_POOL_SIZE_def PAGE_SHIFT_def drop_bit_eq_div
      word_arith_nat_div)

section \<open>Words as naturals\<close>

lemma u64_less [simp]: "unat (x :: u64) < 18446744073709551616"
  using unsigned_less [of x] by simp

lemma unat_add_u64 [unat_simps]:
  "unat (a + b :: u64) = (if unat a + unat b < 2 ^ 64 then unat a + unat b
                          else unat a + unat b - 2 ^ 64)"
  by (simp add: unat_plus_if')

lemma unat_sub_u64 [unat_simps]: "b \<le> a \<Longrightarrow> unat (a - b :: u64) = unat a - unat b"
  by (simp add: unat_sub)

lemma unat_drop_bit_u64 [unat_simps]: "unat (drop_bit n (a :: u64)) = unat a div 2 ^ n"
  by (simp only: unsigned_drop_bit_eq) (simp add: drop_bit_eq_div take_bit_nat_eq_self)

lemma unat_of_nat_u64 [unat_simps]: "unat (of_nat n :: u64) = n mod 2 ^ 64"
  by (simp add: unat_of_nat)

lemma unat_push_bit_u64 [unat_simps]: "unat (push_bit n (a :: u64)) = (unat a * 2 ^ n) mod 2 ^ 64"
  by (simp only: unsigned_push_bit_eq) (simp add: take_bit_eq_mod push_bit_eq_mult)

lemma unat_pow2: "n < 64 \<Longrightarrow> unat (2 ^ n :: u64) = 2 ^ n"
proof -
  assume n: "n < 64"
  have "unat (push_bit n 1 :: u64) = 2 ^ n mod 2 ^ 64"
    by (simp only: unat_push_bit_u64) simp
  also have "\<dots> = 2 ^ n" using n by (intro mod_less power_strict_increasing) simp_all
  finally show ?thesis by (simp add: push_bit_eq_mult)
qed

lemma unat_mask_u64: "n < 64 \<Longrightarrow> unat (mask n :: u64) = 2 ^ n - 1"
  by (simp add: mask_eq_exp_minus_1 unat_sub unat_pow2 word_le_nat_alt)

lemma and_not_mask_eq: "(x :: 'a :: len word) AND NOT (mask n) = x - take_bit n x"
proof -
  have "x - take_bit n x = x AND NOT (take_bit n x)"
    by (rule disjunctive_diff) (simp add: bit_take_bit_iff)
  also have "\<dots> = x AND NOT (mask n)"
    by (rule bit_eqI) (auto simp: bit_simps)
  finally show ?thesis by simp
qed

lemma unat_take_bit_mod: "unat (take_bit n (x :: 'a :: len word)) = unat x mod 2 ^ n"
  by (simp only: unsigned_take_bit_eq) (simp add: take_bit_eq_mod)

lemma unat_and_not_mask:
  "unat ((x :: 'a :: len word) AND NOT (mask n)) = unat x - unat x mod 2 ^ n"
proof -
  have "take_bit n x \<le> x"
    by (simp add: word_le_nat_alt unat_take_bit_mod)
  then show ?thesis
    by (simp add: and_not_mask_eq unat_sub unat_take_bit_mod)
qed

section \<open>Powers of two and buddies\<close>

text \<open>
  The buddy of an aligned block differs in one bit. Flipping it moves up by the block size when
  the index is a multiple of twice the block size, and down otherwise.
\<close>

lemma nat_flip_bit:
  fixes i :: nat
  assumes "2 ^ k dvd i"
  shows "i XOR 2 ^ k = (if 2 ^ Suc k dvd i then i + 2 ^ k else i - 2 ^ k)"
  using assms
proof (induction k arbitrary: i)
  case 0
  show ?case
    by (cases "i = 0") (auto simp: xor_nat_unfold [of i "Suc 0"] elim!: evenE oddE)
next
  case (Suc k)
  then obtain j where i: "i = 2 * j" and j: "2 ^ k dvd j"
    by (auto elim!: dvdE simp: mult.assoc)
  have "i XOR 2 ^ Suc k = 2 * (j XOR 2 ^ k)"
    by (simp add: i xor_nat_unfold [of "2 * j" "2 * 2 ^ k"])
  then show ?case
    by (simp add: Suc.IH [OF j] i diff_mult_distrib2)
qed

lemma dvd_pow2_mono: "m \<le> n \<Longrightarrow> 2 ^ n dvd (i :: nat) \<Longrightarrow> 2 ^ m dvd i"
  by (meson dvd_trans le_imp_power_dvd)

lemma dvd_pow2_less_add:
  fixes a b :: nat
  assumes "2 ^ k dvd a" "2 ^ k dvd b" "a < b"
  shows "a + 2 ^ k \<le> b"
proof -
  from assms obtain x y where "a = 2 ^ k * x" "b = 2 ^ k * y"
    by (auto elim!: dvdE)
  with \<open>a < b\<close> have "Suc x \<le> y" by simp
  then have "2 ^ k * Suc x \<le> 2 ^ k * y" by (rule mult_le_mono2)
  then show ?thesis by (simp add: \<open>a = _\<close> \<open>b = _\<close>)
qed

lemma buddy_cases:
  fixes i :: nat
  assumes "2 ^ k dvd i"
  obtains (upper) "2 ^ Suc k dvd i" "i XOR 2 ^ k = i + 2 ^ k"
    | (lower) "(i XOR 2 ^ k) + 2 ^ k = i" "2 ^ Suc k dvd i XOR 2 ^ k"
proof (cases "2 ^ Suc k dvd i")
  case True
  with assms show ?thesis by (intro upper) (simp_all add: nat_flip_bit)
next
  case False
  from assms obtain q where q: "i = 2 ^ k * q" by (auto elim: dvdE)
  with False have "odd q" by (auto elim!: evenE simp: mult.assoc)
  then obtain m where m: "q = Suc (2 * m)" by (auto elim: oddE)
  from False assms have x: "i XOR 2 ^ k = i - 2 ^ k" by (simp add: nat_flip_bit)
  have i: "i = 2 ^ k + 2 ^ Suc k * m" by (simp add: q m algebra_simps)
  then have "i - 2 ^ k + 2 ^ k = i" "2 ^ Suc k dvd i - 2 ^ k" by simp_all
  then show ?thesis using lower unfolding x by blast
qed

end
