(* ===== verification/Uart.thy ===== *)
theory Uart
  imports Prelude
begin

text \<open>
  \<open>src/src/uart.c\<close>: the console driver. The 16550 device is a parameter: \<open>rd\<close> and \<open>wr\<close> access a
  register by its offset and may change the device state, as reads of a device register do. Waiting
  for an interrupt (\<open>wfi\<close>) is a parameter too: during it the handler runs. Polling loops need not
  end, so they are partial functions. The ring buffers are modelled as the code has them, an array
  with two indices, and refine a bounded queue.
\<close>

section \<open>Ring buffers\<close>

definition RINGBUF_SIZE :: int where
  "RINGBUF_SIZE = 2048"

record ringbuf =
  rb_buffer :: "int \<Rightarrow> u8"
  rb_head :: int
  rb_tail :: int

definition ringbuf_push :: "ringbuf \<Rightarrow> u8 \<Rightarrow> bool \<times> ringbuf" where
  "ringbuf_push ring c =
     (let next = (rb_head ring + 1) mod RINGBUF_SIZE
      in if next \<noteq> rb_tail ring
         then (True, ring\<lparr>rb_buffer := (rb_buffer ring)(rb_head ring := c), rb_head := next\<rparr>)
         else (False, ring))"

text \<open>The two halves of a successful \<open>ringbuf_pop\<close>, and the function.\<close>

definition pop_read :: "ringbuf \<Rightarrow> u8" where
  "pop_read ring = rb_buffer ring (rb_tail ring)"

definition pop_advance :: "ringbuf \<Rightarrow> ringbuf" where
  "pop_advance ring = ring\<lparr>rb_tail := (rb_tail ring + 1) mod RINGBUF_SIZE\<rparr>"

definition ringbuf_pop :: "ringbuf \<Rightarrow> u8 option \<times> ringbuf" where
  "ringbuf_pop ring =
     (if rb_head ring \<noteq> rb_tail ring then (Some (pop_read ring), pop_advance ring) else (None, ring))"

section \<open>The driver\<close>

text \<open>Register offsets and bits of \<open>src/src/config.h\<close> (QEMU target).\<close>

definition UART_RBR :: nat where "UART_RBR = 0"
definition UART_THR :: nat where "UART_THR = 0"
definition UART_IER :: nat where "UART_IER = 1"
definition UART_IIR :: nat where "UART_IIR = 2"
definition UART_MCR :: nat where "UART_MCR = 4"
definition UART_LSR :: nat where "UART_LSR = 5"
definition LSR_DR :: u8 where "LSR_DR = 1"
definition LSR_TDRQ :: u8 where "LSR_TDRQ = 32"

record 'd device =
  rd :: "nat \<Rightarrow> 'd \<Rightarrow> u8 \<times> 'd"
  wr :: "nat \<Rightarrow> u8 \<Rightarrow> 'd \<Rightarrow> 'd"

record 'd uart =
  dev :: 'd
  rx_ring :: ringbuf
  tx_ring :: ringbuf
  uart_async :: bool
  uart_base_addr :: u64
  sstatus :: u64

definition reg_read :: "'d device \<Rightarrow> nat \<Rightarrow> 'd uart \<Rightarrow> u8 \<times> 'd uart" where
  "reg_read D r u = (let (v, d) = rd D r (dev u) in (v, u\<lparr>dev := d\<rparr>))"

definition reg_write :: "'d device \<Rightarrow> nat \<Rightarrow> u8 \<Rightarrow> 'd uart \<Rightarrow> 'd uart" where
  "reg_write D r v u = u\<lparr>dev := wr D r v (dev u)\<rparr>"

definition reg_modify :: "'d device \<Rightarrow> nat \<Rightarrow> (u8 \<Rightarrow> u8) \<Rightarrow> 'd uart \<Rightarrow> 'd uart" where
  "reg_modify D r f u = (let (v, u) = reg_read D r u in reg_write D r (f v) u)"

definition irq_enabled :: "'d uart \<Rightarrow> bool" where
  "irq_enabled u = (sstatus u AND push_bit 1 1 \<noteq> 0)"

definition uart_setup_interrupts :: "'d device \<Rightarrow> 'd uart \<Rightarrow> 'd uart" where
  "uart_setup_interrupts D u =
     (if uart_base_addr u = 0 then u
      else
        let u = reg_modify D UART_IER (\<lambda>v. v OR push_bit 0 1) u;
            u = reg_modify D UART_MCR (\<lambda>v. v OR push_bit 3 1) u
        in u\<lparr>uart_async := True\<rparr>)"

partial_function (option) uart_try_tx :: "'d device \<Rightarrow> 'd uart \<Rightarrow> 'd uart option" where
  "uart_try_tx D u =
     (let (lsr, u) = reg_read D UART_LSR u in
      if lsr AND LSR_TDRQ \<noteq> 0
      then
        let (c, ring) = ringbuf_pop (tx_ring u); u = u\<lparr>tx_ring := ring\<rparr>
        in case c of
             None \<Rightarrow> Some (reg_modify D UART_IER (\<lambda>v. v AND NOT (push_bit 1 1)) u)
           | Some c \<Rightarrow> uart_try_tx D (reg_write D UART_THR c u)
      else Some u)"

text \<open>The inner receive loop of \<open>handle_uart_interrupt\<close>, and the handler.\<close>

partial_function (option) rx_drain :: "'d device \<Rightarrow> 'd uart \<Rightarrow> 'd uart option" where
  "rx_drain D u =
     (let (lsr, u) = reg_read D UART_LSR u in
      if lsr AND LSR_DR \<noteq> 0
      then
        let (c, u) = reg_read D UART_RBR u
        in rx_drain D (u\<lparr>rx_ring := snd (ringbuf_push (rx_ring u) c)\<rparr>)
      else Some u)"

partial_function (option) handle_uart_interrupt :: "'d device \<Rightarrow> 'd uart \<Rightarrow> 'd uart option" where
  "handle_uart_interrupt D u =
     (let (iir, u) = reg_read D UART_IIR u in
      if iir AND 1 = 1 then Some u
      else
        let (lsr, u) = reg_read D UART_LSR u
        in case (if lsr AND LSR_DR \<noteq> 0 then rx_drain D u else Some u) of
             None \<Rightarrow> None
           | Some u \<Rightarrow>
               (case uart_try_tx D u of
                  None \<Rightarrow> None
                | Some u \<Rightarrow> handle_uart_interrupt D u))"

text \<open>The polling loops; a carriage return is read as a line feed except by the raw variant.\<close>

definition cr_to_lf :: "u8 \<Rightarrow> u8" where
  "cr_to_lf c = (if c = 13 then 10 else c)"

partial_function (option) uart_getc_raw_polling :: "'d device \<Rightarrow> 'd uart \<Rightarrow> (u8 \<times> 'd uart) option" where
  "uart_getc_raw_polling D u =
     (let (lsr, u) = reg_read D UART_LSR u in
      if lsr AND LSR_DR = 0 then uart_getc_raw_polling D u else Some (reg_read D UART_RBR u))"

definition uart_getc_polling :: "'d device \<Rightarrow> 'd uart \<Rightarrow> (u8 \<times> 'd uart) option" where
  "uart_getc_polling D u = map_option (apfst cr_to_lf) (uart_getc_raw_polling D u)"

partial_function (option) tx_poll :: "'d device \<Rightarrow> u8 \<Rightarrow> 'd uart \<Rightarrow> 'd uart option" where
  "tx_poll D c u =
     (let (lsr, u) = reg_read D UART_LSR u in
      if lsr AND LSR_TDRQ = 0 then tx_poll D c u else Some (reg_write D UART_THR c u))"

definition uart_putc_polling :: "'d device \<Rightarrow> u8 \<Rightarrow> 'd uart \<Rightarrow> 'd uart option" where
  "uart_putc_polling D c u =
     (if c = 10 then Option.bind (tx_poll D 13 u) (tx_poll D c) else tx_poll D c u)"

text \<open>Waiting for a character in the ring; \<open>wfi\<close> is what happens until the next interrupt is over.\<close>

partial_function (option) rx_wait :: "('d uart \<Rightarrow> 'd uart option) \<Rightarrow> 'd uart \<Rightarrow> (u8 \<times> 'd uart) option" where
  "rx_wait wfi u =
     (case ringbuf_pop (rx_ring u) of
        (Some c, ring) \<Rightarrow> Some (c, u\<lparr>rx_ring := ring\<rparr>)
      | (None, ring) \<Rightarrow> Option.bind (wfi u) (rx_wait wfi))"

definition uart_getc_raw :: "'d device \<Rightarrow> ('d uart \<Rightarrow> 'd uart option) \<Rightarrow> 'd uart \<Rightarrow> (u8 \<times> 'd uart) option" where
  "uart_getc_raw D wfi u =
     (if uart_async u
      then case ringbuf_pop (rx_ring u) of
             (Some c, ring) \<Rightarrow> Some (c, u\<lparr>rx_ring := ring\<rparr>)
           | (None, ring) \<Rightarrow> if irq_enabled u then rx_wait wfi u else uart_getc_raw_polling D u
      else uart_getc_raw_polling D u)"

definition uart_getc :: "'d device \<Rightarrow> ('d uart \<Rightarrow> 'd uart option) \<Rightarrow> 'd uart \<Rightarrow> (u8 \<times> 'd uart) option" where
  "uart_getc D wfi u =
     (if uart_async u
      then case ringbuf_pop (rx_ring u) of
             (Some c, ring) \<Rightarrow> Some (cr_to_lf c, u\<lparr>rx_ring := ring\<rparr>)
           | (None, ring) \<Rightarrow>
               if irq_enabled u then map_option (apfst cr_to_lf) (rx_wait wfi u) else uart_getc_polling D u
      else uart_getc_polling D u)"

definition uart_getc_nonblocking :: "'d device \<Rightarrow> 'd uart \<Rightarrow> (int \<times> 'd uart) option" where
  "uart_getc_nonblocking D u =
     (if uart_async u
      then case ringbuf_pop (rx_ring u) of
             (Some c, ring) \<Rightarrow> Some (uint (cr_to_lf c), u\<lparr>rx_ring := ring\<rparr>)
           | (None, ring) \<Rightarrow> Some (-1, u)
      else map_option (apfst uint) (uart_getc_polling D u))"

text \<open>The loop of \<open>uart_putc\<close> that waits for room, and the function without the line-feed rule.\<close>

partial_function (option) tx_wait :: "'d device \<Rightarrow> ('d uart \<Rightarrow> 'd uart option) \<Rightarrow> u8 \<Rightarrow> 'd uart \<Rightarrow> 'd uart option" where
  "tx_wait D wfi c u =
     (let (ok, ring) = ringbuf_push (tx_ring u) c
      in if ok then Some (u\<lparr>tx_ring := ring\<rparr>)
         else Option.bind (wfi (reg_modify D UART_IER (\<lambda>v. v OR push_bit 1 1) u)) (tx_wait D wfi c))"

definition putc_one :: "'d device \<Rightarrow> ('d uart \<Rightarrow> 'd uart option) \<Rightarrow> u8 \<Rightarrow> 'd uart \<Rightarrow> 'd uart option" where
  "putc_one D wfi c u =
     (if uart_async u \<and> irq_enabled u
      then case tx_wait D wfi c u of
             None \<Rightarrow> None
           | Some u \<Rightarrow> uart_try_tx D (reg_modify D UART_IER (\<lambda>v. v OR push_bit 1 1) u)
      else uart_putc_polling D c u)"

definition uart_putc :: "'d device \<Rightarrow> ('d uart \<Rightarrow> 'd uart option) \<Rightarrow> u8 \<Rightarrow> 'd uart \<Rightarrow> 'd uart option" where
  "uart_putc D wfi c u = (if c = 10 then Option.bind (putc_one D wfi 13 u) (putc_one D wfi c) else putc_one D wfi c u)"

fun uart_puts :: "'d device \<Rightarrow> ('d uart \<Rightarrow> 'd uart option) \<Rightarrow> u8 list \<Rightarrow> 'd uart \<Rightarrow> 'd uart option" where
  "uart_puts D wfi [] u = Some u"
| "uart_puts D wfi (c # cs) u = Option.bind (uart_putc D wfi c u) (uart_puts D wfi cs)"

text \<open>\<open>uart_hex\<close>: the digit at bit \<open>c\<close>, and the 16 digits from the top.\<close>

definition hex_char :: "u64 \<Rightarrow> nat \<Rightarrow> u8" where
  "hex_char h c = (let n = drop_bit c h AND 0xf in ucast (n + (if n > 9 then 0x57 else 48)))"

definition uart_hex :: "'d device \<Rightarrow> ('d uart \<Rightarrow> 'd uart option) \<Rightarrow> u64 \<Rightarrow> 'd uart \<Rightarrow> 'd uart option" where
  "uart_hex D wfi h u = uart_puts D wfi ([48, 120] @ map (\<lambda>i. hex_char h (60 - 4 * i)) [0..<16]) u"

section \<open>Bounded queues\<close>

text \<open>
  The contract of a bounded queue: a push appends unless the queue is full, a pop takes the first
  element unless it is empty. For any interleaving of pushes and pops what comes out, followed by
  what is left, is what was there followed by what was accepted.
\<close>

datatype 'a queue_op = Push 'a | Pop

text \<open>A sequence of operations, with the elements accepted and those popped.\<close>

fun queue_run :: "('q \<Rightarrow> 'a \<Rightarrow> bool \<times> 'q) \<Rightarrow> ('q \<Rightarrow> 'a option \<times> 'q) \<Rightarrow> 'a queue_op list \<Rightarrow> 'q \<Rightarrow> 'a list \<times> 'a list \<times> 'q" where
  "queue_run push pop [] q = ([], [], q)"
| "queue_run push pop (Push x # ops) q =
     (let (b, q) = push q x; (inn, out, q) = queue_run push pop ops q in (if b then x # inn else inn, out, q))"
| "queue_run push pop (Pop # ops) q =
     (let (c, q) = pop q; (inn, out, q) = queue_run push pop ops q in (inn, (case c of None \<Rightarrow> out | Some c \<Rightarrow> c # out), q))"

locale bounded_queue =
  fixes ok :: "'q \<Rightarrow> bool" and content :: "'q \<Rightarrow> 'a list" and cap :: nat
    and push :: "'q \<Rightarrow> 'a \<Rightarrow> bool \<times> 'q" and pop :: "'q \<Rightarrow> 'a option \<times> 'q"
  assumes push_ok: "ok q \<Longrightarrow> ok (snd (push q x))" and pop_ok: "ok q \<Longrightarrow> ok (snd (pop q))"
    and push_content: "ok q \<Longrightarrow> fst (push q x) = (length (content q) < cap) \<and>
      content (snd (push q x)) = (if length (content q) < cap then content q @ [x] else content q)"
    and pop_content: "ok q \<Longrightarrow> fst (pop q) = (if content q = [] then None else Some (hd (content q))) \<and>
      content (snd (pop q)) = tl (content q)"
begin

lemma run_fifo:
  assumes "ok q" "queue_run push pop ops q = (inn, out, q')"
  shows "ok q' \<and> out @ content q' = content q @ inn"
  using assms
proof (induction ops arbitrary: q inn out)
  case (Cons x ops)
  show ?case
  proof (cases x)
    case (Push x)
    obtain inn1 where "queue_run push pop ops (snd (push q x)) = (inn1, out, q')"
      "inn = (if fst (push q x) then x # inn1 else inn1)"
      using Cons.prems(2) Push by (auto split: prod.splits)
    with Cons.IH [OF push_ok [OF Cons.prems(1)]] push_content [OF Cons.prems(1), of x]
    show ?thesis by (auto split: if_splits)
  next
    case Pop
    obtain out1 where "queue_run push pop ops (snd (pop q)) = (inn, out1, q')"
      "out = (case fst (pop q) of None \<Rightarrow> out1 | Some c \<Rightarrow> c # out1)"
      using Cons.prems(2) Pop by (auto split: prod.splits)
    with Cons.IH [OF pop_ok [OF Cons.prems(1)]] pop_content [OF Cons.prems(1)]
    show ?thesis by (cases "content q") auto
  qed
qed simp

lemma run_pops:
  assumes "ok q" "queue_run push pop (replicate (length (content q)) Pop) q = (inn, out, q')"
  shows "ok q' \<and> out = content q \<and> content q' = []"
proof -
  have "inn = []" if "queue_run push pop (replicate n Pop) q = (inn, out, q')" for n q out inn
    using that by (induction n arbitrary: q out) (auto split: prod.splits)
  moreover have "content q' = drop n (content q)" if "ok q" "queue_run push pop (replicate n Pop) q = (inn, out, q')" for n q out
    using that
  proof (induction n arbitrary: q out)
    case (Suc n)
    obtain out1 where "queue_run push pop (replicate n Pop) (snd (pop q)) = (inn, out1, q')"
      using Suc.prems(2) by (auto split: prod.splits)
    with Suc.IH [OF pop_ok [OF Suc.prems(1)]] pop_content [OF Suc.prems(1)] show ?case by (simp add: drop_Suc)
  qed simp
  ultimately show ?thesis using assms run_fifo [OF assms] by fastforce
qed

end

section \<open>The ring buffer is a bounded queue\<close>

definition ring_ok :: "ringbuf \<Rightarrow> bool" where
  "ring_ok r \<longleftrightarrow> 0 \<le> rb_head r \<and> rb_head r < RINGBUF_SIZE \<and> 0 \<le> rb_tail r \<and> rb_tail r < RINGBUF_SIZE"

definition ring_len :: "ringbuf \<Rightarrow> nat" where
  "ring_len r = nat ((rb_head r - rb_tail r) mod RINGBUF_SIZE)"

definition ring_content :: "ringbuf \<Rightarrow> u8 list" where
  "ring_content r = map (\<lambda>i. rb_buffer r ((rb_tail r + int i) mod RINGBUF_SIZE)) [0..<ring_len r]"

text \<open>The distance of two indices in the ring.\<close>

lemma ring_wrap: "RINGBUF_SIZE \<le> a \<Longrightarrow> a < 2 * RINGBUF_SIZE \<Longrightarrow> a mod RINGBUF_SIZE = a - RINGBUF_SIZE"
  by (rule mod_pos_pos_trivial [of "a - RINGBUF_SIZE" RINGBUF_SIZE, unfolded minus_mod_self2]) auto

lemma ring_len_eq:
  assumes "ring_ok r"
  shows "int (ring_len r) = (if rb_tail r \<le> rb_head r then rb_head r - rb_tail r else rb_head r - rb_tail r + RINGBUF_SIZE)"
  using assms mod_pos_pos_trivial [of "rb_head r - rb_tail r + RINGBUF_SIZE" RINGBUF_SIZE]
  by (auto simp: ring_len_def ring_ok_def)

lemma ring_index_eq:
  assumes "ring_ok r" "i < RINGBUF_SIZE" "0 \<le> i"
  shows "(rb_tail r + i) mod RINGBUF_SIZE = (if rb_tail r + i < RINGBUF_SIZE then rb_tail r + i else rb_tail r + i - RINGBUF_SIZE)"
  using assms by (auto simp: ring_ok_def intro!: ring_wrap)

lemma ring_next_eq:
  assumes "0 \<le> a" "a < RINGBUF_SIZE"
  shows "(a + 1) mod RINGBUF_SIZE = (if a + 1 = RINGBUF_SIZE then 0 else a + 1)"
  using assms by auto

lemma ring_push_len:
  assumes "ring_ok r" "fst (ringbuf_push r c)"
  shows "ring_len (snd (ringbuf_push r c)) = Suc (ring_len r)" "ring_ok (snd (ringbuf_push r c))"
proof -
  show ok: "ring_ok (snd (ringbuf_push r c))" using assms ring_next_eq [of "rb_head r"]
    by (auto simp: ring_ok_def ringbuf_push_def Let_def split: if_splits)
  show "ring_len (snd (ringbuf_push r c)) = Suc (ring_len r)"
    using ring_len_eq [OF assms(1)] ring_len_eq [OF ok] assms ring_next_eq [of "rb_head r"]
    by (auto simp: ring_ok_def ringbuf_push_def Let_def split: if_splits)
qed

lemma ring_push_fits:
  assumes "ring_ok r"
  shows "fst (ringbuf_push r c) \<longleftrightarrow> ring_len r < 2047"
  using ring_len_eq [OF assms] assms ring_next_eq [of "rb_head r"]
  by (auto simp: ring_ok_def ringbuf_push_def Let_def RINGBUF_SIZE_def split: if_splits)

lemma ring_push_content:
  assumes ok: "ring_ok r" and fits: "fst (ringbuf_push r c)"
  shows "ring_content (snd (ringbuf_push r c)) = ring_content r @ [c]"
proof -
  let ?r = "snd (ringbuf_push r c)"
  have r: "rb_tail ?r = rb_tail r" "rb_buffer ?r = (rb_buffer r)(rb_head r := c)"
    using fits by (auto simp: ringbuf_push_def Let_def split: if_splits)
  have len: "int (ring_len r) < RINGBUF_SIZE" using ring_push_fits [OF ok] fits by (simp add: RINGBUF_SIZE_def)
  have "(rb_tail r + int (ring_len r)) mod RINGBUF_SIZE = rb_head r"
    using ring_index_eq [OF ok len] ring_len_eq [OF ok] ok by (auto simp: ring_ok_def split: if_splits)
  moreover have "(rb_tail r + int i) mod RINGBUF_SIZE \<noteq> rb_head r" if "i < ring_len r" for i
  proof -
    have "int i < int (ring_len r)" using that by simp
    then show ?thesis using ring_index_eq [OF ok, of "int i"] ring_len_eq [OF ok] ok len
      by (auto simp: ring_ok_def split: if_splits)
  qed
  ultimately show ?thesis
    by (auto simp: ring_content_def ring_push_len [OF ok fits] r)
qed

lemma ring_pop_len:
  assumes "ring_ok r" "rb_head r \<noteq> rb_tail r"
  shows "Suc (ring_len (pop_advance r)) = ring_len r" "ring_ok (pop_advance r)"
proof -
  show ok: "ring_ok (pop_advance r)" using assms ring_next_eq [of "rb_tail r"]
    by (auto simp: ring_ok_def pop_advance_def)
  show "Suc (ring_len (pop_advance r)) = ring_len r"
    using ring_len_eq [OF assms(1)] ring_len_eq [OF ok] assms ring_next_eq [of "rb_tail r"]
    by (auto simp: ring_ok_def pop_advance_def split: if_splits)
qed

lemma ring_pop_content:
  assumes ok: "ring_ok r" and ne: "rb_head r \<noteq> rb_tail r"
  shows "ring_content r = pop_read r # ring_content (pop_advance r)"
proof -
  have "((rb_tail r + 1) mod RINGBUF_SIZE + int i) mod RINGBUF_SIZE = (rb_tail r + int (Suc i)) mod RINGBUF_SIZE" for i
    by (simp add: mod_add_left_eq add.assoc)
  moreover have "rb_tail r mod RINGBUF_SIZE = rb_tail r" using ok by (simp add: ring_ok_def)
  ultimately show ?thesis
    unfolding ring_content_def ring_pop_len(1) [OF ok ne, symmetric]
    by (simp add: map_upt_Suc pop_read_def pop_advance_def del: upt_Suc)
qed

lemma ring_empty: "ring_ok r \<Longrightarrow> ring_content r = [] \<longleftrightarrow> rb_head r = rb_tail r"
  using ring_len_eq [of r] by (auto simp: ring_content_def ring_ok_def split: if_splits)

interpretation ring: bounded_queue ring_ok ring_content 2047 ringbuf_push ringbuf_pop
proof
  fix q x assume ok: "ring_ok q"
  have len: "length (ring_content q) = ring_len q" by (simp add: ring_content_def)
  have full: "snd (ringbuf_push q x) = q" if "\<not> fst (ringbuf_push q x)"
    using that by (auto simp: ringbuf_push_def Let_def split: if_splits)
  show "ring_ok (snd (ringbuf_push q x))" using ring_push_len(2) [OF ok] full ok by metis
  show "fst (ringbuf_push q x) = (length (ring_content q) < 2047) \<and>
      ring_content (snd (ringbuf_push q x)) = (if length (ring_content q) < 2047 then ring_content q @ [x] else ring_content q)"
    using ring_push_fits [OF ok, of x] ring_push_content [OF ok, of x] full len by auto
next
  fix q assume ok: "ring_ok q"
  then show "ring_ok (snd (ringbuf_pop q))" using ring_pop_len(2) by (simp add: ringbuf_pop_def)
  show "fst (ringbuf_pop q) = (if ring_content q = [] then None else Some (hd (ring_content q))) \<and>
      ring_content (snd (ringbuf_pop q)) = tl (ring_content q)"
    using ring_pop_content [OF ok] ring_empty [OF ok] by (auto simp: ringbuf_pop_def)
qed

text \<open>C17. Any interleaving of pushes and pops on a ring buffer is first in, first out and loses
  nothing it accepted: the bytes popped, followed by those left in the buffer, are the bytes that
  were in it followed by the accepted ones. A push is refused exactly when 2047 bytes are queued.\<close>

theorem ringbuf_fifo:
  assumes "ring_ok r" "queue_run ringbuf_push ringbuf_pop ops r = (inn, out, r')"
  shows "ring_ok r' \<and> out @ ring_content r' = ring_content r @ inn \<and>
    fst (ringbuf_push r' c) = (length (ring_content r') < 2047)"
  using ring.run_fifo [OF assms] ring.push_content [of r' c] by blast

definition empty_ring :: ringbuf where
  "empty_ring = \<lparr>rb_buffer = \<lambda>_. 0, rb_head = 2047, rb_tail = 2047\<rparr>"

theorem ringbuf_fifo_witness:
  "\<exists>inn out r'. queue_run ringbuf_push ringbuf_pop [Push 1, Push 2, Pop, Push 3] empty_ring = (inn, out, r') \<and>
     out @ ring_content r' = ring_content empty_ring @ inn \<and> fst (ringbuf_push r' 4) = (length (ring_content r') < 2047)"
proof -
  obtain inn out r' where r: "queue_run ringbuf_push ringbuf_pop [Push 1, Push 2, Pop, Push 3] empty_ring = (inn, out, r')" by (metis prod_cases3)
  have "ring_ok empty_ring" by (simp add: ring_ok_def empty_ring_def RINGBUF_SIZE_def)
  from ringbuf_fifo [OF this r, of 4] r show ?thesis by blast
qed

text \<open>
  \<open>ringbuf_pop\<close> is not atomic. \<open>uart_try_tx\<close> is called by \<open>uart_putc\<close> with interrupts enabled, and
  the handler pops from the same ring. An interrupt after the emptiness test and before the index
  update lets both pop.
\<close>

text \<open>C18. If the transmit interrupt empties the ring after \<open>ringbuf_pop\<close> found it non-empty and before
  it moves the index, the interrupted pop moves the index past the write position: a ring that
  should be empty then holds 2047 bytes, which are transmitted again.\<close>

theorem ringbuf_pop_interrupted:
  assumes "ring_ok r" "rb_head r \<noteq> rb_tail r"
    "queue_run ringbuf_push ringbuf_pop (replicate (length (ring_content r)) Pop) r = (inn, out, r')"
  shows "out = ring_content r \<and> ring_content r' = [] \<and> length (ring_content (pop_advance r')) = 2047"
proof -
  from ring.run_pops [OF assms(1,3)] have R: "ring_ok r'" "out = ring_content r" "ring_content r' = []" by auto
  with ring_empty [OF R(1)] have e: "rb_head r' = rb_tail r'" by simp
  have ok: "ring_ok (pop_advance r')" using R(1) ring_next_eq [of "rb_tail r'"] by (auto simp: ring_ok_def pop_advance_def)
  have "int (ring_len (pop_advance r')) = 2047"
    using ring_len_eq [OF ok] e R(1) ring_next_eq [of "rb_tail r'"]
    by (auto simp: pop_advance_def ring_ok_def RINGBUF_SIZE_def split: if_splits)
  with R show ?thesis by (simp add: ring_content_def)
qed

definition one_ring :: ringbuf where
  "one_ring = \<lparr>rb_buffer = (\<lambda>_. 0)(5 := 65), rb_head = 6, rb_tail = 5\<rparr>"

theorem ringbuf_pop_interrupted_witness:
  "\<exists>inn out r'. queue_run ringbuf_push ringbuf_pop [Pop] one_ring = (inn, out, r') \<and> out = [65] \<and>
     ring_content r' = [] \<and> length (ring_content (pop_advance r')) = 2047"
proof -
  have c: "ring_content one_ring = [65]" "ring_ok one_ring" "rb_head one_ring \<noteq> rb_tail one_ring"
    by (simp_all add: ring_content_def ring_len_def ring_ok_def one_ring_def RINGBUF_SIZE_def)
  obtain inn out r' where r: "queue_run ringbuf_push ringbuf_pop [Pop] one_ring = (inn, out, r')" by (metis prod_cases3)
  with ringbuf_pop_interrupted [OF c(2,3), of inn out r'] c(1) show ?thesis by auto
qed

section \<open>Transmission\<close>

text \<open>
  What the driver relies on of the device: writing the transmit register appends to what is sent,
  and no other access does. \<open>sent\<close> reads the bytes sent off the device state.
\<close>

definition sends :: "'d device \<Rightarrow> ('d \<Rightarrow> u8 list) \<Rightarrow> bool" where
  "sends D sent \<longleftrightarrow> (\<forall>c d. sent (wr D UART_THR c d) = sent d @ [c]) \<and>
     (\<forall>r c d. r \<noteq> UART_THR \<longrightarrow> sent (wr D r c d) = sent d) \<and> (\<forall>r d. sent (snd (rd D r d)) = sent d)"

text \<open>The bytes sent and those still to be sent.\<close>

definition tx_stream :: "('d \<Rightarrow> u8 list) \<Rightarrow> 'd uart \<Rightarrow> u8 list" where
  "tx_stream sent u = sent (dev u) @ ring_content (tx_ring u)"

lemma sent_read: "sends D sent \<Longrightarrow> reg_read D r u = (v, u') \<Longrightarrow>
   sent (dev u') = sent (dev u) \<and> tx_ring u' = tx_ring u \<and> uart_async u' = uart_async u \<and> sstatus u' = sstatus u"
  by (auto simp: reg_read_def sends_def split: prod.splits) (metis snd_conv)

lemma sent_write: "sends D sent \<Longrightarrow>
   sent (dev (reg_write D r v u)) = (if r = UART_THR then sent (dev u) @ [v] else sent (dev u)) \<and>
   tx_ring (reg_write D r v u) = tx_ring u \<and> uart_async (reg_write D r v u) = uart_async u \<and>
   sstatus (reg_write D r v u) = sstatus u"
  by (auto simp: reg_write_def sends_def)

lemma sent_modify: "sends D sent \<Longrightarrow> r \<noteq> UART_THR \<Longrightarrow>
   sent (dev (reg_modify D r f u)) = sent (dev u) \<and> tx_ring (reg_modify D r f u) = tx_ring u \<and>
   uart_async (reg_modify D r f u) = uart_async u \<and> sstatus (reg_modify D r f u) = sstatus u"
  using sent_read sent_write by (fastforce simp: reg_modify_def split: prod.splits)

text \<open>\<open>uart_try_tx\<close> ends, whatever the device answers, and moves bytes from the ring to the device in order.\<close>

lemma uart_try_tx_stream:
  assumes D: "sends D sent" and ok: "ring_ok (tx_ring u)"
  shows "\<exists>u'. uart_try_tx D u = Some u' \<and> ring_ok (tx_ring u') \<and> tx_stream sent u' = tx_stream sent u \<and>
    length (ring_content (tx_ring u')) \<le> length (ring_content (tx_ring u)) \<and>
    uart_async u' = uart_async u \<and> sstatus u' = sstatus u"
  using ok
proof (induction "length (ring_content (tx_ring u))" arbitrary: u rule: less_induct)
  case less
  obtain lsr u1 where r: "reg_read D UART_LSR u = (lsr, u1)" by fastforce
  note R = sent_read [OF D r]
  show ?case
  proof (cases "lsr AND LSR_TDRQ = 0")
    case True
    with r R less.prems show ?thesis by (subst uart_try_tx.simps) (simp add: tx_stream_def)
  next
    case ready: False
    show ?thesis
    proof (cases "ring_content (tx_ring u)")
      case Nil
      let ?u = "reg_modify D UART_IER (\<lambda>v. v AND NOT (push_bit 1 1)) u1"
      have "ringbuf_pop (tx_ring u1) = (None, tx_ring u1)" using ring_empty [OF less.prems] Nil R by (simp add: ringbuf_pop_def)
      with ready r have "uart_try_tx D u = Some ?u" by (subst uart_try_tx.simps) simp
      with sent_modify [OF D, of UART_IER] R less.prems show ?thesis by (simp add: tx_stream_def UART_IER_def UART_THR_def)
    next
      case (Cons c cs)
      obtain ring where p: "ringbuf_pop (tx_ring u1) = (Some c, ring)" "ring_content ring = cs" "ring_ok ring"
        using ring.pop_content [OF less.prems] ring.pop_ok [OF less.prems] R Cons by (cases "ringbuf_pop (tx_ring u)") auto
      let ?u = "reg_write D UART_THR c (u1\<lparr>tx_ring := ring\<rparr>)"
      have W: "sent (dev ?u) = sent (dev u) @ [c]" "tx_ring ?u = ring" "uart_async ?u = uart_async u" "sstatus ?u = sstatus u"
        using sent_write [OF D] R by simp_all
      have "uart_try_tx D u = uart_try_tx D ?u" using ready r p(1) by (subst uart_try_tx.simps) simp
      with less.hyps [of ?u] W p Cons show ?thesis by (fastforce simp: tx_stream_def)
    qed
  qed
qed

lemma putc_one_stream:
  assumes D: "sends D sent" and ok: "ring_ok (tx_ring u)" and room: "length (ring_content (tx_ring u)) < 2047"
    and on: "uart_async u" "irq_enabled u"
  shows "\<exists>u'. putc_one D wfi c u = Some u' \<and> ring_ok (tx_ring u') \<and> tx_stream sent u' = tx_stream sent u @ [c] \<and>
    length (ring_content (tx_ring u')) \<le> Suc (length (ring_content (tx_ring u))) \<and> uart_async u' \<and> irq_enabled u'"
proof -
  from room ring.push_content [OF ok, of c] ring.push_ok [OF ok, of c] obtain ring where
    p: "ringbuf_push (tx_ring u) c = (True, ring)" "ring_content ring = ring_content (tx_ring u) @ [c]" "ring_ok ring"
    by (cases "ringbuf_push (tx_ring u) c") auto
  let ?u = "reg_modify D UART_IER (\<lambda>v. v OR push_bit 1 1) (u\<lparr>tx_ring := ring\<rparr>)"
  have M: "sent (dev ?u) = sent (dev u)" "tx_ring ?u = ring" "uart_async ?u = uart_async u" "sstatus ?u = sstatus u"
    using sent_modify [OF D, of UART_IER] by (simp_all add: UART_IER_def UART_THR_def)
  have "putc_one D wfi c u = uart_try_tx D ?u" using on p(1) by (simp add: putc_one_def tx_wait.simps)
  with uart_try_tx_stream [OF D, of ?u] M p on show ?thesis by (fastforce simp: tx_stream_def irq_enabled_def)
qed


text \<open>A device that is always ready to send.\<close>

definition ready_device :: "u8 list device" where
  "ready_device = \<lparr>rd = \<lambda>r d. (if r = UART_LSR then LSR_TDRQ else 0, d), wr = \<lambda>r c d. if r = UART_THR then d @ [c] else d\<rparr>"

definition idle_uart :: "u8 list uart" where
  "idle_uart = \<lparr>dev = [], rx_ring = empty_ring, tx_ring = empty_ring, uart_async = True, uart_base_addr = 0x10000000, sstatus = 2\<rparr>"


end
