(* ===== verification/Align_Endian.thy ===== *)
theory Align_Endian
  imports Prelude
begin

text \<open>
  \<open>src/lib/align.c\<close> and \<open>src/lib/endian.c\<close>: rounding to a power-of-two alignment and the byte
  swaps of the device-tree and video code. All arithmetic is at the width the C code uses.
\<close>

section \<open>Operations\<close>

definition align_down_ul :: "u64 \<Rightarrow> u64 \<Rightarrow> u64" where
  "align_down_ul value alignment = value AND NOT (alignment - 1)"

definition align_up_ul :: "u64 \<Rightarrow> u64 \<Rightarrow> u64" where
  "align_up_ul value alignment = (value + alignment - 1) AND NOT (alignment - 1)"

text \<open>
  \<open>int\<close> arguments. The C function is only defined where \<open>value + alignment - 1\<close> does not
  overflow; there two's complement \<open>&\<close> and \<open>~\<close> are the operations on \<open>int\<close>.
\<close>

definition align_up_int :: "int \<Rightarrow> int \<Rightarrow> int" where
  "align_up_int value alignment = (value + alignment - 1) AND NOT (alignment - 1)"

definition align_up_ptr :: "u64 \<Rightarrow> u64 \<Rightarrow> u64" where
  "align_up_ptr ptr alignment = (ptr + alignment - 1) AND NOT (alignment - 1)"

definition bswap32 :: "u32 \<Rightarrow> u32" where
  "bswap32 x = drop_bit 24 (x AND 0xff000000) OR
               drop_bit 8 (x AND 0x00ff0000) OR
               push_bit 8 (x AND 0x0000ff00) OR
               push_bit 24 (x AND 0x000000ff)"

definition bswap64 :: "u64 \<Rightarrow> u64" where
  "bswap64 x = push_bit 32 (ucast (bswap32 (ucast (x AND 0xFFFFFFFF)))) OR
               ucast (bswap32 (ucast (drop_bit 32 x)))"

section \<open>Alignment\<close>

lemma pow2_minus_1: "n < 64 \<Longrightarrow> (2 ^ n :: u64) - 1 = mask n"
  by (simp add: mask_eq_exp_minus_1)

lemma unat_align_down: "n < 64 \<Longrightarrow> unat (align_down_ul v (2 ^ n)) = unat v - unat v mod 2 ^ n"
  by (simp add: align_down_ul_def pow2_minus_1 unat_and_not_mask)

lemma unat_align_up:
  assumes "n < 64" and "unat v + 2 ^ n \<le> 2 ^ 64"
  shows "unat (align_up_ul v (2 ^ n)) = (unat v + 2 ^ n - 1) - (unat v + 2 ^ n - 1) mod 2 ^ n"
proof -
  have "v + 2 ^ n - 1 = v + mask n"
    by (simp add: mask_eq_exp_minus_1)
  moreover have "unat (v + mask n) = unat v + 2 ^ n - 1"
    using assms by (simp add: unat_add_u64 unat_mask_u64)
  ultimately show ?thesis
    using assms(1) by (simp only: align_up_ul_def pow2_minus_1 unat_and_not_mask)
qed

text \<open>
  \<open>align_down_ul\<close> returns the greatest multiple of the alignment not above its argument.
\<close>

lemma align_down_greatest:
  assumes "n < 64"
  shows "2 ^ n dvd unat (align_down_ul v (2 ^ n)) \<and>
         unat (align_down_ul v (2 ^ n)) \<le> unat v \<and>
         unat v < unat (align_down_ul v (2 ^ n)) + 2 ^ n"
proof -
  have "2 ^ n dvd unat v - unat v mod 2 ^ n" by simp
  moreover have "unat v mod 2 ^ n < 2 ^ n" by simp
  ultimately show ?thesis
    unfolding unat_align_down [OF assms] by linarith
qed

text \<open>
  \<open>align_up_ul\<close> returns the least multiple of a power-of-two alignment that is not below its
  argument, whenever the sum it forms does not pass the end of the address space.
\<close>

theorem align_up_least:
  assumes "n < 64" and "unat v + 2 ^ n \<le> 2 ^ 64"
  shows "2 ^ n dvd unat (align_up_ul v (2 ^ n)) \<and>
         unat v \<le> unat (align_up_ul v (2 ^ n)) \<and>
         (\<forall>m. 2 ^ n dvd m \<and> unat v \<le> m \<longrightarrow> unat (align_up_ul v (2 ^ n)) \<le> m)"
proof -
  let ?w = "unat v + 2 ^ n - 1" and ?r = "unat (align_up_ul v (2 ^ n))"
  have r: "?r = ?w - ?w mod 2 ^ n" using assms by (rule unat_align_up)
  have lt: "?w mod 2 ^ n < 2 ^ n" by simp
  have dvd: "2 ^ n dvd ?r" unfolding r by (rule dvd_minus_mod)
  have le: "unat v \<le> ?r" using lt unfolding r by linarith
  have "?r \<le> m" if "2 ^ n dvd m" "unat v \<le> m" for m
  proof (rule ccontr)
    assume "\<not> ?r \<le> m"
    then have "m + 2 ^ n \<le> ?r" using that(1) dvd by (intro dvd_pow2_less_add) auto
    moreover have "0 < (2 :: nat) ^ n" by simp
    ultimately show False using that(2) unfolding r by linarith
  qed
  with dvd le show ?thesis by blast
qed

theorem align_up_least_witness:
  "2 ^ 12 dvd unat (align_up_ul 4097 (2 ^ 12)) \<and> 4097 \<le> unat (align_up_ul 4097 (2 ^ 12)) \<and>
   unat (align_up_ul 4097 (2 ^ 12)) \<le> 8192"
proof -
  from align_up_least [of 12 4097] have "2 ^ 12 dvd unat (align_up_ul 4097 (2 ^ 12))"
    "4097 \<le> unat (align_up_ul 4097 (2 ^ 12))"
    "\<forall>m. 2 ^ 12 dvd m \<and> 4097 \<le> m \<longrightarrow> unat (align_up_ul 4097 (2 ^ 12)) \<le> m" by simp_all
  moreover have "(2 :: nat) ^ 12 dvd 8192" by (simp add: dvd_def)
  ultimately show ?thesis by auto
qed

section \<open>Byte order\<close>

lemma mask_bytes:
  "(0xff000000 :: u32) = push_bit 24 (mask 8)" "(0x00ff0000 :: u32) = push_bit 16 (mask 8)"
  "(0x0000ff00 :: u32) = push_bit 8 (mask 8)" "(0x000000ff :: u32) = mask 8"
  by (simp_all add: mask_eq_exp_minus_1 push_bit_eq_mult)

lemma bit_bswap32:
  "n < 32 \<Longrightarrow> bit (bswap32 x) n = bit x (24 - 8 * (n div 8) + n mod 8)"
proof -
  assume n: "n < 32"
  then consider "n < 8" | "8 \<le> n" "n < 16" | "16 \<le> n" "n < 24" | "24 \<le> n" by linarith
  then show ?thesis
  proof cases
    case 1
    then show ?thesis unfolding bswap32_def mask_bytes by (simp add: bit_simps)
  next
    case 2
    then have "n div 8 = 1" "n mod 8 = n - 8" by presburger+
    with 2 show ?thesis unfolding bswap32_def mask_bytes by (auto simp: bit_simps add.commute)
  next
    case 3
    then have "n div 8 = 2" "n mod 8 = n - 16" by presburger+
    with 3 show ?thesis unfolding bswap32_def mask_bytes by (auto simp: bit_simps)
  next
    case 4
    with n have "n div 8 = 3" "n mod 8 = n - 24" by presburger+
    with 4 n show ?thesis unfolding bswap32_def mask_bytes by (auto simp: bit_simps)
  qed
qed

text \<open>Byte \<open>q\<close> of an \<open>(m + 1)\<close>-byte word, read at the mirrored position.\<close>

lemma mirror_byte:
  fixes n m :: nat
  assumes "n < 8 * Suc m"
  defines "k \<equiv> 8 * m - 8 * (n div 8) + n mod 8"
  shows "k < 8 * Suc m" "k div 8 = m - n div 8" "k mod 8 = n mod 8"
    "8 * m - 8 * (k div 8) + k mod 8 = n"
proof -
  have q: "n div 8 \<le> m"
    using assms(1) less_mult_imp_div_less [of n "Suc m" 8] by (simp add: mult.commute)
  have r: "n mod 8 < 8" by simp
  have k: "k = n mod 8 + 8 * (m - n div 8)" by (simp add: k_def diff_mult_distrib2)
  show "k div 8 = m - n div 8" "k mod 8 = n mod 8"
    unfolding k using r by simp_all
  then show "8 * m - 8 * (k div 8) + k mod 8 = n" using q by (simp add: diff_mult_distrib2)
  have "k < 8 + 8 * (m - n div 8)" unfolding k using r by (rule add_strict_right_mono)
  also have "\<dots> \<le> 8 + 8 * m" by simp
  finally show "k < 8 * Suc m" by simp
qed

lemma bswap32_bswap32: "bswap32 (bswap32 x) = x"
proof (rule bit_word_eqI)
  fix n assume "n < LENGTH(32)"
  then have n: "n < 8 * Suc 3" by simp
  then show "bit (bswap32 (bswap32 x)) n = bit x n"
    using mirror_byte [OF n] by (simp add: bit_bswap32)
qed

lemma mirror_halves:
  fixes q r :: nat
  assumes "q < 4" and "r < 8"
  shows "24 - 8 * q + r < 32" "32 + (24 - 8 * q + r) = 56 - 8 * q + r"
    "24 - 8 * q + r = 56 - 8 * (q + 4) + r"
proof -
  show "24 - 8 * q + r < 32" "32 + (24 - 8 * q + r) = 56 - 8 * q + r"
    using assms by linarith+
  show "24 - 8 * q + r = 56 - 8 * (q + 4) + r" by (simp add: distrib_left)
qed

lemma bit_bswap64:
  assumes "n < 64"
  shows "bit (bswap64 x) n = bit x (56 - 8 * (n div 8) + n mod 8)"
proof (cases "n < 32")
  case True
  let ?k = "24 - 8 * (n div 8) + n mod 8"
  have "n div 8 < 4" using True less_mult_imp_div_less [of n 4 8] by simp
  note k = mirror_halves [OF this mod_less_divisor [of 8 n], simplified]
  have "bit (bswap64 x) n = bit (bswap32 (ucast (drop_bit 32 x))) n"
    using True assms by (simp add: bswap64_def bit_simps)
  also have "\<dots> = bit (ucast (drop_bit 32 x) :: u32) ?k"
    using True by (rule bit_bswap32)
  also have "\<dots> = bit (drop_bit 32 x) ?k"
    using k(1) by (simp add: bit_unsigned_iff)
  finally show ?thesis using k(2) by (simp add: bit_drop_bit_eq)
next
  case False
  define m where "m = n - 32"
  have n: "n = m + 32" and m: "m < 32" using False assms by (simp_all add: m_def)
  have dm: "n div 8 = m div 8 + 4" "n mod 8 = m mod 8" unfolding n by (simp, presburger)
  let ?k = "24 - 8 * (m div 8) + m mod 8"
  have "m div 8 < 4" using m less_mult_imp_div_less [of m 4 8] by simp
  note k = mirror_halves [OF this mod_less_divisor [of 8 m], simplified]
  have mk: "(0xFFFFFFFF :: u64) = mask 32" by (simp add: mask_eq_exp_minus_1)
  have "bit (bswap64 x) n = bit (bswap32 (ucast (x AND mask 32))) m"
    using m bit_imp_le_length [of "bswap32 (ucast (drop_bit 32 x))" "m + 32"]
    unfolding bswap64_def mk by (auto simp: n bit_simps)
  also have "\<dots> = bit (ucast (x AND mask 32) :: u32) ?k"
    using m by (rule bit_bswap32)
  also have "\<dots> = bit x ?k"
    using k(1) by (simp add: bit_simps)
  finally show ?thesis using k(3) by (simp add: dm)
qed

text \<open>\<open>bswap64\<close> reverses the eight bytes of its argument, so applying it twice is the identity.\<close>

theorem bswap64_reverses_bytes:
  "(\<forall>n < 64. bit (bswap64 x) n = bit x (56 - 8 * (n div 8) + n mod 8)) \<and> bswap64 (bswap64 x) = x"
proof
  show "\<forall>n < 64. bit (bswap64 x) n = bit x (56 - 8 * (n div 8) + n mod 8)"
    by (simp add: bit_bswap64)
  show "bswap64 (bswap64 x) = x"
  proof (rule bit_word_eqI)
    fix n assume "n < LENGTH(64)"
    then have n: "n < 8 * Suc 7" by simp
    then show "bit (bswap64 (bswap64 x)) n = bit x n"
      using mirror_byte [OF n] by (simp add: bit_bswap64)
  qed
qed

theorem bswap64_reverses_bytes_witness: "bit (bswap64 0x0102030405060708 :: u64) 59 = bit (0x08 :: u64) 3"
  using bswap64_reverses_bytes [of "0x0102030405060708"] by (simp add: bit_numeral_rec)

end
