(* ===== verification/List_Head.thy ===== *)
theory List_Head
  imports Prelude
begin

text \<open>
  \<open>src/lib/list.h\<close>: the intrusive circular doubly linked list. A store gives every node its two
  pointers; the node type is a parameter (frames and free areas, chunks and pools, timer nodes).
  The operations write the pointers in the order the C code does. \<open>dlist l h xs\<close> says that the
  nodes \<open>xs\<close> hang on the head \<open>h\<close> in that order; \<open>dlists\<close> says it of a family of lists that
  share no node, the way the allocators keep one list per size.
\<close>

section \<open>The list operations\<close>

record 'n links =
  lh_next :: "'n \<Rightarrow> 'n"
  lh_prev :: "'n \<Rightarrow> 'n"

definition set_next :: "'n \<Rightarrow> 'n \<Rightarrow> 'n links \<Rightarrow> 'n links" where
  "set_next n v l = l\<lparr>lh_next := (lh_next l)(n := v)\<rparr>"

definition set_prev :: "'n \<Rightarrow> 'n \<Rightarrow> 'n links \<Rightarrow> 'n links" where
  "set_prev n v l = l\<lparr>lh_prev := (lh_prev l)(n := v)\<rparr>"

definition INIT_LIST_HEAD :: "'n \<Rightarrow> 'n links \<Rightarrow> 'n links" where
  "INIT_LIST_HEAD n l = set_prev n n (set_next n n l)"

text \<open>\<open>__list_add\<close>; the four stores in the order of the code.\<close>

definition list_add_between :: "'n \<Rightarrow> 'n \<Rightarrow> 'n \<Rightarrow> 'n links \<Rightarrow> 'n links" where
  "list_add_between new_node prev nxt l =
     set_next prev new_node (set_prev new_node prev (set_next new_node nxt (set_prev nxt new_node l)))"

definition list_add :: "'n \<Rightarrow> 'n \<Rightarrow> 'n links \<Rightarrow> 'n links" where
  "list_add new_node head l = list_add_between new_node head (lh_next l head) l"

definition list_add_tail :: "'n \<Rightarrow> 'n \<Rightarrow> 'n links \<Rightarrow> 'n links" where
  "list_add_tail new_node head l = list_add_between new_node (lh_prev l head) head l"

text \<open>\<open>__list_del\<close>.\<close>

definition list_del_between :: "'n \<Rightarrow> 'n \<Rightarrow> 'n links \<Rightarrow> 'n links" where
  "list_del_between prev nxt l = set_next prev nxt (set_prev nxt prev l)"

definition list_del :: "'n \<Rightarrow> 'n links \<Rightarrow> 'n links" where
  "list_del entry l =
     set_prev entry entry (set_next entry entry
       (list_del_between (lh_prev l entry) (lh_next l entry) l))"

definition list_empty :: "'n \<Rightarrow> 'n links \<Rightarrow> bool" where
  "list_empty head l = (lh_next l head = head)"

text \<open>
  \<open>list_for_each\<close>: the nodes from \<open>pos\<close> up to the head, in order. On a store that is not a
  circular list through the head the loop does not end, so the result is an option.
\<close>

partial_function (option) list_for_each :: "'n links \<Rightarrow> 'n \<Rightarrow> 'n \<Rightarrow> 'n list option" where
  "list_for_each l head pos =
     (if pos = head then Some []
      else Option.bind (list_for_each l head (lh_next l pos)) (\<lambda>ps. Some (pos # ps)))"

section \<open>Lists as sequences\<close>

text \<open>\<open>seg l a xs b\<close>: from \<open>a\<close>, through \<open>xs\<close>, to \<open>b\<close>, with every back pointer in place.\<close>

fun seg :: "'n links \<Rightarrow> 'n \<Rightarrow> 'n list \<Rightarrow> 'n \<Rightarrow> bool" where
  "seg l a [] b = (lh_next l a = b \<and> lh_prev l b = a)"
| "seg l a (x # xs) b = (lh_next l a = x \<and> lh_prev l x = a \<and> seg l x xs b)"

definition dlist :: "'n links \<Rightarrow> 'n \<Rightarrow> 'n list \<Rightarrow> bool" where
  "dlist l h xs = (distinct (h # xs) \<and> seg l h xs h)"

lemma seg_append: "seg l a (xs @ x # ys) b = (seg l a xs x \<and> seg l x ys b)"
  by (induction xs arbitrary: a) auto

lemma seg_cong:
  assumes "seg l a xs b"
    and "\<And>n. n \<in> set (a # xs) \<Longrightarrow> lh_next l' n = lh_next l n"
    and "\<And>n. n \<in> set (xs @ [b]) \<Longrightarrow> lh_prev l' n = lh_prev l n"
  shows "seg l' a xs b"
  using assms by (induction xs arbitrary: a) auto

lemma seg_first: "seg l a xs b \<Longrightarrow> lh_next l a = hd (xs @ [b])"
  by (cases xs) auto

lemma seg_last: "seg l a xs b \<Longrightarrow> lh_prev l b = last (a # xs)"
  by (induction xs arbitrary: a) auto

lemma dlist_distinct: "dlist l h xs \<Longrightarrow> distinct xs \<and> h \<notin> set xs"
  by (simp add: dlist_def)

lemma dlist_init: "dlist (INIT_LIST_HEAD h l) h []"
  by (simp add: dlist_def INIT_LIST_HEAD_def set_next_def set_prev_def)

lemma dlist_empty: "dlist l h xs \<Longrightarrow> list_empty h l = (xs = [])"
  by (cases xs) (auto simp: dlist_def list_empty_def)

lemma dlist_first: "dlist l h (x # xs) \<Longrightarrow> lh_next l h = x"
  by (simp add: dlist_def)

text \<open>The traversal of a well-formed list ends and visits exactly its nodes, in order.\<close>

lemma list_for_each_seg:
  "seg l a xs h \<Longrightarrow> h \<notin> set xs \<Longrightarrow> list_for_each l h (lh_next l a) = Some xs"
proof (induction xs arbitrary: a)
  case Nil
  then show ?case by (simp add: list_for_each.simps)
next
  case (Cons x xs)
  then have "list_for_each l h (lh_next l x) = Some xs" by simp
  with Cons.prems show ?case by (subst list_for_each.simps) auto
qed

lemma dlist_for_each: "dlist l h xs \<Longrightarrow> list_for_each l h (lh_next l h) = Some xs"
  by (simp add: dlist_def list_for_each_seg)

text \<open>A list only depends on the pointers of its own nodes.\<close>

lemma dlist_cong:
  assumes "dlist l h xs"
    and "\<And>n. n \<in> set (h # xs) \<Longrightarrow> lh_next l' n = lh_next l n \<and> lh_prev l' n = lh_prev l n"
  shows "dlist l' h xs"
  using assms seg_cong [of l h xs h l'] by (simp add: dlist_def)

lemma list_add_between_next:
  "lh_next (list_add_between n p q l) = (lh_next l)(n := q, p := n)"
  by (simp add: list_add_between_def set_next_def set_prev_def)

lemma list_add_between_prev:
  "lh_prev (list_add_between n p q l) = (lh_prev l)(q := n, n := p)"
  by (simp add: list_add_between_def set_next_def set_prev_def)

lemma list_del_next:
  "lh_next (list_del x l) = (lh_next l)(lh_prev l x := lh_next l x, x := x)"
  by (simp add: list_del_def list_del_between_def set_next_def set_prev_def)

lemma list_del_prev:
  "lh_prev (list_del x l) = (lh_prev l)(lh_next l x := lh_prev l x, x := x)"
  by (simp add: list_del_def list_del_between_def set_next_def set_prev_def)

lemmas link_updates = list_add_between_next list_add_between_prev list_del_next list_del_prev

text \<open>Inserting a fresh node between two neighbours of a segment.\<close>

lemma seg_insert:
  assumes "seg l a (xs @ ys) b" "distinct (a # xs @ ys)" "b \<notin> set (xs @ ys)"
    and "n \<notin> set (a # b # xs @ ys)"
  shows "seg (list_add_between n (last (a # xs)) (hd (ys @ [b])) l) a (xs @ n # ys) b"
  using assms
proof (induction xs arbitrary: a)
  case Nil
  let ?l' = "list_add_between n a (hd (ys @ [b])) l"
  have n: "n \<noteq> a" "n \<noteq> b" "n \<notin> set ys" using Nil.prems by auto
  show ?case
  proof (cases ys)
    case Nil
    with n show ?thesis by (simp add: link_updates)
  next
    case (Cons y zs)
    with Nil.prems have d: "a \<noteq> y" "a \<notin> set zs" "y \<notin> set zs" "y \<noteq> b" and sg: "seg l y zs b"
      by auto
    have "seg ?l' y zs b"
      using sg by (rule seg_cong) (use n d Cons in \<open>auto simp: link_updates\<close>)
    with Cons n d show ?thesis by (auto simp: link_updates)
  qed
next
  case (Cons x xs)
  let ?l' = "list_add_between n (last (x # xs)) (hd (ys @ [b])) l"
  have "seg ?l' x (xs @ n # ys) b" using Cons.prems by (intro Cons.IH) auto
  moreover have "a \<noteq> n" "a \<noteq> last (x # xs)"
    using Cons.prems(2,4) last_in_set [of "x # xs"] by auto
  then have "lh_next ?l' a = x" using Cons.prems(1) by (simp add: link_updates)
  moreover have "x \<noteq> n" "x \<noteq> hd (ys @ [b])"
    using Cons.prems(2-4) by (cases ys; auto)+
  then have "lh_prev ?l' x = a" using Cons.prems(1) by (simp add: link_updates)
  ultimately show ?case by simp
qed

text \<open>Unlinking a node of a segment.\<close>

lemma seg_delete:
  assumes "seg l a (xs @ x # ys) b" "distinct (a # xs @ x # ys)" "b \<notin> set (xs @ x # ys)"
  shows "seg (list_del x l) a (xs @ ys) b"
  using assms
proof (induction xs arbitrary: a)
  case Nil
  then have px: "lh_prev l x = a" and nx: "lh_next l x = hd (ys @ [b])" and x: "x \<noteq> a" "x \<noteq> b"
    by (auto dest: seg_first)
  show ?case
  proof (cases ys)
    case Nil
    with px nx x show ?thesis by (simp add: link_updates)
  next
    case (Cons y zs)
    with Nil.prems have d: "a \<noteq> y" "a \<notin> set zs" "y \<notin> set zs" "y \<noteq> b" "x \<noteq> y" "x \<notin> set zs"
      and sg: "seg l y zs b" by auto
    have "seg (list_del x l) y zs b"
      using sg by (rule seg_cong) (use d x px nx Cons in \<open>auto simp: link_updates\<close>)
    with Cons d x px nx show ?thesis by (simp add: link_updates)
  qed
next
  case (Cons z xs)
  have "seg (list_del x l) z (xs @ ys) b" using Cons.prems by (intro Cons.IH) auto
  moreover have sg: "seg l z xs x" "seg l x ys b" using Cons.prems(1) by (simp_all add: seg_append)
  then have px: "lh_prev l x = last (z # xs)" and nx: "lh_next l x = hd (ys @ [b])"
    by (simp_all only: seg_last seg_first)
  have "a \<noteq> x" "a \<noteq> last (z # xs)"
    using Cons.prems(2) last_in_set [of "z # xs"] by auto
  then have "lh_next (list_del x l) a = z"
    using Cons.prems(1) px by (simp add: link_updates)
  moreover have "z \<noteq> x" "z \<noteq> hd (ys @ [b])"
    using Cons.prems(2,3) by (cases ys; auto)+
  then have "lh_prev (list_del x l) z = a"
    using Cons.prems(1) nx by (simp add: link_updates)
  ultimately show ?case by simp
qed

lemma dlist_last: "dlist l h xs \<Longrightarrow> lh_prev l h = last (h # xs)"
  unfolding dlist_def by (blast intro: seg_last)

lemma dlist_add:
  assumes "dlist l h xs" "n \<notin> set (h # xs)"
  shows "dlist (list_add n h l) h (n # xs)"
  using assms seg_insert [of l h "[]" xs h n] seg_first [of l h xs h]
  by (auto simp: dlist_def list_add_def)

text \<open>
  \<open>list_add_tail(n, pos)\<close> inserts before \<open>pos\<close>, which is a node of the list or its head.
\<close>

lemma dlist_add_before:
  assumes "dlist l h (xs @ ys)" "n \<notin> set (h # xs @ ys)"
  shows "dlist (list_add_tail n (hd (ys @ [h])) l) h (xs @ n # ys)"
proof -
  have sg: "seg l h (xs @ ys) h" using assms(1) by (simp add: dlist_def)
  have "lh_prev l (hd (ys @ [h])) = last (h # xs)"
  proof (cases ys)
    case Nil
    with sg show ?thesis by (simp add: seg_last)
  next
    case (Cons y zs)
    with sg have "seg l h xs y" by (simp add: seg_append)
    with Cons show ?thesis by (simp add: seg_last)
  qed
  then show ?thesis
    using assms seg_insert [of l h xs ys h n] by (auto simp: dlist_def list_add_tail_def)
qed

lemma dlist_add_tail:
  assumes "dlist l h xs" "n \<notin> set (h # xs)"
  shows "dlist (list_add_tail n h l) h (xs @ [n])"
  using dlist_add_before [of l h xs "[]" n] assms by simp

lemma dlist_del:
  assumes "dlist l h (xs @ x # ys)"
  shows "dlist (list_del x l) h (xs @ ys)"
  using assms seg_delete [of l h xs x ys h] by (auto simp: dlist_def)

lemma dlist_neighbours:
  assumes "dlist l h xs" "x \<in> set (h # xs)"
  shows "lh_next l x \<in> set (h # xs) \<and> lh_prev l x \<in> set (h # xs)"
proof (cases "x = h")
  case True
  from assms(1) have sg: "seg l h xs h" by (simp add: dlist_def)
  show ?thesis
    unfolding True seg_first [OF sg] seg_last [OF sg] by (cases xs) auto
next
  case False
  with assms(2) obtain as bs where xs: "xs = as @ x # bs" by (auto dest: split_list)
  with assms(1) have "seg l h as x" "seg l x bs h" by (auto simp: dlist_def seg_append)
  then have "lh_prev l x = last (h # as)" "lh_next l x = hd (bs @ [h])"
    by (auto dest: seg_last seg_first)
  then show ?thesis by (cases as rule: rev_cases; cases bs) (auto simp: xs)
qed

section \<open>Families of disjoint lists\<close>

text \<open>
  One list per index of \<open>I\<close>, with heads \<open>H i\<close> and contents \<open>F i\<close>; no node is on two lists and
  no head is a node of a list.
\<close>

definition dlists :: "'n links \<Rightarrow> 'i set \<Rightarrow> ('i \<Rightarrow> 'n) \<Rightarrow> ('i \<Rightarrow> 'n list) \<Rightarrow> bool" where
  "dlists l I H F \<longleftrightarrow> (\<forall>i\<in>I. dlist l (H i) (F i)) \<and>
     (\<forall>i\<in>I. \<forall>j\<in>I. i \<noteq> j \<longrightarrow> set (H i # F i) \<inter> set (H j # F j) = {})"

lemma dlists_dlist: "dlists l I H F \<Longrightarrow> i \<in> I \<Longrightarrow> dlist l (H i) (F i)"
  by (simp add: dlists_def)

lemma dlists_disjoint:
  "dlists l I H F \<Longrightarrow> i \<in> I \<Longrightarrow> j \<in> I \<Longrightarrow> i \<noteq> j \<Longrightarrow> set (H i # F i) \<inter> set (H j # F j) = {}"
  unfolding dlists_def by blast

lemma dlists_empty: "dlists l I H F \<Longrightarrow> i \<in> I \<Longrightarrow> list_empty (H i) l = (F i = [])"
  by (simp add: dlist_empty [OF dlists_dlist])

text \<open>An update that stays on one list and its new contents keeps the family.\<close>

lemma dlists_upd:
  assumes fam: "dlists l I H F" and i: "i \<in> I"
    and new: "dlist l' (H i) ys"
    and same: "\<And>n. n \<notin> insert m (set (H i # F i)) \<Longrightarrow> lh_next l' n = lh_next l n \<and> lh_prev l' n = lh_prev l n"
    and m: "\<And>j. j \<in> I \<Longrightarrow> j \<noteq> i \<Longrightarrow> m \<notin> set (H j # F j)"
    and ys: "set ys \<subseteq> insert m (set (F i))"
  shows "dlists l' I H (F(i := ys))"
proof -
  have "dlist l' (H j) (F j)" if j: "j \<in> I" "j \<noteq> i" for j
  proof (rule dlist_cong [OF dlists_dlist [OF fam j(1)]])
    fix n assume "n \<in> set (H j # F j)"
    with m [OF j] dlists_disjoint [OF fam i j(1)] j(2)
    have "n \<notin> insert m (set (H i # F i))" by blast
    then show "lh_next l' n = lh_next l n \<and> lh_prev l' n = lh_prev l n" by (rule same)
  qed
  moreover have "set (H i # ys) \<inter> set (H j # F j) = {}" if "j \<in> I" "j \<noteq> i" for j
    using dlists_disjoint [OF fam i that(1)] that m ys by fastforce
  ultimately show ?thesis
    using new fam unfolding dlists_def by (auto simp: Int_commute)
qed

lemma dlists_add:
  assumes fam: "dlists l I H F" and i: "i \<in> I"
    and fresh: "\<And>j. j \<in> I \<Longrightarrow> n \<notin> set (H j # F j)"
  shows "dlists (list_add n (H i) l) I H (F(i := n # F i))"
proof (rule dlists_upd [OF fam i, where m = n])
  have d: "dlist l (H i) (F i)" using fam i by (rule dlists_dlist)
  show "dlist (list_add n (H i) l) (H i) (n # F i)"
    using d fresh [OF i] by (rule dlist_add)
  show "lh_next (list_add n (H i) l) x = lh_next l x \<and> lh_prev (list_add n (H i) l) x = lh_prev l x"
    if "x \<notin> insert n (set (H i # F i))" for x
    using that dlist_neighbours [OF d, of "H i"] by (auto simp: list_add_def link_updates)
qed (use fresh in auto)

lemma dlists_del:
  assumes fam: "dlists l I H F" and i: "i \<in> I" and F: "F i = xs @ x # ys"
  shows "dlists (list_del x l) I H (F(i := xs @ ys))"
proof (rule dlists_upd [OF fam i, where m = x])
  have d: "dlist l (H i) (F i)" using fam i by (rule dlists_dlist)
  then show "dlist (list_del x l) (H i) (xs @ ys)" unfolding F by (rule dlist_del)
  show "lh_next (list_del x l) n = lh_next l n \<and> lh_prev (list_del x l) n = lh_prev l n"
    if "n \<notin> insert x (set (H i # F i))" for n
    using that dlist_neighbours [OF d, of x] by (auto simp: link_updates F)
  show "x \<notin> set (H j # F j)" if "j \<in> I" "j \<noteq> i" for j
    using dlists_disjoint [OF fam i that(1)] that(2) by (auto simp: F)
qed (auto simp: F)

end
