(* ===== verification/Buddy.thy ===== *)
theory Buddy
  imports Align_Endian List_Head
begin

text \<open>
  \<open>src/lib/buddy.c\<close>: the page allocator. The frame array is a function from page indices to frame
  records, so a store past its end is visible as a change of a frame at or beyond
  \<open>G_MEM_TOTAL_PAGE\<close>; the list nodes embedded in the frames and the array \<open>free_area\<close> are nodes
  of one link store. Addresses are 64-bit words; page indices and orders are naturals (an index
  is below \<open>2 ^ 19\<close>, an order at most 10, so no index arithmetic can wrap).
\<close>

section \<open>State\<close>

datatype page_state =
    PAGE_STATE_FREE_HEAD
  | PAGE_STATE_FREE_TAIL
  | PAGE_STATE_RESERVED
  | PAGE_STATE_ALLOC_PAGE_HEAD
  | PAGE_STATE_ALLOC_PAGE_TAIL
  | PAGE_STATE_ALLOC_CHUNK_POOL

text \<open>\<open>struct frame\<close>; its \<open>node\<close> is \<open>FrameNode\<close> of the link store below.\<close>

record frame =
  fr_order :: int
  fr_state :: page_state
  meta_pool_idx :: int
  ref_count :: int
  cow_ref_count :: int

type_synonym frames = "nat \<Rightarrow> frame"

text \<open>\<open>AreaHead k\<close> is \<open>&free_area[k]\<close>, \<open>FrameNode i\<close> is \<open>&frame_array[i].node\<close>.\<close>

datatype buddy_node = AreaHead nat | FrameNode nat

record buddy =
  frame_array :: frames
  free_area :: "buddy_node links"
  G_MEMPOOL_START :: u64
  G_MEMPOOL_SIZE :: u64
  G_MEM_TOTAL_PAGE :: nat
  buddy_ready :: bool

section \<open>Operations\<close>

definition page_to_addr :: "buddy \<Rightarrow> nat \<Rightarrow> u64" where
  "page_to_addr s idx = G_MEMPOOL_START s + push_bit PAGE_SHIFT (of_nat idx)"

definition mark_page :: "page_state \<Rightarrow> int \<Rightarrow> nat \<Rightarrow> frames \<Rightarrow> frames" where
  "mark_page st ord i f = f(i := (f i)\<lparr>fr_state := st, fr_order := ord\<rparr>)"

definition mark_block :: "nat \<Rightarrow> nat \<Rightarrow> page_state \<Rightarrow> page_state \<Rightarrow> frames \<Rightarrow> frames" where
  "mark_block idx order head_state tail_state f =
     fold (\<lambda>i. mark_page tail_state (-1) (idx + i)) [1..<2 ^ order]
       (mark_page head_state (int order) idx f)"

definition add_free_block :: "nat \<Rightarrow> nat \<Rightarrow> buddy \<Rightarrow> buddy" where
  "add_free_block idx order s = s\<lparr>
     frame_array := mark_block idx order PAGE_STATE_FREE_HEAD PAGE_STATE_FREE_TAIL (frame_array s),
     free_area := list_add (FrameNode idx) (AreaHead order) (free_area s)\<rparr>"

definition remove_free_block :: "nat \<Rightarrow> buddy \<Rightarrow> buddy" where
  "remove_free_block idx s = s\<lparr>
     free_area := list_del (FrameNode idx) (free_area s),
     frame_array := (frame_array s)(idx := (frame_array s idx)\<lparr>fr_state := PAGE_STATE_ALLOC_PAGE_HEAD\<rparr>)\<rparr>"

definition buddy_set_region :: "u64 \<Rightarrow> u64 \<Rightarrow> buddy \<Rightarrow> buddy" where
  "buddy_set_region start len s =
     (let (st, sz) =
        (if len = 0 then (BUDDY_DEFAULT_POOL_START, BUDDY_DEFAULT_POOL_SIZE)
         else (let st = align_up_ul start PAGE_SIZE; sz = align_down_ul len PAGE_SIZE
               in (st, if sz > BUDDY_MAX_POOL_SIZE then BUDDY_MAX_POOL_SIZE else sz)));
        (st, sz) =
          (if sz < PAGE_SIZE then (BUDDY_DEFAULT_POOL_START, BUDDY_DEFAULT_POOL_SIZE) else (st, sz));
        npages = drop_bit PAGE_SHIFT sz;
        npages = (if npages > BUDDY_TOTAL_PAGES then BUDDY_TOTAL_PAGES else npages)
      in s\<lparr>G_MEMPOOL_START := st, G_MEMPOOL_SIZE := sz, G_MEM_TOTAL_PAGE := unat npages\<rparr>)"

text \<open>The page range \<open>[page_start, page_end)\<close> of \<open>buddy_mark_reserved_range\<close>.\<close>

definition reserved_pages :: "u64 \<Rightarrow> u64 \<Rightarrow> buddy \<Rightarrow> nat \<times> nat" where
  "reserved_pages start len s =
     (let region_end = G_MEMPOOL_START s + G_MEMPOOL_SIZE s;
          reserve_end = start + len
      in if reserve_end \<le> G_MEMPOOL_START s \<or> start \<ge> region_end then (0, 0)
         else
           let start = (if start < G_MEMPOOL_START s then G_MEMPOOL_START s else start);
               reserve_end = (if reserve_end > region_end then region_end else reserve_end);
               page_start = unat (drop_bit PAGE_SHIFT (start - G_MEMPOOL_START s));
               page_end = unat (drop_bit PAGE_SHIFT
                                  (align_up_ul (reserve_end - G_MEMPOOL_START s) PAGE_SIZE));
               page_end = (if page_end > G_MEM_TOTAL_PAGE s then G_MEM_TOTAL_PAGE s else page_end)
           in (page_start, page_end))"

definition buddy_mark_reserved_range :: "u64 \<Rightarrow> u64 \<Rightarrow> buddy \<Rightarrow> buddy" where
  "buddy_mark_reserved_range start len s =
     (if len = 0 \<or> G_MEM_TOTAL_PAGE s = 0 then s
      else
        let (page_start, page_end) = reserved_pages start len s
        in s\<lparr>frame_array :=
               fold (\<lambda>i f. f(i := (f i)\<lparr>fr_state := PAGE_STATE_RESERVED\<rparr>))
                 [page_start..<page_end] (frame_array s)\<rparr>)"

text \<open>\<open>buddy_init\<close>: the first loop, over every page.\<close>

definition init_frame :: "frame \<Rightarrow> frame" where
  "init_frame fr =
     (let fr = fr\<lparr>fr_order := -1\<rparr>;
          fr = (if fr_state fr \<noteq> PAGE_STATE_RESERVED
                then fr\<lparr>fr_state := PAGE_STATE_ALLOC_PAGE_TAIL\<rparr> else fr)
      in fr\<lparr>meta_pool_idx := -1, ref_count := 0, cow_ref_count := 0\<rparr>)"

definition init_page :: "nat \<Rightarrow> buddy \<Rightarrow> buddy" where
  "init_page i s = s\<lparr>
     frame_array := (frame_array s)(i := init_frame (frame_array s i)),
     free_area := INIT_LIST_HEAD (FrameNode i) (free_area s)\<rparr>"

definition init_area :: "nat \<Rightarrow> buddy \<Rightarrow> buddy" where
  "init_area i s = s\<lparr>free_area := INIT_LIST_HEAD (AreaHead i) (free_area s)\<rparr>"

text \<open>The run of unreserved pages that starts at \<open>idx\<close>.\<close>

function count_free :: "frames \<Rightarrow> nat \<Rightarrow> nat \<Rightarrow> nat \<Rightarrow> nat" where
  "count_free f npages idx free_count =
     (if idx + free_count < npages \<and> fr_state (f (idx + free_count)) \<noteq> PAGE_STATE_RESERVED
      then count_free f npages idx (Suc free_count) else free_count)"
  by pat_completeness auto
termination
  by (relation "measure (\<lambda>(f, npages, idx, c). npages - (idx + c))") auto

text \<open>The order the \<open>for\<close> loop of \<open>buddy_init\<close> stops at: the largest that is aligned and fits.\<close>

fun pick_order :: "nat \<Rightarrow> nat \<Rightarrow> nat \<Rightarrow> nat option" where
  "pick_order idx free_count order =
     (if idx AND (2 ^ order - 1) = 0 \<and> 2 ^ order \<le> free_count then Some order
      else case order of 0 \<Rightarrow> None | Suc k \<Rightarrow> pick_order idx free_count k)"

text \<open>
  The loop that breaks a run into blocks. Order 0 always fits a non-empty run, so the search
  succeeds and the run shrinks; without a hit the C loop would spin, here the run is given up.
\<close>

function carve :: "nat \<Rightarrow> nat \<Rightarrow> buddy \<Rightarrow> buddy" where
  "carve idx free_count s =
     (if free_count = 0 then s
      else case pick_order idx free_count BUDDY_MAX_ORDER of
          None \<Rightarrow> s
        | Some order \<Rightarrow>
            carve (idx + 2 ^ order) (free_count - 2 ^ order) (add_free_block idx order s))"
  by pat_completeness auto
termination
  by (relation "measure (\<lambda>(idx, c, s). c)") auto

declare count_free.simps [simp del] pick_order.simps [simp del] carve.simps [simp del]

text \<open>The outer loop of \<open>buddy_init\<close> only moves forward: a run is not empty, and carving it
  leaves the page count alone.\<close>

lemma count_free_ge: "c \<le> count_free f npages idx c"
proof (induction f npages idx c rule: count_free.induct)
  case (1 f npages idx c)
  then show ?case by (cases "idx + c < npages \<and> fr_state (f (idx + c)) \<noteq> PAGE_STATE_RESERVED")
      (auto simp: count_free.simps [of f npages idx c])
qed

lemma count_free_pos:
  "idx < npages \<Longrightarrow> fr_state (f idx) \<noteq> PAGE_STATE_RESERVED \<Longrightarrow> 0 < count_free f npages idx 0"
  using count_free_ge [of 1 f npages idx] by (simp add: count_free.simps [of f npages idx 0])

lemma add_free_block_total [simp]:
  "G_MEM_TOTAL_PAGE (add_free_block idx k s) = G_MEM_TOTAL_PAGE s"
  by (simp add: add_free_block_def)

lemma carve_total [simp]: "G_MEM_TOTAL_PAGE (carve idx c s) = G_MEM_TOTAL_PAGE s"
proof (induction idx c s rule: carve.induct)
  case (1 idx c s)
  then show ?case by (simp add: carve.simps [of idx c s] split: option.split)
qed

function scan_pages :: "nat \<Rightarrow> buddy \<Rightarrow> buddy" where
  "scan_pages idx s =
     (if idx < G_MEM_TOTAL_PAGE s then
        if fr_state (frame_array s idx) = PAGE_STATE_RESERVED then
          scan_pages (Suc idx)
            (s\<lparr>frame_array := (frame_array s)(idx := (frame_array s idx)\<lparr>fr_order := 0\<rparr>)\<rparr>)
        else
          let c = count_free (frame_array s) (G_MEM_TOTAL_PAGE s) idx 0
          in scan_pages (idx + c) (carve idx c s)
      else s)"
  by pat_completeness auto
termination
  by (relation "measure (\<lambda>(idx, s). G_MEM_TOTAL_PAGE s - idx)") (auto simp: count_free_pos diff_less_mono2)

declare scan_pages.simps [simp del]

definition buddy_init :: "buddy \<Rightarrow> buddy" where
  "buddy_init s =
     (let s = fold init_page [0..<G_MEM_TOTAL_PAGE s] s;
          s = fold init_area [0..<Suc BUDDY_MAX_ORDER] s;
          s = scan_pages 0 s
      in s\<lparr>buddy_ready := True\<rparr>)"

text \<open>Splitting: the loop \<open>while (current > order)\<close> of \<open>buddy_alloc_pages\<close>.\<close>

fun split_block :: "nat \<Rightarrow> nat \<Rightarrow> nat \<Rightarrow> buddy \<Rightarrow> buddy" where
  "split_block idx order 0 s = s"
| "split_block idx order (Suc current) s =
     (if Suc current > order
      then split_block idx order current (add_free_block (idx + 2 ^ current) current s)
      else s)"

definition node_frame :: "buddy_node \<Rightarrow> nat" where
  "node_frame n = (case n of FrameNode i \<Rightarrow> i | AreaHead k \<Rightarrow> 0)"

definition take_block :: "nat \<Rightarrow> nat \<Rightarrow> buddy \<Rightarrow> nat \<times> buddy" where
  "take_block order current s =
     (let idx = node_frame (lh_next (free_area s) (AreaHead current));
          s = remove_free_block idx s;
          s = split_block idx order current s;
          f = mark_block idx order PAGE_STATE_ALLOC_PAGE_HEAD PAGE_STATE_ALLOC_PAGE_TAIL (frame_array s)
      in (idx, s\<lparr>frame_array := f(idx := (f idx)\<lparr>cow_ref_count := 1\<rparr>)\<rparr>))"

text \<open>The search for a non-empty free list: the orders from \<open>order\<close> to \<open>BUDDY_MAX_ORDER\<close>.\<close>

definition find_area :: "nat \<Rightarrow> buddy \<Rightarrow> nat option" where
  "find_area order s =
     List.find (\<lambda>current. \<not> list_empty (AreaHead current) (free_area s)) [order..<Suc BUDDY_MAX_ORDER]"

definition buddy_alloc_pages :: "nat \<Rightarrow> buddy \<Rightarrow> u64 \<times> buddy" where
  "buddy_alloc_pages order s =
     (if \<not> buddy_ready s \<or> order > BUDDY_MAX_ORDER then (0, s)
      else case find_area order s of
          None \<Rightarrow> (0, s)
        | Some current \<Rightarrow>
            let (idx, s') = take_block order current s in (page_to_addr s' idx, s'))"

text \<open>\<open>(unsigned int)frame.order\<close>.\<close>

definition order_of :: "frame \<Rightarrow> nat" where
  "order_of fr = nat (fr_order fr mod 2 ^ 32)"

text \<open>The merge loop of \<open>buddy_free_pages\<close>; \<open>order\<close> only grows, up to \<open>BUDDY_MAX_ORDER\<close>.\<close>

function merge_buddies :: "nat \<Rightarrow> nat \<Rightarrow> buddy \<Rightarrow> nat \<times> nat \<times> buddy" where
  "merge_buddies idx order s =
     (if order < BUDDY_MAX_ORDER then
        let buddy_idx = idx XOR 2 ^ order in
        if buddy_idx \<ge> G_MEM_TOTAL_PAGE s then (idx, order, s)
        else if fr_state (frame_array s buddy_idx) \<noteq> PAGE_STATE_FREE_HEAD \<or>
                order_of (frame_array s buddy_idx) \<noteq> order then (idx, order, s)
        else
          let s = remove_free_block buddy_idx s;
              idx = (if buddy_idx < idx then buddy_idx else idx);
              order = Suc order;
              s = s\<lparr>frame_array :=
                      mark_block idx order PAGE_STATE_FREE_HEAD PAGE_STATE_FREE_TAIL (frame_array s)\<rparr>
          in merge_buddies idx order s
      else (idx, order, s))"
  by pat_completeness auto
termination
  by (relation "measure (\<lambda>(idx, order, s). BUDDY_MAX_ORDER - order)") auto

definition free_block :: "nat \<Rightarrow> buddy \<Rightarrow> buddy" where
  "free_block idx s =
     (let order = order_of (frame_array s idx);
          s = s\<lparr>frame_array :=
                  mark_block idx order PAGE_STATE_FREE_HEAD PAGE_STATE_FREE_TAIL (frame_array s)\<rparr>;
          (idx, order, s) = merge_buddies idx order s
      in add_free_block idx order s)"

definition buddy_free_pages :: "u64 \<Rightarrow> buddy \<Rightarrow> buddy" where
  "buddy_free_pages ptr s =
     (if \<not> buddy_ready s \<or> ptr = 0 then s
      else if ptr < G_MEMPOOL_START s \<or> ptr \<ge> G_MEMPOOL_START s + G_MEMPOOL_SIZE s then s
      else if ptr AND (PAGE_SIZE - 1) \<noteq> 0 then s
      else
        let idx = unat (drop_bit PAGE_SHIFT (ptr - G_MEMPOOL_START s)) in
        if idx \<ge> G_MEM_TOTAL_PAGE s \<or> fr_state (frame_array s idx) \<noteq> PAGE_STATE_ALLOC_PAGE_HEAD
        then s
        else free_block idx s)"

declare merge_buddies.simps [simp del]

text \<open>
  \<open>buddy_dump_free_areas\<close>, which \<open>buddy_alloc_pages\<close> and \<open>buddy_free_pages\<close> call last: it walks
  every free list and counts its nodes. It changes nothing; the counts are what it would log.
\<close>

definition buddy_dump_free_areas :: "buddy \<Rightarrow> nat option list" where
  "buddy_dump_free_areas s =
     map (\<lambda>i. map_option length
            (list_for_each (free_area s) (AreaHead i) (lh_next (free_area s) (AreaHead i))))
       [0..<Suc BUDDY_MAX_ORDER]"

end
