(* ===== verification/Buddy_Inv.thy ===== *)
theory Buddy_Inv
  imports Buddy
begin

text \<open>
  The invariant of the page allocator and its preservation. The frames tile the pool with aligned
  power-of-two blocks (\<open>tiled\<close>); the free list of order \<open>k\<close> holds exactly the heads of the free
  blocks of that order; no two free buddies are left unmerged (\<open>coalesced\<close>). The proofs go
  through \<open>buddy_open s F a b\<close>, the invariant with a hole \<open>[a, b)\<close> in which nothing is known:
  allocation opens a hole at a free block and fills it from the top, freeing opens one at the
  freed block and lets it grow over free buddies, initialisation starts with the whole pool open.
\<close>

section \<open>Blocks and tilings\<close>

definition free_state :: "page_state \<Rightarrow> bool" where
  "free_state st = (st = PAGE_STATE_FREE_HEAD \<or> st = PAGE_STATE_FREE_TAIL)"

definition head_state :: "page_state \<Rightarrow> bool" where
  "head_state st = (st \<noteq> PAGE_STATE_FREE_TAIL \<and> st \<noteq> PAGE_STATE_ALLOC_PAGE_TAIL)"

definition tails :: "frames \<Rightarrow> nat \<Rightarrow> nat \<Rightarrow> page_state \<Rightarrow> bool" where
  "tails f i k st \<longleftrightarrow> (\<forall>j. i < j \<and> j < i + 2 ^ k \<longrightarrow> fr_state (f j) = st \<and> fr_order (f j) = -1)"

definition block :: "frames \<Rightarrow> nat \<Rightarrow> nat \<Rightarrow> bool" where
  "block f i k \<longleftrightarrow> k \<le> BUDDY_MAX_ORDER \<and> 2 ^ k dvd i \<and> fr_order (f i) = int k \<and>
     (case fr_state (f i) of
        PAGE_STATE_FREE_HEAD \<Rightarrow> tails f i k PAGE_STATE_FREE_TAIL
      | PAGE_STATE_ALLOC_PAGE_HEAD \<Rightarrow> tails f i k PAGE_STATE_ALLOC_PAGE_TAIL
      | PAGE_STATE_RESERVED \<Rightarrow> k = 0
      | PAGE_STATE_ALLOC_CHUNK_POOL \<Rightarrow> k = 0
      | _ \<Rightarrow> False)"

inductive tiled :: "frames \<Rightarrow> nat \<Rightarrow> nat \<Rightarrow> bool" for f where
  tiled_empty: "tiled f a a"
| tiled_block: "block f a k \<Longrightarrow> tiled f (a + 2 ^ k) b \<Longrightarrow> tiled f a b"

lemma block_head_state: "block f i k \<Longrightarrow> head_state (fr_state (f i))"
  by (auto simp: block_def head_state_def split: page_state.splits)

lemma block_tail:
  assumes "block f i k" "i < j" "j < i + 2 ^ k"
  shows "\<not> head_state (fr_state (f j)) \<and> fr_order (f j) = -1 \<and>
         (free_state (fr_state (f j)) \<longleftrightarrow> fr_state (f i) = PAGE_STATE_FREE_HEAD) \<and>
         fr_state (f i) \<in> {PAGE_STATE_FREE_HEAD, PAGE_STATE_ALLOC_PAGE_HEAD}"
  using assms
  by (auto simp: block_def tails_def head_state_def free_state_def split: page_state.splits)

lemma tiled_le: "tiled f a b \<Longrightarrow> a \<le> b"
  by (induction rule: tiled.induct) auto

lemma block_cong:
  assumes "block f i k"
    and "\<And>j. i \<le> j \<Longrightarrow> j < i + 2 ^ k \<Longrightarrow> fr_state (f' j) = fr_state (f j) \<and> fr_order (f' j) = fr_order (f j)"
  shows "block f' i k"
proof -
  have "fr_state (f' i) = fr_state (f i)" "fr_order (f' i) = fr_order (f i)"
    using assms(2) [of i] by simp_all
  moreover have "tails f' i k st = tails f i k st" for st
    using assms(2) by (auto simp: tails_def)
  ultimately show ?thesis using assms(1) by (simp add: block_def split: page_state.splits)
qed

lemma tiled_cong:
  assumes "tiled f a b"
    and "\<And>j. a \<le> j \<Longrightarrow> j < b \<Longrightarrow> fr_state (f' j) = fr_state (f j) \<and> fr_order (f' j) = fr_order (f j)"
  shows "tiled f' a b"
  using assms
proof (induction rule: tiled.induct)
  case (tiled_block a k b)
  then have "a + 2 ^ k \<le> b" by (blast dest: tiled_le)
  with tiled_block.prems have "block f' a k"
    by (intro block_cong [OF tiled_block.hyps(1)]) auto
  moreover have "tiled f' (a + 2 ^ k) b" using tiled_block by auto
  ultimately show ?case by (rule tiled.tiled_block)
qed (rule tiled.tiled_empty)

lemma tiled_append: "tiled f a b \<Longrightarrow> tiled f b c \<Longrightarrow> tiled f a c"
  by (induction rule: tiled.induct) (auto intro: tiled.intros)

lemma tiled_one: "block f a k \<Longrightarrow> tiled f a (a + 2 ^ k)"
  by (rule tiled_block) (auto intro: tiled_empty)

text \<open>Every page of a tiling lies in exactly one block.\<close>

lemma tiled_page:
  assumes "tiled f a b" "a \<le> j" "j < b"
  shows "\<exists>i k. block f i k \<and> i \<le> j \<and> j < i + 2 ^ k \<and> tiled f a i \<and> tiled f (i + 2 ^ k) b"
  using assms
proof (induction rule: tiled.induct)
  case (tiled_block a k b)
  show ?case
  proof (cases "j < a + 2 ^ k")
    case True
    with tiled_block show ?thesis by (blast intro: tiled_empty)
  next
    case False
    then obtain i l where "block f i l" "i \<le> j" "j < i + 2 ^ l" "tiled f (a + 2 ^ k) i" "tiled f (i + 2 ^ l) b"
      using tiled_block by (auto simp: not_less)
    with tiled_block.hyps(1) show ?thesis by (blast intro: tiled.tiled_block)
  qed
qed simp

text \<open>A page whose state is a head state is the first page of its block.\<close>

lemma tiled_head:
  assumes "tiled f a b" "a \<le> i" "i < b" "head_state (fr_state (f i))"
  shows "\<exists>k. block f i k \<and> tiled f a i \<and> tiled f (i + 2 ^ k) b"
proof -
  obtain j k where j: "block f j k" "j \<le> i" "i < j + 2 ^ k" "tiled f a j" "tiled f (j + 2 ^ k) b"
    using tiled_page [OF assms(1-3)] by blast
  have "j = i"
    using block_tail [OF j(1), of i] j(2,3) assms(4) by (cases "j = i") auto
  with j show ?thesis by blast
qed

lemma block_order_unique: "block f i k \<Longrightarrow> block f i k' \<Longrightarrow> k = k'"
  by (simp add: block_def)

lemma blocks_disjoint:
  assumes "block f i k" "block f j l" "i < j"
  shows "i + 2 ^ k \<le> j"
  using block_tail [OF assms(1), of j] block_head_state [OF assms(2)] assms(3)
  by (cases "i + 2 ^ k \<le> j") auto

lemma blocks_same:
  assumes "block f i k" "block f j l" "i \<le> p" "p < i + 2 ^ k" "j \<le> p" "p < j + 2 ^ l"
  shows "i = j \<and> k = l"
proof -
  have "i = j"
    using blocks_disjoint [OF assms(1,2)] blocks_disjoint [OF assms(2,1)] assms(3-6)
    by (cases i j rule: linorder_cases) auto
  with assms show ?thesis by (blast dest: block_order_unique)
qed

section \<open>What the marking loops write\<close>

lemma mark_tails:
  "fold (\<lambda>i. mark_page st (-1) (idx + i)) [1..<m] f =
   (\<lambda>j. if idx < j \<and> j < idx + m then (f j)\<lparr>fr_state := st, fr_order := -1\<rparr> else f j)"
proof (induction m)
  case (Suc m)
  show ?case
  proof (cases "m = 0")
    case False
    then have "[1..<Suc m] = [1..<m] @ [m]" by simp
    with Suc False show ?thesis by (auto simp: mark_page_def fun_eq_iff)
  qed (auto simp: fun_eq_iff)
qed (auto simp: fun_eq_iff)

lemma mark_block_eq:
  "mark_block idx k hs ts f =
   (\<lambda>j. if j = idx then (f j)\<lparr>fr_state := hs, fr_order := int k\<rparr>
        else if idx < j \<and> j < idx + 2 ^ k then (f j)\<lparr>fr_state := ts, fr_order := -1\<rparr> else f j)"
  unfolding mark_block_def mark_tails by (auto simp: mark_page_def fun_eq_iff)

lemma mark_block_outside: "j < idx \<or> idx + 2 ^ k \<le> j \<Longrightarrow> mark_block idx k hs ts f j = f j"
  by (auto simp: mark_block_eq)

lemma block_mark_free:
  "k \<le> BUDDY_MAX_ORDER \<Longrightarrow> 2 ^ k dvd idx \<Longrightarrow>
   block (mark_block idx k PAGE_STATE_FREE_HEAD PAGE_STATE_FREE_TAIL f) idx k"
  by (auto simp: block_def mark_block_eq tails_def)

lemma block_mark_alloc:
  "k \<le> BUDDY_MAX_ORDER \<Longrightarrow> 2 ^ k dvd idx \<Longrightarrow>
   block (mark_block idx k PAGE_STATE_ALLOC_PAGE_HEAD PAGE_STATE_ALLOC_PAGE_TAIL f) idx k"
  by (auto simp: block_def mark_block_eq tails_def)

section \<open>The invariant\<close>

text \<open>Heads of free blocks of order \<open>k\<close> outside the hole \<open>[a, b)\<close>.\<close>

definition free_at :: "frames \<Rightarrow> nat \<Rightarrow> nat \<Rightarrow> bool" where
  "free_at f i k \<longleftrightarrow> fr_state (f i) = PAGE_STATE_FREE_HEAD \<and> fr_order (f i) = int k"

definition free_heads :: "buddy \<Rightarrow> nat \<Rightarrow> nat \<Rightarrow> nat \<Rightarrow> nat set" where
  "free_heads s a b k =
     {i. i < G_MEM_TOTAL_PAGE s \<and> \<not> (a \<le> i \<and> i < b) \<and> free_at (frame_array s) i k}"

definition coalesced :: "buddy \<Rightarrow> nat \<Rightarrow> nat \<Rightarrow> bool" where
  "coalesced s a b \<longleftrightarrow> (\<forall>k < BUDDY_MAX_ORDER. \<forall>i \<in> free_heads s a b k. i XOR 2 ^ k \<notin> free_heads s a b k)"

abbreviation area_lists :: "(nat \<Rightarrow> nat list) \<Rightarrow> nat \<Rightarrow> buddy_node list" where
  "area_lists F k \<equiv> map FrameNode (F k)"

definition buddy_open :: "buddy \<Rightarrow> (nat \<Rightarrow> nat list) \<Rightarrow> nat \<Rightarrow> nat \<Rightarrow> bool" where
  "buddy_open s F a b \<longleftrightarrow>
     tiled (frame_array s) 0 a \<and> tiled (frame_array s) b (G_MEM_TOTAL_PAGE s) \<and> a \<le> b \<and>
     dlists (free_area s) {..BUDDY_MAX_ORDER} AreaHead (area_lists F) \<and>
     (\<forall>k \<le> BUDDY_MAX_ORDER. set (F k) = free_heads s a b k) \<and>
     coalesced s a b"

text \<open>The pool: page-aligned, not at address 0, and no address of it wraps.\<close>

definition pool_ok :: "buddy \<Rightarrow> bool" where
  "pool_ok s \<longleftrightarrow> 0 < unat (G_MEMPOOL_START s) \<and> 2 ^ PAGE_SHIFT dvd unat (G_MEMPOOL_START s) \<and>
     unat (G_MEMPOOL_SIZE s) = G_MEM_TOTAL_PAGE s * 2 ^ PAGE_SHIFT \<and>
     unat (G_MEMPOOL_START s) + unat (G_MEMPOOL_SIZE s) < 2 ^ 64"

definition buddy_inv :: "buddy \<Rightarrow> bool" where
  "buddy_inv s \<longleftrightarrow> buddy_ready s \<and> pool_ok s \<and> (\<exists>F. buddy_open s F 0 0)"

lemma tiled_self: "tiled f a a"
  by (rule tiled_empty)

lemma free_heads_empty_hole: "free_heads s a a k = free_heads s 0 0 k"
  by (auto simp: free_heads_def)

lemma block_free_at: "block f i k \<Longrightarrow> fr_state (f i) = PAGE_STATE_FREE_HEAD \<longleftrightarrow> free_at f i k"
  by (auto simp: free_at_def block_def)

lemma free_at_order_unique: "free_at f i k \<Longrightarrow> free_at f i k' \<Longrightarrow> k = k'"
  by (simp add: free_at_def)

section \<open>Opening, growing and filling the hole\<close>

lemma coalesced_mono:
  assumes "coalesced s a b"
    and "\<And>k. k < BUDDY_MAX_ORDER \<Longrightarrow> free_heads s' a' b' k \<subseteq> free_heads s a b k"
  shows "coalesced s' a' b'"
  using assms unfolding coalesced_def by blast

text \<open>Frames inside the hole are irrelevant, and outside it only state and order matter.\<close>

lemma buddy_open_frames:
  assumes "buddy_open s F a b"
    and same: "\<And>j. \<not> (a \<le> j \<and> j < b) \<Longrightarrow>
        fr_state (f' j) = fr_state (frame_array s j) \<and> fr_order (f' j) = fr_order (frame_array s j)"
  shows "buddy_open (s\<lparr>frame_array := f'\<rparr>) F a b"
proof -
  have heads: "free_heads (s\<lparr>frame_array := f'\<rparr>) a b k = free_heads s a b k" for k
    using same by (auto simp: free_heads_def free_at_def)
  have "tiled f' 0 a" "tiled f' b (G_MEM_TOTAL_PAGE s)"
    using assms by (auto simp: buddy_open_def intro: tiled_cong)
  then show ?thesis
    using assms(1) by (simp add: buddy_open_def heads coalesced_def)
qed

lemma buddy_open_move:
  assumes "buddy_open s F c c" "tiled (frame_array s) 0 a" "tiled (frame_array s) a (G_MEM_TOTAL_PAGE s)"
  shows "buddy_open s F a a"
  using assms by (simp add: buddy_open_def coalesced_def free_heads_empty_hole [of s a]
      free_heads_empty_hole [of s c])

lemma buddy_open_at_head:
  assumes "buddy_open s F 0 0" "i < G_MEM_TOTAL_PAGE s" "head_state (fr_state (frame_array s i))"
  shows "\<exists>k. block (frame_array s) i k \<and> i + 2 ^ k \<le> G_MEM_TOTAL_PAGE s \<and> buddy_open s F i i"
proof -
  have "tiled (frame_array s) 0 (G_MEM_TOTAL_PAGE s)" using assms(1) by (simp add: buddy_open_def)
  then obtain k where k: "block (frame_array s) i k" "tiled (frame_array s) 0 i"
    "tiled (frame_array s) (i + 2 ^ k) (G_MEM_TOTAL_PAGE s)"
    using tiled_head assms(2,3) by blast
  then have "tiled (frame_array s) i (G_MEM_TOTAL_PAGE s)" by (blast intro: tiled_block)
  with k assms(1) show ?thesis by (blast intro: buddy_open_move dest: tiled_le)
qed

text \<open>An allocated or reserved block can be opened as it stands.\<close>

lemma buddy_open_nonfree:
  assumes "buddy_open s F i i" "block (frame_array s) i k" "i + 2 ^ k \<le> G_MEM_TOTAL_PAGE s"
    and "fr_state (frame_array s i) \<noteq> PAGE_STATE_FREE_HEAD"
  shows "buddy_open s F i (i + 2 ^ k)"
proof -
  have "fr_state (frame_array s j) \<noteq> PAGE_STATE_FREE_HEAD" if "i \<le> j" "j < i + 2 ^ k" for j
    using block_tail [OF assms(2), of j] assms(4) that by (cases "j = i") (auto simp: head_state_def)
  then have heads: "free_heads s i (i + 2 ^ k) l = free_heads s i i l" for l
    by (auto simp: free_heads_def free_at_def)
  have "i < G_MEM_TOTAL_PAGE s" using assms(3) by (simp add: less_le_trans [of i "i + 2 ^ k"])
  then obtain l where "block (frame_array s) i l" "tiled (frame_array s) (i + 2 ^ l) (G_MEM_TOTAL_PAGE s)"
    using tiled_head [of "frame_array s" i "G_MEM_TOTAL_PAGE s" i] assms(1) block_head_state [OF assms(2)]
    by (auto simp: buddy_open_def)
  with assms(1,2) show ?thesis
    by (auto simp: buddy_open_def heads coalesced_def dest: block_order_unique)
qed

text \<open>Taking a free block off its list turns it into hole.\<close>

lemma area_lists_upd: "(area_lists F)(k := map FrameNode xs) = area_lists (F(k := xs))"
  by (simp add: fun_eq_iff)

lemma remove_free_block_fields [simp]:
  "G_MEM_TOTAL_PAGE (remove_free_block i s) = G_MEM_TOTAL_PAGE s"
  "G_MEMPOOL_START (remove_free_block i s) = G_MEMPOOL_START s"
  "G_MEMPOOL_SIZE (remove_free_block i s) = G_MEMPOOL_SIZE s"
  "buddy_ready (remove_free_block i s) = buddy_ready s"
  "j \<noteq> i \<Longrightarrow> frame_array (remove_free_block i s) j = frame_array s j"
  by (simp_all add: remove_free_block_def)

lemma remove_block_open:
  assumes op: "buddy_open s F a b" and j: "j \<in> free_heads s a b k" and k: "k \<le> BUDDY_MAX_ORDER"
    and blk: "block (frame_array s) j k"
    and hole: "\<And>x. (a' \<le> x \<and> x < b') = (a \<le> x \<and> x < b \<or> j \<le> x \<and> x < j + 2 ^ k)" "a' \<le> b'"
    and tl: "tiled (frame_array s) 0 a'" "tiled (frame_array s) b' (G_MEM_TOTAL_PAGE s)"
  shows "\<exists>F'. buddy_open (remove_free_block j s) F' a' b'"
proof -
  let ?s' = "remove_free_block j s"
  from op k have sF: "set (F k) = free_heads s a b k"
    and fam: "dlists (free_area s) {..BUDDY_MAX_ORDER} AreaHead (area_lists F)"
    by (auto simp: buddy_open_def)
  from sF j obtain xs ys where F: "F k = xs @ j # ys" by (metis split_list)
  then have "dlists (list_del (FrameNode j) (free_area s)) {..BUDDY_MAX_ORDER} AreaHead
      ((area_lists F)(k := map FrameNode xs @ map FrameNode ys))"
    using k by (intro dlists_del [OF fam]) auto
  then have fam': "dlists (free_area ?s') {..BUDDY_MAX_ORDER} AreaHead (area_lists (F(k := xs @ ys)))"
    using area_lists_upd [of F k "xs @ ys"] by (simp add: remove_free_block_def)
  have jin: "a' \<le> j \<and> j < b'" using hole(1) [of j] by simp
  have "x = j" if "j \<le> x" "x < j + 2 ^ k" "fr_state (frame_array s x) = PAGE_STATE_FREE_HEAD" for x
    using block_tail [OF blk, of x] that by (cases "j = x") (auto simp: head_state_def)
  then have heads: "free_heads ?s' a' b' l = free_heads s a b l - {j}" for l
    using jin by (auto simp: free_heads_def free_at_def hole(1) remove_free_block_def)
  have "distinct (F k)"
    using dlists_dlist [OF fam, of k] k by (auto simp: dlist_def distinct_map)
  then have setF: "set ((F(k := xs @ ys)) l) = free_heads ?s' a' b' l" if "l \<le> BUDDY_MAX_ORDER" for l
  proof (cases "l = k")
    case True
    with \<open>distinct (F k)\<close> F sF heads show ?thesis by auto
  next
    case False
    then have "j \<notin> free_heads s a b l"
      using j by (auto simp: free_heads_def dest: free_at_order_unique)
    with False heads that op show ?thesis by (simp add: buddy_open_def)
  qed
  have "tiled (frame_array ?s') 0 a'" "tiled (frame_array ?s') b' (G_MEM_TOTAL_PAGE s)"
    using jin by (auto intro!: tiled_cong [OF tl(1)] tiled_cong [OF tl(2)] simp: remove_free_block_def)
  moreover have "coalesced ?s' a' b'"
    using op heads by (auto intro: coalesced_mono simp: buddy_open_def)
  ultimately show ?thesis
    using fam' setF hole(2) by (auto simp: buddy_open_def)
qed

lemma grow_up:
  assumes op: "buddy_open s F a b" and b: "b < G_MEM_TOTAL_PAGE s" "free_at (frame_array s) b k"
  shows "k \<le> BUDDY_MAX_ORDER \<and> block (frame_array s) b k \<and> b + 2 ^ k \<le> G_MEM_TOTAL_PAGE s \<and>
         (\<exists>F'. buddy_open (remove_free_block b s) F' a (b + 2 ^ k))"
proof -
  have t: "tiled (frame_array s) b (G_MEM_TOTAL_PAGE s)" "tiled (frame_array s) 0 a" "a \<le> b"
    using op by (auto simp: buddy_open_def)
  have "head_state (fr_state (frame_array s b))" using b(2) by (simp add: free_at_def head_state_def)
  then obtain l where l: "block (frame_array s) b l" "tiled (frame_array s) (b + 2 ^ l) (G_MEM_TOTAL_PAGE s)"
    using tiled_head [OF t(1), of b] b(1) by auto
  with b(2) have "l = k" by (simp add: block_def free_at_def)
  with l have k: "k \<le> BUDDY_MAX_ORDER" "block (frame_array s) b k"
    "tiled (frame_array s) (b + 2 ^ k) (G_MEM_TOTAL_PAGE s)" by (auto simp: block_def)
  moreover have "b \<in> free_heads s a b k" using b by (simp add: free_heads_def)
  then have "\<exists>F'. buddy_open (remove_free_block b s) F' a (b + 2 ^ k)"
    using t k by (intro remove_block_open [OF op, of b k]) auto
  ultimately show ?thesis using tiled_le by blast
qed

lemma grow_down:
  assumes op: "buddy_open s F a b" and j: "j + 2 ^ k = a" "j < G_MEM_TOTAL_PAGE s" "free_at (frame_array s) j k"
  shows "\<exists>F'. buddy_open (remove_free_block j s) F' j b"
proof -
  have t: "tiled (frame_array s) b (G_MEM_TOTAL_PAGE s)" "tiled (frame_array s) 0 a" "a \<le> b"
    using op by (auto simp: buddy_open_def)
  have "head_state (fr_state (frame_array s j))" using j(3) by (simp add: free_at_def head_state_def)
  moreover have "j < a" using j(1) by auto
  ultimately obtain l where l: "block (frame_array s) j l" "tiled (frame_array s) 0 j"
    using tiled_head [OF t(2), of j] by auto
  with j(3) have "l = k" by (simp add: block_def free_at_def)
  with l have k: "k \<le> BUDDY_MAX_ORDER" "block (frame_array s) j k" by (auto simp: block_def)
  moreover have "j \<in> free_heads s a b k" using j by (auto simp: free_heads_def)
  ultimately show ?thesis
    using t l j by (intro remove_block_open [OF op, of j k]) auto
qed

text \<open>Filling part of the hole with a new free block.\<close>

lemma add_free_block_fields [simp]:
  "G_MEMPOOL_START (add_free_block i k s) = G_MEMPOOL_START s"
  "G_MEMPOOL_SIZE (add_free_block i k s) = G_MEMPOOL_SIZE s"
  "buddy_ready (add_free_block i k s) = buddy_ready s"
  by (simp_all add: add_free_block_def)

lemma add_free_block_frames:
  "frame_array (add_free_block c k s) =
   mark_block c k PAGE_STATE_FREE_HEAD PAGE_STATE_FREE_TAIL (frame_array s)"
  by (simp add: add_free_block_def)

lemma fill_free:
  assumes op: "buddy_open s F a b" and k: "k \<le> BUDDY_MAX_ORDER" and c: "c + 2 ^ k \<le> G_MEM_TOTAL_PAGE s"
    and hole: "\<And>x. (a \<le> x \<and> x < b) = (a' \<le> x \<and> x < b' \<or> c \<le> x \<and> x < c + 2 ^ k)" "a' \<le> b'"
    and disj: "\<And>x. \<not> ((a' \<le> x \<and> x < b') \<and> (c \<le> x \<and> x < c + 2 ^ k))"
    and tl: "tiled (frame_array (add_free_block c k s)) 0 a'"
      "tiled (frame_array (add_free_block c k s)) b' (G_MEM_TOTAL_PAGE s)"
    and lone: "k < BUDDY_MAX_ORDER \<Longrightarrow> c XOR 2 ^ k \<notin> free_heads s a b k"
  shows "\<exists>F'. buddy_open (add_free_block c k s) F' a' b'"
proof -
  let ?s' = "add_free_block c k s"
  from op have sF: "set (F l) = free_heads s a b l" if "l \<le> BUDDY_MAX_ORDER" for l
    using that by (auto simp: buddy_open_def)
  from op have fam: "dlists (free_area s) {..BUDDY_MAX_ORDER} AreaHead (area_lists F)"
    by (auto simp: buddy_open_def)
  have cin: "a \<le> c \<and> c < b" using hole(1) [of c] by simp
  then have "c \<notin> free_heads s a b l" for l by (simp add: free_heads_def)
  then have "dlists (list_add (FrameNode c) (AreaHead k) (free_area s)) {..BUDDY_MAX_ORDER} AreaHead
      ((area_lists F)(k := FrameNode c # map FrameNode (F k)))"
    using k sF by (intro dlists_add [OF fam]) auto
  then have fam': "dlists (free_area ?s') {..BUDDY_MAX_ORDER} AreaHead (area_lists (F(k := c # F k)))"
    using area_lists_upd [of F k "c # F k"] by (simp add: add_free_block_def)
  have heads: "free_heads ?s' a' b' l = (if l = k then insert c (free_heads s a b k) else free_heads s a b l)"
    (is "?L = ?R") for l
  proof (rule set_eqI)
    fix x
    consider "x = c" | "c < x" "x < c + 2 ^ k" | "\<not> (c \<le> x \<and> x < c + 2 ^ k)" by linarith
    then show "x \<in> ?L \<longleftrightarrow> x \<in> ?R"
    proof cases
      case 1
      moreover have "c < G_MEM_TOTAL_PAGE s" using c by (simp add: less_le_trans [of c "c + 2 ^ k"])
      ultimately show ?thesis
        using disj [of c] cin by (auto simp: free_heads_def free_at_def add_free_block_frames mark_block_eq)
    next
      case 2
      then show ?thesis
        using hole(1) [of x] by (auto simp: free_heads_def free_at_def add_free_block_frames mark_block_eq)
    next
      case 3
      then have "free_at (frame_array ?s') x l = free_at (frame_array s) x l" "x \<noteq> c"
        by (auto simp: add_free_block_frames mark_block_eq free_at_def)
      moreover have "(a' \<le> x \<and> x < b') = (a \<le> x \<and> x < b)" using 3 hole(1) [of x] by blast
      ultimately show ?thesis by (simp add: free_heads_def) blast
    qed
  qed
  have "coalesced ?s' a' b'"
    unfolding coalesced_def
  proof (intro allI impI ballI notI)
    fix l i
    assume l: "l < BUDDY_MAX_ORDER" and i: "i \<in> free_heads ?s' a' b' l"
      and x: "i XOR 2 ^ l \<in> free_heads ?s' a' b' l"
    have co: "coalesced s a b" using op by (simp add: buddy_open_def)
    have xx: "(i XOR 2 ^ l) XOR 2 ^ l = i" by (simp add: xor.assoc)
    have "i XOR 2 ^ l \<noteq> i" by (metis power_not_zero xor.right_neutral xor_self_eq xor.left_commute zero_neq_numeral)
    with l i x co lone xx show False
      unfolding heads coalesced_def by (metis insertE)
  qed
  then show ?thesis
    using fam' heads sF tl hole(2) k by (auto simp: buddy_open_def intro!: exI [of _ "F(k := c # F k)"])
qed

end
