(* ===== verification/Buddy_Correct.thy ===== *)
theory Buddy_Correct
  imports Buddy_Inv
begin

text \<open>
  Allocation and freeing of pages: both keep the invariant, an allocation takes an aligned run of
  free pages and nothing else, and it fails only when no such run exists.
\<close>

section \<open>Allocation\<close>

lemma split_block_fields [simp]:
  "G_MEM_TOTAL_PAGE (split_block i ord c s) = G_MEM_TOTAL_PAGE s"
  "G_MEMPOOL_START (split_block i ord c s) = G_MEMPOOL_START s"
  "G_MEMPOOL_SIZE (split_block i ord c s) = G_MEMPOOL_SIZE s"
  "buddy_ready (split_block i ord c s) = buddy_ready s"
  by (induction i ord c s rule: split_block.induct) auto

lemma split_block_outside:
  "\<not> (idx + 2 ^ ord \<le> j \<and> j < idx + 2 ^ c) \<Longrightarrow>
   frame_array (split_block idx ord c s) j = frame_array s j"
proof (induction idx ord c s rule: split_block.induct)
  case (2 idx ord c s)
  show ?case
  proof (cases "ord < Suc c")
    case True
    then have "(2 :: nat) ^ ord \<le> 2 ^ c" by simp
    moreover have "(2 :: nat) ^ Suc c = 2 ^ c + 2 ^ c" by simp
    ultimately have o: "j < idx + 2 ^ c \<or> idx + 2 ^ c + 2 ^ c \<le> j"
      "\<not> (idx + 2 ^ ord \<le> j \<and> j < idx + 2 ^ c)" using 2(2) by linarith+
    from 2(1) [OF True o(2)] o(1) True show ?thesis
      by (simp add: add_free_block_frames mark_block_outside)
  qed simp
qed simp

lemma split_block_inside:
  "idx + 2 ^ ord \<le> j \<Longrightarrow> j < idx + 2 ^ c \<Longrightarrow>
   free_state (fr_state (frame_array (split_block idx ord c s) j))"
proof (induction idx ord c s rule: split_block.induct)
  case (1 idx ord s)
  moreover have "0 < (2 :: nat) ^ ord" by simp
  ultimately have False by (simp only: power_0)
  then show ?case ..
next
  case (2 idx ord c s)
  have "ord < Suc c"
  proof (rule ccontr)
    assume "\<not> ord < Suc c"
    then have "(2 :: nat) ^ Suc c \<le> 2 ^ ord" by (intro power_increasing) auto
    with 2 show False by linarith
  qed
  moreover have "free_state (fr_state (frame_array (add_free_block (idx + 2 ^ c) c s) j))" if "idx + 2 ^ c \<le> j"
    using 2 that by (auto simp: add_free_block_frames mark_block_eq free_state_def)
  ultimately show ?case
    using 2 by (cases "j < idx + 2 ^ c") (auto simp: split_block_outside not_less)
qed

text \<open>Splitting returns the upper halves to the free lists and leaves the requested block open.\<close>

lemma split_block_open:
  assumes "buddy_open s F idx (idx + 2 ^ c)" "ord \<le> c" "c \<le> BUDDY_MAX_ORDER" "2 ^ c dvd idx"
    and "idx + 2 ^ c \<le> G_MEM_TOTAL_PAGE s"
  shows "\<exists>F'. buddy_open (split_block idx ord c s) F' idx (idx + 2 ^ ord)"
  using assms
proof (induction idx ord c s arbitrary: F rule: split_block.induct)
  case (2 idx ord c s)
  show ?case
  proof (cases "ord < Suc c")
    case True
    let ?m = "idx + 2 ^ c" and ?s' = "add_free_block (idx + 2 ^ c) c s"
    have al: "2 ^ c dvd idx" using 2(5) by (rule dvd_pow2_mono [rotated]) simp
    have t: "tiled (frame_array s) 0 idx" "tiled (frame_array s) (idx + 2 ^ Suc c) (G_MEM_TOTAL_PAGE s)"
      using 2(2) by (auto simp: buddy_open_def)
    have t0: "tiled (frame_array ?s') 0 idx"
      by (rule tiled_cong [OF t(1)]) (simp add: add_free_block_frames mark_block_outside)
    have "tiled (frame_array ?s') (?m + 2 ^ c) (G_MEM_TOTAL_PAGE s)"
      using t(2) by (intro tiled_cong [OF t(2)[unfolded power_Suc mult_2 add.assoc [symmetric]]])
        (simp add: add_free_block_frames mark_block_outside)
    moreover have "block (frame_array ?s') ?m c"
      unfolding add_free_block_frames using 2(4) al by (intro block_mark_free) auto
    ultimately have t1: "tiled (frame_array ?s') ?m (G_MEM_TOTAL_PAGE s)" by (blast intro: tiled_block)
    have "?m XOR 2 ^ c = idx"
    proof -
      have "?m = idx XOR 2 ^ c" using 2(5) nat_flip_bit [OF al] by simp
      then show ?thesis by (simp add: xor.assoc)
    qed
    then have "?m XOR 2 ^ c \<notin> free_heads s idx (idx + 2 ^ Suc c) c" by (simp add: free_heads_def)
    then have "\<exists>F'. buddy_open ?s' F' idx (idx + 2 ^ c)"
      using t0 t1 2(4,6) by (intro fill_free [OF 2(2)]) auto
    with 2 True al show ?thesis by auto
  next
    case False
    with 2 have "ord = Suc c" by simp
    with 2 False show ?thesis by auto
  qed
qed auto

lemma alloc_fill:
  assumes "buddy_open s F idx (idx + 2 ^ k)" "k \<le> BUDDY_MAX_ORDER" "2 ^ k dvd idx"
    and f': "\<And>j. fr_state (f' j) = fr_state (mark_block idx k PAGE_STATE_ALLOC_PAGE_HEAD
                 PAGE_STATE_ALLOC_PAGE_TAIL (frame_array s) j)"
      "\<And>j. fr_order (f' j) = fr_order (mark_block idx k PAGE_STATE_ALLOC_PAGE_HEAD
                 PAGE_STATE_ALLOC_PAGE_TAIL (frame_array s) j)"
  shows "buddy_open (s\<lparr>frame_array := f'\<rparr>) F 0 0 \<and> block f' idx k"
proof -
  let ?f = "mark_block idx k PAGE_STATE_ALLOC_PAGE_HEAD PAGE_STATE_ALLOC_PAGE_TAIL (frame_array s)"
  have t: "tiled (frame_array s) 0 idx" "tiled (frame_array s) (idx + 2 ^ k) (G_MEM_TOTAL_PAGE s)"
    using assms(1) by (auto simp: buddy_open_def)
  have out: "fr_state (f' j) = fr_state (frame_array s j) \<and> fr_order (f' j) = fr_order (frame_array s j)"
    if "j < idx \<or> idx + 2 ^ k \<le> j" for j
    using that by (simp add: f' mark_block_outside)
  have "block ?f idx k" using assms(2,3) by (rule block_mark_alloc)
  then have b: "block f' idx k" by (rule block_cong) (simp add: f')
  have "tiled f' 0 idx" by (rule tiled_cong [OF t(1)]) (simp add: out)
  moreover have "tiled f' (idx + 2 ^ k) (G_MEM_TOTAL_PAGE s)" by (rule tiled_cong [OF t(2)]) (simp add: out)
  ultimately have "tiled f' 0 (G_MEM_TOTAL_PAGE s)" using b by (blast intro: tiled_block tiled_append)
  moreover have heads: "free_heads (s\<lparr>frame_array := f'\<rparr>) 0 0 l = free_heads s idx (idx + 2 ^ k) l" for l
  proof -
    have "\<not> free_at f' j l" if "idx \<le> j" "j < idx + 2 ^ k" for j
      using that by (auto simp: free_at_def f' mark_block_eq)
    moreover have "free_at f' j l = free_at (frame_array s) j l" if "\<not> (idx \<le> j \<and> j < idx + 2 ^ k)" for j
      using that out [of j] by (auto simp: free_at_def not_le not_less)
    ultimately show ?thesis by (auto simp: free_heads_def)
  qed
  ultimately show ?thesis
    using assms(1) b by (simp add: buddy_open_def coalesced_def tiled_self)
qed

text \<open>What taking a block off the free list of order \<open>current\<close> does.\<close>

lemma take_block_spec:
  assumes op: "buddy_open s F 0 0" and c: "current \<le> BUDDY_MAX_ORDER" "ord \<le> current"
    and ne: "\<not> list_empty (AreaHead current) (free_area s)"
    and tk: "take_block ord current s = (idx, s')"
  shows "(\<exists>F'. buddy_open s' F' 0 0) \<and> block (frame_array s) idx current \<and>
     fr_state (frame_array s idx) = PAGE_STATE_FREE_HEAD \<and> idx + 2 ^ current \<le> G_MEM_TOTAL_PAGE s"
    and "block (frame_array s') idx ord \<and> fr_state (frame_array s' idx) = PAGE_STATE_ALLOC_PAGE_HEAD \<and>
      cow_ref_count (frame_array s' idx) = 1"
    and "\<And>j. \<not> (idx \<le> j \<and> j < idx + 2 ^ current) \<Longrightarrow> frame_array s' j = frame_array s j"
    and "\<And>j. idx + 2 ^ ord \<le> j \<Longrightarrow> j < idx + 2 ^ current \<Longrightarrow> free_state (fr_state (frame_array s' j))"
    and "G_MEM_TOTAL_PAGE s' = G_MEM_TOTAL_PAGE s" "G_MEMPOOL_START s' = G_MEMPOOL_START s"
      "G_MEMPOOL_SIZE s' = G_MEMPOOL_SIZE s" "buddy_ready s' = buddy_ready s"
proof -
  let ?s1 = "remove_free_block idx s"
  let ?s2 = "split_block idx ord current ?s1"
  let ?f = "mark_block idx ord PAGE_STATE_ALLOC_PAGE_HEAD PAGE_STATE_ALLOC_PAGE_TAIL (frame_array ?s2)"
  have fam: "dlists (free_area s) {..BUDDY_MAX_ORDER} AreaHead (area_lists F)"
    and sF: "set (F current) = free_heads s 0 0 current"
    using op c(1) by (auto simp: buddy_open_def)
  from ne dlists_empty [OF fam, of current] c(1) obtain x xs where F: "F current = x # xs"
    by (cases "F current") auto
  with dlists_dlist [OF fam, of current] c(1) have "lh_next (free_area s) (AreaHead current) = FrameNode x"
    by (auto dest: dlist_first)
  with tk have idx: "idx = x" and s': "s' = ?s2\<lparr>frame_array := ?f(idx := (?f idx)\<lparr>cow_ref_count := 1\<rparr>)\<rparr>"
    by (auto simp: take_block_def node_frame_def Let_def)
  have fa: "free_at (frame_array s) idx current" and lt: "idx < G_MEM_TOTAL_PAGE s"
    using sF F idx by (auto simp: free_heads_def)
  then have "head_state (fr_state (frame_array s idx))" by (simp add: free_at_def head_state_def)
  then have "buddy_open s F idx idx" using buddy_open_at_head [OF op lt] by blast
  from grow_up [OF this lt fa] obtain F1 where
    blk: "block (frame_array s) idx current" and le: "idx + 2 ^ current \<le> G_MEM_TOTAL_PAGE s"
    and o1: "buddy_open ?s1 F1 idx (idx + 2 ^ current)" by blast
  have al: "2 ^ current dvd idx" using blk by (simp add: block_def)
  obtain F2 where o2: "buddy_open ?s2 F2 idx (idx + 2 ^ ord)"
    using split_block_open [OF o1 c(2,1) al] le by auto
  have fin: "buddy_open s' F2 0 0 \<and> block (frame_array s') idx ord"
  proof -
    let ?g = "?f(idx := (?f idx)\<lparr>cow_ref_count := 1\<rparr>)"
    have "buddy_open (?s2\<lparr>frame_array := ?g\<rparr>) F2 0 0 \<and> block ?g idx ord"
      using c al by (intro alloc_fill [OF o2]) (auto intro: dvd_pow2_mono)
    then show ?thesis by (simp add: s')
  qed
  show "(\<exists>F'. buddy_open s' F' 0 0) \<and> block (frame_array s) idx current \<and>
     fr_state (frame_array s idx) = PAGE_STATE_FREE_HEAD \<and> idx + 2 ^ current \<le> G_MEM_TOTAL_PAGE s"
    using fin blk le fa by (auto simp: free_at_def)
  show "block (frame_array s') idx ord \<and> fr_state (frame_array s' idx) = PAGE_STATE_ALLOC_PAGE_HEAD \<and>
      cow_ref_count (frame_array s' idx) = 1"
    using fin by (simp add: s' mark_block_eq)
  have pw: "(2 :: nat) ^ ord \<le> 2 ^ current" using c(2) by simp
  show "frame_array s' j = frame_array s j" if "\<not> (idx \<le> j \<and> j < idx + 2 ^ current)" for j
  proof -
    have "j < idx \<or> idx + 2 ^ ord \<le> j" using that pw by linarith
    moreover have "j \<noteq> idx" using that by auto
    ultimately have "frame_array s' j = frame_array ?s2 j" by (simp add: s' mark_block_outside)
    also have "\<dots> = frame_array ?s1 j" using that by (intro split_block_outside) auto
    finally show ?thesis using \<open>j \<noteq> idx\<close> by simp
  qed
  show "free_state (fr_state (frame_array s' j))" if "idx + 2 ^ ord \<le> j" "j < idx + 2 ^ current" for j
  proof -
    have "frame_array s' j = frame_array ?s2 j" using that(1) by (auto simp: s' mark_block_outside)
    with that show ?thesis by (simp add: split_block_inside)
  qed
qed (use tk in \<open>auto simp: take_block_def Let_def\<close>)

section \<open>Freeing\<close>

lemma order_of_block: "block f i k \<Longrightarrow> order_of (f i) = k"
  by (simp add: order_of_def block_def BUDDY_MAX_ORDER_def nat_mod_as_int)

lemma free_block_page:
  assumes "tiled f a b" "a \<le> i" "i < b" "fr_state (f i) = PAGE_STATE_FREE_HEAD" "order_of (f i) = k"
  shows "free_at f i k \<and> block f i k"
proof -
  obtain l where "block f i l"
    using tiled_head [OF assms(1-3)] assms(4) by (auto simp: head_state_def)
  moreover from this assms(5) have "l = k" by (simp add: order_of_block)
  ultimately show ?thesis using assms(4) by (simp add: free_at_def block_def)
qed

text \<open>
  One round of merging: the free buddy leaves its list and the hole doubles. \<open>merge_step\<close> is the
  state and index the loop body of \<open>merge_buddies\<close> continues with.
\<close>

definition merge_step :: "nat \<Rightarrow> nat \<Rightarrow> buddy \<Rightarrow> nat \<times> buddy" where
  "merge_step idx k s =
     (let b = idx XOR 2 ^ k; s1 = remove_free_block b s; i = min b idx
      in (i, s1\<lparr>frame_array :=
                 mark_block i (Suc k) PAGE_STATE_FREE_HEAD PAGE_STATE_FREE_TAIL (frame_array s1)\<rparr>))"

definition mergeable :: "nat \<Rightarrow> nat \<Rightarrow> buddy \<Rightarrow> bool" where
  "mergeable idx k s \<longleftrightarrow> k < BUDDY_MAX_ORDER \<and> idx XOR 2 ^ k < G_MEM_TOTAL_PAGE s \<and>
     fr_state (frame_array s (idx XOR 2 ^ k)) = PAGE_STATE_FREE_HEAD \<and>
     order_of (frame_array s (idx XOR 2 ^ k)) = k"

lemma merge_buddies_eq:
  "merge_buddies idx k s =
     (if mergeable idx k s then let (i, s') = merge_step idx k s in merge_buddies i (Suc k) s'
      else (idx, k, s))"
  unfolding mergeable_def merge_step_def
  by (subst merge_buddies.simps) (auto simp: Let_def min_def)

lemma merge_step_open:
  assumes op: "buddy_open s F idx (idx + 2 ^ k)" and al: "2 ^ k dvd idx" and m: "mergeable idx k s"
    and n: "idx + 2 ^ k \<le> G_MEM_TOTAL_PAGE s" and st: "merge_step idx k s = (i, s')"
  shows "(\<exists>F'. buddy_open s' F' i (i + 2 ^ Suc k)) \<and> 2 ^ Suc k dvd i \<and>
     i \<le> idx \<and> idx + 2 ^ k \<le> i + 2 ^ Suc k \<and> i + 2 ^ Suc k \<le> G_MEM_TOTAL_PAGE s"
    and "\<And>j. i \<le> j \<Longrightarrow> j < i + 2 ^ Suc k \<Longrightarrow> \<not> (idx \<le> j \<and> j < idx + 2 ^ k) \<Longrightarrow>
      free_state (fr_state (frame_array s j))"
    and "\<And>j. \<not> (i \<le> j \<and> j < i + 2 ^ Suc k) \<Longrightarrow> frame_array s' j = frame_array s j"
    and "G_MEM_TOTAL_PAGE s' = G_MEM_TOTAL_PAGE s" "G_MEMPOOL_START s' = G_MEMPOOL_START s"
      "G_MEMPOOL_SIZE s' = G_MEMPOOL_SIZE s" "buddy_ready s' = buddy_ready s"
proof -
  define b where "b = idx XOR 2 ^ k"
  let ?s1 = "remove_free_block b s"
  from st have i: "i = min b idx" and s': "s' = ?s1\<lparr>frame_array := mark_block i (Suc k)
      PAGE_STATE_FREE_HEAD PAGE_STATE_FREE_TAIL (frame_array ?s1)\<rparr>"
    by (auto simp: merge_step_def Let_def b_def)
  from m have m: "b < G_MEM_TOTAL_PAGE s" "fr_state (frame_array s b) = PAGE_STATE_FREE_HEAD"
    "order_of (frame_array s b) = k" by (simp_all add: mergeable_def b_def)
  have t: "tiled (frame_array s) 0 idx" "tiled (frame_array s) (idx + 2 ^ k) (G_MEM_TOTAL_PAGE s)"
    using op by (auto simp: buddy_open_def)
  have p2: "(2 :: nat) ^ Suc k = 2 ^ k + 2 ^ k" "0 < (2 :: nat) ^ k" by simp_all
  have both: "free_at (frame_array s) b k \<and> block (frame_array s) b k \<and>
      (\<exists>F'. buddy_open ?s1 F' i (i + 2 ^ Suc k)) \<and> 2 ^ Suc k dvd i \<and> i + 2 ^ Suc k \<le> G_MEM_TOTAL_PAGE s \<and>
      (i = idx \<and> b = idx + 2 ^ k \<or> i = b \<and> b + 2 ^ k = idx)"
    using al
  proof (cases rule: buddy_cases)
    case upper
    then have bi: "b = idx + 2 ^ k" by (simp add: b_def)
    then have ii: "i = idx" using i by simp
    have fb: "free_at (frame_array s) b k \<and> block (frame_array s) b k"
      using m bi by (intro free_block_page [OF t(2)]) auto
    with bi m have "b + 2 ^ k \<le> G_MEM_TOTAL_PAGE s" "\<exists>F'. buddy_open ?s1 F' idx (b + 2 ^ k)"
      using grow_up [OF op, of k] by auto
    then have "free_at (frame_array s) b k \<and> block (frame_array s) b k \<and>
      (\<exists>F'. buddy_open ?s1 F' i (i + 2 ^ Suc k)) \<and> 2 ^ Suc k dvd i \<and> i + 2 ^ Suc k \<le> G_MEM_TOTAL_PAGE s"
      using fb upper(1) unfolding ii bi p2(1) by (simp add: add.assoc)
    moreover have "i = idx \<and> b = idx + 2 ^ k \<or> i = b \<and> b + 2 ^ k = idx" using ii bi by simp
    ultimately show ?thesis by blast
  next
    case lower
    then have bi: "b + 2 ^ k = idx" and bal: "2 ^ Suc k dvd b" by (simp_all add: b_def)
    then have lt: "b < idx" using p2(2) by linarith
    then have ii: "i = b" using i by simp
    have fb: "free_at (frame_array s) b k \<and> block (frame_array s) b k"
      using m lt by (intro free_block_page [OF t(1)]) auto
    with bi m have "\<exists>F'. buddy_open ?s1 F' b (idx + 2 ^ k)"
      using grow_down [OF op bi m(1)] by blast
    then have "free_at (frame_array s) b k \<and> block (frame_array s) b k \<and>
      (\<exists>F'. buddy_open ?s1 F' i (i + 2 ^ Suc k)) \<and> 2 ^ Suc k dvd i \<and> i + 2 ^ Suc k \<le> G_MEM_TOTAL_PAGE s"
      using fb bal n unfolding ii bi [symmetric] p2(1) by (simp add: add.assoc)
    moreover have "i = idx \<and> b = idx + 2 ^ k \<or> i = b \<and> b + 2 ^ k = idx" using ii bi by simp
    ultimately show ?thesis by blast
  qed
  from both have main: "free_at (frame_array s) b k \<and> block (frame_array s) b k \<and>
      (\<exists>F'. buddy_open ?s1 F' i (i + 2 ^ Suc k)) \<and> 2 ^ Suc k dvd i \<and> i + 2 ^ Suc k \<le> G_MEM_TOTAL_PAGE s"
    and rng: "i = idx \<and> b = idx + 2 ^ k \<or> i = b \<and> b + 2 ^ k = idx" by blast+
  from main obtain F' where o1: "buddy_open ?s1 F' i (i + 2 ^ Suc k)" by blast
  have "buddy_open s' F' i (i + 2 ^ Suc k)"
    unfolding s' by (rule buddy_open_frames [OF o1]) (auto simp: mark_block_outside simp del: power_Suc)
  moreover have "i \<le> idx \<and> idx + 2 ^ k \<le> i + 2 ^ Suc k" using rng p2 by linarith
  ultimately show "(\<exists>F'. buddy_open s' F' i (i + 2 ^ Suc k)) \<and> 2 ^ Suc k dvd i \<and>
     i \<le> idx \<and> idx + 2 ^ k \<le> i + 2 ^ Suc k \<and> i + 2 ^ Suc k \<le> G_MEM_TOTAL_PAGE s" using main by blast
  show "free_state (fr_state (frame_array s j))"
    if "i \<le> j" "j < i + 2 ^ Suc k" "\<not> (idx \<le> j \<and> j < idx + 2 ^ k)" for j
  proof -
    have "b \<le> j" "j < b + 2 ^ k" using rng that p2 by linarith+
    with main block_tail [of "frame_array s" b k j] m(2) show ?thesis
      by (cases "j = b") (auto simp: free_state_def)
  qed
  show "frame_array s' j = frame_array s j" if "\<not> (i \<le> j \<and> j < i + 2 ^ Suc k)" for j
  proof -
    have "j \<noteq> b" using that rng p2 by linarith
    moreover have "j < i \<or> i + 2 ^ Suc k \<le> j" using that by linarith
    ultimately show ?thesis by (simp add: s' mark_block_outside del: power_Suc)
  qed
qed (use st in \<open>auto simp: merge_step_def Let_def\<close>)

text \<open>The whole loop: it stops at a block whose buddy is not free, having absorbed free pages only.\<close>

lemma merge_buddies_open:
  assumes "buddy_open s F idx (idx + 2 ^ k)" "2 ^ k dvd idx" "k \<le> BUDDY_MAX_ORDER"
    and "idx + 2 ^ k \<le> G_MEM_TOTAL_PAGE s" "merge_buddies idx k s = (i, k', s')"
  shows "(\<exists>F'. buddy_open s' F' i (i + 2 ^ k')) \<and> k' \<le> BUDDY_MAX_ORDER \<and> 2 ^ k' dvd i \<and>
     i \<le> idx \<and> idx + 2 ^ k \<le> i + 2 ^ k' \<and> i + 2 ^ k' \<le> G_MEM_TOTAL_PAGE s \<and> \<not> mergeable i k' s' \<and>
     (\<forall>j. i \<le> j \<and> j < i + 2 ^ k' \<and> \<not> (idx \<le> j \<and> j < idx + 2 ^ k) \<longrightarrow> free_state (fr_state (frame_array s j))) \<and>
     (\<forall>j. \<not> (i \<le> j \<and> j < i + 2 ^ k') \<longrightarrow> frame_array s' j = frame_array s j) \<and>
     G_MEM_TOTAL_PAGE s' = G_MEM_TOTAL_PAGE s \<and> G_MEMPOOL_START s' = G_MEMPOOL_START s \<and>
     G_MEMPOOL_SIZE s' = G_MEMPOOL_SIZE s \<and> buddy_ready s' = buddy_ready s"
  using assms
proof (induction "BUDDY_MAX_ORDER - k" arbitrary: idx k s F rule: less_induct)
  case less
  show ?case
  proof (cases "mergeable idx k s")
    case False
    with less.prems show ?thesis by (subst (asm) merge_buddies_eq) auto
  next
    case True
    obtain idx1 s1 where st: "merge_step idx k s = (idx1, s1)" by fastforce
    note step = merge_step_open [OF less.prems(1,2) True less.prems(4) st]
    from step(1) obtain F1 where o1: "buddy_open s1 F1 idx1 (idx1 + 2 ^ Suc k)" by blast
    have k: "k < BUDDY_MAX_ORDER" using True by (simp add: mergeable_def)
    have rec: "merge_buddies idx1 (Suc k) s1 = (i, k', s')"
      using less.prems(5) st True by (subst (asm) merge_buddies_eq) simp
    have "BUDDY_MAX_ORDER - Suc k < BUDDY_MAX_ORDER - k" using k by simp
    from less.hyps [OF this o1 _ _ _ rec] step k
    have IH: "(\<exists>F'. buddy_open s' F' i (i + 2 ^ k')) \<and> k' \<le> BUDDY_MAX_ORDER \<and> 2 ^ k' dvd i \<and>
       i \<le> idx1 \<and> idx1 + 2 ^ Suc k \<le> i + 2 ^ k' \<and> i + 2 ^ k' \<le> G_MEM_TOTAL_PAGE s \<and> \<not> mergeable i k' s'"
      and IHf: "\<And>j. i \<le> j \<Longrightarrow> j < i + 2 ^ k' \<Longrightarrow> \<not> (idx1 \<le> j \<and> j < idx1 + 2 ^ Suc k) \<Longrightarrow>
        free_state (fr_state (frame_array s1 j))"
      and IHo: "\<And>j. \<not> (i \<le> j \<and> j < i + 2 ^ k') \<Longrightarrow> frame_array s' j = frame_array s1 j"
      and flds: "G_MEM_TOTAL_PAGE s' = G_MEM_TOTAL_PAGE s" "G_MEMPOOL_START s' = G_MEMPOOL_START s"
        "G_MEMPOOL_SIZE s' = G_MEMPOOL_SIZE s" "buddy_ready s' = buddy_ready s"
      by auto
    have "free_state (fr_state (frame_array s j))"
      if "i \<le> j" "j < i + 2 ^ k'" "\<not> (idx \<le> j \<and> j < idx + 2 ^ k)" for j
    proof (cases "idx1 \<le> j \<and> j < idx1 + 2 ^ Suc k")
      case True
      with that step(2) show ?thesis by blast
    next
      case False
      with that IHf step(3) show ?thesis by metis
    qed
    moreover have "frame_array s' j = frame_array s j" if "\<not> (i \<le> j \<and> j < i + 2 ^ k')" for j
    proof -
      have "\<not> (idx1 \<le> j \<and> j < idx1 + 2 ^ Suc k)" using that IH by linarith
      with that IHo step(3) show ?thesis by metis
    qed
    moreover have "i \<le> idx \<and> idx + 2 ^ k \<le> i + 2 ^ k'" using IH step(1) by linarith
    ultimately show ?thesis using IH flds by blast
  qed
qed

text \<open>
  Freeing an allocated block: the invariant holds again, exactly the pages of the block become
  free, and no frame of any other allocated or reserved page changes.
\<close>

definition free_pages :: "buddy \<Rightarrow> nat set" where
  "free_pages s = {j. j < G_MEM_TOTAL_PAGE s \<and> free_state (fr_state (frame_array s j))}"

lemma fill_merged:
  assumes op: "buddy_open s F i (i + 2 ^ k)" and k: "k \<le> BUDDY_MAX_ORDER" "2 ^ k dvd i"
    and n: "i + 2 ^ k \<le> G_MEM_TOTAL_PAGE s" and stop: "\<not> mergeable i k s"
  shows "\<exists>F'. buddy_open (add_free_block i k s) F' 0 0"
proof -
  let ?s' = "add_free_block i k s"
  have t: "tiled (frame_array s) 0 i" "tiled (frame_array s) (i + 2 ^ k) (G_MEM_TOTAL_PAGE s)"
    using op by (auto simp: buddy_open_def)
  have t0: "tiled (frame_array ?s') 0 i"
    by (rule tiled_cong [OF t(1)]) (simp add: add_free_block_frames mark_block_outside)
  have "tiled (frame_array ?s') (i + 2 ^ k) (G_MEM_TOTAL_PAGE s)"
    by (rule tiled_cong [OF t(2)]) (simp add: add_free_block_frames mark_block_outside)
  moreover have "block (frame_array ?s') i k"
    unfolding add_free_block_frames using k by (intro block_mark_free)
  ultimately have t1: "tiled (frame_array ?s') i (G_MEM_TOTAL_PAGE s)" by (blast intro: tiled_block)
  have "i XOR 2 ^ k \<notin> free_heads s i (i + 2 ^ k) k" if "k < BUDDY_MAX_ORDER"
  proof
    assume b: "i XOR 2 ^ k \<in> free_heads s i (i + 2 ^ k) k"
    then have "order_of (frame_array s (i XOR 2 ^ k)) = k"
      using that by (simp add: free_heads_def free_at_def order_of_def BUDDY_MAX_ORDER_def nat_mod_as_int)
    with b that stop show False by (simp add: mergeable_def free_heads_def free_at_def)
  qed
  then have "\<exists>F'. buddy_open ?s' F' i i"
    using t0 t1 k n by (intro fill_free [OF op]) auto
  moreover have "tiled (frame_array ?s') 0 (G_MEM_TOTAL_PAGE ?s')"
    using t0 t1 by (auto intro: tiled_append)
  ultimately show ?thesis using buddy_open_move tiled_self by blast
qed

lemma free_block_spec:
  assumes op: "buddy_open s F 0 0" and blk: "block (frame_array s) idx k"
    and st: "fr_state (frame_array s idx) = PAGE_STATE_ALLOC_PAGE_HEAD" and n: "idx < G_MEM_TOTAL_PAGE s"
  shows "\<exists>F'. buddy_open (free_block idx s) F' 0 0"
    and "free_pages (free_block idx s) = free_pages s \<union> {idx..<idx + 2 ^ k}"
    and "\<And>j. j \<notin> free_pages s \<Longrightarrow> j \<notin> {idx..<idx + 2 ^ k} \<Longrightarrow>
      frame_array (free_block idx s) j = frame_array s j"
    and "G_MEM_TOTAL_PAGE (free_block idx s) = G_MEM_TOTAL_PAGE s"
      "G_MEMPOOL_START (free_block idx s) = G_MEMPOOL_START s"
      "G_MEMPOOL_SIZE (free_block idx s) = G_MEMPOOL_SIZE s"
      "buddy_ready (free_block idx s) = buddy_ready s"
    and "idx + 2 ^ k \<le> G_MEM_TOTAL_PAGE s"
proof -
  let ?s1 = "s\<lparr>frame_array := mark_block idx k PAGE_STATE_FREE_HEAD PAGE_STATE_FREE_TAIL (frame_array s)\<rparr>"
  obtain l where l: "block (frame_array s) idx l" "idx + 2 ^ l \<le> G_MEM_TOTAL_PAGE s" "buddy_open s F idx idx"
    using buddy_open_at_head [OF op n] st by (auto simp: head_state_def)
  have "l = k" using l(1) blk by (rule block_order_unique)
  with l show le: "idx + 2 ^ k \<le> G_MEM_TOTAL_PAGE s" by simp
  from l(3) blk le st have "buddy_open s F idx (idx + 2 ^ k)" by (intro buddy_open_nonfree) auto
  then have o1: "buddy_open ?s1 F idx (idx + 2 ^ k)"
    by (rule buddy_open_frames) (auto simp: mark_block_outside)
  have k: "k \<le> BUDDY_MAX_ORDER" "2 ^ k dvd idx" using blk by (auto simp: block_def)
  obtain i k' s2 where m: "merge_buddies idx k ?s1 = (i, k', s2)" by (metis prod_cases3)
  note M = merge_buddies_open [OF o1 k(2,1) _ m, simplified, OF le]
  have fb: "free_block idx s = add_free_block i k' s2"
    using m order_of_block [OF blk] by (simp add: free_block_def)
  show "\<exists>F'. buddy_open (free_block idx s) F' 0 0"
    unfolding fb using M by (elim conjE exE) (rule fill_merged, auto)
  have fr1: "frame_array s2 j = frame_array s j" if "\<not> (i \<le> j \<and> j < i + 2 ^ k')" for j
  proof -
    have "frame_array s2 j = frame_array ?s1 j" using M that by simp
    moreover have "j < idx \<or> idx + 2 ^ k \<le> j" using M that by linarith
    ultimately show ?thesis by (simp add: mark_block_outside)
  qed
  have fin: "frame_array (free_block idx s) j = frame_array s j" if "\<not> (i \<le> j \<and> j < i + 2 ^ k')" for j
  proof -
    have "j < i \<or> i + 2 ^ k' \<le> j" using that by linarith
    then show ?thesis using fr1 [OF that] by (simp add: fb add_free_block_frames mark_block_outside)
  qed
  have fout: "free_state (fr_state (frame_array (free_block idx s) j))" if "i \<le> j" "j < i + 2 ^ k'" for j
    using that by (auto simp: fb add_free_block_frames mark_block_eq free_state_def)
  have was: "free_state (fr_state (frame_array s j))"
    if "i \<le> j" "j < i + 2 ^ k'" "\<not> (idx \<le> j \<and> j < idx + 2 ^ k)" for j
  proof -
    have "free_state (fr_state (frame_array ?s1 j))" using M that by simp
    moreover have "j < idx \<or> idx + 2 ^ k \<le> j" using that by linarith
    ultimately show ?thesis by (simp add: mark_block_outside)
  qed
  show "frame_array (free_block idx s) j = frame_array s j"
    if "j \<notin> free_pages s" "j \<notin> {idx..<idx + 2 ^ k}" for j
  proof (rule fin, rule notI)
    assume j: "i \<le> j \<and> j < i + 2 ^ k'"
    moreover have "i + 2 ^ k' \<le> G_MEM_TOTAL_PAGE s" using M by simp
    ultimately have "j < G_MEM_TOTAL_PAGE s" by linarith
    with j that was [of j] show False by (auto simp: free_pages_def)
  qed
  show "G_MEM_TOTAL_PAGE (free_block idx s) = G_MEM_TOTAL_PAGE s"
      "G_MEMPOOL_START (free_block idx s) = G_MEMPOOL_START s"
      "G_MEMPOOL_SIZE (free_block idx s) = G_MEMPOOL_SIZE s"
      "buddy_ready (free_block idx s) = buddy_ready s"
    using M by (simp_all add: fb)
  then show "free_pages (free_block idx s) = free_pages s \<union> {idx..<idx + 2 ^ k}"
    using M was fin fout le unfolding free_pages_def
    by (intro set_eqI) (metis (no_types, lifting) Un_iff atLeastLessThan_iff mem_Collect_eq order_trans less_le_trans)
qed

section \<open>Free runs and free blocks\<close>

text \<open>
  In a coalesced tiling every aligned run of free pages lies inside one free block. This is what
  makes the allocator complete: looking at the heads of the free lists is enough.
\<close>

lemma free_page_block:
  assumes "buddy_open s F 0 0" "j \<in> free_pages s"
  shows "\<exists>i k. free_at (frame_array s) i k \<and> block (frame_array s) i k \<and> i \<le> j \<and> j < i + 2 ^ k \<and>
    i + 2 ^ k \<le> G_MEM_TOTAL_PAGE s"
proof -
  have "tiled (frame_array s) 0 (G_MEM_TOTAL_PAGE s)" using assms(1) by (simp add: buddy_open_def)
  then obtain i k where b: "block (frame_array s) i k" "i \<le> j" "j < i + 2 ^ k"
    "tiled (frame_array s) (i + 2 ^ k) (G_MEM_TOTAL_PAGE s)"
    using tiled_page [of "frame_array s" 0 "G_MEM_TOTAL_PAGE s" j] assms(2) by (auto simp: free_pages_def)
  have "fr_state (frame_array s i) = PAGE_STATE_FREE_HEAD"
  proof (cases "i = j")
    case True
    then show ?thesis
      using assms(2) block_head_state [OF b(1)] by (auto simp: free_pages_def free_state_def head_state_def)
  next
    case False
    then show ?thesis using b assms(2) block_tail [OF b(1), of j] by (auto simp: free_pages_def)
  qed
  with b show ?thesis by (auto simp: block_free_at dest: tiled_le)
qed

lemma free_block_pages:
  assumes "block (frame_array s) i k" "fr_state (frame_array s i) = PAGE_STATE_FREE_HEAD"
    and "i + 2 ^ k \<le> G_MEM_TOTAL_PAGE s"
  shows "{i..<i + 2 ^ k} \<subseteq> free_pages s"
proof
  fix j assume j: "j \<in> {i..<i + 2 ^ k}"
  then have "j < G_MEM_TOTAL_PAGE s" using assms(3) by simp
  with j show "j \<in> free_pages s"
    using assms block_tail [OF assms(1), of j] by (cases "j = i") (auto simp: free_pages_def free_state_def)
qed

text \<open>A block that meets an aligned run of at most its size contains it.\<close>

lemma aligned_contains:
  fixes i j :: nat
  assumes "2 ^ k dvd i" "2 ^ m dvd j" "m \<le> k" "i \<le> x" "x < i + 2 ^ k" "j \<le> x" "x < j + 2 ^ m"
  shows "i \<le> j \<and> j + 2 ^ m \<le> i + 2 ^ k"
proof -
  have i: "2 ^ m dvd i" "2 ^ m dvd i + 2 ^ k"
    using assms(1,3) by (auto intro: dvd_pow2_mono dvd_add simp: le_imp_power_dvd)
  have "i \<le> j"
    using dvd_pow2_less_add [OF assms(2) i(1)] assms(4,7) by (cases "i \<le> j") auto
  moreover have "j < i + 2 ^ k" using assms(5,6) by simp
  ultimately show ?thesis using dvd_pow2_less_add [OF assms(2) i(2)] by simp
qed

lemma free_run_in_block:
  assumes op: "buddy_open s F 0 0"
  shows "m \<le> BUDDY_MAX_ORDER \<Longrightarrow> 2 ^ m dvd j \<Longrightarrow> {j..<j + 2 ^ m} \<subseteq> free_pages s \<Longrightarrow>
    \<exists>i k. free_at (frame_array s) i k \<and> block (frame_array s) i k \<and> i + 2 ^ k \<le> G_MEM_TOTAL_PAGE s \<and>
      m \<le> k \<and> i \<le> j \<and> j + 2 ^ m \<le> i + 2 ^ k"
proof (induction m arbitrary: j)
  case 0
  then have "j \<in> free_pages s" by simp
  from free_page_block [OF op this] show ?case by fastforce
next
  case (Suc m)
  have al: "2 ^ m dvd j" "2 ^ m dvd j + 2 ^ m" using Suc.prems(2) by (auto intro: dvd_pow2_mono)
  have "{j..<j + 2 ^ m} \<subseteq> free_pages s" "{j + 2 ^ m..<j + 2 ^ m + 2 ^ m} \<subseteq> free_pages s"
    using Suc.prems(3) by (auto simp: subset_iff)
  with Suc.IH al Suc.prems(1) obtain i k i' k' where
    b: "free_at (frame_array s) i k" "block (frame_array s) i k" "i + 2 ^ k \<le> G_MEM_TOTAL_PAGE s"
      "m \<le> k" "i \<le> j" "j + 2 ^ m \<le> i + 2 ^ k"
    and b': "free_at (frame_array s) i' k'" "block (frame_array s) i' k'" "i' + 2 ^ k' \<le> G_MEM_TOTAL_PAGE s"
      "m \<le> k'" "i' \<le> j + 2 ^ m" "j + 2 ^ m + 2 ^ m \<le> i' + 2 ^ k'"
    by (metis Suc_leD)
  have pos: "0 < (2 :: nat) ^ m" by simp
  have "Suc m \<le> k \<or> Suc m \<le> k'"
  proof (rule ccontr)
    assume "\<not> (Suc m \<le> k \<or> Suc m \<le> k')"
    with b(4) b'(4) have k: "k = m" "k' = m" by auto
    with b b' have i: "i = j" "i' = j + 2 ^ m"
      using dvd_pow2_less_add [of m i j] dvd_pow2_less_add [of m i' "j + 2 ^ m"] al
      by (auto simp: block_def)
    have lt: "j < G_MEM_TOTAL_PAGE s" "j + 2 ^ m < G_MEM_TOTAL_PAGE s"
      using b(3) b'(3) pos unfolding k i by linarith+
    have "j XOR 2 ^ m = j + 2 ^ m" using Suc.prems(2) nat_flip_bit [OF al(1)] by simp
    then have "j \<in> free_heads s 0 0 m" "j XOR 2 ^ m \<in> free_heads s 0 0 m"
      using b(1) b'(1) lt unfolding k i by (auto simp: free_heads_def)
    moreover have "coalesced s 0 0" using op by (simp add: buddy_open_def)
    ultimately show False using Suc.prems(1) by (auto simp: coalesced_def)
  qed
  then show ?case
  proof
    assume k: "Suc m \<le> k"
    have "j < i + 2 ^ k" using b(6) pos by linarith
    then have "i \<le> j \<and> j + 2 ^ Suc m \<le> i + 2 ^ k"
      using b(2,5) k Suc.prems(2) by (intro aligned_contains [of k i "Suc m" j j]) (auto simp: block_def)
    with b k show ?thesis by blast
  next
    assume k: "Suc m \<le> k'"
    have "j + 2 ^ m < i' + 2 ^ k'" using b'(6) pos by linarith
    then have "i' \<le> j \<and> j + 2 ^ Suc m \<le> i' + 2 ^ k'"
      using b'(2,5) k Suc.prems(2)
      by (intro aligned_contains [of k' i' "Suc m" j "j + 2 ^ m"]) (auto simp: block_def)
    with b' k show ?thesis by blast
  qed
qed

text \<open>The free blocks are determined by the set of free pages: they are its maximal aligned runs.\<close>

lemma free_heads_eq:
  assumes op: "buddy_open s F 0 0" and k: "k \<le> BUDDY_MAX_ORDER"
  shows "free_heads s 0 0 k =
    {i. 2 ^ k dvd i \<and> {i..<i + 2 ^ k} \<subseteq> free_pages s \<and>
        (k < BUDDY_MAX_ORDER \<longrightarrow> \<not> (\<exists>j. 2 ^ Suc k dvd j \<and> j \<le> i \<and> i < j + 2 ^ Suc k \<and>
                                      {j..<j + 2 ^ Suc k} \<subseteq> free_pages s))}"
proof (intro set_eqI iffI)
  fix i assume i: "i \<in> free_heads s 0 0 k"
  then have fa: "free_at (frame_array s) i k" and lt: "i < G_MEM_TOTAL_PAGE s" by (auto simp: free_heads_def)
  then have "head_state (fr_state (frame_array s i))" by (simp add: free_at_def head_state_def)
  from buddy_open_at_head [OF op lt this] obtain l where "block (frame_array s) i l" "i + 2 ^ l \<le> G_MEM_TOTAL_PAGE s"
    by blast
  moreover from this fa have "l = k" by (simp add: free_at_def block_def)
  ultimately have b: "block (frame_array s) i k" "i + 2 ^ k \<le> G_MEM_TOTAL_PAGE s" by auto
  have "{i..<i + 2 ^ k} \<subseteq> free_pages s" using b fa by (intro free_block_pages) (auto simp: free_at_def)
  moreover have False
    if "k < BUDDY_MAX_ORDER" "2 ^ Suc k dvd j" "j \<le> i" "i < j + 2 ^ Suc k" "{j..<j + 2 ^ Suc k} \<subseteq> free_pages s" for j
  proof -
    from free_run_in_block [OF op _ that(2,5)] that(1) obtain i' k' where
      b': "block (frame_array s) i' k'" "Suc k \<le> k'" "i' \<le> j" "j + 2 ^ Suc k \<le> i' + 2 ^ k'" by auto
    have "k = k'"
      using blocks_same [OF b(1) b'(1), of i] b'(3,4) that(3,4) by auto
    with b'(2) show False by simp
  qed
  ultimately show "i \<in> {i. 2 ^ k dvd i \<and> {i..<i + 2 ^ k} \<subseteq> free_pages s \<and>
        (k < BUDDY_MAX_ORDER \<longrightarrow> \<not> (\<exists>j. 2 ^ Suc k dvd j \<and> j \<le> i \<and> i < j + 2 ^ Suc k \<and>
                                      {j..<j + 2 ^ Suc k} \<subseteq> free_pages s))}"
    using b(1) by (auto simp: block_def)
next
  fix i assume "i \<in> {i. 2 ^ k dvd i \<and> {i..<i + 2 ^ k} \<subseteq> free_pages s \<and>
        (k < BUDDY_MAX_ORDER \<longrightarrow> \<not> (\<exists>j. 2 ^ Suc k dvd j \<and> j \<le> i \<and> i < j + 2 ^ Suc k \<and>
                                      {j..<j + 2 ^ Suc k} \<subseteq> free_pages s))}"
  then have al: "2 ^ k dvd i" and sub: "{i..<i + 2 ^ k} \<subseteq> free_pages s"
    and max: "k < BUDDY_MAX_ORDER \<Longrightarrow> 2 ^ Suc k dvd j \<Longrightarrow> j \<le> i \<Longrightarrow> i < j + 2 ^ Suc k \<Longrightarrow>
      \<not> {j..<j + 2 ^ Suc k} \<subseteq> free_pages s" for j
    by auto
  from free_run_in_block [OF op k al sub] obtain i' k' where
    b: "free_at (frame_array s) i' k'" "block (frame_array s) i' k'" "i' + 2 ^ k' \<le> G_MEM_TOTAL_PAGE s"
      "k \<le> k'" "i' \<le> i" "i + 2 ^ k \<le> i' + 2 ^ k'" by auto
  have pos: "0 < (2 :: nat) ^ k" by simp
  have "k' = k"
  proof (rule ccontr)
    assume "k' \<noteq> k"
    with b(2,4) have k': "Suc k \<le> k'" "k < BUDDY_MAX_ORDER" by (auto simp: block_def)
    let ?j = "i - i mod 2 ^ Suc k"
    have "0 < (2 :: nat) ^ Suc k" by simp
    then have "i mod 2 ^ Suc k < 2 ^ Suc k" by (rule mod_less_divisor)
    then have "?j \<le> i" "i < ?j + 2 ^ Suc k" by linarith+
    with dvd_minus_mod [of "2 ^ Suc k" i] have j: "2 ^ Suc k dvd ?j" "?j \<le> i" "i < ?j + 2 ^ Suc k"
      by blast+
    have "i < i' + 2 ^ k'" using b(6) pos by linarith
    then have "i' \<le> ?j \<and> ?j + 2 ^ Suc k \<le> i' + 2 ^ k'"
      using b j k' by (intro aligned_contains [of k' i' "Suc k" ?j i]) (auto simp: block_def simp del: power_Suc)
    moreover have "{i'..<i' + 2 ^ k'} \<subseteq> free_pages s"
      using b by (intro free_block_pages) (auto simp: free_at_def)
    ultimately have "{?j..<?j + 2 ^ Suc k} \<subseteq> free_pages s" by (auto simp: subset_iff simp del: power_Suc)
    with max [OF k'(2) j] show False by blast
  qed
  moreover from this b al have "i' = i"
    using dvd_pow2_less_add [of k i' i] by (auto simp: block_def)
  moreover have "i < G_MEM_TOTAL_PAGE s" using b(3,6) pos by linarith
  ultimately show "i \<in> free_heads s 0 0 k"
    using b by (auto simp: free_heads_def)
qed

end
