(* ===== verification/Buddy_Init.thy ===== *)
theory Buddy_Init
  imports Buddy_Correct
begin

text \<open>
  \<open>buddy_init\<close> establishes the invariant: it cuts every run of unreserved pages into the largest
  aligned blocks that fit, and this greedy cut leaves no two free buddies side by side.
\<close>

section \<open>The loops of buddy_init\<close>

lemma count_free_spec:
  assumes "idx + c \<le> n" "\<And>j. idx \<le> j \<Longrightarrow> j < idx + c \<Longrightarrow> fr_state (f j) \<noteq> PAGE_STATE_RESERVED"
  defines "r \<equiv> count_free f n idx c"
  shows "c \<le> r \<and> idx + r \<le> n \<and> (\<forall>j. idx \<le> j \<and> j < idx + r \<longrightarrow> fr_state (f j) \<noteq> PAGE_STATE_RESERVED) \<and>
    (n \<le> idx + r \<or> fr_state (f (idx + r)) = PAGE_STATE_RESERVED)"
  using assms(1,2) unfolding r_def
proof (induction f n idx c rule: count_free.induct)
  case (1 f n idx c)
  show ?case
  proof (cases "idx + c < n \<and> fr_state (f (idx + c)) \<noteq> PAGE_STATE_RESERVED")
    case True
    have "fr_state (f j) \<noteq> PAGE_STATE_RESERVED" if "idx \<le> j" "j < idx + Suc c" for j
      using that True "1.prems"(2) [of j] by (cases "j = idx + c") auto
    with True 1 show ?thesis by (auto simp: count_free.simps [of f n idx c])
  next
    case False
    with "1.prems" show ?thesis by (auto simp: count_free.simps [of f n idx c])
  qed
qed

lemma nat_and_mask: "(i :: nat) AND (2 ^ k - 1) = 0 \<longleftrightarrow> 2 ^ k dvd i"
  by (simp add: mask_eq_exp_minus_1 [symmetric] take_bit_eq_mask [symmetric] take_bit_eq_mod
      dvd_eq_mod_eq_0 del: One_nat_def)

lemma pick_order_spec:
  "pick_order idx c m = Some k \<Longrightarrow> k \<le> m \<and> 2 ^ k dvd idx \<and> 2 ^ k \<le> c \<and>
     (\<forall>l. k < l \<and> l \<le> m \<and> 2 ^ l dvd idx \<longrightarrow> c < 2 ^ l)"
proof (induction m)
  case 0
  then show ?case by (subst (asm) pick_order.simps) (auto split: if_splits)
next
  case (Suc m)
  show ?case
  proof (cases "idx AND (2 ^ Suc m - 1) = 0 \<and> 2 ^ Suc m \<le> c")
    case True
    with Suc.prems have "k = Suc m" by (subst (asm) pick_order.simps) simp
    moreover have "2 ^ Suc m dvd idx" "2 ^ Suc m \<le> c" using True nat_and_mask by blast+
    ultimately show ?thesis by simp
  next
    case False
    have "pick_order idx c (Suc m) = pick_order idx c m"
      by (subst pick_order.simps) (simp only: False if_False nat.case)
    with Suc.prems have "pick_order idx c m = Some k" by simp
    with Suc.IH have k: "k \<le> m" "2 ^ k dvd idx" "2 ^ k \<le> c"
      and mx: "\<And>l. k < l \<Longrightarrow> l \<le> m \<Longrightarrow> 2 ^ l dvd idx \<Longrightarrow> c < 2 ^ l" by auto
    have "c < 2 ^ l" if "k < l" "l \<le> Suc m" "2 ^ l dvd idx" for l
    proof (cases "l = Suc m")
      case True
      with that(3) False nat_and_mask have "\<not> 2 ^ Suc m \<le> c" by blast
      with True show ?thesis by (simp only: not_le)
    qed (use that mx in auto)
    with k show ?thesis by (auto simp del: power_Suc)
  qed
qed

lemma pick_order_some: "0 < c \<Longrightarrow> pick_order idx c m \<noteq> None"
proof (induction m)
  case 0
  then show ?case by (subst pick_order.simps) simp
next
  case (Suc m)
  then show ?case by (subst pick_order.simps) (simp del: power_Suc)
qed

section \<open>Carving a run\<close>

text \<open>No free block that ends at \<open>idx\<close> could merge with a block of its size cut at \<open>idx\<close>.\<close>

definition no_left :: "buddy \<Rightarrow> nat \<Rightarrow> nat \<Rightarrow> bool" where
  "no_left s idx c \<longleftrightarrow> (\<forall>i k. i + 2 ^ k = idx \<and> free_at (frame_array s) i k \<and> k < BUDDY_MAX_ORDER \<and>
     2 ^ Suc k dvd i \<longrightarrow> c < 2 ^ k)"

lemma free_at_block:
  assumes "tiled f a b" "a \<le> i" "i < b" "free_at f i k"
  shows "block f i k"
proof -
  obtain l where "block f i l"
    using tiled_head [OF assms(1-3)] assms(4) by (auto simp: free_at_def head_state_def)
  moreover from this assms(4) have "l = k" by (simp add: block_def free_at_def)
  ultimately show ?thesis by simp
qed

lemma carve_step:
  assumes op: "buddy_open s F idx (G_MEM_TOTAL_PAGE s)" and n: "idx + c \<le> G_MEM_TOTAL_PAGE s"
    and nl: "no_left s idx c" and pk: "pick_order idx c BUDDY_MAX_ORDER = Some k"
  shows "\<exists>F'. buddy_open (add_free_block idx k s) F' (idx + 2 ^ k) (G_MEM_TOTAL_PAGE s)"
    and "no_left (add_free_block idx k s) (idx + 2 ^ k) (c - 2 ^ k)"
proof -
  let ?s' = "add_free_block idx k s" and ?n = "G_MEM_TOTAL_PAGE s"
  note P = pick_order_spec [OF pk]
  have t: "tiled (frame_array s) 0 idx" using op by (auto simp: buddy_open_def)
  have b: "block (frame_array ?s') idx k"
    unfolding add_free_block_frames using P by (intro block_mark_free) auto
  have "tiled (frame_array ?s') 0 idx"
    by (rule tiled_cong [OF t]) (simp add: add_free_block_frames mark_block_outside)
  then have t': "tiled (frame_array ?s') 0 (idx + 2 ^ k)"
    using tiled_one [OF b] by (rule tiled_append)
  have pos: "0 < (2 :: nat) ^ k" by simp
  have lone: "idx XOR 2 ^ k \<notin> free_heads s idx ?n k" if "k < BUDDY_MAX_ORDER"
  proof -
    have "2 ^ k dvd idx" using P by simp
    then show ?thesis
    proof (cases rule: buddy_cases)
      case upper
      then show ?thesis by (simp add: free_heads_def)
    next
      case lower
      have "c < 2 ^ k" if "free_at (frame_array s) (idx XOR 2 ^ k) k"
        using nl lower that \<open>k < BUDDY_MAX_ORDER\<close> unfolding no_left_def by blast
      with P show ?thesis by (auto simp: free_heads_def)
    qed
  qed
  have le: "idx + 2 ^ k \<le> ?n" using P n by linarith
  show "\<exists>F'. buddy_open ?s' F' (idx + 2 ^ k) ?n"
    using P le lone t' by (intro fill_free [OF op, where a' = "idx + 2 ^ k" and b' = ?n]) (auto intro: tiled_self)
  show "no_left ?s' (idx + 2 ^ k) (c - 2 ^ k)"
    unfolding no_left_def
  proof (intro allI impI, elim conjE)
    fix i l assume i: "i + 2 ^ l = idx + 2 ^ k" "free_at (frame_array ?s') i l" "l < BUDDY_MAX_ORDER"
      "2 ^ Suc l dvd i"
    have posl: "0 < (2 :: nat) ^ l" by simp
    have "i < idx + 2 ^ k" using i(1) posl by linarith
    then have "block (frame_array ?s') i l" using i(2) by (intro free_at_block [OF t']) auto
    then have "i = idx \<and> l = k"
      using i(1) pos posl by (intro blocks_same [OF _ b, of i l "idx + 2 ^ k - 1"]) linarith+
    with i(3,4) P have "c < 2 ^ Suc k" by (metis Suc_leI lessI)
    with \<open>i = idx \<and> l = k\<close> pos show "c - 2 ^ k < 2 ^ l" by simp
  qed
qed

lemma carve_open:
  assumes "buddy_open s F idx (G_MEM_TOTAL_PAGE s)" "idx + c \<le> G_MEM_TOTAL_PAGE s" "no_left s idx c"
  shows "(\<exists>F'. buddy_open (carve idx c s) F' (idx + c) (G_MEM_TOTAL_PAGE s)) \<and>
    (\<forall>j. \<not> (idx \<le> j \<and> j < idx + c) \<longrightarrow> frame_array (carve idx c s) j = frame_array s j) \<and>
    (\<forall>j. idx \<le> j \<and> j < idx + c \<longrightarrow> free_state (fr_state (frame_array (carve idx c s) j)))"
  using assms
proof (induction idx c s arbitrary: F rule: carve.induct)
  case (1 idx c s)
  show ?case
  proof (cases "c = 0")
    case True
    with "1.prems" show ?thesis by (auto simp: carve.simps [of idx 0 s])
  next
    case False
    then obtain k where pk: "pick_order idx c BUDDY_MAX_ORDER = Some k"
      using pick_order_some by blast
    let ?s' = "add_free_block idx k s"
    note P = pick_order_spec [OF pk] and step = carve_step [OF "1.prems" pk]
    have cv: "carve idx c s = carve (idx + 2 ^ k) (c - 2 ^ k) ?s'"
      using False pk by (simp add: carve.simps [of idx c s])
    have e: "idx + 2 ^ k + (c - 2 ^ k) = idx + c" using P by simp
    from step(1) obtain F' where o1: "buddy_open ?s' F' (idx + 2 ^ k) (G_MEM_TOTAL_PAGE s)" by blast
    note IH = "1.IH" [OF False pk, of F', unfolded add_free_block_total e, OF o1 "1.prems"(2) step(2)]
    have fr: "frame_array ?s' j = frame_array s j" if "\<not> (idx \<le> j \<and> j < idx + 2 ^ k)" for j
      using that by (auto simp: add_free_block_frames mark_block_eq)
    have fs: "free_state (fr_state (frame_array ?s' j))" if "idx \<le> j" "j < idx + 2 ^ k" for j
      using that by (auto simp: add_free_block_frames mark_block_eq free_state_def)
    have "frame_array (carve idx c s) j = frame_array s j" if "\<not> (idx \<le> j \<and> j < idx + c)" for j
    proof -
      have "\<not> (idx + 2 ^ k \<le> j \<and> j < idx + c)" "\<not> (idx \<le> j \<and> j < idx + 2 ^ k)"
        using that P by linarith+
      with IH fr show ?thesis by (simp add: cv)
    qed
    moreover have "free_state (fr_state (frame_array (carve idx c s) j))" if "idx \<le> j" "j < idx + c" for j
      using that IH fs [of j] by (cases "j < idx + 2 ^ k") (auto simp: cv)
    ultimately show ?thesis using IH by (simp add: cv)
  qed
qed

section \<open>Scanning the pool\<close>

text \<open>The pages from \<open>idx\<close> on are as the first loop of \<open>buddy_init\<close> left them.\<close>

definition scan_inv :: "buddy \<Rightarrow> nat \<Rightarrow> bool" where
  "scan_inv s idx \<longleftrightarrow> (\<exists>F. buddy_open s F idx (G_MEM_TOTAL_PAGE s)) \<and> idx \<le> G_MEM_TOTAL_PAGE s \<and>
     (idx < G_MEM_TOTAL_PAGE s \<and> fr_state (frame_array s idx) \<noteq> PAGE_STATE_RESERVED \<longrightarrow>
        (\<forall>i k. i + 2 ^ k = idx \<longrightarrow> \<not> free_at (frame_array s) i k))"

definition set_order0 :: "nat \<Rightarrow> buddy \<Rightarrow> buddy" where
  "set_order0 idx s =
     s\<lparr>frame_array := (frame_array s)(idx := (frame_array s idx)\<lparr>fr_order := 0\<rparr>)\<rparr>"

lemma scan_reserved:
  assumes inv: "scan_inv s idx" and n: "idx < G_MEM_TOTAL_PAGE s"
    and r: "fr_state (frame_array s idx) = PAGE_STATE_RESERVED"
  shows "scan_inv (set_order0 idx s) (Suc idx)"
proof -
  let ?s' = "set_order0 idx s"
  from inv obtain F where op: "buddy_open s F idx (G_MEM_TOTAL_PAGE s)" by (auto simp: scan_inv_def)
  have b: "block (frame_array ?s') idx 0" using r by (simp add: block_def set_order0_def)
  have "tiled (frame_array s) 0 idx" using op by (simp add: buddy_open_def)
  then have "tiled (frame_array ?s') 0 idx" by (rule tiled_cong) (simp add: set_order0_def)
  then have t: "tiled (frame_array ?s') 0 (Suc idx)" using tiled_one [OF b] by (simp add: tiled_append)
  have heads: "free_heads ?s' (Suc idx) (G_MEM_TOTAL_PAGE s) k = free_heads s idx (G_MEM_TOTAL_PAGE s) k" for k
    using r n by (auto simp: free_heads_def set_order0_def free_at_def Suc_le_eq)
  have "buddy_open ?s' F (Suc idx) (G_MEM_TOTAL_PAGE s)"
    using op t n unfolding buddy_open_def coalesced_def
    by (simp add: heads) (auto simp: set_order0_def intro: tiled_self)
  moreover have "\<not> free_at (frame_array ?s') i k" if e: "i + 2 ^ k = Suc idx" for i k
  proof
    assume f: "free_at (frame_array ?s') i k"
    have pos: "0 < (2 :: nat) ^ k" by simp
    then have le: "i < Suc idx" "i \<le> idx" using e by linarith+
    have "block (frame_array ?s') i k" using le f by (intro free_at_block [OF t]) auto
    then have "i = idx" using blocks_same [OF _ b, of i k idx] le e by simp
    with f r show False by (simp add: free_at_def set_order0_def)
  qed
  moreover have "G_MEM_TOTAL_PAGE ?s' = G_MEM_TOTAL_PAGE s" by (simp add: set_order0_def)
  ultimately show ?thesis using n unfolding scan_inv_def by (metis Suc_leI)
qed

lemma scan_run:
  assumes inv: "scan_inv s idx" and n: "idx < G_MEM_TOTAL_PAGE s"
    and r: "fr_state (frame_array s idx) \<noteq> PAGE_STATE_RESERVED"
  defines "c \<equiv> count_free (frame_array s) (G_MEM_TOTAL_PAGE s) idx 0"
  shows "scan_inv (carve idx c s) (idx + c)"
    and "\<And>j. \<not> (idx \<le> j \<and> j < idx + c) \<Longrightarrow> frame_array (carve idx c s) j = frame_array s j"
    and "\<And>j. idx \<le> j \<Longrightarrow> j < idx + c \<Longrightarrow> free_state (fr_state (frame_array (carve idx c s) j)) \<and>
      fr_state (frame_array s j) \<noteq> PAGE_STATE_RESERVED"
    and "idx + c \<le> G_MEM_TOTAL_PAGE s"
proof -
  have C: "idx + c \<le> G_MEM_TOTAL_PAGE s"
    "\<And>j. idx \<le> j \<Longrightarrow> j < idx + c \<Longrightarrow> fr_state (frame_array s j) \<noteq> PAGE_STATE_RESERVED"
    "G_MEM_TOTAL_PAGE s \<le> idx + c \<or> fr_state (frame_array s (idx + c)) = PAGE_STATE_RESERVED"
    using count_free_spec [of idx 0 "G_MEM_TOTAL_PAGE s" "frame_array s"] n unfolding c_def by auto
  from inv n r obtain F where op: "buddy_open s F idx (G_MEM_TOTAL_PAGE s)" and nl: "no_left s idx c"
    by (auto simp: scan_inv_def no_left_def)
  note V = carve_open [OF op C(1) nl]
  then show "frame_array (carve idx c s) j = frame_array s j" if "\<not> (idx \<le> j \<and> j < idx + c)" for j
    using that by blast
  with V C show "scan_inv (carve idx c s) (idx + c)" by (auto simp: scan_inv_def)
  show "free_state (fr_state (frame_array (carve idx c s) j)) \<and> fr_state (frame_array s j) \<noteq> PAGE_STATE_RESERVED"
    if "idx \<le> j" "j < idx + c" for j using V C(2) that by blast
  show "idx + c \<le> G_MEM_TOTAL_PAGE s" by (rule C(1))
qed

lemma carve_fields [simp]:
  "G_MEMPOOL_START (carve idx c s) = G_MEMPOOL_START s"
  "G_MEMPOOL_SIZE (carve idx c s) = G_MEMPOOL_SIZE s"
proof (induction idx c s rule: carve.induct)
  case (1 idx c s)
  { case 1 with "1.IH" show ?case by (simp add: carve.simps [of idx c s] split: option.split) }
  { case 2 with "1.IH" show ?case by (simp add: carve.simps [of idx c s] split: option.split) }
qed

lemma scan_pages_spec:
  assumes "scan_inv s idx"
  defines "s' \<equiv> scan_pages idx s"
  shows "(\<exists>F. buddy_open s' F 0 0) \<and> G_MEM_TOTAL_PAGE s' = G_MEM_TOTAL_PAGE s \<and>
    G_MEMPOOL_START s' = G_MEMPOOL_START s \<and> G_MEMPOOL_SIZE s' = G_MEMPOOL_SIZE s \<and>
    (\<forall>j. \<not> (idx \<le> j \<and> j < G_MEM_TOTAL_PAGE s) \<longrightarrow> frame_array s' j = frame_array s j) \<and>
    (\<forall>j. idx \<le> j \<and> j < G_MEM_TOTAL_PAGE s \<longrightarrow>
       (free_state (fr_state (frame_array s' j)) \<longleftrightarrow> fr_state (frame_array s j) \<noteq> PAGE_STATE_RESERVED) \<and>
       (fr_state (frame_array s j) = PAGE_STATE_RESERVED \<longrightarrow>
          fr_state (frame_array s' j) = PAGE_STATE_RESERVED))"
  using assms(1) unfolding s'_def
proof (induction idx s rule: scan_pages.induct)
  case (1 idx s)
  consider (stop) "\<not> idx < G_MEM_TOTAL_PAGE s"
    | (res) "idx < G_MEM_TOTAL_PAGE s" "fr_state (frame_array s idx) = PAGE_STATE_RESERVED"
    | (run) "idx < G_MEM_TOTAL_PAGE s" "fr_state (frame_array s idx) \<noteq> PAGE_STATE_RESERVED" by blast
  then show ?case
  proof cases
    case stop
    with "1.prems" have "idx = G_MEM_TOTAL_PAGE s" "\<exists>F. buddy_open s F idx (G_MEM_TOTAL_PAGE s)"
      by (auto simp: scan_inv_def)
    then obtain F where op: "buddy_open s F (G_MEM_TOTAL_PAGE s) (G_MEM_TOTAL_PAGE s)" by auto
    then have "tiled (frame_array s) 0 (G_MEM_TOTAL_PAGE s)" by (simp add: buddy_open_def)
    with op have "buddy_open s F 0 0" by (intro buddy_open_move [OF op]) (auto intro: tiled_self)
    moreover have "scan_pages idx s = s" using stop by (simp add: scan_pages.simps [of idx s])
    ultimately show ?thesis using \<open>idx = _\<close> by auto
  next
    case res
    let ?s1 = "set_order0 idx s"
    have sc: "scan_pages idx s = scan_pages (Suc idx) ?s1"
      using res by (simp add: scan_pages.simps [of idx s] set_order0_def)
    note IH = "1.IH"(1) [OF res, folded set_order0_def, OF scan_reserved [OF "1.prems" res]]
    have fr: "frame_array ?s1 j = frame_array s j" if "j \<noteq> idx" for j
      using that by (simp add: set_order0_def)
    let ?s2 = "scan_pages (Suc idx) ?s1"
    have at: "fr_state (frame_array ?s2 idx) = PAGE_STATE_RESERVED"
      using IH res by (simp add: set_order0_def)
    have flds: "G_MEM_TOTAL_PAGE ?s1 = G_MEM_TOTAL_PAGE s" "G_MEMPOOL_START ?s1 = G_MEMPOOL_START s"
      "G_MEMPOOL_SIZE ?s1 = G_MEMPOOL_SIZE s" by (simp_all add: set_order0_def)
    have "(free_state (fr_state (frame_array ?s2 j)) \<longleftrightarrow> fr_state (frame_array s j) \<noteq> PAGE_STATE_RESERVED) \<and>
       (fr_state (frame_array s j) = PAGE_STATE_RESERVED \<longrightarrow> fr_state (frame_array ?s2 j) = PAGE_STATE_RESERVED)"
      if "idx \<le> j" "j < G_MEM_TOTAL_PAGE s" for j
    proof (cases "j = idx")
      case False
      with that IH fr [of j] show ?thesis by (simp add: flds)
    qed (use at res in \<open>simp add: free_state_def\<close>)
    moreover have "frame_array ?s1 j = frame_array s j" if "\<not> (idx \<le> j \<and> j < G_MEM_TOTAL_PAGE s)" for j
      using that res by (intro fr) auto
    ultimately show ?thesis using IH unfolding sc by (simp add: flds Suc_le_eq)
  next
    case run
    let ?c = "count_free (frame_array s) (G_MEM_TOTAL_PAGE s) idx 0"
    let ?s1 = "carve idx ?c s"
    have sc: "scan_pages idx s = scan_pages (idx + ?c) ?s1"
      using run by (simp add: scan_pages.simps [of idx s] Let_def)
    note R = scan_run [OF "1.prems" run]
    note IH = "1.IH"(2) [OF run refl R(1)]
    let ?s2 = "scan_pages (idx + ?c) ?s1"
    have "(free_state (fr_state (frame_array ?s2 j)) \<longleftrightarrow> fr_state (frame_array s j) \<noteq> PAGE_STATE_RESERVED) \<and>
       (fr_state (frame_array s j) = PAGE_STATE_RESERVED \<longrightarrow> fr_state (frame_array ?s2 j) = PAGE_STATE_RESERVED)"
      if j: "idx \<le> j" "j < G_MEM_TOTAL_PAGE s" for j
    proof (cases "j < idx + ?c")
      case True
      with IH have "frame_array ?s2 j = frame_array ?s1 j" by simp
      with R(3) [OF j(1) True] show ?thesis by simp
    next
      case False
      with IH j R(2) [of j] show ?thesis by simp
    qed
    moreover have "frame_array ?s2 j = frame_array s j" if "\<not> (idx \<le> j \<and> j < G_MEM_TOTAL_PAGE s)" for j
    proof -
      from that R(4) have o: "\<not> (idx + ?c \<le> j \<and> j < G_MEM_TOTAL_PAGE s)" "\<not> (idx \<le> j \<and> j < idx + ?c)"
        by auto
      from o(1) IH have "frame_array ?s2 j = frame_array ?s1 j" by (metis carve_total)
      with R(2) [OF o(2)] show ?thesis by simp
    qed
    ultimately show ?thesis using IH unfolding sc by simp
  qed
qed

section \<open>buddy_init\<close>

lemma fold_init_page:
  "frame_array (fold init_page [0..<m] s) j =
     (if j < m then init_frame (frame_array s j) else frame_array s j)"
  by (induction m) (auto simp: init_page_def)

lemma fold_init_page_fields:
  "G_MEM_TOTAL_PAGE (fold init_page [0..<m] s) = G_MEM_TOTAL_PAGE s \<and>
   G_MEMPOOL_START (fold init_page [0..<m] s) = G_MEMPOOL_START s \<and>
   G_MEMPOOL_SIZE (fold init_page [0..<m] s) = G_MEMPOOL_SIZE s"
  by (induction m) (auto simp: init_page_def)

lemma fold_init_area_fields:
  "frame_array (fold init_area [0..<m] s) = frame_array s \<and>
   G_MEM_TOTAL_PAGE (fold init_area [0..<m] s) = G_MEM_TOTAL_PAGE s \<and>
   G_MEMPOOL_START (fold init_area [0..<m] s) = G_MEMPOOL_START s \<and>
   G_MEMPOOL_SIZE (fold init_area [0..<m] s) = G_MEMPOOL_SIZE s"
  by (induction m) (auto simp: init_area_def)

lemma fold_init_area:
  "k < m \<Longrightarrow> dlist (free_area (fold init_area [0..<m] s)) (AreaHead k) []"
proof (induction m)
  case (Suc m)
  show ?case
  proof (cases "k = m")
    case False
    with Suc have "dlist (free_area (fold init_area [0..<m] s)) (AreaHead k) []" by simp
    then have "dlist (INIT_LIST_HEAD (AreaHead m) (free_area (fold init_area [0..<m] s))) (AreaHead k) []"
      by (rule dlist_cong) (use False in \<open>auto simp: INIT_LIST_HEAD_def set_next_def set_prev_def\<close>)
    then show ?thesis by (simp add: init_area_def [of m])
  qed (simp add: init_area_def [of m] dlist_init)
qed simp

lemma buddy_init_spec:
  assumes pool: "pool_ok s"
  shows "buddy_inv (buddy_init s)"
    and "free_pages (buddy_init s) =
      {j. j < G_MEM_TOTAL_PAGE s \<and> fr_state (frame_array s j) \<noteq> PAGE_STATE_RESERVED}"
    and "\<And>j. j < G_MEM_TOTAL_PAGE s \<Longrightarrow> fr_state (frame_array s j) = PAGE_STATE_RESERVED \<Longrightarrow>
      fr_state (frame_array (buddy_init s) j) = PAGE_STATE_RESERVED"
    and "\<And>j. G_MEM_TOTAL_PAGE s \<le> j \<Longrightarrow> frame_array (buddy_init s) j = frame_array s j"
    and "G_MEM_TOTAL_PAGE (buddy_init s) = G_MEM_TOTAL_PAGE s"
      "G_MEMPOOL_START (buddy_init s) = G_MEMPOOL_START s"
      "G_MEMPOOL_SIZE (buddy_init s) = G_MEMPOOL_SIZE s"
proof -
  let ?n = "G_MEM_TOTAL_PAGE s"
  define s1 where "s1 = fold init_page [0..<?n] s"
  define s2 where "s2 = fold init_area [0..<Suc BUDDY_MAX_ORDER] s1"
  have fr: "frame_array s2 j = (if j < ?n then init_frame (frame_array s j) else frame_array s j)" for j
    using fold_init_page [of ?n s j] fold_init_area_fields [of "Suc BUDDY_MAX_ORDER" s1]
    by (simp add: s1_def s2_def del: upt_Suc)
  have flds: "G_MEM_TOTAL_PAGE s2 = ?n" "G_MEMPOOL_START s2 = G_MEMPOOL_START s"
    "G_MEMPOOL_SIZE s2 = G_MEMPOOL_SIZE s"
    using fold_init_page_fields [of ?n s] fold_init_area_fields [of "Suc BUDDY_MAX_ORDER" s1]
    by (simp_all add: s1_def s2_def del: upt_Suc)
  have lists: "dlists (free_area s2) {..BUDDY_MAX_ORDER} AreaHead (area_lists (\<lambda>_. []))"
    using fold_init_area [of _ "Suc BUDDY_MAX_ORDER" s1]
    by (auto simp: dlists_def s2_def less_Suc_eq_le simp del: upt_Suc)
  have st: "fr_state (frame_array s2 j) = PAGE_STATE_RESERVED \<longleftrightarrow> fr_state (frame_array s j) = PAGE_STATE_RESERVED"
    if "j < ?n" for j using that by (simp add: fr init_frame_def Let_def)
  have "free_heads s2 0 ?n k = {}" for k by (auto simp: free_heads_def flds)
  then have "buddy_open s2 (\<lambda>_. []) 0 ?n"
    using lists by (simp add: buddy_open_def flds tiled_self coalesced_def)
  moreover have "i + 2 ^ k \<noteq> 0" for i k :: nat by simp
  ultimately have "scan_inv s2 0" by (auto simp: scan_inv_def flds)
  note S = scan_pages_spec [OF this, unfolded flds]
  have bi: "buddy_init s = scan_pages 0 s2\<lparr>buddy_ready := True\<rparr>"
    by (simp add: buddy_init_def Let_def s1_def s2_def del: upt_Suc)
  then show "G_MEM_TOTAL_PAGE (buddy_init s) = ?n" "G_MEMPOOL_START (buddy_init s) = G_MEMPOOL_START s"
    "G_MEMPOOL_SIZE (buddy_init s) = G_MEMPOOL_SIZE s" using S by simp_all
  have "buddy_open (t\<lparr>buddy_ready := True\<rparr>) F a b = buddy_open t F a b" for t F a b
    by (simp add: buddy_open_def free_heads_def coalesced_def)
  with S pool show "buddy_inv (buddy_init s)" by (simp add: buddy_inv_def bi pool_ok_def)
  show "free_pages (buddy_init s) =
      {j. j < ?n \<and> fr_state (frame_array s j) \<noteq> PAGE_STATE_RESERVED}"
    using S st by (auto simp: bi free_pages_def)
  show "fr_state (frame_array (buddy_init s) j) = PAGE_STATE_RESERVED"
    if "j < ?n" "fr_state (frame_array s j) = PAGE_STATE_RESERVED" for j
    using S st that by (simp add: bi)
  show "frame_array (buddy_init s) j = frame_array s j" if "?n \<le> j" for j
    using S that by (simp add: bi fr)
qed

end
