(* ===== verification/Alloc_Interface.thy ===== *)
theory Alloc_Interface
  imports Prelude
begin

text \<open>
  The contract of a memory allocator with shared ownership, as its clients rely on it. A region is
  a pair of start address and length; \<open>owners s b\<close> counts the outstanding references to the region
  \<open>b\<close>: 1 after an allocation, more where a page is shared copy-on-write, 0 when nobody holds it.
  The page allocator (\<open>src/lib/buddy.c\<close>) and the heap on top of it (\<open>src/src/allocator.c\<close>) both
  satisfy the contract; what follows from it for arbitrary sequences of requests is proved once.
\<close>

type_synonym region = "nat \<times> nat"

definition apart :: "region \<Rightarrow> region \<Rightarrow> bool" where
  "apart b c \<longleftrightarrow> fst b + snd b \<le> fst c \<or> fst c + snd c \<le> fst b"

datatype 'r request = Alloc 'r | Release u64

text \<open>A sequence of requests: the pointers handed out (0 on failure), and the final state.\<close>

fun serve :: "('r \<Rightarrow> 's \<Rightarrow> u64 \<times> 's) \<Rightarrow> (u64 \<Rightarrow> 's \<Rightarrow> 's) \<Rightarrow> 'r request list \<Rightarrow> 's \<Rightarrow> u64 list \<times> 's" where
  "serve alloc release [] s = ([], s)"
| "serve alloc release (Alloc r # cs) s =
     (let (p, s) = alloc r s; (ps, s) = serve alloc release cs s in (p # ps, s))"
| "serve alloc release (Release p # cs) s = serve alloc release cs (release p s)"

definition releases :: "u64 \<Rightarrow> 'r request list \<Rightarrow> nat" where
  "releases p cs = length (filter (\<lambda>c. c = Release p) cs)"

lemma releases_simps [simp]:
  "releases p [] = 0"
  "releases p (Alloc r # cs) = releases p cs"
  "releases p (Release q # cs) = (if q = p then Suc (releases p cs) else releases p cs)"
  by (simp_all add: releases_def)

lemma apart_sym: "apart b c \<Longrightarrow> apart c b"
  by (auto simp: apart_def)

locale ref_allocator =
  fixes inv :: "'s \<Rightarrow> bool"
    and owners :: "'s \<Rightarrow> region \<Rightarrow> nat"
    and alloc :: "'r \<Rightarrow> 's \<Rightarrow> u64 \<times> 's"
    and release :: "u64 \<Rightarrow> 's \<Rightarrow> 's"
    and need :: "'r \<Rightarrow> nat"
  assumes alloc_inv: "inv s \<Longrightarrow> inv (snd (alloc r s))"
    and alloc_null: "inv s \<Longrightarrow> fst (alloc r s) = 0 \<Longrightarrow> owners (snd (alloc r s)) = owners s"
    and alloc_fresh: "inv s \<Longrightarrow> fst (alloc r s) \<noteq> 0 \<Longrightarrow>
      \<exists>len \<ge> need r. owners (snd (alloc r s)) = (owners s)((unat (fst (alloc r s)), len) := 1) \<and>
        (\<forall>b. 0 < owners s b \<longrightarrow> apart b (unat (fst (alloc r s)), len))"
    and release_inv: "inv s \<Longrightarrow> inv (release p s)"
    and release_owners: "inv s \<Longrightarrow>
      owners (release p s) b = (if fst b = unat p then owners s b - 1 else owners s b)"
    and owned_apart: "inv s \<Longrightarrow> 0 < owners s b \<Longrightarrow> 0 < owners s c \<Longrightarrow> b \<noteq> c \<Longrightarrow> apart b c"
    and owned_nonempty: "inv s \<Longrightarrow> 0 < owners s b \<Longrightarrow> 0 < snd b"
begin

lemma serve_inv: "inv s \<Longrightarrow> inv (snd (serve alloc release cs s))"
proof (induction cs arbitrary: s)
  case (Cons c cs)
  show ?case
  proof (cases c)
    case (Alloc r)
    with Cons alloc_inv [of s r] show ?thesis
      by (auto simp: split_beta)
  next
    case (Release p)
    with Cons release_inv show ?thesis by auto
  qed
qed simp

lemma serve_apart:
  assumes "inv s" "0 < owners (snd (serve alloc release cs s)) b"
    "0 < owners (snd (serve alloc release cs s)) c" "b \<noteq> c"
  shows "apart b c"
  using owned_apart serve_inv assms by blast

text \<open>An allocation leaves the other regions alone, and an owned region is never handed out again.\<close>

lemma alloc_keeps:
  assumes "inv s" "0 < owners s b"
  shows "owners (snd (alloc r s)) b = owners s b"
    and "fst (alloc r s) \<noteq> 0 \<Longrightarrow> \<not> (fst b \<le> unat (fst (alloc r s)) \<and> unat (fst (alloc r s)) < fst b + snd b)"
proof -
  have keep: "owners (snd (alloc r s)) b = owners s b \<and>
      \<not> (fst b \<le> unat (fst (alloc r s)) \<and> unat (fst (alloc r s)) < fst b + snd b)"
    if nz: "fst (alloc r s) \<noteq> 0"
  proof -
    from alloc_fresh [OF assms(1) nz] obtain len where
      o: "owners (snd (alloc r s)) = (owners s)((unat (fst (alloc r s)), len) := 1)"
      and ap: "apart b (unat (fst (alloc r s)), len)" using assms(2) by blast
    have "0 < len"
      using owned_nonempty [OF alloc_inv [OF assms(1)], of r "(unat (fst (alloc r s)), len)"] by (simp add: o)
    moreover have "0 < snd b" using owned_nonempty assms by blast
    ultimately show ?thesis using ap by (auto simp: o apart_def)
  qed
  then show "owners (snd (alloc r s)) b = owners s b" using alloc_null [OF assms(1)] by metis
  show "fst (alloc r s) \<noteq> 0 \<Longrightarrow> \<not> (fst b \<le> unat (fst (alloc r s)) \<and> unat (fst (alloc r s)) < fst b + snd b)"
    using keep by blast
qed

text \<open>
  Ownership over a run of requests: as long as a region is released less often than it is owned,
  it stays owned, and no pointer handed out meanwhile points into it.
\<close>

lemma serve_keeps:
  assumes "inv s" "releases p cs < owners s (unat p, len)"
  shows "owners s (unat p, len) - releases p cs \<le> owners (snd (serve alloc release cs s)) (unat p, len) \<and>
    (\<forall>q \<in> set (fst (serve alloc release cs s)). q \<noteq> 0 \<longrightarrow> \<not> (unat p \<le> unat q \<and> unat q < unat p + len))"
  using assms
proof (induction cs arbitrary: s)
  case (Cons c cs)
  show ?case
  proof (cases c)
    case (Alloc r)
    with Cons.prems have "0 < owners s (unat p, len)" by simp
    note k = alloc_keeps [OF Cons.prems(1) this, of r]
    have "releases p cs < owners (snd (alloc r s)) (unat p, len)"
      using Cons.prems(2) Alloc by (simp add: k)
    from Cons.IH [OF alloc_inv [OF Cons.prems(1)] this] show ?thesis
      using k Alloc by (auto simp: split_beta)
  next
    case (Release q)
    have o: "owners (release q s) (unat p, len) = (if q = p then owners s (unat p, len) - 1 else owners s (unat p, len))"
      by (auto simp: release_owners [OF Cons.prems(1)] word_unat_eq_iff [of q p])
    with Cons.prems(2) Release have "releases p cs < owners (release q s) (unat p, len)"
      by (cases "q = p") simp_all
    from Cons.IH [OF release_inv [OF Cons.prems(1)] this] show ?thesis
      using Release o Cons.prems(2) by (cases "q = p") simp_all
  qed
qed simp

text \<open>Freeing what was just allocated gives back every region.\<close>

lemma alloc_release:
  assumes "inv s" "fst (alloc r s) \<noteq> 0"
  shows "owners (release (fst (alloc r s)) (snd (alloc r s))) = owners s"
proof -
  let ?p = "fst (alloc r s)"
  from alloc_fresh [OF assms] obtain len where
    o: "owners (snd (alloc r s)) = (owners s)((unat ?p, len) := 1)"
    and ap: "\<And>b. 0 < owners s b \<Longrightarrow> apart b (unat ?p, len)" by auto
  have len: "0 < len"
    using owned_nonempty [OF alloc_inv [OF assms(1)], of r "(unat ?p, len)"] by (simp add: o)
  have none: "owners s b = 0" if "fst b = unat ?p" for b
  proof (rule ccontr)
    assume "owners s b \<noteq> 0"
    then have "apart b (unat ?p, len)" "0 < snd b" using ap owned_nonempty [OF assms(1)] by auto
    with len that show False by (auto simp: apart_def)
  qed
  show ?thesis
    by (rule ext) (auto simp: release_owners [OF alloc_inv [OF assms(1)]] o none)
qed

end

end
