(* ===== verification/Buddy_Spec.thy ===== *)
theory Buddy_Spec
  imports Buddy_Init Alloc_Interface
begin

text \<open>
  What the page allocator promises its callers: the addresses it hands out, allocation and release
  on every branch, completeness of the search, and the ownership contract of \<open>Alloc_Interface\<close>.
\<close>

section \<open>Addresses of pages\<close>

lemma PAGE_SIZE_nat: "unat PAGE_SIZE = 2 ^ PAGE_SHIFT"
  by (simp add: PAGE_SIZE_eq PAGE_SHIFT_def)

lemma unat_page_to_addr:
  assumes "pool_ok s" "i < G_MEM_TOTAL_PAGE s"
  shows "unat (page_to_addr s i) = unat (G_MEMPOOL_START s) + i * 2 ^ PAGE_SHIFT"
proof -
  have "i * 2 ^ PAGE_SHIFT < G_MEM_TOTAL_PAGE s * 2 ^ PAGE_SHIFT" using assms(2) by simp
  with assms(1) have lt: "unat (G_MEMPOOL_START s) + i * 2 ^ PAGE_SHIFT < 2 ^ 64"
    unfolding pool_ok_def by linarith
  then have "i < 2 ^ 64" by (simp add: PAGE_SHIFT_def)
  then have "unat (push_bit PAGE_SHIFT (of_nat i :: u64)) = i * 2 ^ PAGE_SHIFT"
    using lt by (simp add: unat_push_bit_u64 unat_of_nat_u64)
  with lt show ?thesis by (simp add: page_to_addr_def unat_add_u64)
qed

lemma page_to_addr_nonnull: "pool_ok s \<Longrightarrow> i < G_MEM_TOTAL_PAGE s \<Longrightarrow> page_to_addr s i \<noteq> 0"
  using unat_page_to_addr [of s i] by (auto simp: pool_ok_def)

lemma page_to_addr_inj:
  "pool_ok s \<Longrightarrow> i < G_MEM_TOTAL_PAGE s \<Longrightarrow> j < G_MEM_TOTAL_PAGE s \<Longrightarrow>
   page_to_addr s i = page_to_addr s j \<Longrightarrow> i = j"
  by (metis (no_types, lifting) add_left_cancel mult_right_cancel unat_page_to_addr power_not_zero zero_neq_numeral)

lemma page_mask: "(p :: u64) AND (PAGE_SIZE - 1) = 0 \<longleftrightarrow> unat p mod 2 ^ PAGE_SHIFT = 0"
proof -
  have "PAGE_SIZE - 1 = mask PAGE_SHIFT"
    by (simp add: PAGE_SIZE_def mask_eq_exp_minus_1 push_bit_eq_mult)
  then have "unat (p AND (PAGE_SIZE - 1)) = unat p mod 2 ^ PAGE_SHIFT"
    by (simp only: unat_take_bit_mod [symmetric]) (simp add: take_bit_eq_mask)
  then show ?thesis by (metis unat_0 unat_eq_0)
qed

text \<open>The checks at the head of \<open>buddy_free_pages\<close> and \<open>free\<close> accept exactly the page addresses.\<close>

lemma pool_addr_iff:
  assumes "pool_ok s"
  shows "\<not> (p < G_MEMPOOL_START s \<or> p \<ge> G_MEMPOOL_START s + G_MEMPOOL_SIZE s) \<longleftrightarrow>
    unat (G_MEMPOOL_START s) \<le> unat p \<and> unat p < unat (G_MEMPOOL_START s) + G_MEM_TOTAL_PAGE s * 2 ^ PAGE_SHIFT"
  using assms by (auto simp: pool_ok_def word_less_nat_alt word_le_nat_alt unat_add_u64)

lemma page_index:
  assumes "pool_ok s" "unat (G_MEMPOOL_START s) \<le> unat p"
  shows "unat (drop_bit PAGE_SHIFT (p - G_MEMPOOL_START s)) =
    (unat p - unat (G_MEMPOOL_START s)) div 2 ^ PAGE_SHIFT"
  using assms by (simp add: unat_simps word_le_nat_alt)

lemma page_index_addr:
  assumes "pool_ok s" "i < G_MEM_TOTAL_PAGE s"
  shows "unat (drop_bit PAGE_SHIFT (page_to_addr s i - G_MEMPOOL_START s)) = i"
  using page_index [OF assms(1), of "page_to_addr s i"] unat_page_to_addr [OF assms] by simp

lemma page_addr_checks:
  assumes "pool_ok s" "i < G_MEM_TOTAL_PAGE s"
  shows "page_to_addr s i \<noteq> 0"
    and "\<not> (page_to_addr s i < G_MEMPOOL_START s \<or> page_to_addr s i \<ge> G_MEMPOOL_START s + G_MEMPOOL_SIZE s)"
    and "page_to_addr s i AND (PAGE_SIZE - 1) = 0"
proof -
  show "page_to_addr s i \<noteq> 0" using assms by (rule page_to_addr_nonnull)
  have "i * 2 ^ PAGE_SHIFT < G_MEM_TOTAL_PAGE s * 2 ^ PAGE_SHIFT" using assms(2) by simp
  then show "\<not> (page_to_addr s i < G_MEMPOOL_START s \<or> page_to_addr s i \<ge> G_MEMPOOL_START s + G_MEMPOOL_SIZE s)"
    using assms unfolding pool_addr_iff [OF assms(1)] by (simp add: unat_page_to_addr)
  have "2 ^ PAGE_SHIFT dvd unat (page_to_addr s i)"
    using assms by (auto simp: unat_page_to_addr pool_ok_def intro: dvd_add)
  then show "page_to_addr s i AND (PAGE_SIZE - 1) = 0" by (simp add: page_mask dvd_eq_mod_eq_0)
qed

lemma checked_page_addr:
  assumes pool: "pool_ok s"
    and r: "\<not> (p < G_MEMPOOL_START s \<or> p \<ge> G_MEMPOOL_START s + G_MEMPOOL_SIZE s)"
    and al: "p AND (PAGE_SIZE - 1) = 0"
  defines "i \<equiv> unat (drop_bit PAGE_SHIFT (p - G_MEMPOOL_START s))"
  shows "i < G_MEM_TOTAL_PAGE s \<and> p = page_to_addr s i"
proof -
  let ?a = "unat (G_MEMPOOL_START s)"
  have le: "?a \<le> unat p" "unat p < ?a + G_MEM_TOTAL_PAGE s * 2 ^ PAGE_SHIFT"
    using r unfolding pool_addr_iff [OF pool] by auto
  have i: "i = (unat p - ?a) div 2 ^ PAGE_SHIFT" unfolding i_def using page_index [OF pool le(1)] .
  have "unat p - ?a < G_MEM_TOTAL_PAGE s * 2 ^ PAGE_SHIFT" using le by linarith
  then have n: "i < G_MEM_TOTAL_PAGE s" by (simp add: i less_mult_imp_div_less)
  have "2 ^ PAGE_SHIFT dvd unat p - ?a"
    using al pool by (auto simp: page_mask pool_ok_def dvd_eq_mod_eq_0 [symmetric] intro: dvd_diff_nat)
  then have "i * 2 ^ PAGE_SHIFT = unat p - ?a" by (simp add: i)
  then have "unat (page_to_addr s i) = unat p" using le by (simp add: unat_page_to_addr [OF pool n])
  with n show ?thesis by (simp add: word_unat_eq_iff)
qed

section \<open>Allocation\<close>

lemma find_area_some:
  "find_area ord s = Some c \<Longrightarrow>
   ord \<le> c \<and> c \<le> BUDDY_MAX_ORDER \<and> \<not> list_empty (AreaHead c) (free_area s)"
  by (auto simp: find_area_def find_Some_iff simp del: upt_Suc)

lemma find_area_none:
  assumes "buddy_open s F 0 0" "find_area ord s = None" "ord \<le> k" "k \<le> BUDDY_MAX_ORDER"
  shows "free_heads s 0 0 k = {}"
proof -
  have "list_empty (AreaHead k) (free_area s)"
    using assms(2-4) by (auto simp: find_area_def find_None_iff simp del: upt_Suc)
  moreover have "dlists (free_area s) {..BUDDY_MAX_ORDER} AreaHead (area_lists F)"
    using assms(1) by (simp add: buddy_open_def)
  ultimately have "F k = []" using dlists_empty [of _ _ _ _ k] assms(4) by fastforce
  then show ?thesis using assms(1,4) by (auto simp: buddy_open_def)
qed

lemma alloc_take:
  assumes inv: "buddy_inv s" and c: "find_area ord s = Some c" and tk: "take_block ord c s = (idx, s2)"
  shows "buddy_alloc_pages ord s = (page_to_addr s idx, s2)" "page_to_addr s idx \<noteq> 0"
proof -
  from inv obtain F where op: "buddy_open s F 0 0" and rd: "buddy_ready s" and pool: "pool_ok s"
    by (auto simp: buddy_inv_def)
  have fa: "ord \<le> c" "c \<le> BUDDY_MAX_ORDER" "\<not> list_empty (AreaHead c) (free_area s)"
    using find_area_some [OF c] by auto
  note T = take_block_spec [OF op fa(2,1,3) tk]
  have "0 < (2 :: nat) ^ c" by simp
  then have "idx < G_MEM_TOTAL_PAGE s" using T(1) by linarith
  then show "page_to_addr s idx \<noteq> 0" using pool by (rule page_to_addr_nonnull [rotated])
  show "buddy_alloc_pages ord s = (page_to_addr s idx, s2)"
    using rd fa c tk T(6) by (simp add: buddy_alloc_pages_def page_to_addr_def)
qed

lemma alloc_success:
  assumes inv: "buddy_inv s" and p: "fst (buddy_alloc_pages ord s) \<noteq> 0"
  defines "s' \<equiv> snd (buddy_alloc_pages ord s)"
  obtains idx where "fst (buddy_alloc_pages ord s) = page_to_addr s idx" "buddy_inv s'" "ord \<le> BUDDY_MAX_ORDER"
    "2 ^ ord dvd idx" "idx + 2 ^ ord \<le> G_MEM_TOTAL_PAGE s" "{idx..<idx + 2 ^ ord} \<subseteq> free_pages s"
    "free_pages s' = free_pages s - {idx..<idx + 2 ^ ord}"
    "block (frame_array s') idx ord" "fr_state (frame_array s' idx) = PAGE_STATE_ALLOC_PAGE_HEAD"
    "cow_ref_count (frame_array s' idx) = 1"
    "\<And>j. j \<notin> free_pages s \<Longrightarrow> frame_array s' j = frame_array s j"
    "G_MEM_TOTAL_PAGE s' = G_MEM_TOTAL_PAGE s" "G_MEMPOOL_START s' = G_MEMPOOL_START s"
    "G_MEMPOOL_SIZE s' = G_MEMPOOL_SIZE s"
proof -
  from inv obtain F where op: "buddy_open s F 0 0" and rd: "buddy_ready s" and pool: "pool_ok s"
    by (auto simp: buddy_inv_def)
  from p rd obtain c where c: "find_area ord s = Some c" and ord: "ord \<le> BUDDY_MAX_ORDER"
    by (auto simp: buddy_alloc_pages_def split: if_splits option.splits)
  have fa: "ord \<le> c" "c \<le> BUDDY_MAX_ORDER" "\<not> list_empty (AreaHead c) (free_area s)"
    using find_area_some [OF c] by auto
  obtain idx s2 where tk: "take_block ord c s = (idx, s2)" by fastforce
  note T = take_block_spec [OF op fa(2,1,3) tk]
  note al = alloc_take(1) [OF inv c tk]
  then have s': "s' = s2" by (simp add: s'_def)
  have pow: "(2 :: nat) ^ ord \<le> 2 ^ c" using fa by (intro power_increasing) auto
  have sub: "{idx..<idx + 2 ^ c} \<subseteq> free_pages s" using T(1) by (intro free_block_pages) auto
  moreover have "{idx..<idx + 2 ^ ord} \<subseteq> {idx..<idx + 2 ^ c}"
    using pow unfolding ivl_subset by linarith
  ultimately have sub': "{idx..<idx + 2 ^ ord} \<subseteq> free_pages s" by blast
  have keep: "frame_array s' j = frame_array s j" if "j \<notin> free_pages s" for j
    unfolding s' using sub that by (intro T(3)) auto
  have le: "idx + 2 ^ ord \<le> G_MEM_TOTAL_PAGE s" using T(1) pow by linarith
  have blk: "block (frame_array s') idx ord" "fr_state (frame_array s' idx) = PAGE_STATE_ALLOC_PAGE_HEAD"
    "cow_ref_count (frame_array s' idx) = 1" using T(2) by (simp_all add: s')
  have "free_pages s' = free_pages s - {idx..<idx + 2 ^ ord}"
  proof (rule set_eqI)
    fix j
    consider "idx \<le> j" "j < idx + 2 ^ ord" | "idx + 2 ^ ord \<le> j" "j < idx + 2 ^ c"
      | "\<not> (idx \<le> j \<and> j < idx + 2 ^ c)" by linarith
    then show "j \<in> free_pages s' \<longleftrightarrow> j \<in> free_pages s - {idx..<idx + 2 ^ ord}"
    proof cases
      case 1
      then have "\<not> free_state (fr_state (frame_array s' j))"
        using block_tail [OF blk(1), of j] blk(2) by (cases "j = idx") (auto simp: free_state_def)
      with 1 show ?thesis by (simp add: free_pages_def)
    next
      case 2
      then have "j \<in> {idx..<idx + 2 ^ c}" by simp
      with sub have "j \<in> free_pages s" by blast
      with 2 T(4) [of j] T(5) show ?thesis by (auto simp: free_pages_def s')
    next
      case 3
      then have "\<not> (idx \<le> j \<and> j < idx + 2 ^ ord)" using pow by linarith
      with T(3) [OF 3] T(5) show ?thesis by (auto simp: free_pages_def s')
    qed
  qed
  moreover have "buddy_inv s'" using T rd pool by (auto simp: s' buddy_inv_def pool_ok_def)
  moreover have "fst (buddy_alloc_pages ord s) = page_to_addr s idx" using al by simp
  moreover have "2 ^ ord dvd idx" using blk(1) by (simp add: block_def)
  ultimately show ?thesis using that T(5-7) ord sub' le blk keep by (simp add: s')
qed

lemma alloc_null_iff:
  assumes inv: "buddy_inv s"
  shows "fst (buddy_alloc_pages ord s) = 0 \<longleftrightarrow>
    BUDDY_MAX_ORDER < ord \<or> (\<forall>i. 2 ^ ord dvd i \<longrightarrow> \<not> {i..<i + 2 ^ ord} \<subseteq> free_pages s)"
proof
  assume z: "fst (buddy_alloc_pages ord s) = 0"
  from inv obtain F where op: "buddy_open s F 0 0" by (auto simp: buddy_inv_def)
  show "BUDDY_MAX_ORDER < ord \<or> (\<forall>i. 2 ^ ord dvd i \<longrightarrow> \<not> {i..<i + 2 ^ ord} \<subseteq> free_pages s)"
  proof (rule ccontr)
    assume "\<not> ?thesis"
    then obtain j where ord: "ord \<le> BUDDY_MAX_ORDER" and j: "2 ^ ord dvd j" "{j..<j + 2 ^ ord} \<subseteq> free_pages s"
      by auto
    from free_run_in_block [OF op ord j] obtain i k where b: "free_at (frame_array s) i k"
      "block (frame_array s) i k" "i + 2 ^ k \<le> G_MEM_TOTAL_PAGE s" "ord \<le> k" by blast
    have "0 < (2 :: nat) ^ k" by simp
    then have "i < G_MEM_TOTAL_PAGE s" using b(3) by linarith
    with b(1) have "i \<in> free_heads s 0 0 k" by (simp add: free_heads_def)
    moreover have "k \<le> BUDDY_MAX_ORDER" using b(2) by (simp add: block_def)
    ultimately obtain c where c: "find_area ord s = Some c" using find_area_none [OF op _ b(4)] by auto
    with z alloc_take [OF inv c] show False by (cases "take_block ord c s") auto
  qed
next
  assume no: "BUDDY_MAX_ORDER < ord \<or> (\<forall>i. 2 ^ ord dvd i \<longrightarrow> \<not> {i..<i + 2 ^ ord} \<subseteq> free_pages s)"
  show "fst (buddy_alloc_pages ord s) = 0"
  proof (rule ccontr)
    assume "fst (buddy_alloc_pages ord s) \<noteq> 0"
    from alloc_success [OF inv this] no show False by (metis leD)
  qed
qed

lemma alloc_null_state:
  assumes "buddy_inv s" "fst (buddy_alloc_pages ord s) = 0"
  shows "snd (buddy_alloc_pages ord s) = s"
proof (cases "find_area ord s")
  case (Some c)
  with alloc_take [OF assms(1) Some] assms(2) show ?thesis by (cases "take_block ord c s") auto
qed (simp add: buddy_alloc_pages_def)

section \<open>Release\<close>

lemma free_success:
  assumes inv: "buddy_inv s" and i: "i < G_MEM_TOTAL_PAGE s" "fr_state (frame_array s i) = PAGE_STATE_ALLOC_PAGE_HEAD"
  defines "s' \<equiv> buddy_free_pages (page_to_addr s i) s"
  obtains k where "block (frame_array s) i k" "i + 2 ^ k \<le> G_MEM_TOTAL_PAGE s" "buddy_inv s'"
    "free_pages s' = free_pages s \<union> {i..<i + 2 ^ k}"
    "\<And>j. j \<notin> free_pages s' \<Longrightarrow> frame_array s' j = frame_array s j"
    "G_MEM_TOTAL_PAGE s' = G_MEM_TOTAL_PAGE s" "G_MEMPOOL_START s' = G_MEMPOOL_START s"
    "G_MEMPOOL_SIZE s' = G_MEMPOOL_SIZE s"
proof -
  from inv obtain F where op: "buddy_open s F 0 0" and rd: "buddy_ready s" and pool: "pool_ok s"
    by (auto simp: buddy_inv_def)
  from buddy_open_at_head [OF op i(1)] i(2) obtain k where blk: "block (frame_array s) i k"
    by (auto simp: head_state_def)
  note B = free_block_spec [OF op blk i(2,1)]
  have s': "s' = free_block i s"
    using rd i page_addr_checks [OF pool i(1)] page_index_addr [OF pool i(1)]
    by (simp add: s'_def buddy_free_pages_def)
  have "frame_array s' j = frame_array s j" if "j \<notin> free_pages s'" for j
    using that B(2) unfolding s' by (intro B(3)) auto
  moreover have "buddy_inv s'" using B(1,4-7) rd pool by (auto simp: s' buddy_inv_def pool_ok_def)
  ultimately show ?thesis using that [OF blk B(8)] B(2,4,5,6) unfolding s' by blast
qed

lemma free_reject:
  assumes "buddy_inv s"
    and "\<And>i. i < G_MEM_TOTAL_PAGE s \<Longrightarrow> fr_state (frame_array s i) = PAGE_STATE_ALLOC_PAGE_HEAD \<Longrightarrow> p \<noteq> page_to_addr s i"
  shows "buddy_free_pages p s = s"
proof (rule ccontr)
  assume ne: "buddy_free_pages p s \<noteq> s"
  have pool: "pool_ok s" using assms(1) by (simp add: buddy_inv_def)
  let ?i = "unat (drop_bit PAGE_SHIFT (p - G_MEMPOOL_START s))"
  from ne have "\<not> (p < G_MEMPOOL_START s \<or> p \<ge> G_MEMPOOL_START s + G_MEMPOOL_SIZE s)"
    "p AND (PAGE_SIZE - 1) = 0" and st: "fr_state (frame_array s ?i) = PAGE_STATE_ALLOC_PAGE_HEAD"
    by (auto simp: buddy_free_pages_def Let_def split: if_splits)
  from checked_page_addr [OF pool this(1,2)] st assms(2) show False by blast
qed

section \<open>The ownership contract\<close>

text \<open>The allocated blocks, as pairs of first page and order, and the regions they occupy.\<close>

definition alloc_blocks :: "buddy \<Rightarrow> (nat \<times> nat) set" where
  "alloc_blocks s = {(i, k). i < G_MEM_TOTAL_PAGE s \<and>
     fr_state (frame_array s i) = PAGE_STATE_ALLOC_PAGE_HEAD \<and> fr_order (frame_array s i) = int k}"

definition page_region :: "buddy \<Rightarrow> nat \<Rightarrow> nat \<Rightarrow> region" where
  "page_region s i k = (unat (G_MEMPOOL_START s) + i * 2 ^ PAGE_SHIFT, 2 ^ k * 2 ^ PAGE_SHIFT)"

definition page_owners :: "buddy \<Rightarrow> region \<Rightarrow> nat" where
  "page_owners s b = (if \<exists>(i, k) \<in> alloc_blocks s. b = page_region s i k then 1 else 0)"

lemma page_region_eq [simp]: "page_region s i k = page_region s j l \<longleftrightarrow> i = j \<and> k = l"
  by (auto simp: page_region_def)

lemma page_region_start:
  "pool_ok s \<Longrightarrow> i < G_MEM_TOTAL_PAGE s \<Longrightarrow> j < G_MEM_TOTAL_PAGE s \<Longrightarrow>
   fst (page_region s j k) = unat (page_to_addr s i) \<longleftrightarrow> i = j"
  by (auto simp: page_region_def unat_page_to_addr)

lemma page_owners_pos: "0 < page_owners s b \<longleftrightarrow> (\<exists>(i, k) \<in> alloc_blocks s. b = page_region s i k)"
  by (simp add: page_owners_def)

lemma page_owners_region: "page_owners s (page_region s i k) = (if (i, k) \<in> alloc_blocks s then 1 else 0)"
  by (auto simp: page_owners_def)

lemma page_region_fields:
  "G_MEMPOOL_START s' = G_MEMPOOL_START s \<Longrightarrow> page_region s' = page_region s"
  by (auto simp: page_region_def fun_eq_iff)

lemma page_owners_cong:
  "alloc_blocks s' = alloc_blocks s \<Longrightarrow> G_MEMPOOL_START s' = G_MEMPOOL_START s \<Longrightarrow> page_owners s' = page_owners s"
  by (simp add: page_owners_def fun_eq_iff page_region_fields [of s' s])

lemma alloc_block:
  assumes "buddy_inv s" "(i, k) \<in> alloc_blocks s"
  shows "block (frame_array s) i k \<and> i + 2 ^ k \<le> G_MEM_TOTAL_PAGE s"
proof -
  from assms obtain F where op: "buddy_open s F 0 0" by (auto simp: buddy_inv_def)
  from assms(2) have i: "i < G_MEM_TOTAL_PAGE s" "head_state (fr_state (frame_array s i))"
    "fr_order (frame_array s i) = int k" by (auto simp: alloc_blocks_def head_state_def)
  from buddy_open_at_head [OF op i(1,2)] obtain l where
    l: "block (frame_array s) i l" "i + 2 ^ l \<le> G_MEM_TOTAL_PAGE s" by blast
  with i(3) have "l = k" by (simp add: block_def)
  with l show ?thesis by simp
qed

lemma block_apart:
  assumes "i + 2 ^ k \<le> j \<or> j + 2 ^ l \<le> (i :: nat)"
  shows "apart (page_region s i k) (page_region s j l)"
  using assms
proof
  assume "i + 2 ^ k \<le> j"
  then have "(i + 2 ^ k) * 2 ^ PAGE_SHIFT \<le> j * 2 ^ PAGE_SHIFT" by (rule mult_le_mono1)
  then show ?thesis by (simp add: apart_def page_region_def algebra_simps)
next
  assume "j + 2 ^ l \<le> i"
  then have "(j + 2 ^ l) * 2 ^ PAGE_SHIFT \<le> i * 2 ^ PAGE_SHIFT" by (rule mult_le_mono1)
  then show ?thesis by (simp add: apart_def page_region_def algebra_simps)
qed

lemma alloc_blocks_apart:
  assumes "buddy_inv s" "(i, k) \<in> alloc_blocks s" "(j, l) \<in> alloc_blocks s" "(i, k) \<noteq> (j, l)"
  shows "apart (page_region s i k) (page_region s j l)"
proof -
  have b: "block (frame_array s) i k" "block (frame_array s) j l"
    using assms alloc_block by blast+
  have "i \<noteq> j" using b assms(4) by (auto dest: block_order_unique)
  then have "i + 2 ^ k \<le> j \<or> j + 2 ^ l \<le> i"
    using blocks_disjoint [OF b] blocks_disjoint [OF b(2,1)] by linarith
  then show ?thesis by (rule block_apart)
qed

lemma not_free_alloc: "(i, k) \<in> alloc_blocks s \<Longrightarrow> i \<notin> free_pages s"
  by (auto simp: alloc_blocks_def free_pages_def free_state_def)

lemma alloc_alloc_blocks:
  assumes inv: "buddy_inv s" and p: "fst (buddy_alloc_pages ord s) \<noteq> 0"
  shows "\<exists>idx. fst (buddy_alloc_pages ord s) = page_to_addr s idx \<and> idx < G_MEM_TOTAL_PAGE s \<and>
    {idx..<idx + 2 ^ ord} \<subseteq> free_pages s \<and>
    alloc_blocks (snd (buddy_alloc_pages ord s)) = insert (idx, ord) (alloc_blocks s) \<and>
    G_MEMPOOL_START (snd (buddy_alloc_pages ord s)) = G_MEMPOOL_START s"
proof -
  let ?s' = "snd (buddy_alloc_pages ord s)"
  from alloc_success [OF inv p] obtain idx where
    A: "fst (buddy_alloc_pages ord s) = page_to_addr s idx" "idx + 2 ^ ord \<le> G_MEM_TOTAL_PAGE s"
      "{idx..<idx + 2 ^ ord} \<subseteq> free_pages s" "free_pages ?s' = free_pages s - {idx..<idx + 2 ^ ord}"
      "block (frame_array ?s') idx ord" "fr_state (frame_array ?s' idx) = PAGE_STATE_ALLOC_PAGE_HEAD"
      "\<And>j. j \<notin> free_pages s \<Longrightarrow> frame_array ?s' j = frame_array s j"
      "G_MEM_TOTAL_PAGE ?s' = G_MEM_TOTAL_PAGE s" "G_MEMPOOL_START ?s' = G_MEMPOOL_START s" by metis
  have "0 < (2 :: nat) ^ ord" by simp
  then have lt: "idx < G_MEM_TOTAL_PAGE s" using A(2) by linarith
  have "(i, k) \<in> alloc_blocks ?s' \<longleftrightarrow> (i, k) \<in> insert (idx, ord) (alloc_blocks s)" for i k
  proof (cases "i \<in> free_pages s")
    case True
    then have old: "(i, k) \<notin> alloc_blocks s" using not_free_alloc by blast
    show ?thesis
    proof (cases "i \<in> {idx..<idx + 2 ^ ord}")
      case True
      show ?thesis
        using old True lt A(5,6,8) block_tail [OF A(5), of i]
        by (cases "i = idx") (auto simp: alloc_blocks_def block_def head_state_def)
    next
      case False
      with \<open>i \<in> free_pages s\<close> have "i \<in> free_pages ?s'" by (simp add: A(4))
      with old False show ?thesis using not_free_alloc [of i k ?s'] by auto
    qed
  next
    case False
    moreover have "idx \<in> {idx..<idx + 2 ^ ord}" by simp
    ultimately have "i \<noteq> idx" using A(3) by blast
    then show ?thesis using A(7) [OF False] A(8) by (auto simp: alloc_blocks_def)
  qed
  then show ?thesis using A(1,3,9) lt by auto
qed

lemma free_alloc_blocks:
  assumes inv: "buddy_inv s" and i: "(i, k) \<in> alloc_blocks s"
  shows "alloc_blocks (buddy_free_pages (page_to_addr s i) s) = alloc_blocks s - {(i, k)} \<and>
    G_MEMPOOL_START (buddy_free_pages (page_to_addr s i) s) = G_MEMPOOL_START s \<and>
    buddy_inv (buddy_free_pages (page_to_addr s i) s)"
proof -
  let ?s' = "buddy_free_pages (page_to_addr s i) s"
  have blk: "block (frame_array s) i k" "i < G_MEM_TOTAL_PAGE s"
    "fr_state (frame_array s i) = PAGE_STATE_ALLOC_PAGE_HEAD"
    using alloc_block [OF inv i] i by (auto simp: alloc_blocks_def)
  from free_success [OF inv blk(2,3)] obtain l where B: "block (frame_array s) i l" "buddy_inv ?s'"
    "free_pages ?s' = free_pages s \<union> {i..<i + 2 ^ l}" "\<And>j. j \<notin> free_pages ?s' \<Longrightarrow> frame_array ?s' j = frame_array s j"
    "G_MEM_TOTAL_PAGE ?s' = G_MEM_TOTAL_PAGE s" "G_MEMPOOL_START ?s' = G_MEMPOOL_START s" by metis
  have l: "l = k" using blk B(1) by (blast dest: block_order_unique)
  have "(j, m) \<in> alloc_blocks ?s' \<longleftrightarrow> (j, m) \<in> alloc_blocks s - {(i, k)}" for j m
  proof (cases "j \<in> free_pages ?s'")
    case False
    then have "j \<noteq> i" by (auto simp: B(3))
    then show ?thesis using B(4) [OF False] B(5) by (auto simp: alloc_blocks_def)
  next
    case True
    have "(j, m) = (i, k)" if m: "(j, m) \<in> alloc_blocks s"
    proof -
      from True not_free_alloc [OF m] have j: "i \<le> j" "j < i + 2 ^ k" by (auto simp: B(3) l)
      have "block (frame_array s) j m" using alloc_block [OF inv m] by blast
      with blocks_same [OF blk(1) this j] show ?thesis by simp
    qed
    moreover have "(j, m) \<notin> alloc_blocks ?s'" using True not_free_alloc by blast
    ultimately show ?thesis by blast
  qed
  with B(2,6) show ?thesis by auto
qed

lemma buddy_free_cases:
  assumes "buddy_inv s"
  obtains (freed) i k where "(i, k) \<in> alloc_blocks s" "p = page_to_addr s i"
    | (ignored) "buddy_free_pages p s = s" "\<And>i k. (i, k) \<in> alloc_blocks s \<Longrightarrow> p \<noteq> page_to_addr s i"
proof (cases "\<exists>(i, k) \<in> alloc_blocks s. p = page_to_addr s i")
  case False
  from assms obtain F where op: "buddy_open s F 0 0" by (auto simp: buddy_inv_def)
  have "p \<noteq> page_to_addr s i" if i: "i < G_MEM_TOTAL_PAGE s" "fr_state (frame_array s i) = PAGE_STATE_ALLOC_PAGE_HEAD" for i
  proof -
    have "head_state (fr_state (frame_array s i))" using i(2) by (simp add: head_state_def)
    from buddy_open_at_head [OF op i(1) this] obtain k where "block (frame_array s) i k" by blast
    then have "(i, k) \<in> alloc_blocks s" using i by (simp add: alloc_blocks_def block_def)
    with False show ?thesis by auto
  qed
  with free_reject [OF assms] have "buddy_free_pages p s = s" by blast
  with False show ?thesis by (intro ignored) auto
qed (use freed in auto)

lemma page_release_owners:
  assumes inv: "buddy_inv s"
  shows "page_owners (buddy_free_pages p s) b = (if fst b = unat p then page_owners s b - 1 else page_owners s b)"
proof -
  have pool: "pool_ok s" using inv by (simp add: buddy_inv_def)
  have lt: "i < G_MEM_TOTAL_PAGE s" if "(i, k) \<in> alloc_blocks s" for i k using that by (simp add: alloc_blocks_def)
  from inv show ?thesis
  proof (cases rule: buddy_free_cases [where p = p])
    case (freed i k)
    have uniq: "m = k" if "(i, m) \<in> alloc_blocks s" for m
      using that freed(1) by (simp add: alloc_blocks_def)
    have f: "alloc_blocks (buddy_free_pages p s) = alloc_blocks s - {(i, k)}"
      "page_region (buddy_free_pages p s) = page_region s"
      using free_alloc_blocks [OF inv freed(1)]
      by (simp add: freed(2), intro page_region_fields, simp add: freed(2))
    show ?thesis
    proof (cases "\<exists>(j, m) \<in> alloc_blocks s. b = page_region s j m")
      case True
      then obtain j m where b: "(j, m) \<in> alloc_blocks s" "b = page_region s j m" by auto
      have "fst b = unat p \<longleftrightarrow> j = i"
        using page_region_start [OF pool lt [OF freed(1)] lt [OF b(1)]] b(2) freed(2) by auto
      moreover have "page_owners s b = 1" using b by (simp add: page_owners_region)
      moreover have "page_owners (buddy_free_pages p s) b = (if (j, m) = (i, k) then 0 else 1)"
        using b page_owners_region [of "buddy_free_pages p s" j m] by (simp add: f)
      ultimately show ?thesis using b(1) uniq by auto
    next
      case False
      then have "page_owners s b = 0" "page_owners (buddy_free_pages p s) b = 0"
        by (auto simp: page_owners_def f)
      then show ?thesis by simp
    qed
  next
    case ignored
    have "page_owners s b = 0" if "fst b = unat p"
    proof (rule ccontr)
      assume "page_owners s b \<noteq> 0"
      then obtain i k where b: "(i, k) \<in> alloc_blocks s" "b = page_region s i k"
        using page_owners_pos [of s b] by auto
      with that have "unat (page_to_addr s i) = unat p"
        by (simp add: unat_page_to_addr [OF pool lt [OF b(1)]] page_region_def)
      with ignored(2) [OF b(1)] show False by (simp add: word_unat_eq_iff)
    qed
    then show ?thesis by (simp add: ignored(1))
  qed
qed

text \<open>A range inside a set and a range outside it do not meet.\<close>

lemma ranges_apart:
  fixes i j m n :: nat
  assumes "{j..<j + n} \<subseteq> S" "\<And>x. i \<le> x \<Longrightarrow> x < i + m \<Longrightarrow> x \<notin> S" "0 < m" "0 < n"
  shows "i + m \<le> j \<or> j + n \<le> i"
proof (rule ccontr)
  assume "\<not> ?thesis"
  then have "max i j \<in> {j..<j + n}" "i \<le> max i j" "max i j < i + m" using assms(3,4) by auto
  with assms(1,2) show False by blast
qed

interpretation pages: ref_allocator buddy_inv page_owners buddy_alloc_pages buddy_free_pages
  "\<lambda>ord. 2 ^ ord * 2 ^ PAGE_SHIFT"
proof
  fix s :: buddy and r p b c
  assume inv: "buddy_inv s"
  let ?a = "buddy_alloc_pages r s"
  show "buddy_inv (snd ?a)"
    using alloc_success [OF inv] alloc_null_state [OF inv] inv by metis
  show "page_owners (snd ?a) = page_owners s" if "fst ?a = 0"
    using alloc_null_state [OF inv that] by simp
  show "\<exists>len \<ge> 2 ^ r * 2 ^ PAGE_SHIFT. page_owners (snd ?a) = (page_owners s)((unat (fst ?a), len) := 1) \<and>
      (\<forall>b. 0 < page_owners s b \<longrightarrow> apart b (unat (fst ?a), len))" if nz: "fst ?a \<noteq> 0"
  proof -
    from alloc_alloc_blocks [OF inv nz] obtain idx where A: "fst ?a = page_to_addr s idx"
      "idx < G_MEM_TOTAL_PAGE s" "{idx..<idx + 2 ^ r} \<subseteq> free_pages s"
      "alloc_blocks (snd ?a) = insert (idx, r) (alloc_blocks s)" "G_MEMPOOL_START (snd ?a) = G_MEMPOOL_START s" by blast
    have reg: "(unat (fst ?a), 2 ^ r * 2 ^ PAGE_SHIFT) = page_region s idx r"
      using inv A(2) by (simp add: A(1) unat_page_to_addr page_region_def buddy_inv_def)
    have "page_owners (snd ?a) = (page_owners s)(page_region s idx r := 1)"
      by (rule ext) (auto simp: page_owners_def A(4) page_region_fields [OF A(5)])
    moreover have "apart b (page_region s idx r)" if "0 < page_owners s b" for b
    proof -
      from that obtain i k where b: "(i, k) \<in> alloc_blocks s" "b = page_region s i k"
        by (auto simp: page_owners_pos)
      have "block (frame_array s) i k" using alloc_block [OF inv b(1)] by blast
      then have "j \<notin> free_pages s" if "i \<le> j" "j < i + 2 ^ k" for j
        using block_tail [of "frame_array s" i k j] b(1) that
        by (cases "j = i") (auto simp: free_pages_def alloc_blocks_def free_state_def)
      then have "i + 2 ^ k \<le> idx \<or> idx + 2 ^ r \<le> i" by (rule ranges_apart [OF A(3)]) simp_all
      then show ?thesis unfolding b(2) by (rule block_apart)
    qed
    ultimately show ?thesis by (intro exI [of _ "2 ^ r * 2 ^ PAGE_SHIFT"]) (simp add: reg)
  qed
  show "buddy_inv (buddy_free_pages p s)"
    using inv by (cases rule: buddy_free_cases [where p = p]) (use free_alloc_blocks [OF inv] inv in auto)
  show "page_owners (buddy_free_pages p s) b = (if fst b = unat p then page_owners s b - 1 else page_owners s b)"
    using inv by (rule page_release_owners)
  show "apart b c" if "0 < page_owners s b" "0 < page_owners s c" "b \<noteq> c"
    using that alloc_blocks_apart [OF inv] by (auto simp: page_owners_pos)
  show "0 < snd b" if "0 < page_owners s b"
    using that by (auto simp: page_owners_pos page_region_def)
qed

end
