(* ===== verification/Buddy_Props.thy ===== *)
theory Buddy_Props
  imports Buddy_Spec
begin

text \<open>
  The public properties of the page allocator (\<open>src/lib/buddy.c\<close>), each stated over the functions
  the rest of the kernel calls, with a small concrete pool that shows their hypotheses can hold.
\<close>

section \<open>A concrete pool\<close>

text \<open>Four pages at \<open>BUDDY_DEFAULT_POOL_START\<close>, with the frame array zeroed as \<open>allocator_init\<close>
  zeroes it, before and after \<open>buddy_init\<close>.\<close>

definition zero_frame :: frame where
  "zero_frame = \<lparr>fr_order = 0, fr_state = PAGE_STATE_FREE_HEAD, meta_pool_idx = 0, ref_count = 0,
     cow_ref_count = 0\<rparr>"

definition raw_pool :: "u64 \<Rightarrow> nat \<Rightarrow> buddy" where
  "raw_pool start n = \<lparr>frame_array = (\<lambda>_. zero_frame),
     free_area = \<lparr>lh_next = (\<lambda>n. n), lh_prev = (\<lambda>n. n)\<rparr>,
     G_MEMPOOL_START = start, G_MEMPOOL_SIZE = push_bit PAGE_SHIFT (of_nat n), G_MEM_TOTAL_PAGE = n,
     buddy_ready = False\<rparr>"

definition pool4 :: buddy where
  "pool4 = buddy_init (raw_pool BUDDY_DEFAULT_POOL_START 4)"

lemma raw_pool4_ok: "pool_ok (raw_pool BUDDY_DEFAULT_POOL_START 4)"
  by (simp add: pool_ok_def raw_pool_def BUDDY_DEFAULT_POOL_START_def PAGE_SHIFT_def push_bit_eq_mult)

lemma raw_pool_simps [simp]:
  "G_MEM_TOTAL_PAGE (raw_pool a n) = n" "G_MEMPOOL_START (raw_pool a n) = a"
  "fr_state (frame_array (raw_pool a n) i) = PAGE_STATE_FREE_HEAD"
  by (simp_all add: raw_pool_def zero_frame_def)

lemma pool4_inv: "buddy_inv pool4"
  unfolding pool4_def using raw_pool4_ok by (rule buddy_init_spec)

lemma pool4_free: "free_pages pool4 = {0..<4}"
  unfolding pool4_def using buddy_init_spec(2) [OF raw_pool4_ok] by (simp add: atLeast0LessThan lessThan_def)

lemma pool4_fields [simp]: "G_MEM_TOTAL_PAGE pool4 = 4" "G_MEMPOOL_START pool4 = BUDDY_DEFAULT_POOL_START"
  unfolding pool4_def using buddy_init_spec(5,6) [OF raw_pool4_ok] by simp_all

lemma pool4_alloc: "fst (buddy_alloc_pages 1 pool4) \<noteq> 0"
proof -
  have "(2 :: nat) ^ 1 dvd 0" "{0..<0 + 2 ^ 1 :: nat} \<subseteq> free_pages pool4" by (auto simp: pool4_free)
  then show ?thesis
    unfolding alloc_null_iff [OF pool4_inv] by (auto simp: BUDDY_MAX_ORDER_def intro!: exI [of _ 0])
qed

section \<open>Initialisation\<close>

text \<open>C7. \<open>buddy_init\<close> builds a well-formed allocator from any frame array and any page-aligned pool:
  the free pages are exactly the unreserved ones, reserved pages stay reserved, and no frame past
  the pool is touched.\<close>

theorem buddy_init_correct:
  assumes "pool_ok s"
  shows "buddy_inv (buddy_init s) \<and>
    free_pages (buddy_init s) = {i. i < G_MEM_TOTAL_PAGE s \<and> fr_state (frame_array s i) \<noteq> PAGE_STATE_RESERVED} \<and>
    (\<forall>i < G_MEM_TOTAL_PAGE s. fr_state (frame_array s i) = PAGE_STATE_RESERVED \<longrightarrow>
       fr_state (frame_array (buddy_init s) i) = PAGE_STATE_RESERVED) \<and>
    (\<forall>i \<ge> G_MEM_TOTAL_PAGE s. frame_array (buddy_init s) i = frame_array s i)"
  using buddy_init_spec [OF assms] by simp

lemma buddy_init_correct_witness:
  "pool_ok (raw_pool BUDDY_DEFAULT_POOL_START 4) \<and>
   buddy_inv (buddy_init (raw_pool BUDDY_DEFAULT_POOL_START 4))"
  using buddy_init_correct [OF raw_pool4_ok] raw_pool4_ok by blast

section \<open>Allocation\<close>

text \<open>C1. A successful \<open>buddy_alloc_pages\<close> returns the address of an aligned run of \<open>2 ^ order\<close> pages
  inside the pool, all of them free before. Exactly these pages stop being free, the head records
  the order and one owner, every frame outside the free pages is left alone, and the allocator
  stays well-formed.\<close>

theorem buddy_alloc_correct:
  assumes "buddy_inv s" "buddy_alloc_pages ord s = (p, s')" "p \<noteq> 0"
  shows "\<exists>idx. p = page_to_addr s idx \<and> unat p = unat (G_MEMPOOL_START s) + idx * 4096 \<and>
    ord \<le> BUDDY_MAX_ORDER \<and> 2 ^ ord dvd idx \<and> idx + 2 ^ ord \<le> G_MEM_TOTAL_PAGE s \<and>
    {idx..<idx + 2 ^ ord} \<subseteq> free_pages s \<and> free_pages s' = free_pages s - {idx..<idx + 2 ^ ord} \<and>
    fr_state (frame_array s' idx) = PAGE_STATE_ALLOC_PAGE_HEAD \<and> fr_order (frame_array s' idx) = int ord \<and>
    cow_ref_count (frame_array s' idx) = 1 \<and>
    (\<forall>i. i \<notin> free_pages s \<longrightarrow> frame_array s' i = frame_array s i) \<and> buddy_inv s'"
proof -
  from alloc_success [OF assms(1)] assms(2,3) obtain idx where A: "p = page_to_addr s idx"
    "buddy_inv s'" "ord \<le> BUDDY_MAX_ORDER" "2 ^ ord dvd idx" "idx + 2 ^ ord \<le> G_MEM_TOTAL_PAGE s"
    "{idx..<idx + 2 ^ ord} \<subseteq> free_pages s" "free_pages s' = free_pages s - {idx..<idx + 2 ^ ord}"
    "block (frame_array s') idx ord" "fr_state (frame_array s' idx) = PAGE_STATE_ALLOC_PAGE_HEAD"
    "cow_ref_count (frame_array s' idx) = 1" "\<And>j. j \<notin> free_pages s \<Longrightarrow> frame_array s' j = frame_array s j"
    by (metis fst_conv snd_conv)
  have "0 < (2 :: nat) ^ ord" by simp
  then have "idx < G_MEM_TOTAL_PAGE s" using A(5) by linarith
  then have "unat p = unat (G_MEMPOOL_START s) + idx * 4096"
    using unat_page_to_addr [of s idx] assms(1) by (simp add: A(1) buddy_inv_def PAGE_SHIFT_def)
  moreover have "fr_order (frame_array s' idx) = int ord" using A(8) by (simp add: block_def)
  ultimately show ?thesis using A by blast
qed

lemma buddy_alloc_correct_witness:
  "\<exists>p s'. buddy_alloc_pages 1 pool4 = (p, s') \<and> p \<noteq> 0 \<and> card (free_pages s') = 2"
proof -
  obtain p s' where a: "buddy_alloc_pages 1 pool4 = (p, s')" and p: "p \<noteq> 0"
    using pool4_alloc by (cases "buddy_alloc_pages 1 pool4") auto
  obtain i where i: "{i..<i + 2} \<subseteq> {0..<4}" "free_pages s' = {0..<4} - {i..<i + 2}"
    using buddy_alloc_correct [OF pool4_inv a p] by (auto simp: pool4_free)
  then have "card (free_pages s') = 2" by (simp add: card_Diff_subset)
  with a p show ?thesis by blast
qed

text \<open>C2. The search is complete: \<open>buddy_alloc_pages\<close> fails exactly when the order is out of range
  or no aligned run of \<open>2 ^ order\<close> free pages exists, and a failure changes nothing. In particular
  merging leaves no fragmentation that a free list could hide.\<close>

theorem buddy_alloc_complete:
  assumes "buddy_inv s"
  shows "(fst (buddy_alloc_pages ord s) = 0 \<longleftrightarrow>
      BUDDY_MAX_ORDER < ord \<or> \<not> (\<exists>i. 2 ^ ord dvd i \<and> {i..<i + 2 ^ ord} \<subseteq> free_pages s)) \<and>
    (fst (buddy_alloc_pages ord s) = 0 \<longrightarrow> snd (buddy_alloc_pages ord s) = s)"
  using alloc_null_iff [OF assms, of ord] alloc_null_state [OF assms, of ord] by blast

lemma buddy_alloc_complete_witness:
  "buddy_inv pool4 \<and> fst (buddy_alloc_pages 3 pool4) = 0 \<and> snd (buddy_alloc_pages 3 pool4) = pool4"
proof -
  have "\<not> {i..<i + 2 ^ 3} \<subseteq> free_pages pool4" for i :: nat
  proof
    assume s: "{i..<i + 2 ^ 3} \<subseteq> free_pages pool4"
    have "i + 7 \<in> {i..<i + 2 ^ 3}" by simp
    with s have "i + 7 \<in> {0..<4 :: nat}" unfolding pool4_free by blast
    then show False by simp
  qed
  then show ?thesis using buddy_alloc_complete [OF pool4_inv, of 3] pool4_inv by blast
qed

section \<open>Release\<close>

text \<open>C3. Freeing an allocated block makes exactly its pages free again, merges it with its free
  buddies so that the allocator stays well-formed, and changes no frame that is in use.\<close>

theorem buddy_free_correct:
  assumes "buddy_inv s" "(idx, ord) \<in> alloc_blocks s"
  defines "s' \<equiv> buddy_free_pages (page_to_addr s idx) s"
  shows "free_pages s' = free_pages s \<union> {idx..<idx + 2 ^ ord} \<and>
    alloc_blocks s' = alloc_blocks s - {(idx, ord)} \<and> buddy_inv s' \<and>
    (\<forall>i. i \<notin> free_pages s' \<longrightarrow> frame_array s' i = frame_array s i)"
proof -
  have b: "block (frame_array s) idx ord" "idx < G_MEM_TOTAL_PAGE s"
    "fr_state (frame_array s idx) = PAGE_STATE_ALLOC_PAGE_HEAD"
    using alloc_block [OF assms(1,2)] assms(2) by (auto simp: alloc_blocks_def)
  from free_success [OF assms(1) b(2,3)] obtain k where B: "block (frame_array s) idx k"
    "free_pages s' = free_pages s \<union> {idx..<idx + 2 ^ k}"
    "\<And>j. j \<notin> free_pages s' \<Longrightarrow> frame_array s' j = frame_array s j"
    unfolding s'_def by metis
  with b(1) have "k = ord" by (blast dest: block_order_unique)
  with B free_alloc_blocks [OF assms(1,2)] show ?thesis unfolding s'_def by blast
qed

lemma pool4_taken:
  obtains idx where "fst (buddy_alloc_pages 1 pool4) = page_to_addr (snd (buddy_alloc_pages 1 pool4)) idx"
    "buddy_inv (snd (buddy_alloc_pages 1 pool4))" "(idx, 1) \<in> alloc_blocks (snd (buddy_alloc_pages 1 pool4))"
    "free_pages (snd (buddy_alloc_pages 1 pool4)) = {0..<4} - {idx..<idx + 2}" "{idx..<idx + 2} \<subseteq> {0..<4}"
  using alloc_success [OF pool4_inv pool4_alloc]
proof cases
  fix i assume A: "fst (buddy_alloc_pages 1 pool4) = page_to_addr pool4 i"
    "buddy_inv (snd (buddy_alloc_pages 1 pool4))" "i + 2 ^ 1 \<le> G_MEM_TOTAL_PAGE pool4"
    "block (frame_array (snd (buddy_alloc_pages 1 pool4))) i 1"
    "fr_state (frame_array (snd (buddy_alloc_pages 1 pool4)) i) = PAGE_STATE_ALLOC_PAGE_HEAD"
    "free_pages (snd (buddy_alloc_pages 1 pool4)) = free_pages pool4 - {i..<i + 2 ^ 1}"
    "{i..<i + 2 ^ 1} \<subseteq> free_pages pool4"
    "G_MEM_TOTAL_PAGE (snd (buddy_alloc_pages 1 pool4)) = G_MEM_TOTAL_PAGE pool4"
    "G_MEMPOOL_START (snd (buddy_alloc_pages 1 pool4)) = G_MEMPOOL_START pool4"
  have "fst (buddy_alloc_pages 1 pool4) = page_to_addr (snd (buddy_alloc_pages 1 pool4)) i"
    using A(1,9) by (simp add: page_to_addr_def)
  moreover have "(i, 1) \<in> alloc_blocks (snd (buddy_alloc_pages 1 pool4))"
    using A(3,4,5,8) by (simp add: alloc_blocks_def block_def)
  ultimately show thesis using that A(2,6,7) by (simp add: pool4_free)
qed

lemma buddy_free_correct_witness:
  "\<exists>idx. (idx, 1) \<in> alloc_blocks (snd (buddy_alloc_pages 1 pool4)) \<and>
     free_pages (buddy_free_pages (fst (buddy_alloc_pages 1 pool4)) (snd (buddy_alloc_pages 1 pool4))) = {0..<4}"
proof -
  obtain idx where A: "fst (buddy_alloc_pages 1 pool4) = page_to_addr (snd (buddy_alloc_pages 1 pool4)) idx"
    "buddy_inv (snd (buddy_alloc_pages 1 pool4))" "(idx, 1) \<in> alloc_blocks (snd (buddy_alloc_pages 1 pool4))"
    "free_pages (snd (buddy_alloc_pages 1 pool4)) = {0..<4} - {idx..<idx + 2}" "{idx..<idx + 2} \<subseteq> {0..<4}"
    by (rule pool4_taken)
  have "free_pages (buddy_free_pages (fst (buddy_alloc_pages 1 pool4)) (snd (buddy_alloc_pages 1 pool4))) =
      ({0..<4} - {idx..<idx + 2}) \<union> {idx..<idx + 2 ^ 1}"
    using buddy_free_correct [OF A(2,3)] unfolding A(1) A(4) by blast
  with A(3,5) show ?thesis by auto
qed

text \<open>\<open>buddy_free_pages\<close> ignores every pointer that is not the start of an allocated block:
  null, addresses outside the pool or inside a page, free, tail and reserved pages, pages of a
  chunk pool, and in particular a second free of the same block.\<close>

theorem buddy_free_ignores:
  assumes "buddy_inv s" "\<not> (\<exists>i k. (i, k) \<in> alloc_blocks s \<and> p = page_to_addr s i)"
  shows "buddy_free_pages p s = s"
  using assms(1) by (cases rule: buddy_free_cases [where p = p]) (use assms(2) in auto)

lemma buddy_free_ignores_witness: "buddy_free_pages (page_to_addr pool4 0) pool4 = pool4"
proof -
  have "\<not> (\<exists>i k. (i, k) \<in> alloc_blocks pool4 \<and> page_to_addr pool4 0 = page_to_addr pool4 i)"
  proof (rule notI, elim exE conjE)
    fix i k assume i: "(i, k) \<in> alloc_blocks pool4"
    then have "i \<in> free_pages pool4" by (auto simp: alloc_blocks_def pool4_free)
    with not_free_alloc [OF i] show False by blast
  qed
  then show ?thesis by (rule buddy_free_ignores [OF pool4_inv])
qed

text \<open>C8. Allocating and freeing again restores the free blocks of every order, whatever was split on
  the way: the state of the pool does not drift under load.\<close>

theorem buddy_alloc_free_restores:
  assumes "buddy_inv s" "buddy_alloc_pages ord s = (p, s')" "p \<noteq> 0" "k \<le> BUDDY_MAX_ORDER"
  shows "{i. i < G_MEM_TOTAL_PAGE s \<and> free_at (frame_array (buddy_free_pages p s')) i k} =
    {i. i < G_MEM_TOTAL_PAGE s \<and> free_at (frame_array s) i k}"
proof -
  from alloc_success [OF assms(1)] assms(2,3) obtain idx where A: "p = page_to_addr s idx"
    "buddy_inv s'" "idx + 2 ^ ord \<le> G_MEM_TOTAL_PAGE s"
    "{idx..<idx + 2 ^ ord} \<subseteq> free_pages s" "free_pages s' = free_pages s - {idx..<idx + 2 ^ ord}"
    "block (frame_array s') idx ord" "fr_state (frame_array s' idx) = PAGE_STATE_ALLOC_PAGE_HEAD"
    "G_MEM_TOTAL_PAGE s' = G_MEM_TOTAL_PAGE s" "G_MEMPOOL_START s' = G_MEMPOOL_START s"
    by (metis fst_conv snd_conv)
  have "0 < (2 :: nat) ^ ord" by simp
  then have lt: "idx < G_MEM_TOTAL_PAGE s'" using A(3,8) by linarith
  have p: "p = page_to_addr s' idx" by (simp add: A(1,9) page_to_addr_def)
  let ?t = "buddy_free_pages p s'"
  from free_success [OF A(2) lt A(7), folded p] obtain l where B: "block (frame_array s') idx l"
    "buddy_inv ?t" "free_pages ?t = free_pages s' \<union> {idx..<idx + 2 ^ l}"
    "G_MEM_TOTAL_PAGE ?t = G_MEM_TOTAL_PAGE s'" by metis
  have "l = ord" using A(6) B(1) by (blast dest: block_order_unique)
  then have same: "free_pages ?t = free_pages s" using B(3) A(4,5) by auto
  obtain F G where op: "buddy_open s F 0 0" "buddy_open ?t G 0 0"
    using assms(1) B(2) by (auto simp: buddy_inv_def)
  have "free_heads ?t 0 0 k = free_heads s 0 0 k"
    using free_heads_eq [OF op(1) assms(4)] free_heads_eq [OF op(2) assms(4)] same by simp
  then show ?thesis by (simp add: free_heads_def B(4) A(8))
qed

lemma buddy_alloc_free_restores_witness:
  "\<exists>p s'. buddy_alloc_pages 1 pool4 = (p, s') \<and>
     {i. i < 4 \<and> free_at (frame_array (buddy_free_pages p s')) i 2} = {i. i < 4 \<and> free_at (frame_array pool4) i 2}"
proof -
  obtain p s' where a: "buddy_alloc_pages 1 pool4 = (p, s')" "p \<noteq> 0"
    using pool4_alloc by (cases "buddy_alloc_pages 1 pool4") auto
  show ?thesis using buddy_alloc_free_restores [OF pool4_inv a, of 2] a by (auto simp: BUDDY_MAX_ORDER_def)
qed

section \<open>Runs of requests\<close>

text \<open>Over any sequence of allocations and frees, the blocks in use never overlap, and a block
  that the sequence does not free stays allocated while no pointer handed out meanwhile points
  into it.\<close>

theorem buddy_runs_exclusive:
  assumes "buddy_inv s" and "serve buddy_alloc_pages buddy_free_pages cs s = (ps, s')"
  shows "(\<forall>b c. 0 < page_owners s' b \<and> 0 < page_owners s' c \<and> b \<noteq> c \<longrightarrow> apart b c) \<and>
    (\<forall>p len. 0 < page_owners s (unat p, len) \<and> Release p \<notin> set cs \<longrightarrow>
       0 < page_owners s' (unat p, len) \<and>
       (\<forall>q \<in> set ps. q \<noteq> 0 \<longrightarrow> \<not> (unat p \<le> unat q \<and> unat q < unat p + len)))"
proof -
  have "0 < page_owners s' (unat p, len) \<and>
      (\<forall>q \<in> set ps. q \<noteq> 0 \<longrightarrow> \<not> (unat p \<le> unat q \<and> unat q < unat p + len))"
    if "0 < page_owners s (unat p, len)" "Release p \<notin> set cs" for p len
  proof -
    have "releases p cs = 0" using that(2) by (auto simp: releases_def filter_empty_conv)
    with that(1) pages.serve_keeps [OF assms(1), of p cs len] show ?thesis by (auto simp: assms(2))
  qed
  moreover have "apart b c" if "0 < page_owners s' b" "0 < page_owners s' c" "b \<noteq> c" for b c
    using pages.serve_apart [OF assms(1), of cs b c] that by (simp add: assms(2))
  ultimately show ?thesis by blast
qed

lemma buddy_runs_exclusive_witness:
  "\<exists>p s. buddy_alloc_pages 1 pool4 = (p, s) \<and> 0 < page_owners s (unat p, 8192) \<and>
     fst (buddy_alloc_pages 0 s) \<noteq> p"
proof -
  let ?a = "buddy_alloc_pages 1 pool4"
  obtain idx where A: "fst ?a = page_to_addr (snd ?a) idx" "buddy_inv (snd ?a)" "(idx, 1) \<in> alloc_blocks (snd ?a)"
    by (rule pool4_taken)
  have "page_region (snd ?a) idx 1 = (unat (fst ?a), 8192)"
    using A by (simp add: page_region_def unat_page_to_addr buddy_inv_def alloc_blocks_def PAGE_SHIFT_def)
  then have o: "0 < page_owners (snd ?a) (unat (fst ?a), 8192)"
    using A(3) page_owners_region [of "snd ?a" idx 1] by simp
  have "serve buddy_alloc_pages buddy_free_pages [Alloc 0] (snd ?a) =
      ([fst (buddy_alloc_pages 0 (snd ?a))], snd (buddy_alloc_pages 0 (snd ?a)))" by (simp add: split_beta)
  from buddy_runs_exclusive [OF A(2) this] o have
    "fst (buddy_alloc_pages 0 (snd ?a)) \<noteq> 0 \<longrightarrow> \<not> (unat (fst ?a) \<le> unat (fst (buddy_alloc_pages 0 (snd ?a))) \<and>
       unat (fst (buddy_alloc_pages 0 (snd ?a))) < unat (fst ?a) + 8192)" by fastforce
  then have "fst (buddy_alloc_pages 0 (snd ?a)) \<noteq> fst ?a" using pool4_alloc by auto
  with o show ?thesis by (metis prod.collapse)
qed

section \<open>The region and its reservations\<close>

lemma PAGE_SIZE_pow: "PAGE_SIZE = 2 ^ PAGE_SHIFT"
  by (simp add: PAGE_SIZE_def push_bit_eq_mult)

lemma shift_less: "PAGE_SHIFT < 64"
  by (simp add: PAGE_SHIFT_def)

lemma page_down: "unat (align_down_ul v PAGE_SIZE) = unat v div 4096 * 4096"
  unfolding PAGE_SIZE_pow unat_align_down [OF shift_less]
  by (simp add: PAGE_SHIFT_def minus_mod_eq_div_mult)

lemma page_up_dvd: "4096 dvd unat (align_up_ul v PAGE_SIZE)"
proof -
  have "2 ^ PAGE_SHIFT dvd unat (align_up_ul v PAGE_SIZE)"
    by (simp add: align_up_ul_def PAGE_SIZE_pow pow2_minus_1 shift_less unat_and_not_mask)
  then show ?thesis by (simp add: PAGE_SHIFT_def)
qed

lemma page_up:
  assumes "unat v + 4096 \<le> 2 ^ 64"
  shows "unat (align_up_ul v PAGE_SIZE) = (unat v + 4095) div 4096 * 4096"
proof -
  have "unat v + 2 ^ PAGE_SHIFT - 1 = unat v + 4095" by (simp add: PAGE_SHIFT_def)
  with unat_align_up [OF shift_less, of v] assms show ?thesis
    by (simp add: PAGE_SIZE_pow [symmetric] PAGE_SHIFT_def minus_mod_eq_div_mult PAGE_SIZE_eq add.commute)
qed

text \<open>The size \<open>buddy_set_region\<close> settles on for a region of at least one page.\<close>

definition region_size :: "u64 \<Rightarrow> u64" where
  "region_size len = min (align_down_ul len PAGE_SIZE) BUDDY_MAX_POOL_SIZE"

lemma unat_region_size: "unat (region_size len) = min (unat len div 4096 * 4096) (524288 * 4096)"
  by (simp add: region_size_def min_def word_le_nat_alt page_down BUDDY_MAX_POOL_SIZE_def)

lemma region_small: "region_size len < PAGE_SIZE \<longleftrightarrow> len < PAGE_SIZE"
proof -
  have "unat len div 4096 * 4096 < 4096 \<longleftrightarrow> unat len < 4096" by (simp add: div_eq_0_iff)
  then show ?thesis by (simp add: word_less_nat_alt unat_region_size PAGE_SIZE_eq min_less_iff_disj)
qed

lemma region_pages: "\<not> drop_bit PAGE_SHIFT (region_size len) > BUDDY_TOTAL_PAGES"
  by (simp add: word_less_nat_alt unat_drop_bit_u64 unat_region_size BUDDY_TOTAL_PAGES_eq PAGE_SHIFT_def not_less
      div_le_mono [of "min (unat len div 4096 * 4096) 2147483648" 2147483648 4096, simplified])

lemma capped_size:
  "(if align_down_ul len PAGE_SIZE > BUDDY_MAX_POOL_SIZE then BUDDY_MAX_POOL_SIZE else align_down_ul len PAGE_SIZE) =
   region_size len"
  by (auto simp: region_size_def min_def)

lemma set_region_default: "len < PAGE_SIZE \<Longrightarrow>
  buddy_set_region start len s = s\<lparr>G_MEMPOOL_START := BUDDY_DEFAULT_POOL_START,
    G_MEMPOOL_SIZE := BUDDY_DEFAULT_POOL_SIZE, G_MEM_TOTAL_PAGE := 4096\<rparr>"
proof -
  assume len: "len < PAGE_SIZE"
  have "\<not> BUDDY_DEFAULT_POOL_SIZE < PAGE_SIZE" "\<not> drop_bit PAGE_SHIFT BUDDY_DEFAULT_POOL_SIZE > BUDDY_TOTAL_PAGES"
    "unat (drop_bit PAGE_SHIFT BUDDY_DEFAULT_POOL_SIZE) = 4096"
    by (simp_all add: BUDDY_DEFAULT_POOL_SIZE_def PAGE_SIZE_eq word_less_nat_alt unat_drop_bit_u64
        PAGE_SHIFT_def BUDDY_TOTAL_PAGES_eq)
  with len show ?thesis
    by (simp add: buddy_set_region_def Let_def capped_size region_small)
qed

lemma set_region_given: "\<not> len < PAGE_SIZE \<Longrightarrow>
  buddy_set_region start len s = s\<lparr>G_MEMPOOL_START := align_up_ul start PAGE_SIZE,
    G_MEMPOOL_SIZE := region_size len, G_MEM_TOTAL_PAGE := unat (region_size len) div 4096\<rparr>"
proof -
  assume len: "\<not> len < PAGE_SIZE"
  then have "len \<noteq> 0" by (auto simp: PAGE_SIZE_eq)
  moreover have "unat (drop_bit PAGE_SHIFT (region_size len)) = unat (region_size len) div 4096"
    by (simp add: unat_drop_bit_u64 PAGE_SHIFT_def)
  ultimately show ?thesis
    using len region_pages [of len] by (simp add: buddy_set_region_def Let_def capped_size region_small)
qed

text \<open>C9. \<open>buddy_set_region\<close> always leaves a whole, positive number of pages that fits the frame
  array, and for a page-aligned start the pool lies inside the region it was given.\<close>

theorem buddy_set_region_bounds:
  "let s' = buddy_set_region start len s in
     unat (G_MEMPOOL_SIZE s') = G_MEM_TOTAL_PAGE s' * 4096 \<and>
     0 < G_MEM_TOTAL_PAGE s' \<and> G_MEM_TOTAL_PAGE s' \<le> unat BUDDY_TOTAL_PAGES \<and>
     4096 dvd unat (G_MEMPOOL_START s') \<and>
     (4096 dvd unat start \<and> 4096 \<le> unat len \<and> unat start + unat len < 2 ^ 64 \<longrightarrow>
        G_MEMPOOL_START s' = start \<and>
        unat (G_MEMPOOL_START s') + unat (G_MEMPOOL_SIZE s') \<le> unat start + unat len)"
proof (cases "len < PAGE_SIZE")
  case True
  then have "unat len < 4096" by (simp add: word_less_nat_alt PAGE_SIZE_eq)
  then show ?thesis
    by (simp add: set_region_default [OF True] BUDDY_DEFAULT_POOL_SIZE_def BUDDY_TOTAL_PAGES_eq BUDDY_DEFAULT_POOL_START_def)
next
  case False
  let ?q = "unat len div 4096"
  have q: "unat (region_size len) = min ?q 524288 * 4096" by (simp add: unat_region_size min_mult_distrib_right)
  have "4096 \<le> unat len" using False by (simp add: word_less_nat_alt PAGE_SIZE_eq)
  then have pos: "0 < ?q" by (simp add: div_greater_zero_iff)
  have le: "min ?q 524288 * 4096 \<le> unat len"
    using mult_le_mono1 [of "min ?q 524288" ?q 4096] div_times_less_eq_dividend [of "unat len" 4096] by linarith
  have "align_up_ul start PAGE_SIZE = start" if d: "4096 dvd unat start" and w: "unat start + unat len < 2 ^ 64"
  proof -
    have "unat start + 4096 \<le> 2 ^ 64" using w \<open>4096 \<le> unat len\<close> by linarith
    moreover from d obtain x where "unat start = 4096 * x" by (auto elim: dvdE)
    ultimately show ?thesis by (simp add: word_unat_eq_iff page_up)
  qed
  with pos le show ?thesis by (simp add: set_region_given [OF False] q page_up_dvd BUDDY_TOTAL_PAGES_eq)
qed

theorem buddy_set_region_bounds_witness:
  "G_MEMPOOL_START (buddy_set_region 0x81000000 0x4000 pool4) = 0x81000000"
  using buddy_set_region_bounds [of "0x81000000" "0x4000" pool4] by (simp add: Let_def)

text \<open>C10. With an unaligned start the same function runs past the region: the start is rounded up but
  the size is not reduced by what rounding skipped, so the pool ends after the memory it was given.\<close>

theorem buddy_set_region_overrun:
  assumes "\<not> 4096 dvd unat start" "4096 dvd unat len" "4096 \<le> unat len" "unat len \<le> unat BUDDY_MAX_POOL_SIZE"
    and "unat start + unat len < 2 ^ 64"
  shows "unat start + unat len <
    unat (G_MEMPOOL_START (buddy_set_region start len s)) + unat (G_MEMPOOL_SIZE (buddy_set_region start len s))"
proof -
  have big: "\<not> len < PAGE_SIZE" using assms(3) by (simp add: word_less_nat_alt PAGE_SIZE_eq)
  have "unat (region_size len) = unat len"
    using assms(2,4) by (auto simp: unat_region_size BUDDY_MAX_POOL_SIZE_def elim!: dvdE)
  moreover have "unat start < unat (align_up_ul start PAGE_SIZE)"
  proof -
    have "unat start + 4096 \<le> 2 ^ 64" using assms(3,5) by linarith
    then have up: "unat (align_up_ul start PAGE_SIZE) = (unat start + 4095) div 4096 * 4096" by (rule page_up)
    have "unat start \<noteq> unat (align_up_ul start PAGE_SIZE)" using assms(1) page_up_dvd by metis
    moreover have "(unat start + 4095) mod 4096 < 4096" by simp
    then have "unat start \<le> unat (align_up_ul start PAGE_SIZE)"
      using div_mult_mod_eq [of "unat start + 4095" 4096] unfolding up by linarith
    ultimately show ?thesis by linarith
  qed
  ultimately show ?thesis by (simp add: set_region_given [OF big])
qed

theorem buddy_set_region_overrun_witness:
  "unat (0x1001 :: u64) + unat (0x2000 :: u64) <
     unat (G_MEMPOOL_START (buddy_set_region 0x1001 0x2000 pool4)) + unat (G_MEMPOOL_SIZE (buddy_set_region 0x1001 0x2000 pool4))"
  by (rule buddy_set_region_overrun) (simp_all add: BUDDY_MAX_POOL_SIZE_def)

lemma fold_update_range:
  "fold (\<lambda>i f. f(i := g (f i))) [a..<b] f = (\<lambda>i. if a \<le> i \<and> i < b then g (f i) else f i)"
  by (induction b) (auto simp: fun_eq_iff le_Suc_eq less_Suc_eq)

lemma page_overlap:
  fixes a b i :: nat
  shows "i < (b + 4095) div 4096 \<longleftrightarrow> i * 4096 < b"
    and "a div 4096 \<le> i \<longleftrightarrow> a < (i + 1) * 4096"
proof -
  have "i < (b + 4095) div 4096 \<longleftrightarrow> Suc i \<le> (b + 4095) div 4096" by auto
  also have "\<dots> \<longleftrightarrow> Suc i * 4096 \<le> b + 4095" by (simp add: less_eq_div_iff_mult_less_eq)
  also have "\<dots> \<longleftrightarrow> i * 4096 < b" by auto
  finally show "i < (b + 4095) div 4096 \<longleftrightarrow> i * 4096 < b" .
  have "a div 4096 \<le> i \<longleftrightarrow> a div 4096 < Suc i" by auto
  then show "a div 4096 \<le> i \<longleftrightarrow> a < (i + 1) * 4096" by (simp add: div_less_iff_less_mult)
qed

text \<open>The range of pages covers exactly the pages that \<open>[start, start + len)\<close> meets.\<close>

lemma reserved_pages_meet:
  assumes pool: "pool_ok s" and w: "unat start + unat len < 2 ^ 64" and len: "0 < unat len"
    and i: "i < G_MEM_TOTAL_PAGE s"
  defines "a \<equiv> unat (G_MEMPOOL_START s)"
  shows "fst (reserved_pages start len s) \<le> i \<and> i < snd (reserved_pages start len s) \<longleftrightarrow>
    a + i * 4096 < unat start + unat len \<and> unat start < a + (i + 1) * 4096"
proof -
  let ?n = "G_MEM_TOTAL_PAGE s"
  have p: "unat (G_MEMPOOL_SIZE s) = ?n * 4096" "a + ?n * 4096 < 2 ^ 64" "4096 dvd a" "0 < a"
    using pool by (auto simp: pool_ok_def PAGE_SHIFT_def a_def)
  have e: "unat (G_MEMPOOL_START s + G_MEMPOOL_SIZE s) = a + ?n * 4096" "unat (start + len) = unat start + unat len"
    using p w by (simp_all add: unat_add_u64 a_def)
  have i4: "(i + 1) * 4096 \<le> ?n * 4096" using i by (intro mult_le_mono1) simp
  show ?thesis
  proof (cases "start + len \<le> G_MEMPOOL_START s \<or> start \<ge> G_MEMPOOL_START s + G_MEMPOOL_SIZE s")
    case True
    then have "reserved_pages start len s = (0, 0)" by (simp add: reserved_pages_def Let_def)
    with True i4 show ?thesis by (auto simp: word_le_nat_alt e a_def [symmetric])
  next
    case False
    define st where "st = (if start < G_MEMPOOL_START s then G_MEMPOOL_START s else start)"
    define en where "en = (if start + len > G_MEMPOOL_START s + G_MEMPOOL_SIZE s
      then G_MEMPOOL_START s + G_MEMPOOL_SIZE s else start + len)"
    have st: "unat st = max a (unat start)" by (simp add: st_def word_less_nat_alt a_def max_def)
    have en: "unat en = min (a + ?n * 4096) (unat start + unat len)" by (simp add: en_def word_less_nat_alt e)
    have lt: "a < unat start + unat len" "unat start < a + ?n * 4096"
      using False by (auto simp: word_le_nat_alt e a_def)
    have d: "unat (st - G_MEMPOOL_START s) = unat st - a" "unat (en - G_MEMPOOL_START s) = unat en - a"
      using lt by (auto simp: unat_sub_u64 word_le_nat_alt st en a_def [symmetric])
    have "unat (en - G_MEMPOOL_START s) + 4096 \<le> 2 ^ 64"
      unfolding d using p(2,3,4) by (auto simp: en elim!: dvdE)
    then have up: "unat (drop_bit PAGE_SHIFT (align_up_ul (en - G_MEMPOOL_START s) PAGE_SIZE)) = (unat en - a + 4095) div 4096"
      by (simp add: unat_drop_bit_u64 page_up d PAGE_SHIFT_def)
    have lo: "unat (drop_bit PAGE_SHIFT (st - G_MEMPOOL_START s)) = (unat st - a) div 4096"
      by (simp add: unat_drop_bit_u64 d PAGE_SHIFT_def)
    have cap: "(if x > ?n then ?n else x) = min x ?n" for x by auto
    have "reserved_pages start len s = ((unat st - a) div 4096, min ((unat en - a + 4095) div 4096) ?n)"
      using False unfolding reserved_pages_def Let_def st_def [symmetric] en_def [symmetric] up lo cap by simp
    then show ?thesis using i i4 lt by (auto simp: page_overlap st en)
  qed
qed

text \<open>\<open>buddy_mark_reserved_range\<close> reserves exactly the pages that the range meets, and writes no
  frame outside the pool and nothing but the state of a frame.\<close>

theorem buddy_mark_reserved_exact:
  assumes "pool_ok s" "unat start + unat len < 2 ^ 64"
  shows "frame_array (buddy_mark_reserved_range start len s) i =
    (if i < G_MEM_TOTAL_PAGE s \<and> 0 < unat len \<and>
        unat (G_MEMPOOL_START s) + i * 4096 < unat start + unat len \<and>
        unat start < unat (G_MEMPOOL_START s) + (i + 1) * 4096
     then (frame_array s i)\<lparr>fr_state := PAGE_STATE_RESERVED\<rparr> else frame_array s i)"
proof (cases "len = 0 \<or> G_MEM_TOTAL_PAGE s = 0")
  case False
  then have len: "0 < unat len" by (simp add: unat_gt_0)
  obtain a b where ab: "reserved_pages start len s = (a, b)" by fastforce
  then have "b \<le> G_MEM_TOTAL_PAGE s" by (auto simp: reserved_pages_def Let_def split: if_splits)
  moreover have "frame_array (buddy_mark_reserved_range start len s) =
      (\<lambda>i. if a \<le> i \<and> i < b then (frame_array s i)\<lparr>fr_state := PAGE_STATE_RESERVED\<rparr> else frame_array s i)"
    using False by (simp add: buddy_mark_reserved_range_def ab fold_update_range [where g = "\<lambda>x. x\<lparr>fr_state := PAGE_STATE_RESERVED\<rparr>"])
  ultimately show ?thesis
    using reserved_pages_meet [OF assms len, of i] len by (cases "i < G_MEM_TOTAL_PAGE s") (auto simp: ab)
qed (auto simp: buddy_mark_reserved_range_def)

theorem buddy_mark_reserved_exact_witness:
  "fr_state (frame_array (buddy_mark_reserved_range 0x81001fff 2 pool4) 1) = PAGE_STATE_RESERVED \<and>
   fr_state (frame_array (buddy_mark_reserved_range 0x81001fff 2 pool4) 2) = PAGE_STATE_RESERVED \<and>
   frame_array (buddy_mark_reserved_range 0x81001fff 2 pool4) 3 = frame_array pool4 3"
proof -
  have "pool_ok pool4" using pool4_inv by (simp add: buddy_inv_def)
  from buddy_mark_reserved_exact [OF this, of "0x81001fff" 2] show ?thesis
    by (simp add: BUDDY_DEFAULT_POOL_START_def)
qed

text \<open>\<open>buddy_dump_free_areas\<close> terminates on a well-formed allocator, and for every order counts
  exactly the free blocks of that order.\<close>

theorem buddy_dump_counts:
  assumes "buddy_inv s"
  shows "buddy_dump_free_areas s =
    map (\<lambda>k. Some (card {i. i < G_MEM_TOTAL_PAGE s \<and> free_at (frame_array s) i k})) [0..<Suc BUDDY_MAX_ORDER]"
proof -
  from assms obtain F where op: "buddy_open s F 0 0" by (auto simp: buddy_inv_def)
  have "map_option length (list_for_each (free_area s) (AreaHead k) (lh_next (free_area s) (AreaHead k))) =
      Some (card {i. i < G_MEM_TOTAL_PAGE s \<and> free_at (frame_array s) i k})" if k: "k \<le> BUDDY_MAX_ORDER" for k
  proof -
    have d: "dlist (free_area s) (AreaHead k) (map FrameNode (F k))"
      using op k by (intro dlists_dlist) (auto simp: buddy_open_def)
    then have "distinct (F k)" by (auto simp: dlist_def distinct_map)
    moreover have "set (F k) = {i. i < G_MEM_TOTAL_PAGE s \<and> free_at (frame_array s) i k}"
      using op k by (simp add: buddy_open_def free_heads_def)
    ultimately have "length (F k) = card {i. i < G_MEM_TOTAL_PAGE s \<and> free_at (frame_array s) i k}"
      by (metis distinct_card)
    then show ?thesis using dlist_for_each [OF d] by simp
  qed
  then show ?thesis by (simp add: buddy_dump_free_areas_def del: upt_Suc)
qed

theorem buddy_dump_counts_witness:
  "buddy_inv pool4 \<and>
   buddy_dump_free_areas pool4 = map (\<lambda>k. Some (card {i. i < 4 \<and> free_at (frame_array pool4) i k})) [0..<11]"
  using buddy_dump_counts [OF pool4_inv] pool4_inv by (simp add: BUDDY_MAX_ORDER_def del: upt_Suc)

end
