(* ===== verification/Allocator.thy ===== *)
theory Allocator
  imports Buddy_Props
begin

text \<open>
  \<open>src/src/allocator.c\<close>: the kernel heap. Requests up to 2048 bytes are served from eight chunk
  pools, pages carved into equal chunks whose free ones are linked through their own first bytes;
  larger requests go to the page allocator. This theory holds the state and the operations;
  \<open>Allocator_Inv\<close> the invariant, \<open>Allocator_Props\<close> what follows for callers.

  A chunk is known by its address, so its embedded list node is \<open>Chunk addr\<close> (the node is the
  first field, \<open>list_entry\<close> subtracts 0). Chunk sizes are small constants and kept as naturals.
  The loops that walk a list or double a counter are partial functions: not returning is \<open>None\<close>.
\<close>

section \<open>State\<close>

datatype chunk_node = PoolHead nat | Chunk u64

record heap =
  hp_buddy :: buddy
  chunk_size :: "nat list"
  pool_links :: "chunk_node links"
  g_allocator_ready :: bool
  reserved_rgns :: "(u64 \<times> u64) list"

definition CHUNK_POOL_COUNT :: nat where
  "CHUNK_POOL_COUNT = 8"

definition g_pool_sizes :: "nat list" where
  "g_pool_sizes = [16, 32, 64, 128, 256, 512, 1024, 2048]"

definition MAX_RESERVED_REGIONS :: nat where
  "MAX_RESERVED_REGIONS = 32"

text \<open>Writes to one frame of the shared frame array.\<close>

definition upd_frame :: "nat \<Rightarrow> (frame \<Rightarrow> frame) \<Rightarrow> buddy \<Rightarrow> buddy" where
  "upd_frame i g b = b\<lparr>frame_array := (frame_array b)(i := g (frame_array b i))\<rparr>"

section \<open>Chunk pools\<close>

partial_function (option) roundup_loop :: "u64 \<Rightarrow> u64 \<Rightarrow> nat \<Rightarrow> nat option" where
  "roundup_loop pages n order =
     (if n < pages then roundup_loop pages (push_bit 1 n) (Suc order) else Some order)"

definition roundup_order :: "u64 \<Rightarrow> nat option" where
  "roundup_order pages = roundup_loop pages 1 0"

definition addr_to_page_idx :: "buddy \<Rightarrow> u64 \<Rightarrow> nat" where
  "addr_to_page_idx b addr = unat (drop_bit PAGE_SHIFT (addr - G_MEMPOOL_START b))"

definition find_pool_index :: "heap \<Rightarrow> u64 \<Rightarrow> nat option" where
  "find_pool_index h len = List.find (\<lambda>i. unat len \<le> chunk_size h ! i) [0..<CHUNK_POOL_COUNT]"

definition chunk_page :: "int \<Rightarrow> frame \<Rightarrow> frame" where
  "chunk_page pool_idx fr =
     fr\<lparr>fr_state := PAGE_STATE_ALLOC_CHUNK_POOL, meta_pool_idx := pool_idx, fr_order := 0, ref_count := 0\<rparr>"

definition expand_chunk_pool :: "nat \<Rightarrow> heap \<Rightarrow> int \<times> heap" where
  "expand_chunk_pool pool_idx h =
     (let (page, b) = buddy_alloc_pages 0 (hp_buddy h) in
      if page = 0 then (-1, h\<lparr>hp_buddy := b\<rparr>)
      else
        let csize = chunk_size h ! pool_idx;
            chunk_cnt = unat PAGE_SIZE div csize;
            b = upd_frame (addr_to_page_idx b page) (chunk_page (int pool_idx)) b;
            l = fold (\<lambda>i. list_add (Chunk (page + of_nat i * of_nat csize)) (PoolHead pool_idx))
                  [0..<chunk_cnt] (pool_links h)
        in (0, h\<lparr>hp_buddy := b, pool_links := l\<rparr>))"

section \<open>allocate\<close>

text \<open>The chunk path: take the first free chunk of the pool and count it on its page.\<close>

definition chunk_addr :: "chunk_node \<Rightarrow> u64" where
  "chunk_addr n = (case n of Chunk a \<Rightarrow> a | PoolHead i \<Rightarrow> 0)"

definition take_chunk :: "nat \<Rightarrow> heap \<Rightarrow> u64 \<times> heap" where
  "take_chunk pool_idx h =
     (let n = lh_next (pool_links h) (PoolHead pool_idx);
          ck = chunk_addr n;
          b = hp_buddy h
      in (ck, h\<lparr>pool_links := list_del n (pool_links h),
                hp_buddy := upd_frame (addr_to_page_idx b ck) (\<lambda>fr. fr\<lparr>ref_count := ref_count fr + 1\<rparr>) b\<rparr>))"

definition allocate :: "u64 \<Rightarrow> heap \<Rightarrow> (u64 \<times> heap) option" where
  "allocate len h =
     (if \<not> g_allocator_ready h \<or> len = 0 \<or> len > MAX_ALLOC_SIZE then Some (0, h)
      else if len \<le> 2048 then
        (case find_pool_index h len of
           None \<Rightarrow> Some (0, h)
         | Some pool_idx \<Rightarrow>
             if list_empty (PoolHead pool_idx) (pool_links h) then
               let (r, h) = expand_chunk_pool pool_idx h
               in if r \<noteq> 0 then Some (0, h) else Some (take_chunk pool_idx h)
             else Some (take_chunk pool_idx h))
      else
        let pages = drop_bit PAGE_SHIFT (len + PAGE_SIZE - 1)
        in case roundup_order pages of
             None \<Rightarrow> None
           | Some order \<Rightarrow>
               let (ptr, b) = buddy_alloc_pages order (hp_buddy h)
               in Some (ptr, h\<lparr>hp_buddy := b\<rparr>))"

section \<open>free\<close>

text \<open>The double-free check: is the chunk on the pool's free list?\<close>

partial_function (option) on_free_list :: "chunk_node links \<Rightarrow> chunk_node \<Rightarrow> chunk_node \<Rightarrow> chunk_node \<Rightarrow> bool option" where
  "on_free_list l head ck pos =
     (if pos = head then Some False
      else if pos = ck then Some True
      else on_free_list l head ck (lh_next l pos))"

text \<open>The loop that unlinks every chunk of a page; \<open>q\<close> is read before the node is unlinked.\<close>

partial_function (option) unlink_page :: "u64 \<Rightarrow> chunk_node \<Rightarrow> chunk_node \<Rightarrow> chunk_node links \<Rightarrow> chunk_node links option" where
  "unlink_page page_base head pos l =
     (if pos = head then Some l
      else
        let q = lh_next l pos;
            node_addr = chunk_addr pos
        in unlink_page page_base head q
             (if node_addr \<ge> page_base \<and> node_addr < page_base + PAGE_SIZE then list_del pos l else l))"

definition in_pool :: "buddy \<Rightarrow> u64 \<Rightarrow> bool" where
  "in_pool b addr \<longleftrightarrow> G_MEMPOOL_SIZE b \<noteq> 0 \<and> addr \<ge> G_MEMPOOL_START b \<and>
     addr < G_MEMPOOL_START b + G_MEMPOOL_SIZE b"

definition free_chunk :: "u64 \<Rightarrow> nat \<Rightarrow> heap \<Rightarrow> heap option" where
  "free_chunk addr page_idx h =
     (let pool_idx = meta_pool_idx (frame_array (hp_buddy h) page_idx);
          page_base = align_down_ul addr PAGE_SIZE
      in if pool_idx < 0 \<or> pool_idx \<ge> int CHUNK_POOL_COUNT then Some h
         else
           let i = nat pool_idx; head = PoolHead i; offset = addr - page_base in
           if unat offset mod (chunk_size h ! i) \<noteq> 0 then Some h
           else
             case on_free_list (pool_links h) head (Chunk addr) (lh_next (pool_links h) head) of
               None \<Rightarrow> None
             | Some True \<Rightarrow> Some h
             | Some False \<Rightarrow>
                 let l = list_add (Chunk addr) head (pool_links h);
                     b = upd_frame page_idx (\<lambda>fr. fr\<lparr>ref_count := ref_count fr - 1\<rparr>) (hp_buddy h)
                 in if ref_count (frame_array b page_idx) = 0 then
                      (case unlink_page page_base head (lh_next l head) l of
                         None \<Rightarrow> None
                       | Some l \<Rightarrow>
                           let b = upd_frame page_idx (\<lambda>fr. fr\<lparr>fr_state := PAGE_STATE_ALLOC_PAGE_HEAD\<rparr>) b
                           in Some (h\<lparr>pool_links := l, hp_buddy := buddy_free_pages page_base b\<rparr>))
                    else Some (h\<lparr>pool_links := l, hp_buddy := b\<rparr>))"

definition free_page :: "u64 \<Rightarrow> nat \<Rightarrow> heap \<Rightarrow> heap" where
  "free_page addr page_idx h =
     (if addr AND (PAGE_SIZE - 1) \<noteq> 0 then h
      else
        let b = upd_frame page_idx (\<lambda>fr. fr\<lparr>cow_ref_count := cow_ref_count fr - 1\<rparr>) (hp_buddy h)
        in h\<lparr>hp_buddy := (if cow_ref_count (frame_array b page_idx) = 0 then buddy_free_pages addr b else b)\<rparr>)"

definition free :: "u64 \<Rightarrow> heap \<Rightarrow> heap option" where
  "free ptr h =
     (let b = hp_buddy h in
      if \<not> g_allocator_ready h \<or> ptr = 0 then Some h
      else if \<not> in_pool b ptr then Some h
      else
        let page_idx = addr_to_page_idx b ptr in
        if page_idx \<ge> G_MEM_TOTAL_PAGE b then Some h
        else if fr_state (frame_array b page_idx) = PAGE_STATE_ALLOC_CHUNK_POOL then free_chunk ptr page_idx h
        else if fr_state (frame_array b page_idx) = PAGE_STATE_ALLOC_PAGE_HEAD then Some (free_page ptr page_idx h)
        else Some h)"

section \<open>Reference counts of shared pages\<close>

definition page_inc_ref :: "u64 \<Rightarrow> heap \<Rightarrow> heap" where
  "page_inc_ref addr h =
     (let b = hp_buddy h in
      if \<not> in_pool b addr then h
      else h\<lparr>hp_buddy := upd_frame (addr_to_page_idx b addr)
                            (\<lambda>fr. fr\<lparr>cow_ref_count := cow_ref_count fr + 1\<rparr>) b\<rparr>)"

definition get_page_ref :: "u64 \<Rightarrow> heap \<Rightarrow> int" where
  "get_page_ref addr h =
     (let b = hp_buddy h in
      if \<not> in_pool b addr then 0 else cow_ref_count (frame_array b (addr_to_page_idx b addr)))"

section \<open>Startup\<close>

text \<open>
  What the queries on the device tree answer: its address and total size, the length and the first
  words of the \<open>reg\<close> property of \<open>/memory\<close> (absent when the node or property is), the initrd
  bounds and the regions of \<open>reserved-memory\<close> in order.
\<close>

record fdt_info =
  fdt_ptr :: u64
  fdt_totalsize :: u64
  memory_reg :: "(int \<times> u64 \<times> u64 \<times> u32 \<times> u32) option"
  initrd_start :: u64
  initrd_end :: u64
  reserved_memory :: "(u64 \<times> u64) list"

definition memory_reserve :: "u64 \<Rightarrow> u64 \<Rightarrow> heap \<Rightarrow> heap" where
  "memory_reserve start len h =
     (if len = 0 \<or> length (reserved_rgns h) \<ge> MAX_RESERVED_REGIONS then h
      else
        let end = start + len;
            pool_start = G_MEMPOOL_START (hp_buddy h);
            pool_end = pool_start + G_MEMPOOL_SIZE (hp_buddy h)
        in if end \<le> pool_start \<or> start \<ge> pool_end then h
           else
             let reserve_start = (if start < pool_start then pool_start else start);
                 reserve_end = (if end > pool_end then pool_end else end)
             in h\<lparr>reserved_rgns := reserved_rgns h @ [(reserve_start, reserve_end - reserve_start)]\<rparr>)"

definition to_virtual :: "u64 \<Rightarrow> u64" where
  "to_virtual a = (if a < PAGE_OFFSET then a + PAGE_OFFSET else a)"

definition reserve_all_memory :: "u64 \<Rightarrow> u64 \<Rightarrow> fdt_info option \<Rightarrow> heap \<Rightarrow> heap" where
  "reserve_all_memory kstart kend fdt h =
     (let h = memory_reserve kstart (kend - kstart) h in
      case fdt of
        None \<Rightarrow> h
      | Some d \<Rightarrow>
          let h = (if fdt_totalsize d \<noteq> 0 then memory_reserve (fdt_ptr d) (fdt_totalsize d) h else h);
              is = (if initrd_start d \<noteq> 0 then to_virtual (initrd_start d) else 0);
              ie = (if initrd_end d \<noteq> 0 then to_virtual (initrd_end d) else 0);
              h = (if is \<noteq> 0 \<and> ie > is then memory_reserve is (ie - is) h else h)
          in fold (\<lambda>(start, len). memory_reserve (to_virtual start) len) (reserved_memory d) h)"

text \<open>The region \<open>startup_alloc\<close> passes to \<open>buddy_set_region\<close>.\<close>

definition memory_region :: "fdt_info option \<Rightarrow> heap \<Rightarrow> u64 \<times> u64" where
  "memory_region fdt h =
     (let b = hp_buddy h in
      case fdt of
        None \<Rightarrow> (G_MEMPOOL_START b, G_MEMPOOL_SIZE b)
      | Some d \<Rightarrow>
          (case memory_reg d of
             None \<Rightarrow> (G_MEMPOOL_START b, G_MEMPOOL_SIZE b)
           | Some (len, d0, d1, w0, w1) \<Rightarrow>
               if len \<ge> 16 then (bswap64 d0, bswap64 d1)
               else if len \<ge> 8 then (ucast (bswap32 w0), ucast (bswap32 w1))
               else (BUDDY_DEFAULT_POOL_START, BUDDY_DEFAULT_POOL_SIZE)))"

text \<open>\<open>sizeof(struct frame)\<close> on LP64.\<close>

definition SIZEOF_FRAME :: u64 where
  "SIZEOF_FRAME = 40"

text \<open>The first reserved region that the candidate \<open>[a, e)\<close> overlaps.\<close>

definition first_overlap :: "(u64 \<times> u64) list \<Rightarrow> u64 \<Rightarrow> u64 \<Rightarrow> (u64 \<times> u64) option" where
  "first_overlap rs a e = List.find (\<lambda>(r_start, r_size). a < r_start + r_size \<and> e > r_start) rs"

text \<open>The bump search for the frame array: \<open>Some 0\<close> when it leaves the pool.\<close>

partial_function (option) bump_search :: "(u64 \<times> u64) list \<Rightarrow> u64 \<Rightarrow> u64 \<Rightarrow> u64 \<Rightarrow> u64 option" where
  "bump_search rs pool_end len alloc_start =
     (let a = align_up_ul alloc_start PAGE_SIZE; e = a + len in
      if e > pool_end then Some 0
      else case first_overlap rs a e of
          None \<Rightarrow> Some a
        | Some (r_start, r_size) \<Rightarrow> bump_search rs pool_end len (r_start + r_size))"

definition startup_alloc :: "u64 \<Rightarrow> u64 \<Rightarrow> fdt_info option \<Rightarrow> heap \<Rightarrow> (u64 \<times> heap) option" where
  "startup_alloc kstart kend fdt h =
     (let (pool_start, pool_size) = memory_region fdt h;
          h = h\<lparr>hp_buddy := buddy_set_region (to_virtual pool_start) pool_size (hp_buddy h)\<rparr>;
          h = reserve_all_memory kstart kend fdt h;
          b = hp_buddy h;
          pool_end = G_MEMPOOL_START b + G_MEMPOOL_SIZE b;
          frame_array_size = of_nat (G_MEM_TOTAL_PAGE b) * SIZEOF_FRAME
      in case bump_search (reserved_rgns h) pool_end frame_array_size (G_MEMPOOL_START b) of
           None \<Rightarrow> None
         | Some a \<Rightarrow> Some (a, if a = 0 then h else memory_reserve a frame_array_size h))"

text \<open>The initial loops of \<open>allocator_init\<close>: marking the reserved ranges, initialising the pools.\<close>

definition mark_all_reserved :: "(u64 \<times> u64) list \<Rightarrow> buddy \<Rightarrow> buddy" where
  "mark_all_reserved rs b = fold (\<lambda>(start, len). buddy_mark_reserved_range start len) rs b"

definition allocator_init :: "u64 \<Rightarrow> u64 \<Rightarrow> fdt_info option \<Rightarrow> heap \<Rightarrow> heap option" where
  "allocator_init kstart kend fdt h =
     (case startup_alloc kstart kend fdt h of
        None \<Rightarrow> None
      | Some (a, h) \<Rightarrow>
          if a = 0 then Some h
          else
            let b = hp_buddy h;
                b = b\<lparr>frame_array := (\<lambda>i. if i < G_MEM_TOTAL_PAGE b then zero_frame else frame_array b i)\<rparr>;
                b = mark_all_reserved (reserved_rgns h) b;
                b = buddy_init b
            in Some (h\<lparr>hp_buddy := b, chunk_size := g_pool_sizes,
                       pool_links := fold (\<lambda>i. INIT_LIST_HEAD (PoolHead i)) [0..<CHUNK_POOL_COUNT] (pool_links h),
                       g_allocator_ready := True\<rparr>))"

end
