(* ===== verification/Chunk_Pools.thy ===== *)
theory Chunk_Pools
  imports Allocator
begin

text \<open>
  The chunk pools seen apart from the page allocator. \<open>V p = Some (i, c)\<close> says that page \<open>p\<close>
  belongs to pool \<open>i\<close> and has \<open>c\<close> chunks handed out; \<open>L i\<close> is the free list of pool \<open>i\<close>. The
  lemmas say what taking, returning, carving and dropping do to both.
\<close>

section \<open>Chunks of a page\<close>

abbreviation pool_size :: "nat \<Rightarrow> nat" where
  "pool_size i \<equiv> g_pool_sizes ! i"

lemma pool_cases:
  "i < CHUNK_POOL_COUNT \<Longrightarrow> i = 0 \<or> i = 1 \<or> i = 2 \<or> i = 3 \<or> i = 4 \<or> i = 5 \<or> i = 6 \<or> i = 7"
  unfolding CHUNK_POOL_COUNT_def by arith

lemma pool_size_dvd: "i < CHUNK_POOL_COUNT \<Longrightarrow> 0 < pool_size i \<and> pool_size i dvd 4096 \<and> pool_size i \<le> 2048"
  by (drule pool_cases) (auto simp: g_pool_sizes_def)

text \<open>The chunk addresses of page \<open>p\<close> of a pool that starts at \<open>A\<close>.\<close>

definition slots :: "nat \<Rightarrow> nat \<Rightarrow> nat \<Rightarrow> u64 set" where
  "slots A p sz = {a. A \<le> unat a \<and> (unat a - A) div 4096 = p \<and> sz dvd unat a - A}"

lemma finite_slots [simp]: "finite (slots A p sz)"
  by simp

lemma slots_page: "a \<in> slots A p sz \<Longrightarrow> a \<in> slots A q sz' \<Longrightarrow> p = q"
  by (simp add: slots_def)

lemma slots_range:
  assumes "a \<in> slots A p sz" "sz dvd 4096"
  shows "A + p * 4096 \<le> unat a" "unat a + sz \<le> A + (p + 1) * 4096"
proof -
  let ?x = "unat a - A"
  have x: "A \<le> unat a" "?x div 4096 = p" "sz dvd ?x" using assms by (auto simp: slots_def)
  have pm: "p * 4096 + ?x mod 4096 = ?x" using div_mult_mod_eq [of ?x 4096] by (simp add: x(2))
  then show "A + p * 4096 \<le> unat a" using x(1) by linarith
  from x(3) assms(2) have "sz dvd ?x mod 4096" by (simp add: dvd_mod)
  then obtain q where q: "?x mod 4096 = sz * q" by (auto elim: dvdE)
  from assms(2) obtain r where r: "4096 = sz * r" unfolding dvd_def by blast
  have "?x mod 4096 < 4096" by simp
  then have "sz * q < sz * r" using q r by linarith
  then have "Suc q \<le> r" by simp
  then have "sz * Suc q \<le> sz * r" by (rule mult_le_mono2)
  then have "?x mod 4096 + sz \<le> 4096" using q r by simp
  then have "unat a - A + sz \<le> (p + 1) * 4096" using pm by simp
  then show "unat a + sz \<le> A + (p + 1) * 4096" using x(1) by linarith
qed

lemma slots_apart:
  assumes "a \<in> slots A p sz" "b \<in> slots A p sz" "unat a < unat b"
  shows "unat a + sz \<le> unat b"
proof -
  have ab: "sz dvd unat a - A" "sz dvd unat b - A" "A \<le> unat a" using assms by (auto simp: slots_def)
  then obtain x y where "unat a - A = sz * x" "unat b - A = sz * y" by (auto elim!: dvdE)
  moreover have "unat a - A < unat b - A" using assms(3) ab(3) by linarith
  ultimately have "Suc x \<le> y" by simp
  then have "sz * Suc x \<le> sz * y" by (rule mult_le_mono2)
  then have "unat a - A + sz \<le> unat b - A" by (simp add: \<open>unat a - A = _\<close> \<open>unat b - A = _\<close>)
  then show ?thesis using ab(3) assms(3) by linarith
qed

section \<open>Well-formed pools\<close>

type_synonym chunk_view = "nat \<Rightarrow> (int \<times> int) option"

abbreviation pool_lists :: "(nat \<Rightarrow> u64 list) \<Rightarrow> nat \<Rightarrow> chunk_node list" where
  "pool_lists L i \<equiv> map Chunk (L i)"

definition chunks_ok :: "nat \<Rightarrow> chunk_view \<Rightarrow> chunk_node links \<Rightarrow> (nat \<Rightarrow> u64 list) \<Rightarrow> bool" where
  "chunks_ok A V l L \<longleftrightarrow>
     dlists l {..<CHUNK_POOL_COUNT} PoolHead (pool_lists L) \<and>
     (\<forall>i < CHUNK_POOL_COUNT. \<forall>a \<in> set (L i). \<exists>p c. V p = Some (int i, c) \<and> a \<in> slots A p (pool_size i)) \<and>
     (\<forall>p m c. V p = Some (m, c) \<longrightarrow>
        (\<exists>i < CHUNK_POOL_COUNT. m = int i \<and> c = int (card (slots A p (pool_size i) - set (L i)))))"

lemma chunks_ok_lists: "chunks_ok A V l L \<Longrightarrow> dlists l {..<CHUNK_POOL_COUNT} PoolHead (pool_lists L)"
  by (simp add: chunks_ok_def)

lemma chunks_ok_distinct: "chunks_ok A V l L \<Longrightarrow> i < CHUNK_POOL_COUNT \<Longrightarrow> distinct (L i)"
  using dlists_dlist [OF chunks_ok_lists, of A V l L i] by (auto simp: dlist_def distinct_map)

lemma chunks_ok_on_list:
  "chunks_ok A V l L \<Longrightarrow> i < CHUNK_POOL_COUNT \<Longrightarrow> a \<in> set (L i) \<Longrightarrow>
   \<exists>p c. V p = Some (int i, c) \<and> a \<in> slots A p (pool_size i)"
  by (simp add: chunks_ok_def)

lemma chunks_ok_count:
  "chunks_ok A V l L \<Longrightarrow> V p = Some (int i, c) \<Longrightarrow>
   i < CHUNK_POOL_COUNT \<and> c = int (card (slots A p (pool_size i) - set (L i)))"
  by (force simp: chunks_ok_def)

lemma chunks_ok_pool:
  "chunks_ok A V l L \<Longrightarrow> V p = Some (m, c) \<Longrightarrow> \<exists>i < CHUNK_POOL_COUNT. m = int i"
  unfolding chunks_ok_def by blast

text \<open>A chunk can only be on the list of the pool its page belongs to.\<close>

lemma chunks_ok_home:
  assumes "chunks_ok A V l L" "j < CHUNK_POOL_COUNT" "a \<in> set (L j)" "a \<in> slots A p sz"
  shows "\<exists>c. V p = Some (int j, c)"
proof -
  from chunks_ok_on_list [OF assms(1-3)] obtain q c where "V q = Some (int j, c)" "a \<in> slots A q (pool_size j)"
    by blast
  with assms(4) show ?thesis by (blast dest: slots_page)
qed

text \<open>Changing one list and the view of one page.\<close>

lemma chunks_ok_upd:
  assumes ok: "chunks_ok A V l L" and i: "i < CHUNK_POOL_COUNT"
    and lists: "dlists l' {..<CHUNK_POOL_COUNT} PoolHead (pool_lists (L(i := xs)))"
    and at_p: "\<And>a. a \<in> slots A p (pool_size i) \<Longrightarrow> a \<in> set xs \<Longrightarrow> v \<noteq> None"
    and off_p: "\<And>a. a \<notin> slots A p (pool_size i) \<Longrightarrow> a \<in> set xs \<longleftrightarrow> a \<in> set (L i)"
    and own: "V p = None \<or> (\<exists>c. V p = Some (int i, c))"
    and v: "v = None \<or> v = Some (int i, int (card (slots A p (pool_size i) - set xs)))"
  shows "chunks_ok A (V(p := v)) l' (L(i := xs))"
  unfolding chunks_ok_def
proof (intro conjI allI impI ballI)
  show "dlists l' {..<CHUNK_POOL_COUNT} PoolHead (pool_lists (L(i := xs)))" by (rule lists)
next
  fix j a assume j: "j < CHUNK_POOL_COUNT" and a: "a \<in> set ((L(i := xs)) j)"
  show "\<exists>q c. (V(p := v)) q = Some (int j, c) \<and> a \<in> slots A q (pool_size j)"
  proof (cases "j = i \<and> a \<in> slots A p (pool_size i)")
    case True
    with a at_p v show ?thesis by auto
  next
    case False
    then have old: "a \<in> set (L j)" using a off_p by (auto split: if_splits)
    from chunks_ok_on_list [OF ok j old] obtain q c where q: "V q = Some (int j, c)" "a \<in> slots A q (pool_size j)"
      by blast
    moreover have "q \<noteq> p" using q own False by auto
    ultimately show ?thesis by auto
  qed
next
  fix q m c assume q: "(V(p := v)) q = Some (m, c)"
  show "\<exists>j < CHUNK_POOL_COUNT. m = int j \<and> c = int (card (slots A q (pool_size j) - set ((L(i := xs)) j)))"
  proof (cases "q = p")
    case True
    with q v i show ?thesis by auto
  next
    case False
    with q have Vq: "V q = Some (m, c)" by simp
    then obtain j where j: "j < CHUNK_POOL_COUNT" "m = int j" using chunks_ok_pool [OF ok] by blast
    then have c: "c = int (card (slots A q (pool_size j) - set (L j)))" using chunks_ok_count [OF ok] Vq by blast
    have "slots A q (pool_size j) - set ((L(i := xs)) j) = slots A q (pool_size j) - set (L j)"
    proof (cases "j = i")
      case True
      have "a \<in> set xs \<longleftrightarrow> a \<in> set (L i)" if "a \<in> slots A q (pool_size j)" for a
        using that False by (intro off_p) (auto dest: slots_page)
      with True show ?thesis by auto
    qed simp
    with c j show ?thesis by auto
  qed
qed

section \<open>Taking, returning and carving\<close>

lemma pool_lists_upd: "(pool_lists L)(i := map Chunk xs) = pool_lists (L(i := xs))"
  by (auto simp: fun_eq_iff)

lemma pool_list_add:
  assumes "dlists l {..<CHUNK_POOL_COUNT} PoolHead (pool_lists L)" "i < CHUNK_POOL_COUNT"
    and "\<And>j. j < CHUNK_POOL_COUNT \<Longrightarrow> a \<notin> set (L j)"
  shows "dlists (list_add (Chunk a) (PoolHead i) l) {..<CHUNK_POOL_COUNT} PoolHead (pool_lists (L(i := a # L i)))"
proof -
  have "Chunk a \<notin> set (PoolHead j # pool_lists L j)" if "j \<in> {..<CHUNK_POOL_COUNT}" for j
    using assms(3) that by (auto simp: image_iff)
  from dlists_add [OF assms(1) _ this, of i] show ?thesis
    using assms(2) by (subst pool_lists_upd [symmetric]) simp
qed

lemma chunks_take:
  assumes ok: "chunks_ok A V l L" and i: "i < CHUNK_POOL_COUNT" and L: "L i = x # xs"
  shows "\<exists>p c. V p = Some (int i, c) \<and> x \<in> slots A p (pool_size i) \<and>
    chunks_ok A (V(p := Some (int i, c + 1))) (list_del (Chunk x) l) (L(i := xs))"
proof -
  from chunks_ok_on_list [OF ok i, of x] L obtain p c where
    p: "V p = Some (int i, c)" "x \<in> slots A p (pool_size i)" by auto
  have c: "c = int (card (slots A p (pool_size i) - set (L i)))" using chunks_ok_count [OF ok p(1)] by blast
  have x: "x \<notin> set xs" using chunks_ok_distinct [OF ok i] by (simp add: L)
  then have "slots A p (pool_size i) - set xs = insert x (slots A p (pool_size i) - set (L i))"
    using p(2) by (auto simp: L)
  then have card: "c + 1 = int (card (slots A p (pool_size i) - set xs))" by (simp add: c L)
  have "dlists (list_del (Chunk x) l) {..<CHUNK_POOL_COUNT} PoolHead (pool_lists (L(i := xs)))"
    using dlists_del [OF chunks_ok_lists [OF ok], of i "[]" "Chunk x" "map Chunk xs"] i
    by (simp add: L pool_lists_upd)
  then have "chunks_ok A (V(p := Some (int i, c + 1))) (list_del (Chunk x) l) (L(i := xs))"
    using p by (intro chunks_ok_upd [OF ok i]) (auto simp: L card)
  with p show ?thesis by blast
qed

lemma chunks_put:
  assumes ok: "chunks_ok A V l L" and V: "V p = Some (int i, c)"
    and a: "a \<in> slots A p (pool_size i)" "a \<notin> set (L i)"
  shows "chunks_ok A (V(p := Some (int i, c - 1))) (list_add (Chunk a) (PoolHead i) l) (L(i := a # L i))"
proof -
  have i: "i < CHUNK_POOL_COUNT" and c: "c = int (card (slots A p (pool_size i) - set (L i)))"
    using chunks_ok_count [OF ok V] by auto
  have "slots A p (pool_size i) - set (L i) = insert a (slots A p (pool_size i) - set (a # L i))"
    using a by auto
  then have card: "c - 1 = int (card (slots A p (pool_size i) - set (a # L i)))" by (simp add: c)
  have "a \<notin> set (L j)" if "j < CHUNK_POOL_COUNT" for j
    using that a V chunks_ok_home [OF ok, of j a p "pool_size i"] by auto
  from pool_list_add [OF chunks_ok_lists [OF ok] i this] show ?thesis
    using V a card by (intro chunks_ok_upd [OF ok i]) auto
qed

text \<open>Carving a fresh page: the chunks go onto the list one by one.\<close>

lemma dlists_add_all:
  assumes "dlists l {..<CHUNK_POOL_COUNT} PoolHead (pool_lists L)" "i < CHUNK_POOL_COUNT" "distinct ns"
    and "\<And>j a. j < CHUNK_POOL_COUNT \<Longrightarrow> a \<in> set ns \<Longrightarrow> a \<notin> set (L j)"
  shows "dlists (fold (\<lambda>a. list_add (Chunk a) (PoolHead i)) ns l) {..<CHUNK_POOL_COUNT} PoolHead
    (pool_lists (L(i := rev ns @ L i)))"
  using assms
proof (induction ns arbitrary: l L)
  case (Cons n ns)
  have "dlists (list_add (Chunk n) (PoolHead i) l) {..<CHUNK_POOL_COUNT} PoolHead (pool_lists (L(i := n # L i)))"
    using Cons.prems(4) by (intro pool_list_add [OF Cons.prems(1,2)]) auto
  moreover have "a \<notin> set ((L(i := n # L i)) j)" if "j < CHUNK_POOL_COUNT" "a \<in> set ns" for j a
    using Cons.prems(3,4) that by auto
  ultimately have "dlists (fold (\<lambda>a. list_add (Chunk a) (PoolHead i)) ns (list_add (Chunk n) (PoolHead i) l))
      {..<CHUNK_POOL_COUNT} PoolHead (pool_lists ((L(i := n # L i))(i := rev ns @ (L(i := n # L i)) i)))"
    using Cons.prems(2,3) by (intro Cons.IH) auto
  then show ?case unfolding fun_upd_upd by simp
qed simp

lemma chunks_carve:
  assumes ok: "chunks_ok A V l L" and i: "i < CHUNK_POOL_COUNT" and V: "V p = None"
    and ns: "distinct ns" "set ns = slots A p (pool_size i)"
  shows "chunks_ok A (V(p := Some (int i, 0))) (fold (\<lambda>a. list_add (Chunk a) (PoolHead i)) ns l)
    (L(i := rev ns @ L i))"
proof (rule chunks_ok_upd [OF ok i])
  have "a \<notin> set (L j)" if "j < CHUNK_POOL_COUNT" "a \<in> set ns" for j a
    using chunks_ok_home [OF ok that(1), of a p "pool_size i"] that(2) V ns(2) by auto
  then show "dlists (fold (\<lambda>a. list_add (Chunk a) (PoolHead i)) ns l) {..<CHUNK_POOL_COUNT} PoolHead
      (pool_lists (L(i := rev ns @ L i)))"
    using dlists_add_all [OF chunks_ok_lists [OF ok] i ns(1)] by blast
qed (use V ns in auto)

section \<open>The walks of free\<close>

lemma dlist_next: "dlist l h (xs @ x # ys) \<Longrightarrow> lh_next l x = hd (ys @ [h])"
  unfolding dlist_def by (auto simp: seg_append dest: seg_first)

lemma on_free_list_from:
  assumes "dlist l h (xs @ ys)" "ck \<noteq> h" "ck \<notin> set xs"
  shows "on_free_list l h ck (hd (ys @ [h])) = Some (ck \<in> set ys)"
  using assms
proof (induction ys arbitrary: xs)
  case Nil
  then show ?case by (simp add: on_free_list.simps)
next
  case (Cons y ys)
  have yh: "y \<noteq> h" using Cons.prems(1) by (auto simp: dlist_def)
  have "ck \<noteq> y \<Longrightarrow> on_free_list l h ck (hd (ys @ [h])) = Some (ck \<in> set ys)"
    using Cons.IH [of "xs @ [y]"] Cons.prems by simp
  with dlist_next [OF Cons.prems(1)] show ?case
    using yh by (subst on_free_list.simps) auto
qed

lemma on_free_list_iff:
  assumes "dlist l h xs" "ck \<noteq> h"
  shows "on_free_list l h ck (lh_next l h) = Some (ck \<in> set xs)"
proof -
  have "lh_next l h = hd (xs @ [h])" using assms(1) by (auto simp: dlist_def dest: seg_first)
  with on_free_list_from [of l h "[]" xs ck] assms show ?thesis by simp
qed

lemma unlink_page_from:
  assumes "dlists l {..<CHUNK_POOL_COUNT} PoolHead (pool_lists (L(i := xs @ ys)))" "i < CHUNK_POOL_COUNT"
  shows "\<exists>l'. unlink_page base (PoolHead i) (hd (map Chunk ys @ [PoolHead i])) l = Some l' \<and>
    dlists l' {..<CHUNK_POOL_COUNT} PoolHead
      (pool_lists (L(i := xs @ filter (\<lambda>a. \<not> (a \<ge> base \<and> a < base + PAGE_SIZE)) ys)))"
  using assms
proof (induction ys arbitrary: xs l)
  case Nil
  then show ?case by (subst unlink_page.simps) simp
next
  case (Cons y ys)
  let ?page = "y \<ge> base \<and> y < base + PAGE_SIZE"
  have d: "dlist l (PoolHead i) (map Chunk xs @ Chunk y # map Chunk ys)"
    using dlists_dlist [OF Cons.prems(1), of i] Cons.prems(2) by simp
  let ?l = "if ?page then list_del (Chunk y) l else l"
  have step: "unlink_page base (PoolHead i) (Chunk y) l =
      unlink_page base (PoolHead i) (hd (map Chunk ys @ [PoolHead i])) ?l"
    by (subst unlink_page.simps) (simp add: dlist_next [OF d] chunk_addr_def)
  show ?case
  proof (cases ?page)
    case True
    have "dlists ?l {..<CHUNK_POOL_COUNT} PoolHead (pool_lists (L(i := xs @ ys)))"
      using dlists_del [OF Cons.prems(1), of i "map Chunk xs" "Chunk y" "map Chunk ys"] Cons.prems(2) True
      by (simp add: fun_upd_def if_distrib cong: if_cong)
    from Cons.IH [OF this Cons.prems(2)] True show ?thesis unfolding list.map append.simps list.sel step by simp
  next
    case False
    then have "?l = l" by auto
    then have "dlists ?l {..<CHUNK_POOL_COUNT} PoolHead (pool_lists (L(i := (xs @ [y]) @ ys)))"
      using Cons.prems(1) by simp
    from Cons.IH [OF this Cons.prems(2)] False \<open>?l = l\<close> show ?thesis
      unfolding list.map append.simps list.sel step by (simp only: if_False append_assoc append.simps filter.simps)
        simp
  qed
qed

text \<open>Once every chunk of a page is free, the walk takes all of them, and only them, off the list.\<close>

lemma chunks_drop:
  assumes ok: "chunks_ok A V l L" and V: "V p = Some (int i, 0)"
    and base: "unat base = A + p * 4096" "A + (p + 1) * 4096 < 2 ^ 64"
  shows "\<exists>l' xs. unlink_page base (PoolHead i) (lh_next l (PoolHead i)) l = Some l' \<and>
    chunks_ok A (V(p := None)) l' (L(i := xs)) \<and>
    set xs = set (L i) - slots A p (pool_size i)"
proof -
  have i: "i < CHUNK_POOL_COUNT" using chunks_ok_count [OF ok V] by blast
  let ?xs = "filter (\<lambda>a. \<not> (a \<ge> base \<and> a < base + PAGE_SIZE)) (L i)"
  have d: "dlists l {..<CHUNK_POOL_COUNT} PoolHead (pool_lists (L(i := [] @ L i)))"
    using chunks_ok_lists [OF ok] by simp
  have "dlist l (PoolHead i) (map Chunk (L i))" using dlists_dlist [OF chunks_ok_lists [OF ok], of i] i by simp
  then have "lh_next l (PoolHead i) = hd (map Chunk (L i) @ [PoolHead i])"
    by (auto simp: dlist_def dest: seg_first)
  with unlink_page_from [OF d i, of base] obtain l' where
    l': "unlink_page base (PoolHead i) (lh_next l (PoolHead i)) l = Some l'"
      "dlists l' {..<CHUNK_POOL_COUNT} PoolHead (pool_lists (L(i := ?xs)))" by auto
  have page: "a \<ge> base \<and> a < base + PAGE_SIZE \<longleftrightarrow> a \<in> slots A p (pool_size i)" if a: "a \<in> set (L i)" for a
  proof -
    from chunks_ok_on_list [OF ok i a] obtain q where q: "a \<in> slots A q (pool_size i)" by blast
    have e: "unat (base + PAGE_SIZE) = A + (p + 1) * 4096"
      using base by (simp add: unat_add_u64 PAGE_SIZE_eq)
    have "unat a < A + (q + 1) * 4096" "A + q * 4096 \<le> unat a"
      using slots_range [OF q] pool_size_dvd [OF i] by linarith+
    then have "a \<ge> base \<and> a < base + PAGE_SIZE \<longleftrightarrow> q = p"
      unfolding word_le_nat_alt word_less_nat_alt e base(1) by (cases q p rule: linorder_cases) auto
    with q show ?thesis by (auto dest: slots_page)
  qed
  then have set: "set ?xs = set (L i) - slots A p (pool_size i)" by auto
  have "chunks_ok A (V(p := None)) l' (L(i := ?xs))"
    using V set by (intro chunks_ok_upd [OF ok i l'(2)]) auto
  with l'(1) set show ?thesis by blast
qed

end
