(* ===== verification/Allocator_Inv.thy ===== *)
theory Allocator_Inv
  imports Chunk_Pools
begin

text \<open>
  The invariant of the kernel heap and what \<open>allocate\<close> and \<open>free\<close> do to the regions in use:
  allocated page blocks with their reference counts, and chunks of pool pages that are not on the
  free list of their pool.
\<close>

section \<open>Frame updates under the page allocator's invariant\<close>

lemma upd_frame_fields [simp]:
  "G_MEM_TOTAL_PAGE (upd_frame i g b) = G_MEM_TOTAL_PAGE b"
  "G_MEMPOOL_START (upd_frame i g b) = G_MEMPOOL_START b"
  "G_MEMPOOL_SIZE (upd_frame i g b) = G_MEMPOOL_SIZE b"
  "frame_array (upd_frame i g b) = (frame_array b)(i := g (frame_array b i))"
  by (simp_all add: upd_frame_def)

text \<open>Counters do not matter to the page allocator.\<close>

lemma buddy_inv_counts:
  assumes "buddy_inv b"
    and "\<And>fr. fr_state (g fr) = fr_state fr \<and> fr_order (g fr) = fr_order fr"
  shows "buddy_inv (upd_frame i g b)"
proof -
  from assms(1) obtain F where "buddy_open b F 0 0" "buddy_ready b" "pool_ok b" by (auto simp: buddy_inv_def)
  then have "buddy_open (b\<lparr>frame_array := (frame_array b)(i := g (frame_array b i))\<rparr>) F 0 0"
    using assms(2) by (intro buddy_open_frames) auto
  with \<open>buddy_ready b\<close> \<open>pool_ok b\<close> show ?thesis by (auto simp: upd_frame_def buddy_inv_def pool_ok_def)
qed

definition used_page :: "frame \<Rightarrow> bool" where
  "used_page fr \<longleftrightarrow> fr_order fr = 0 \<and> fr_state fr \<in> {PAGE_STATE_ALLOC_PAGE_HEAD, PAGE_STATE_ALLOC_CHUNK_POOL}"

text \<open>A single used page may change between a plain page and a pool page.\<close>

lemma buddy_inv_used:
  assumes inv: "buddy_inv b" and i: "i < G_MEM_TOTAL_PAGE b" and u: "used_page (frame_array b i)"
    and g: "used_page (g (frame_array b i))"
  shows "buddy_inv (upd_frame i g b)"
proof -
  from inv obtain F where op: "buddy_open b F 0 0" and r: "buddy_ready b" "pool_ok b" by (auto simp: buddy_inv_def)
  let ?f = "(frame_array b)(i := g (frame_array b i))"
  have "tiled (frame_array b) 0 (G_MEM_TOTAL_PAGE b)" using op by (simp add: buddy_open_def)
  from tiled_head [OF this _ i] u obtain k where blk: "block (frame_array b) i k"
    and t: "tiled (frame_array b) 0 i" "tiled (frame_array b) (i + 2 ^ k) (G_MEM_TOTAL_PAGE b)"
    by (auto simp: used_page_def head_state_def)
  have k: "k = 0" using blk u by (simp add: block_def used_page_def)
  have "tiled ?f 0 i" using t(1) by (rule tiled_cong) auto
  moreover have "block ?f i 0" using g by (auto simp: block_def used_page_def tails_def)
  moreover have "tiled ?f (i + 2 ^ 0) (G_MEM_TOTAL_PAGE b)" using t(2) unfolding k by (rule tiled_cong) auto
  ultimately have "tiled ?f 0 (G_MEM_TOTAL_PAGE b)" by (blast intro: tiled_block tiled_append)
  moreover have "free_heads (upd_frame i g b) 0 0 l = free_heads b 0 0 l" for l
    using u g by (auto simp: free_heads_def free_at_def used_page_def)
  ultimately have "buddy_open (upd_frame i g b) F 0 0"
    using op by (simp add: buddy_open_def coalesced_def upd_frame_def tiled_self)
  with r show ?thesis by (auto simp: upd_frame_def buddy_inv_def pool_ok_def)
qed

section \<open>The view of the pool pages\<close>

definition chunk_view :: "buddy \<Rightarrow> chunk_view" where
  "chunk_view b p =
     (if p < G_MEM_TOTAL_PAGE b \<and> fr_state (frame_array b p) = PAGE_STATE_ALLOC_CHUNK_POOL
      then Some (meta_pool_idx (frame_array b p), ref_count (frame_array b p)) else None)"

lemma chunk_view_some:
  "chunk_view b p = Some (m, c) \<longleftrightarrow> p < G_MEM_TOTAL_PAGE b \<and>
     fr_state (frame_array b p) = PAGE_STATE_ALLOC_CHUNK_POOL \<and>
     meta_pool_idx (frame_array b p) = m \<and> ref_count (frame_array b p) = c"
  by (auto simp: chunk_view_def)

lemma chunk_view_free: "p \<in> free_pages b \<Longrightarrow> chunk_view b p = None"
  by (auto simp: chunk_view_def free_pages_def free_state_def)

lemma chunk_view_alloc:
  assumes inv: "buddy_inv b"
  shows "chunk_view (snd (buddy_alloc_pages k b)) = chunk_view b"
proof (cases "fst (buddy_alloc_pages k b) = 0")
  case True
  then show ?thesis by (simp add: alloc_null_state [OF inv])
next
  case False
  let ?b = "snd (buddy_alloc_pages k b)"
  from alloc_success [OF inv False] obtain idx where
    A: "free_pages ?b = free_pages b - {idx..<idx + 2 ^ k}" "block (frame_array ?b) idx k"
      "fr_state (frame_array ?b idx) = PAGE_STATE_ALLOC_PAGE_HEAD"
      "\<And>j. j \<notin> free_pages b \<Longrightarrow> frame_array ?b j = frame_array b j" "G_MEM_TOTAL_PAGE ?b = G_MEM_TOTAL_PAGE b"
    by metis
  show ?thesis
  proof
    fix p
    show "chunk_view ?b p = chunk_view b p"
    proof (cases "p \<in> free_pages b")
      case False
      then show ?thesis by (simp add: chunk_view_def A(4,5))
    next
      case True
      have "chunk_view ?b p = None"
      proof (cases "p \<in> {idx..<idx + 2 ^ k}")
        case True
        then have "fr_state (frame_array ?b p) \<noteq> PAGE_STATE_ALLOC_CHUNK_POOL"
          using block_tail [OF A(2), of p] A(3) by (cases "p = idx") (auto simp: head_state_def)
        then show ?thesis by (simp add: chunk_view_def)
      qed (use True A(1) in \<open>simp add: chunk_view_free\<close>)
      with True show ?thesis by (simp add: chunk_view_free)
    qed
  qed
qed

lemma chunk_view_release:
  assumes inv: "buddy_inv b" and i: "(i, k) \<in> alloc_blocks b"
  shows "chunk_view (buddy_free_pages (page_to_addr b i) b) = chunk_view b"
proof
  fix p
  let ?b = "buddy_free_pages (page_to_addr b i) b"
  have blk: "block (frame_array b) i k" "i < G_MEM_TOTAL_PAGE b"
    "fr_state (frame_array b i) = PAGE_STATE_ALLOC_PAGE_HEAD"
    using alloc_block [OF inv i] i by (auto simp: alloc_blocks_def)
  from free_success [OF inv blk(2,3)] obtain l where B: "block (frame_array b) i l"
    "free_pages ?b = free_pages b \<union> {i..<i + 2 ^ l}" "\<And>j. j \<notin> free_pages ?b \<Longrightarrow> frame_array ?b j = frame_array b j"
    "G_MEM_TOTAL_PAGE ?b = G_MEM_TOTAL_PAGE b" by metis
  show "chunk_view ?b p = chunk_view b p"
  proof (cases "p \<in> free_pages ?b")
    case False
    then show ?thesis by (simp add: chunk_view_def B(3,4))
  next
    case True
    have "chunk_view b p = None"
    proof (cases "p \<in> {i..<i + 2 ^ l}")
      case True
      then have "fr_state (frame_array b p) \<noteq> PAGE_STATE_ALLOC_CHUNK_POOL"
        using block_tail [OF B(1), of p] blk(3) by (cases "p = i") (auto simp: head_state_def)
      then show ?thesis by (simp add: chunk_view_def)
    qed (use True B(2) in \<open>auto simp: chunk_view_free\<close>)
    with True show ?thesis by (simp add: chunk_view_free)
  qed
qed

section \<open>Chunk addresses\<close>

abbreviation pool_base :: "buddy \<Rightarrow> nat" where
  "pool_base b \<equiv> unat (G_MEMPOOL_START b)"

lemma in_pool_iff:
  assumes "pool_ok b"
  shows "in_pool b a \<longleftrightarrow> pool_base b \<le> unat a \<and> unat a < pool_base b + G_MEM_TOTAL_PAGE b * 4096"
proof -
  have "G_MEMPOOL_SIZE b = 0 \<Longrightarrow> G_MEM_TOTAL_PAGE b = 0"
    using assms by (simp add: pool_ok_def)
  then show ?thesis
    using pool_addr_iff [OF assms, of a] by (auto simp: in_pool_def not_le not_less PAGE_SHIFT_def)
qed

lemma addr_page:
  assumes "pool_ok b" "pool_base b \<le> unat a"
  shows "addr_to_page_idx b a = (unat a - pool_base b) div 4096"
  using page_index [OF assms] by (simp add: addr_to_page_idx_def PAGE_SHIFT_def)

lemma slot_addr:
  assumes pool: "pool_ok b" and a: "a \<in> slots (pool_base b) p sz" and p: "p < G_MEM_TOTAL_PAGE b"
  shows "addr_to_page_idx b a = p" "in_pool b a" "a \<noteq> 0"
proof -
  have x: "pool_base b \<le> unat a" "(unat a - pool_base b) div 4096 = p" using a by (auto simp: slots_def)
  then show "addr_to_page_idx b a = p" by (simp add: addr_page [OF pool])
  have "unat a - pool_base b < G_MEM_TOTAL_PAGE b * 4096"
    using x(2) p by (simp add: div_less_iff_less_mult flip: x(2))
  then show "in_pool b a" using x(1) by (simp add: in_pool_iff [OF pool])
  show "a \<noteq> 0" using x(1) pool by (auto simp: pool_ok_def)
qed

text \<open>The addresses the refill loop links are the chunk addresses of the page, each once.\<close>

lemma carve_slots:
  fixes page :: u64
  assumes pg: "unat page = A + idx * 4096" and top: "A + (idx + 1) * 4096 < 2 ^ 64"
    and sz: "0 < sz" "sz dvd 4096"
  defines "f \<equiv> \<lambda>k. page + of_nat k * of_nat sz"
  shows "distinct (map f [0..<4096 div sz])" "set (map f [0..<4096 div sz]) = slots A idx sz"
proof -
  from sz obtain n where n: "4096 = sz * n" unfolding dvd_def by blast
  have n': "4096 div sz = n" using n sz(1) by (metis nonzero_mult_div_cancel_left not_gr_zero)
  have lt: "k * sz < 4096" if "k < n" for k
  proof -
    have "k * sz < n * sz" using that sz(1) by simp
    then show ?thesis using n by (metis mult.commute)
  qed
  have f: "unat (f k) = A + idx * 4096 + k * sz" if "k < n" for k
  proof -
    have "unat (of_nat k * of_nat sz :: u64) = k * sz"
      using lt [OF that] by (simp add: unat_of_nat_u64 flip: of_nat_mult)
    with pg top lt [OF that] show ?thesis by (simp add: f_def unat_add_u64)
  qed
  have "inj_on f {0..<n}"
  proof (rule inj_onI)
    fix x y assume xy: "x \<in> {0..<n}" "y \<in> {0..<n}" "f x = f y"
    then have "x < n" "y < n" by simp_all
    from f [OF this(1)] f [OF this(2)] have "A + idx * 4096 + x * sz = A + idx * 4096 + y * sz"
      unfolding xy(3) by (rule trans [OF sym])
    then show "x = y" using sz(1) by (simp only: add_left_cancel mult_cancel2) simp
  qed
  then show "distinct (map f [0..<4096 div sz])" by (simp add: distinct_map n')
  have "f k \<in> slots A idx sz" if "k < n" for k
  proof -
    have "sz dvd idx * 4096 + k * sz" using sz(2) by (intro dvd_add) auto
    moreover have "(idx * 4096 + k * sz) div 4096 = idx" using lt [OF that] by (simp add: div_less)
    moreover have "unat (f k) - A = idx * 4096 + k * sz" "A \<le> unat (f k)" using f [OF that] by simp_all
    ultimately show ?thesis unfolding slots_def by simp
  qed
  moreover have "a \<in> f ` {0..<n}" if a: "a \<in> slots A idx sz" for a
  proof -
    let ?x = "unat a - A"
    have x: "A \<le> unat a" "?x div 4096 = idx" "sz dvd ?x" using a by (auto simp: slots_def)
    have pm: "idx * 4096 + ?x mod 4096 = ?x" using div_mult_mod_eq [of ?x 4096] by (simp add: x(2))
    from x(3) sz(2) have "sz dvd ?x mod 4096" by (simp add: dvd_mod)
    then obtain k where k: "?x mod 4096 = sz * k" by (auto elim: dvdE)
    have "?x mod 4096 < 4096" by simp
    then have "sz * k < sz * n" using k n by linarith
    then have kn: "k < n" by simp
    have "unat (f k) = unat a" using f [OF kn] pm k x(1) by (simp add: mult.commute)
    then show ?thesis using kn by (auto simp: image_iff word_unat_eq_iff intro!: bexI [of _ k])
  qed
  ultimately show "set (map f [0..<4096 div sz]) = slots A idx sz" by (auto simp: n')
qed

section \<open>The invariant and the regions in use\<close>

definition heap_ok :: "heap \<Rightarrow> (nat \<Rightarrow> u64 list) \<Rightarrow> bool" where
  "heap_ok h L \<longleftrightarrow> buddy_inv (hp_buddy h) \<and> g_allocator_ready h \<and> chunk_size h = g_pool_sizes \<and>
     chunks_ok (pool_base (hp_buddy h)) (chunk_view (hp_buddy h)) (pool_links h) L"

text \<open>Every pool page has a chunk handed out, and every allocated block a reference.\<close>

definition counts_ok :: "buddy \<Rightarrow> bool" where
  "counts_ok b \<longleftrightarrow> (\<forall>p m c. chunk_view b p = Some (m, c) \<longrightarrow> 0 < c) \<and>
     (\<forall>(i, k) \<in> alloc_blocks b. 1 \<le> cow_ref_count (frame_array b i))"

definition heap_inv :: "heap \<Rightarrow> bool" where
  "heap_inv h \<longleftrightarrow> (\<exists>L. heap_ok h L) \<and> counts_ok (hp_buddy h)"

definition free_chunks :: "heap \<Rightarrow> nat \<Rightarrow> u64 set" where
  "free_chunks h i =
     {a. \<exists>xs. list_for_each (pool_links h) (PoolHead i) (lh_next (pool_links h) (PoolHead i)) = Some xs \<and>
         Chunk a \<in> set xs}"

definition used_chunks :: "heap \<Rightarrow> (u64 \<times> nat) set" where
  "used_chunks h = {(a, i). \<exists>p c. chunk_view (hp_buddy h) p = Some (int i, c) \<and>
     a \<in> slots (pool_base (hp_buddy h)) p (pool_size i) \<and> a \<notin> free_chunks h i}"

lemma heap_ok_pool: "heap_ok h L \<Longrightarrow> pool_ok (hp_buddy h)"
  by (simp add: heap_ok_def buddy_inv_def)

lemma free_chunks_list:
  assumes "heap_ok h L" "i < CHUNK_POOL_COUNT"
  shows "free_chunks h i = set (L i)"
proof -
  have "dlist (pool_links h) (PoolHead i) (pool_lists L i)"
    using assms by (intro dlists_dlist [OF chunks_ok_lists]) (auto simp: heap_ok_def)
  from dlist_for_each [OF this] show ?thesis by (auto simp: free_chunks_def)
qed

lemma used_chunks_iff:
  assumes "heap_ok h L"
  shows "(a, i) \<in> used_chunks h \<longleftrightarrow> (\<exists>p c. chunk_view (hp_buddy h) p = Some (int i, c) \<and>
     a \<in> slots (pool_base (hp_buddy h)) p (pool_size i) \<and> a \<notin> set (L i))"
proof -
  have "i < CHUNK_POOL_COUNT" if "chunk_view (hp_buddy h) p = Some (int i, c)" for p c
    using that assms chunks_ok_count unfolding heap_ok_def by blast
  then show ?thesis using free_chunks_list [OF assms] by (auto simp: used_chunks_def)
qed

text \<open>The pool pages, as a set of page and pool; only counts change when chunks come and go.\<close>

definition pool_pages :: "chunk_view \<Rightarrow> (nat \<times> int) set" where
  "pool_pages V = {(p, m). \<exists>c. V p = Some (m, c)}"

lemma used_chunks_pages:
  assumes "heap_ok h L"
  shows "used_chunks h = {(a, i). \<exists>p. (p, int i) \<in> pool_pages (chunk_view (hp_buddy h)) \<and>
     a \<in> slots (pool_base (hp_buddy h)) p (pool_size i) \<and> a \<notin> set (L i)}"
  unfolding pool_pages_def using used_chunks_iff [OF assms] by fast

lemma pool_pages_upd: "V p = Some (m, c) \<Longrightarrow> pool_pages (V(p := Some (m, c'))) = pool_pages V"
  by (auto simp: pool_pages_def split: if_splits)

lemma alloc_blocks_counts:
  "(\<And>fr. fr_state (g fr) = fr_state fr \<and> fr_order (g fr) = fr_order fr) \<Longrightarrow>
   alloc_blocks (upd_frame i g b) = alloc_blocks b"
  by (auto simp: alloc_blocks_def split: if_splits)

lemma chunk_view_ref:
  assumes "chunk_view b p = Some (m, c)"
  shows "chunk_view (upd_frame p (\<lambda>fr. fr\<lparr>ref_count := r fr\<rparr>) b) = (chunk_view b)(p := Some (m, r (frame_array b p)))"
  using assms by (auto simp: fun_eq_iff chunk_view_def split: if_splits)

section \<open>The chunk path of allocate\<close>

lemma heap_take:
  assumes ok: "heap_ok h L" and i: "i < CHUNK_POOL_COUNT" and L: "L i = x # xs"
    and tk: "take_chunk i h = (ck, h')"
  shows "ck = x" "heap_ok h' (L(i := xs))" "x \<noteq> 0"
    "used_chunks h' = insert (x, i) (used_chunks h)" "(x, i) \<notin> used_chunks h"
    "alloc_blocks (hp_buddy h') = alloc_blocks (hp_buddy h)"
    "\<And>j. cow_ref_count (frame_array (hp_buddy h') j) = cow_ref_count (frame_array (hp_buddy h) j)"
    "G_MEMPOOL_START (hp_buddy h') = G_MEMPOOL_START (hp_buddy h)"
    "\<And>q m c. chunk_view (hp_buddy h') q = Some (m, c) \<Longrightarrow>
       0 < c \<or> chunk_view (hp_buddy h) q = Some (m, c) \<and> x \<notin> slots (pool_base (hp_buddy h)) q (pool_size i)"
proof -
  let ?b = "hp_buddy h" and ?A = "pool_base (hp_buddy h)"
  have inv: "buddy_inv ?b" and cok: "chunks_ok ?A (chunk_view ?b) (pool_links h) L"
    using ok by (auto simp: heap_ok_def)
  from chunks_take [OF cok i L] obtain p c where p: "chunk_view ?b p = Some (int i, c)"
    "x \<in> slots ?A p (pool_size i)"
    "chunks_ok ?A ((chunk_view ?b)(p := Some (int i, c + 1))) (list_del (Chunk x) (pool_links h)) (L(i := xs))"
    by blast
  have lt: "p < G_MEM_TOTAL_PAGE ?b" using p(1) by (simp add: chunk_view_some)
  note sa = slot_addr [OF heap_ok_pool [OF ok] p(2) lt]
  have "dlist (pool_links h) (PoolHead i) (pool_lists L i)"
    using dlists_dlist [OF chunks_ok_lists [OF cok], of i] i by simp
  then have nx: "lh_next (pool_links h) (PoolHead i) = Chunk x" by (simp add: L dlist_first)
  let ?g = "\<lambda>fr. fr\<lparr>ref_count := ref_count fr + 1\<rparr>"
  have h': "ck = x" "h' = h\<lparr>pool_links := list_del (Chunk x) (pool_links h), hp_buddy := upd_frame p ?g ?b\<rparr>"
    using tk by (auto simp: take_chunk_def nx chunk_addr_def sa(1))
  then show "ck = x" "x \<noteq> 0" using sa(3) by auto
  have view: "chunk_view (hp_buddy h') = (chunk_view ?b)(p := Some (int i, c + 1))"
    using chunk_view_ref [OF p(1), of "\<lambda>fr. ref_count fr + 1"] p(1) by (simp add: h' chunk_view_some)
  have inv': "buddy_inv (hp_buddy h')" using inv by (simp add: h' buddy_inv_counts)
  show ok': "heap_ok h' (L(i := xs))"
    using ok inv' p(3) by (simp add: heap_ok_def view) (simp add: h')
  show "alloc_blocks (hp_buddy h') = alloc_blocks ?b" by (simp add: h' alloc_blocks_counts)
  show "cow_ref_count (frame_array (hp_buddy h') j) = cow_ref_count (frame_array ?b j)" for j by (simp add: h')
  show st: "G_MEMPOOL_START (hp_buddy h') = G_MEMPOOL_START ?b" by (simp add: h')
  have pg: "pool_pages (chunk_view (hp_buddy h')) = pool_pages (chunk_view ?b)"
    unfolding view using p(1) by (rule pool_pages_upd)
  have x: "x \<notin> set xs" "x \<in> set (L i)" using chunks_ok_distinct [OF cok i] by (auto simp: L)
  show "(x, i) \<notin> used_chunks h" using x(2) by (simp add: used_chunks_iff [OF ok])
  have "(p, int i) \<in> pool_pages (chunk_view ?b)" using p(1) by (auto simp: pool_pages_def)
  then show "used_chunks h' = insert (x, i) (used_chunks h)"
    using x(1) p(2) unfolding used_chunks_pages [OF ok'] used_chunks_pages [OF ok] pg st by (auto simp: L)
  show "0 < c' \<or> chunk_view ?b q = Some (m, c') \<and> x \<notin> slots ?A q (pool_size i)"
    if "chunk_view (hp_buddy h') q = Some (m, c')" for q m c'
  proof (cases "q = p")
    case True
    have "0 \<le> c" using chunks_ok_count [OF cok p(1)] by simp
    with True that show ?thesis by (simp add: view)
  next
    case False
    with that p(2) show ?thesis by (auto simp: view dest: slots_page)
  qed
qed

text \<open>A fresh page turned into a pool page: the page allocator's blocks are as before.\<close>

lemma pool_page_blocks:
  assumes inv: "buddy_inv b" and nz: "fst (buddy_alloc_pages 0 b) \<noteq> 0"
  defines "b1 \<equiv> snd (buddy_alloc_pages 0 b)"
  obtains idx where "fst (buddy_alloc_pages 0 b) = page_to_addr b idx" "idx < G_MEM_TOTAL_PAGE b"
    "addr_to_page_idx b1 (page_to_addr b idx) = idx" "chunk_view b idx = None"
    "buddy_inv (upd_frame idx (chunk_page m) b1)"
    "chunk_view (upd_frame idx (chunk_page m) b1) = (chunk_view b)(idx := Some (m, 0))"
    "alloc_blocks (upd_frame idx (chunk_page m) b1) = alloc_blocks b"
    "G_MEMPOOL_START b1 = G_MEMPOOL_START b"
    "\<And>j k. (j, k) \<in> alloc_blocks b \<Longrightarrow> frame_array (upd_frame idx (chunk_page m) b1) j = frame_array b j"
proof -
  from alloc_success [OF inv nz, folded b1_def] obtain idx where A: "fst (buddy_alloc_pages 0 b) = page_to_addr b idx"
    "buddy_inv b1" "idx + 2 ^ 0 \<le> G_MEM_TOTAL_PAGE b" "{idx..<idx + 2 ^ 0} \<subseteq> free_pages b"
    "free_pages b1 = free_pages b - {idx..<idx + 2 ^ 0}" "block (frame_array b1) idx 0"
    "fr_state (frame_array b1 idx) = PAGE_STATE_ALLOC_PAGE_HEAD"
    "\<And>j. j \<notin> free_pages b \<Longrightarrow> frame_array b1 j = frame_array b j"
    "G_MEM_TOTAL_PAGE b1 = G_MEM_TOTAL_PAGE b" "G_MEMPOOL_START b1 = G_MEMPOOL_START b" by metis
  let ?b2 = "upd_frame idx (chunk_page m) b1"
  have idx: "idx < G_MEM_TOTAL_PAGE b" "idx \<in> free_pages b" using A(3,4) by auto
  have "addr_to_page_idx b1 (page_to_addr b idx) = idx"
    using page_index_addr [of b idx] inv idx(1) by (simp add: addr_to_page_idx_def A(10) buddy_inv_def)
  moreover have "buddy_inv ?b2"
    using A(2,6,7,9) idx(1) by (intro buddy_inv_used) (auto simp: used_page_def block_def chunk_page_def)
  moreover have "chunk_view b1 = chunk_view b" unfolding b1_def by (rule chunk_view_alloc [OF inv])
  then have "chunk_view ?b2 = (chunk_view b)(idx := Some (m, 0))"
    using idx(1) A(9) by (auto simp: fun_eq_iff chunk_view_def chunk_page_def split: if_splits)
  moreover have same: "frame_array ?b2 j = frame_array b j" if "(j, k) \<in> alloc_blocks b" for j k
    using not_free_alloc [OF that] idx(2) A(8) [of j] by (cases "j = idx") auto
  moreover have "(j, k) \<in> alloc_blocks ?b2 \<longleftrightarrow> (j, k) \<in> alloc_blocks b" for j k
  proof (cases "j \<in> free_pages b")
    case True
    then have "(j, k) \<notin> alloc_blocks b" using not_free_alloc by blast
    moreover have "(j, k) \<notin> alloc_blocks ?b2"
    proof (cases "j = idx")
      case False
      then have "j \<in> free_pages b1" using True by (simp add: A(5))
      then have "(j, k) \<notin> alloc_blocks b1" using not_free_alloc by blast
      with False show ?thesis by (simp add: alloc_blocks_def)
    qed (simp add: alloc_blocks_def chunk_page_def)
    ultimately show ?thesis by blast
  next
    case False
    then have "j \<noteq> idx" using idx(2) by blast
    then show ?thesis using A(8) [OF False] A(9) by (simp add: alloc_blocks_def)
  qed
  then have "alloc_blocks ?b2 = alloc_blocks b" by auto
  ultimately show ?thesis using that A(1,10) idx by (simp add: chunk_view_free)
qed

lemma heap_expand:
  assumes ok: "heap_ok h L" and i: "i < CHUNK_POOL_COUNT" and ex: "expand_chunk_pool i h = (r, h')"
  shows "(r \<noteq> 0 \<and> h' = h) \<or>
    (r = 0 \<and> (\<exists>ns. ns \<noteq> [] \<and> heap_ok h' (L(i := rev ns @ L i)) \<and> used_chunks h' = used_chunks h \<and>
       alloc_blocks (hp_buddy h') = alloc_blocks (hp_buddy h) \<and>
       G_MEMPOOL_START (hp_buddy h') = G_MEMPOOL_START (hp_buddy h) \<and>
       (\<forall>(j, k) \<in> alloc_blocks (hp_buddy h). frame_array (hp_buddy h') j = frame_array (hp_buddy h) j) \<and>
       (\<forall>q m c. chunk_view (hp_buddy h') q = Some (m, c) \<longrightarrow>
          chunk_view (hp_buddy h) q = Some (m, c) \<or> set ns = slots (pool_base (hp_buddy h)) q (pool_size i))))"
proof -
  let ?b = "hp_buddy h" and ?A = "pool_base (hp_buddy h)"
  have inv: "buddy_inv ?b" and cok: "chunks_ok ?A (chunk_view ?b) (pool_links h) L" and cs: "chunk_size h = g_pool_sizes"
    using ok by (auto simp: heap_ok_def)
  show ?thesis
  proof (cases "fst (buddy_alloc_pages 0 ?b) = 0")
    case True
    then show ?thesis using ex alloc_null_state [OF inv True] by (simp add: expand_chunk_pool_def split_beta)
  next
    case False
    from pool_page_blocks [OF inv False, of "int i"] obtain idx where
      B: "fst (buddy_alloc_pages 0 ?b) = page_to_addr ?b idx" "idx < G_MEM_TOTAL_PAGE ?b"
        "addr_to_page_idx (snd (buddy_alloc_pages 0 ?b)) (page_to_addr ?b idx) = idx" "chunk_view ?b idx = None"
        "buddy_inv (upd_frame idx (chunk_page (int i)) (snd (buddy_alloc_pages 0 ?b)))"
        "chunk_view (upd_frame idx (chunk_page (int i)) (snd (buddy_alloc_pages 0 ?b))) = (chunk_view ?b)(idx := Some (int i, 0))"
        "alloc_blocks (upd_frame idx (chunk_page (int i)) (snd (buddy_alloc_pages 0 ?b))) = alloc_blocks ?b"
        "G_MEMPOOL_START (snd (buddy_alloc_pages 0 ?b)) = G_MEMPOOL_START ?b"
        "\<And>j k. (j, k) \<in> alloc_blocks ?b \<Longrightarrow>
           frame_array (upd_frame idx (chunk_page (int i)) (snd (buddy_alloc_pages 0 ?b))) j = frame_array ?b j" by blast
    define page where "page = page_to_addr ?b idx"
    define ns where "ns = map (\<lambda>k. page + of_nat k * of_nat (pool_size i)) [0..<4096 div pool_size i]"
    have pool: "pool_ok ?b" using inv by (simp add: buddy_inv_def)
    have pg: "unat page = ?A + idx * 4096"
      using unat_page_to_addr [OF pool B(2)] by (simp add: page_def PAGE_SHIFT_def)
    have "(idx + 1) * 4096 \<le> G_MEM_TOTAL_PAGE ?b * 4096" using B(2) by (intro mult_le_mono1) simp
    then have top: "?A + (idx + 1) * 4096 < 2 ^ 64" using pool by (simp add: pool_ok_def PAGE_SHIFT_def)
    have psz: "0 < pool_size i" "pool_size i dvd 4096" using pool_size_dvd [OF i] by auto
    note ns = carve_slots [OF pg top psz, folded ns_def]
    have "page \<in> slots ?A idx (pool_size i)" using pg psz by (simp add: slots_def)
    then have ne: "ns \<noteq> []" using ns(2) by auto
    let ?b' = "upd_frame idx (chunk_page (int i)) (snd (buddy_alloc_pages 0 ?b))"
    have h': "r = 0" "h' = h\<lparr>hp_buddy := ?b', pool_links := fold (\<lambda>a. list_add (Chunk a) (PoolHead i)) ns (pool_links h)\<rparr>"
      using ex False B(3) psz(1)
      by (auto simp: expand_chunk_pool_def split_beta B(1) cs ns_def page_def fold_map comp_def PAGE_SIZE_eq Let_def)
    have ok': "heap_ok h' (L(i := rev ns @ L i))"
      using ok B(5,6,8) chunks_carve [OF cok i B(4) ns] by (simp add: heap_ok_def h')
    have "used_chunks h' = used_chunks h"
      unfolding used_chunks_pages [OF ok'] used_chunks_pages [OF ok]
      using B(4,6,8) ns(2)
      by (auto simp: h' pool_pages_def dest: slots_page split: if_splits) (metis option.distinct(1))+
    moreover have "chunk_view ?b q = Some (m, c) \<or> set ns = slots ?A q (pool_size i)"
      if "chunk_view (hp_buddy h') q = Some (m, c)" for q m c
      using that ns(2) by (auto simp: h' B(6) split: if_splits)
    moreover have "\<forall>(j, k) \<in> alloc_blocks ?b. frame_array (hp_buddy h') j = frame_array ?b j"
      using B(9) by (auto simp: h'(2))
    moreover have "alloc_blocks (hp_buddy h') = alloc_blocks ?b" "G_MEMPOOL_START (hp_buddy h') = G_MEMPOOL_START ?b"
      using B(7,8) by (simp_all add: h'(2))
    ultimately show ?thesis using ne ok' h'(1) by blast
  qed
qed

section \<open>Sizes\<close>

lemma find_pool_index_spec:
  assumes "chunk_size h = g_pool_sizes" "unat len \<le> 2048"
  shows "\<exists>i. find_pool_index h len = Some i \<and> i < CHUNK_POOL_COUNT \<and> unat len \<le> pool_size i \<and>
    (\<forall>j < i. pool_size j < unat len)"
proof -
  have "find_pool_index h len \<noteq> None"
    using assms by (auto simp: find_pool_index_def find_None_iff CHUNK_POOL_COUNT_def g_pool_sizes_def intro!: exI [of _ 7])
  then obtain i where i: "find_pool_index h len = Some i" by auto
  then have "i < CHUNK_POOL_COUNT" "unat len \<le> pool_size i" "\<forall>j < i. pool_size j < unat len"
    using assms by (auto simp: find_pool_index_def find_Some_iff not_le)
  with i show ?thesis by blast
qed

text \<open>The doubling loop ends for every page count up to \<open>2 ^ 63\<close>, at the least sufficient order.\<close>

lemma roundup_loop_spec:
  assumes "unat pages \<le> 2 ^ 63" "k \<le> 63" "\<And>j. j < k \<Longrightarrow> 2 ^ j < unat pages"
  shows "\<exists>m. roundup_loop pages (2 ^ k) k = Some m \<and> unat pages \<le> 2 ^ m \<and> (\<forall>j < m. 2 ^ j < unat pages)"
  using assms
proof (induction "63 - k" arbitrary: k rule: less_induct)
  case less
  have u: "unat (2 ^ k :: u64) = 2 ^ k" using less.prems(2) by (intro unat_pow2) simp
  show ?case
  proof (cases "unat pages \<le> 2 ^ k")
    case True
    then have "roundup_loop pages (2 ^ k) k = Some k"
      by (subst roundup_loop.simps) (simp add: word_less_nat_alt u not_less)
    with True less.prems(3) show ?thesis by auto
  next
    case False
    then have k: "k < 63" using less.prems(1,2) by (cases "k = 63") auto
    have "push_bit 1 (2 ^ k) = (2 ^ Suc k :: u64)" by (simp add: push_bit_eq_mult)
    then have "roundup_loop pages (2 ^ k) k = roundup_loop pages (2 ^ Suc k) (Suc k)"
      using False by (subst roundup_loop.simps) (simp add: word_less_nat_alt u not_le mult.commute)
    moreover have "j < Suc k \<Longrightarrow> 2 ^ j < unat pages" for j
      using False less.prems(3) by (cases "j = k") auto
    ultimately show ?thesis using less.hyps [of "Suc k"] k less.prems(1) by simp
  qed
qed

lemma roundup_order_spec:
  assumes "unat pages \<le> 2 ^ 63"
  shows "\<exists>m. roundup_order pages = Some m \<and> unat pages \<le> 2 ^ m \<and> (\<forall>j < m. 2 ^ j < unat pages)"
  using roundup_loop_spec [OF assms, of 0] by (simp add: roundup_order_def)

lemma pages_of:
  assumes "len \<le> MAX_ALLOC_SIZE"
  shows "unat (drop_bit PAGE_SHIFT (len + PAGE_SIZE - 1)) = (unat len + 4095) div 4096"
    "unat (drop_bit PAGE_SHIFT (len + PAGE_SIZE - 1)) \<le> 2 ^ 63"
    "unat len \<le> unat (drop_bit PAGE_SHIFT (len + PAGE_SIZE - 1)) * 4096"
proof -
  have l: "unat len \<le> 2147483647" using assms by (simp add: word_le_nat_alt MAX_ALLOC_SIZE_def)
  have "unat (len + 4095) = unat len + 4095" using l by (simp add: unat_add_u64)
  then show e: "unat (drop_bit PAGE_SHIFT (len + PAGE_SIZE - 1)) = (unat len + 4095) div 4096"
    by (simp add: unat_drop_bit_u64 PAGE_SHIFT_def PAGE_SIZE_eq add.commute)
  have "(unat len + 4095) div 4096 \<le> 2147487742 div 4096" using l by (intro div_le_mono) simp
  then show "unat (drop_bit PAGE_SHIFT (len + PAGE_SIZE - 1)) \<le> 2 ^ 63" unfolding e by simp
  have "(unat len + 4095) mod 4096 < 4096" by simp
  then show "unat len \<le> unat (drop_bit PAGE_SHIFT (len + PAGE_SIZE - 1)) * 4096"
    using div_mult_mod_eq [of "unat len + 4095" 4096] unfolding e by linarith
qed

section \<open>allocate\<close>

lemma counts_ok_frames:
  assumes "counts_ok b" "alloc_blocks b' = alloc_blocks b"
    and "\<And>j k. (j, k) \<in> alloc_blocks b \<Longrightarrow> cow_ref_count (frame_array b' j) = cow_ref_count (frame_array b j)"
    and "\<And>q m c. chunk_view b' q = Some (m, c) \<Longrightarrow> 0 < c \<or> (\<exists>m c'. chunk_view b q = Some (m, c') \<and> c = c')"
  shows "counts_ok b'"
  using assms unfolding counts_ok_def by fastforce

text \<open>A successful small request.\<close>

lemma allocate_chunk:
  assumes inv: "heap_inv h" and len: "0 < unat len" "unat len \<le> 2048"
    and al: "allocate len h = Some (p, h')"
  shows "(p = 0 \<and> h' = h) \<or>
    (p \<noteq> 0 \<and> heap_inv h' \<and> (\<exists>i < CHUNK_POOL_COUNT. unat len \<le> pool_size i \<and>
       (\<forall>j < i. pool_size j < unat len) \<and>
       used_chunks h' = insert (p, i) (used_chunks h) \<and> (p, i) \<notin> used_chunks h \<and>
       alloc_blocks (hp_buddy h') = alloc_blocks (hp_buddy h) \<and>
       G_MEMPOOL_START (hp_buddy h') = G_MEMPOOL_START (hp_buddy h) \<and>
       (\<forall>(j, k) \<in> alloc_blocks (hp_buddy h).
          cow_ref_count (frame_array (hp_buddy h') j) = cow_ref_count (frame_array (hp_buddy h) j))))"
proof -
  from inv obtain L where ok: "heap_ok h L" and ct: "counts_ok (hp_buddy h)" by (auto simp: heap_inv_def)
  have r: "g_allocator_ready h" "chunk_size h = g_pool_sizes" using ok by (auto simp: heap_ok_def)
  from find_pool_index_spec [OF r(2) len(2)] obtain i where
    i: "find_pool_index h len = Some i" "i < CHUNK_POOL_COUNT" "unat len \<le> pool_size i"
      "\<forall>j < i. pool_size j < unat len" by blast
  have small: "len \<noteq> 0" "\<not> len > MAX_ALLOC_SIZE" "len \<le> 2048"
    using len by (auto simp: word_le_nat_alt word_less_nat_alt MAX_ALLOC_SIZE_def)
  have emp: "list_empty (PoolHead i) (pool_links h) \<longleftrightarrow> L i = []"
    using dlists_empty [of "pool_links h" "{..<CHUNK_POOL_COUNT}" PoolHead "pool_lists L" i] ok i(2)
    by (auto simp: heap_ok_def dest: chunks_ok_lists)
  show ?thesis
  proof (cases "L i")
    case (Cons x xs)
    then have tk: "take_chunk i h = (p, h')" using al small r emp i(1) by (simp add: allocate_def)
    note T = heap_take [OF ok i(2) Cons tk]
    have "counts_ok (hp_buddy h')"
      using T(9) by (intro counts_ok_frames [OF ct T(6)]) (auto simp: T(7))
    then show ?thesis using T(1-8) i by (auto simp: heap_inv_def)
  next
    case Nil
    obtain r h1 where ex: "expand_chunk_pool i h = (r, h1)" by fastforce
    then have al': "Some (p, h') = (if r \<noteq> 0 then Some (0, h1) else Some (take_chunk i h1))"
      using al small r emp i(1) Nil \<open>g_allocator_ready h\<close> by (simp add: allocate_def)
    from heap_expand [OF ok i(2) ex] show ?thesis
    proof (elim disjE conjE exE)
      assume "r \<noteq> 0" "h1 = h"
      then show ?thesis using al' by simp
    next
      fix ns assume E: "r = 0" "ns \<noteq> []" "heap_ok h1 (L(i := rev ns @ L i))" "used_chunks h1 = used_chunks h"
        "alloc_blocks (hp_buddy h1) = alloc_blocks (hp_buddy h)" "G_MEMPOOL_START (hp_buddy h1) = G_MEMPOOL_START (hp_buddy h)"
        "\<forall>(j, k) \<in> alloc_blocks (hp_buddy h). frame_array (hp_buddy h1) j = frame_array (hp_buddy h) j"
        "\<forall>q m c. chunk_view (hp_buddy h1) q = Some (m, c) \<longrightarrow>
          chunk_view (hp_buddy h) q = Some (m, c) \<or> set ns = slots (pool_base (hp_buddy h)) q (pool_size i)"
      from E(2) obtain x xs where x: "rev ns = x # xs" by (cases "rev ns") auto
      then have xs: "x \<in> set ns" by (metis list.set_intros(1) set_rev)
      have tk: "take_chunk i h1 = (p, h')" using al' E(1) by simp
      have "(L(i := rev ns @ L i)) i = x # xs" by (simp add: Nil x del: rev_eq_Cons_iff)
      note T = heap_take [OF E(3) i(2) this tk]
      have "counts_ok (hp_buddy h')"
      proof (rule counts_ok_frames [OF ct])
        show "alloc_blocks (hp_buddy h') = alloc_blocks (hp_buddy h)" using T(6) E(5) by simp
        show "cow_ref_count (frame_array (hp_buddy h') j) = cow_ref_count (frame_array (hp_buddy h) j)"
          if "(j, k) \<in> alloc_blocks (hp_buddy h)" for j k using T(7) E(7) that by auto
        show "0 < c \<or> (\<exists>m c'. chunk_view (hp_buddy h) q = Some (m, c') \<and> c = c')"
          if "chunk_view (hp_buddy h') q = Some (m, c)" for q m c
          using T(9) [OF that] E(6,8) xs by (metis (no_types, lifting))
      qed
      then have "heap_inv h'" using T(2) by (auto simp: heap_inv_def)
      moreover have "\<forall>(j, k) \<in> alloc_blocks (hp_buddy h).
          cow_ref_count (frame_array (hp_buddy h') j) = cow_ref_count (frame_array (hp_buddy h) j)"
        using T(7) E(7) by auto
      moreover have "p \<noteq> 0" "used_chunks h' = insert (p, i) (used_chunks h)" "(p, i) \<notin> used_chunks h"
        "alloc_blocks (hp_buddy h') = alloc_blocks (hp_buddy h)"
        "G_MEMPOOL_START (hp_buddy h') = G_MEMPOOL_START (hp_buddy h)"
        using T(1,3,4,5,6,8) E(4,5,6) by simp_all
      ultimately show ?thesis using i by blast
    qed
  qed
qed

lemma used_chunks_buddy:
  assumes "chunk_view b = chunk_view (hp_buddy h)" "G_MEMPOOL_START b = G_MEMPOOL_START (hp_buddy h)"
  shows "used_chunks (h\<lparr>hp_buddy := b\<rparr>) = used_chunks h"
  using assms by (simp add: used_chunks_def free_chunks_def)

lemma heap_ok_buddy:
  assumes "heap_ok h L" "buddy_inv b" "chunk_view b = chunk_view (hp_buddy h)"
    "G_MEMPOOL_START b = G_MEMPOOL_START (hp_buddy h)"
  shows "heap_ok (h\<lparr>hp_buddy := b\<rparr>) L"
  using assms by (simp add: heap_ok_def)

text \<open>A large request goes to the page allocator, with the least order that is large enough.\<close>

lemma allocate_pages:
  assumes inv: "heap_inv h" and len: "2048 < unat len" "len \<le> MAX_ALLOC_SIZE"
  shows "\<exists>ord. allocate len h = Some (fst (buddy_alloc_pages ord (hp_buddy h)),
      h\<lparr>hp_buddy := snd (buddy_alloc_pages ord (hp_buddy h))\<rparr>) \<and>
    unat len \<le> 2 ^ ord * 4096 \<and> (\<forall>j < ord. 2 ^ j * 4096 < unat len)"
proof -
  let ?n = "drop_bit PAGE_SHIFT (len + PAGE_SIZE - 1)"
  note pg = pages_of [OF len(2)]
  from roundup_order_spec [OF pg(2)] obtain m where m: "roundup_order ?n = Some m" "unat ?n \<le> 2 ^ m"
    "\<forall>j < m. 2 ^ j < unat ?n" by blast
  have big: "len \<noteq> 0" "\<not> len > MAX_ALLOC_SIZE" "\<not> len \<le> 2048"
    using len by (auto simp: word_le_nat_alt word_less_nat_alt)
  have "g_allocator_ready h" using inv by (auto simp: heap_inv_def heap_ok_def)
  then have "allocate len h = Some (fst (buddy_alloc_pages m (hp_buddy h)),
      h\<lparr>hp_buddy := snd (buddy_alloc_pages m (hp_buddy h))\<rparr>)"
    using big m(1) by (simp add: allocate_def split_beta)
  moreover have "unat len \<le> 2 ^ m * 4096" using pg(3) mult_le_mono1 [OF m(2), of 4096] by linarith
  moreover have "2 ^ j * 4096 < unat len" if "j < m" for j
  proof -
    have "2 ^ j + 1 \<le> (unat len + 4095) div 4096" using m(3) that unfolding pg(1) by (simp add: Suc_leI)
    then have "(2 ^ j + 1) * 4096 \<le> (unat len + 4095) div 4096 * 4096" by (rule mult_le_mono1)
    also have "\<dots> \<le> unat len + 4095" by (rule div_times_less_eq_dividend)
    finally show ?thesis by simp
  qed
  ultimately show ?thesis by blast
qed

lemma heap_alloc_pages:
  assumes inv: "heap_inv h" and nz: "fst (buddy_alloc_pages ord (hp_buddy h)) \<noteq> 0"
  defines "h' \<equiv> h\<lparr>hp_buddy := snd (buddy_alloc_pages ord (hp_buddy h))\<rparr>"
  shows "heap_inv h'" "used_chunks h' = used_chunks h"
    "\<exists>idx. fst (buddy_alloc_pages ord (hp_buddy h)) = page_to_addr (hp_buddy h) idx \<and>
       idx < G_MEM_TOTAL_PAGE (hp_buddy h) \<and>
       {idx..<idx + 2 ^ ord} \<subseteq> free_pages (hp_buddy h) \<and>
       alloc_blocks (hp_buddy h') = insert (idx, ord) (alloc_blocks (hp_buddy h)) \<and>
       cow_ref_count (frame_array (hp_buddy h') idx) = 1 \<and>
       (\<forall>j. j \<notin> free_pages (hp_buddy h) \<longrightarrow> frame_array (hp_buddy h') j = frame_array (hp_buddy h) j)"
    "G_MEMPOOL_START (hp_buddy h') = G_MEMPOOL_START (hp_buddy h)"
proof -
  let ?b = "hp_buddy h" and ?b' = "snd (buddy_alloc_pages ord (hp_buddy h))"
  from inv obtain L where ok: "heap_ok h L" and ct: "counts_ok ?b" by (auto simp: heap_inv_def)
  have bi: "buddy_inv ?b" using ok by (simp add: heap_ok_def)
  from alloc_success [OF bi nz] obtain idx where A: "fst (buddy_alloc_pages ord ?b) = page_to_addr ?b idx"
    "buddy_inv ?b'" "idx + 2 ^ ord \<le> G_MEM_TOTAL_PAGE ?b" "cow_ref_count (frame_array ?b' idx) = 1"
    "\<And>j. j \<notin> free_pages ?b \<Longrightarrow> frame_array ?b' j = frame_array ?b j" "G_MEMPOOL_START ?b' = G_MEMPOOL_START ?b" by metis
  from alloc_alloc_blocks [OF bi nz] obtain idx' where B: "fst (buddy_alloc_pages ord ?b) = page_to_addr ?b idx'"
    "idx' < G_MEM_TOTAL_PAGE ?b" "{idx'..<idx' + 2 ^ ord} \<subseteq> free_pages ?b"
    "alloc_blocks ?b' = insert (idx', ord) (alloc_blocks ?b)" by blast
  have "0 < (2 :: nat) ^ ord" by simp
  then have lt: "idx < G_MEM_TOTAL_PAGE ?b" using A(3) by linarith
  have "idx' = idx" using A(1) B(1) page_to_addr_inj [OF heap_ok_pool [OF ok] B(2) lt] by simp
  with A(4,5) B show "\<exists>idx. fst (buddy_alloc_pages ord ?b) = page_to_addr ?b idx \<and> idx < G_MEM_TOTAL_PAGE ?b \<and>
       {idx..<idx + 2 ^ ord} \<subseteq> free_pages ?b \<and>
       alloc_blocks (hp_buddy h') = insert (idx, ord) (alloc_blocks ?b) \<and>
       cow_ref_count (frame_array (hp_buddy h') idx) = 1 \<and>
       (\<forall>j. j \<notin> free_pages ?b \<longrightarrow> frame_array (hp_buddy h') j = frame_array ?b j)"
    by (auto simp: h'_def)
  note view = chunk_view_alloc [OF bi, of ord]
  show "G_MEMPOOL_START (hp_buddy h') = G_MEMPOOL_START ?b" by (simp add: h'_def A(6))
  show "used_chunks h' = used_chunks h" unfolding h'_def by (rule used_chunks_buddy [OF view A(6)])
  have "heap_ok h' L" unfolding h'_def by (rule heap_ok_buddy [OF ok A(2) view A(6)])
  moreover have "1 \<le> cow_ref_count (frame_array ?b' j)" if "(j, k) \<in> alloc_blocks ?b'" for j k
  proof (cases "j = idx")
    case False
    with that B(4) \<open>idx' = idx\<close> have old: "(j, k) \<in> alloc_blocks ?b" by simp
    then have "frame_array ?b' j = frame_array ?b j" by (intro A(5) not_free_alloc)
    with old ct show ?thesis by (auto simp: counts_ok_def)
  qed (simp add: A(4))
  ultimately show "heap_inv h'" using ct by (auto simp: heap_inv_def counts_ok_def h'_def view)
qed

section \<open>free\<close>

lemma release_frames:
  assumes inv: "buddy_inv b" and i: "(i, k) \<in> alloc_blocks b" and j: "(j, m) \<in> alloc_blocks b" "j \<noteq> i"
  shows "frame_array (buddy_free_pages (page_to_addr b i) b) j = frame_array b j"
proof -
  let ?b = "buddy_free_pages (page_to_addr b i) b"
  have "(j, m) \<in> alloc_blocks ?b" using free_alloc_blocks [OF inv i] j by auto
  then have nf: "j \<notin> free_pages ?b" by (rule not_free_alloc)
  have "i < G_MEM_TOTAL_PAGE b" "fr_state (frame_array b i) = PAGE_STATE_ALLOC_PAGE_HEAD"
    using i by (auto simp: alloc_blocks_def)
  from free_success [OF inv this] show ?thesis using nf by metis
qed

text \<open>The page base and the offset that \<open>free\<close> computes for a chunk.\<close>

lemma chunk_offset:
  assumes pool: "pool_ok b" and a: "pool_base b \<le> unat a" and p: "(unat a - pool_base b) div 4096 = p"
  shows "unat (align_down_ul a PAGE_SIZE) = pool_base b + p * 4096"
    "unat (a - align_down_ul a PAGE_SIZE) = (unat a - pool_base b) mod 4096"
proof -
  from pool obtain k where k: "pool_base b = 4096 * k" by (auto simp: pool_ok_def PAGE_SHIFT_def elim: dvdE)
  let ?x = "unat a - pool_base b"
  have ax: "unat a = 4096 * k + ?x" using a k by linarith
  have d: "unat a div 4096 = k + p" using p by (subst ax) simp
  then show base: "unat (align_down_ul a PAGE_SIZE) = pool_base b + p * 4096"
    by (simp add: page_down k)
  have le: "align_down_ul a PAGE_SIZE \<le> a" by (simp add: word_le_nat_alt page_down div_times_less_eq_dividend)
  have "unat a mod 4096 = ?x mod 4096" by (subst ax) simp
  moreover have "unat a - unat a div 4096 * 4096 = unat a mod 4096" by (simp add: minus_div_mult_eq_mod)
  ultimately show "unat (a - align_down_ul a PAGE_SIZE) = ?x mod 4096"
    by (simp add: unat_sub_u64 [OF le] page_down)
qed

text \<open>Returning an emptied pool page to the page allocator.\<close>

lemma pool_page_release:
  assumes inv: "buddy_inv b" and V: "chunk_view b p = Some (m, c)"
    and base: "unat base = pool_base b + p * 4096"
  defines "b2 \<equiv> upd_frame p (\<lambda>fr. fr\<lparr>fr_state := PAGE_STATE_ALLOC_PAGE_HEAD\<rparr>) b"
  shows "buddy_inv (buddy_free_pages base b2)"
    "chunk_view (buddy_free_pages base b2) = (chunk_view b)(p := None)"
    "alloc_blocks (buddy_free_pages base b2) = alloc_blocks b"
    "G_MEMPOOL_START (buddy_free_pages base b2) = G_MEMPOOL_START b"
    "\<And>j k. (j, k) \<in> alloc_blocks b \<Longrightarrow> frame_array (buddy_free_pages base b2) j = frame_array b j"
proof -
  have p: "p < G_MEM_TOTAL_PAGE b" "fr_state (frame_array b p) = PAGE_STATE_ALLOC_CHUNK_POOL"
    using V by (auto simp: chunk_view_some)
  from inv obtain F where "buddy_open b F 0 0" by (auto simp: buddy_inv_def)
  from buddy_open_at_head [OF this p(1)] p(2) have ord: "fr_order (frame_array b p) = 0"
    by (auto simp: head_state_def block_def)
  have inv2: "buddy_inv b2"
    unfolding b2_def using inv p ord by (intro buddy_inv_used) (auto simp: used_page_def)
  have a2: "alloc_blocks b2 = insert (p, 0) (alloc_blocks b)"
    using p ord by (auto simp: b2_def alloc_blocks_def split: if_splits)
  then have p2: "(p, 0) \<in> alloc_blocks b2" by simp
  have "base = page_to_addr b2 p"
    using base unat_page_to_addr [of b2 p] inv2 p(1)
    by (simp add: word_unat_eq_iff buddy_inv_def PAGE_SHIFT_def b2_def)
  note R = free_alloc_blocks [OF inv2 p2, folded this] chunk_view_release [OF inv2 p2, folded this]
    release_frames [OF inv2 p2, folded this]
  have np: "(p, k) \<notin> alloc_blocks b" for k using p(2) by (simp add: alloc_blocks_def)
  show "buddy_inv (buddy_free_pages base b2)" using R(1) by blast
  show "alloc_blocks (buddy_free_pages base b2) = alloc_blocks b" using R(1) a2 np by auto
  show "G_MEMPOOL_START (buddy_free_pages base b2) = G_MEMPOOL_START b" using R(1) by (simp add: b2_def)
  show "chunk_view (buddy_free_pages base b2) = (chunk_view b)(p := None)"
    unfolding R(2) by (auto simp: fun_eq_iff chunk_view_def b2_def)
  show "frame_array (buddy_free_pages base b2) j = frame_array b j" if "(j, k) \<in> alloc_blocks b" for j k
  proof -
    have "j \<noteq> p" using that np by auto
    with R(3) [of j k] that a2 show ?thesis by (auto simp: b2_def)
  qed
qed

lemma counts_ok_put:
  assumes "counts_ok b" "chunk_view b' = (chunk_view b)(p := v)" "\<And>m c. v = Some (m, c) \<Longrightarrow> 0 < c"
    and "alloc_blocks b' = alloc_blocks b"
    and "\<And>j k. (j, k) \<in> alloc_blocks b \<Longrightarrow> cow_ref_count (frame_array b' j) = cow_ref_count (frame_array b j)"
  shows "counts_ok b'"
  using assms unfolding counts_ok_def by (auto split: if_splits)

lemma heap_free_chunk:
  assumes inv: "heap_inv h" and a: "(a, i) \<in> used_chunks h"
  shows "\<exists>h'. free a h = Some h' \<and> heap_inv h' \<and> used_chunks h' = used_chunks h - {(a, i)} \<and>
    alloc_blocks (hp_buddy h') = alloc_blocks (hp_buddy h) \<and>
    G_MEMPOOL_START (hp_buddy h') = G_MEMPOOL_START (hp_buddy h) \<and>
    (\<forall>(j, k) \<in> alloc_blocks (hp_buddy h).
       cow_ref_count (frame_array (hp_buddy h') j) = cow_ref_count (frame_array (hp_buddy h) j))"
proof -
  let ?b = "hp_buddy h" and ?A = "pool_base (hp_buddy h)"
  from inv obtain L where ok: "heap_ok h L" and ct: "counts_ok ?b" by (auto simp: heap_inv_def)
  have bi: "buddy_inv ?b" and cok: "chunks_ok ?A (chunk_view ?b) (pool_links h) L"
    and cs: "chunk_size h = g_pool_sizes" and rd: "g_allocator_ready h" using ok by (auto simp: heap_ok_def)
  note pool = heap_ok_pool [OF ok]
  from a obtain p c where p: "chunk_view ?b p = Some (int i, c)" "a \<in> slots ?A p (pool_size i)" "a \<notin> set (L i)"
    by (auto simp: used_chunks_iff [OF ok])
  have fr: "p < G_MEM_TOTAL_PAGE ?b" "fr_state (frame_array ?b p) = PAGE_STATE_ALLOC_CHUNK_POOL"
    "meta_pool_idx (frame_array ?b p) = int i" "ref_count (frame_array ?b p) = c"
    using p(1) by (auto simp: chunk_view_some)
  have i: "i < CHUNK_POOL_COUNT" using chunks_ok_count [OF cok p(1)] by blast
  note sa = slot_addr [OF pool p(2) fr(1)]
  have s: "?A \<le> unat a" "(unat a - ?A) div 4096 = p" "pool_size i dvd unat a - ?A" using p(2) by (auto simp: slots_def)
  note off = chunk_offset [OF pool s(1,2)]
  let ?base = "align_down_ul a PAGE_SIZE"
  have mod0: "unat (a - ?base) mod pool_size i = 0"
    using s(3) pool_size_dvd [OF i] by (simp add: off(2) dvd_mod dvd_eq_mod_eq_0 [symmetric])
  have "dlist (pool_links h) (PoolHead i) (pool_lists L i)"
    using dlists_dlist [OF chunks_ok_lists [OF cok], of i] i by simp
  then have nofl: "on_free_list (pool_links h) (PoolHead i) (Chunk a) (lh_next (pool_links h) (PoolHead i)) = Some False"
    using p(3) by (auto simp: on_free_list_iff image_iff)
  let ?l = "list_add (Chunk a) (PoolHead i) (pool_links h)"
  let ?b1 = "upd_frame p (\<lambda>fr. fr\<lparr>ref_count := ref_count fr - 1\<rparr>) ?b"
  have view1: "chunk_view ?b1 = (chunk_view ?b)(p := Some (int i, c - 1))"
    using chunk_view_ref [OF p(1), of "\<lambda>fr. ref_count fr - 1"] fr(4) by simp
  have bi1: "buddy_inv ?b1" using bi by (simp add: buddy_inv_counts)
  have al1: "alloc_blocks ?b1 = alloc_blocks ?b" by (simp add: alloc_blocks_counts)
  note cok1 = chunks_put [OF cok p]
  have fc: "free a h = free_chunk a p h" using rd sa fr by (simp add: free_def not_le)
  have pp: "(p, int i) \<in> pool_pages (chunk_view ?b)" using p(1) by (auto simp: pool_pages_def)
  show ?thesis
  proof (cases "c - 1 = 0")
    case False
    let ?h = "h\<lparr>pool_links := ?l, hp_buddy := ?b1\<rparr>"
    have "free a h = Some ?h"
      unfolding fc using False fr i mod0 nofl by (simp add: free_chunk_def cs Let_def)
    moreover have ok': "heap_ok ?h (L(i := a # L i))" using ok bi1 cok1 by (simp add: heap_ok_def view1)
    moreover have "0 < c" using ct p(1) by (auto simp: counts_ok_def)
    then have "counts_ok ?b1" using False by (intro counts_ok_put [OF ct view1 _ al1]) auto
    moreover have "used_chunks ?h = used_chunks h - {(a, i)}"
      unfolding used_chunks_pages [OF ok'] used_chunks_pages [OF ok]
      using pp p(2,3) by (auto simp: view1 pool_pages_upd [where V = "chunk_view ?b", OF p(1)] dest: slots_page)
    ultimately show ?thesis using al1 by (auto simp: heap_inv_def)
  next
    case True
    have "(p + 1) * 4096 \<le> G_MEM_TOTAL_PAGE ?b * 4096" using fr(1) by (intro mult_le_mono1) simp
    then have top: "?A + (p + 1) * 4096 < 2 ^ 64" using pool by (simp add: pool_ok_def PAGE_SHIFT_def)
    have "((chunk_view ?b)(p := Some (int i, c - 1))) p = Some (int i, 0)" using True by simp
    from chunks_drop [OF cok1 this off(1) top] obtain l' xs where
      D: "unlink_page ?base (PoolHead i) (lh_next ?l (PoolHead i)) ?l = Some l'"
        "chunks_ok ?A ((chunk_view ?b)(p := None)) l' (L(i := xs))"
        "set xs = set (a # L i) - slots ?A p (pool_size i)" unfolding fun_upd_upd fun_upd_same by blast
    let ?b2 = "upd_frame p (\<lambda>fr. fr\<lparr>fr_state := PAGE_STATE_ALLOC_PAGE_HEAD\<rparr>) ?b1"
    let ?h = "h\<lparr>pool_links := l', hp_buddy := buddy_free_pages ?base ?b2\<rparr>"
    have "chunk_view ?b1 p = Some (int i, c - 1)" by (simp add: view1)
    note R = pool_page_release [OF bi1 this, of ?base, unfolded al1]
    have R': "chunk_view (buddy_free_pages ?base ?b2) = (chunk_view ?b)(p := None)" using R(2) off(1) by (simp add: view1)
    have "free a h = Some ?h"
      unfolding fc using True fr i mod0 nofl D(1) by (simp add: free_chunk_def cs Let_def)
    moreover have ok': "heap_ok ?h (L(i := xs))" using ok R(1,4) off(1) D(2) by (simp add: heap_ok_def R')
    moreover have cow: "cow_ref_count (frame_array (buddy_free_pages ?base ?b2) j) = cow_ref_count (frame_array ?b j)"
      if "(j, k) \<in> alloc_blocks ?b" for j k using R(5) [OF _ that] off(1) by simp
    moreover have "counts_ok (buddy_free_pages ?base ?b2)"
      using R(3) off(1) cow by (intro counts_ok_put [OF ct R']) auto
    moreover have "used_chunks ?h = used_chunks h - {(a, i)}"
    proof -
      have "card (slots ?A p (pool_size i) - set (L i)) = 1" using chunks_ok_count [OF cok p(1)] True by simp
      then obtain x where "slots ?A p (pool_size i) - set (L i) = {x}" by (rule card_1_singletonE)
      moreover have "a \<in> slots ?A p (pool_size i) - set (L i)" using p(2,3) by blast
      ultimately have one: "slots ?A p (pool_size i) - set (L i) = {a}" by simp
      have pg: "pool_pages ((chunk_view ?b)(p := None)) = pool_pages (chunk_view ?b) - {(p, int i)}"
        using p(1) by (auto simp: pool_pages_def split: if_splits)
      show ?thesis
        unfolding used_chunks_pages [OF ok'] used_chunks_pages [OF ok]
        using one D(3) pp R(4) off(1) by (auto simp: R' pg dest: slots_page split: if_splits)
    qed
    ultimately show ?thesis using R(3,4) off(1) by (auto simp: heap_inv_def)
  qed
qed

lemma chunk_view_cow:
  "chunk_view (upd_frame p (\<lambda>fr. fr\<lparr>cow_ref_count := r fr\<rparr>) b) = chunk_view b"
  by (auto simp: fun_eq_iff chunk_view_def)

lemma page_addr_pool:
  assumes "pool_ok b" "i < G_MEM_TOTAL_PAGE b"
  shows "in_pool b (page_to_addr b i)" "addr_to_page_idx b (page_to_addr b i) = i" "page_to_addr b i \<noteq> 0"
    "page_to_addr b i AND (PAGE_SIZE - 1) = 0"
proof -
  note c = page_addr_checks [OF assms]
  have "i * 4096 < G_MEM_TOTAL_PAGE b * 4096" using assms(2) by simp
  then show "in_pool b (page_to_addr b i)"
    using unat_page_to_addr [OF assms] by (simp add: in_pool_iff [OF assms(1)] PAGE_SHIFT_def)
  show "addr_to_page_idx b (page_to_addr b i) = i"
    using page_index_addr [OF assms] by (simp add: addr_to_page_idx_def)
  show "page_to_addr b i \<noteq> 0" "page_to_addr b i AND (PAGE_SIZE - 1) = 0" using c by auto
qed

lemma heap_free_page:
  assumes inv: "heap_inv h" and a: "(i, k) \<in> alloc_blocks (hp_buddy h)"
  defines "n \<equiv> cow_ref_count (frame_array (hp_buddy h) i)"
  shows "\<exists>h'. free (page_to_addr (hp_buddy h) i) h = Some h' \<and> heap_inv h' \<and> used_chunks h' = used_chunks h \<and>
    alloc_blocks (hp_buddy h') = (if n = 1 then alloc_blocks (hp_buddy h) - {(i, k)} else alloc_blocks (hp_buddy h)) \<and>
    G_MEMPOOL_START (hp_buddy h') = G_MEMPOOL_START (hp_buddy h) \<and>
    (\<forall>(j, m) \<in> alloc_blocks (hp_buddy h').
       cow_ref_count (frame_array (hp_buddy h') j) = (if j = i then n - 1 else cow_ref_count (frame_array (hp_buddy h) j)))"
proof -
  let ?b = "hp_buddy h"
  from inv obtain L where ok: "heap_ok h L" and ct: "counts_ok ?b" by (auto simp: heap_inv_def)
  have bi: "buddy_inv ?b" and rd: "g_allocator_ready h" using ok by (auto simp: heap_ok_def)
  note pool = heap_ok_pool [OF ok]
  have i: "i < G_MEM_TOTAL_PAGE ?b" "fr_state (frame_array ?b i) = PAGE_STATE_ALLOC_PAGE_HEAD"
    using a by (auto simp: alloc_blocks_def)
  note pa = page_addr_pool [OF pool i(1)]
  let ?b1 = "upd_frame i (\<lambda>fr. fr\<lparr>cow_ref_count := cow_ref_count fr - 1\<rparr>) ?b"
  have bi1: "buddy_inv ?b1" using bi by (simp add: buddy_inv_counts)
  have al1: "alloc_blocks ?b1 = alloc_blocks ?b" by (simp add: alloc_blocks_counts)
  have v1: "chunk_view ?b1 = chunk_view ?b" by (rule chunk_view_cow)
  have addr: "page_to_addr ?b1 i = page_to_addr ?b i" by (simp add: page_to_addr_def)
  have n1: "1 \<le> n" using ct a by (auto simp: counts_ok_def n_def)
  have pos: "0 < c" if "chunk_view ?b p = Some (m, c)" for p m c using ct that by (auto simp: counts_ok_def)
  have old: "1 \<le> cow_ref_count (frame_array ?b j)" if "(j, m) \<in> alloc_blocks ?b" for j m
    using ct that by (auto simp: counts_ok_def)
  have fp: "free (page_to_addr ?b i) h = Some (h\<lparr>hp_buddy :=
      (if n = 1 then buddy_free_pages (page_to_addr ?b i) ?b1 else ?b1)\<rparr>)"
    using rd pa i by (simp add: free_def free_page_def n_def not_le Let_def)
  show ?thesis
  proof (cases "n = 1")
    case False
    let ?h = "h\<lparr>hp_buddy := ?b1\<rparr>"
    have "heap_ok ?h L" by (rule heap_ok_buddy [OF ok bi1 v1]) simp
    moreover have "used_chunks ?h = used_chunks h" by (rule used_chunks_buddy [OF v1]) simp
    moreover have "counts_ok ?b1"
      using n1 False old pos unfolding counts_ok_def v1 al1 by (auto simp: n_def)
    ultimately show ?thesis using fp False al1 by (auto simp: heap_inv_def n_def)
  next
    case True
    let ?b2 = "buddy_free_pages (page_to_addr ?b i) ?b1"
    let ?h = "h\<lparr>hp_buddy := ?b2\<rparr>"
    have a1: "(i, k) \<in> alloc_blocks ?b1" using a by (simp add: al1)
    note R = free_alloc_blocks [OF bi1 a1, unfolded addr al1] and V = chunk_view_release [OF bi1 a1, unfolded addr]
      and F = release_frames [OF bi1 a1, unfolded addr al1]
    have st: "G_MEMPOOL_START ?b2 = G_MEMPOOL_START ?b" using R by simp
    have uniq: "j \<noteq> i" if "(j, m) \<in> alloc_blocks ?b - {(i, k)}" for j m
      using that a by (auto simp: alloc_blocks_def)
    have al2: "alloc_blocks ?b2 = alloc_blocks ?b - {(i, k)}" using R by blast
    have cow: "frame_array ?b2 j = frame_array ?b j" if "(j, m) \<in> alloc_blocks ?b2" for j m
    proof -
      have jm: "(j, m) \<in> alloc_blocks ?b - {(i, k)}" using that by (simp only: al2)
      then have "frame_array ?b2 j = frame_array ?b1 j" using F [of j m] uniq [OF jm] by blast
      with uniq [OF jm] show ?thesis by simp
    qed
    have "heap_ok ?h L" using R st by (intro heap_ok_buddy [OF ok]) (auto simp: V v1)
    moreover have "used_chunks ?h = used_chunks h" using st by (intro used_chunks_buddy) (auto simp: V v1)
    moreover have "1 \<le> cow_ref_count (frame_array ?b2 j)" if jm: "(j, m) \<in> alloc_blocks ?b2" for j m
      using cow [OF jm] old [of j m] jm unfolding al2 by auto
    then have "counts_ok ?b2" unfolding counts_ok_def V v1 using pos by blast
    moreover have "cow_ref_count (frame_array ?b2 j) = (if j = i then n - 1 else cow_ref_count (frame_array ?b j))"
      if jm: "(j, m) \<in> alloc_blocks ?b2" for j m
    proof -
      have "j \<noteq> i" using jm unfolding al2 by (rule uniq)
      then show ?thesis by (simp add: cow [OF jm])
    qed
    then have "\<forall>(j, m) \<in> alloc_blocks ?b2.
        cow_ref_count (frame_array ?b2 j) = (if j = i then n - 1 else cow_ref_count (frame_array ?b j))" by blast
    ultimately show ?thesis using fp True al2 st unfolding heap_inv_def by auto
  qed
qed

lemma heap_free_other:
  assumes inv: "heap_inv h" and u: "\<And>i. (a, i) \<notin> used_chunks h"
    and b: "\<And>i k. (i, k) \<in> alloc_blocks (hp_buddy h) \<Longrightarrow> a \<noteq> page_to_addr (hp_buddy h) i"
  shows "free a h = Some h"
proof (rule ccontr)
  let ?b = "hp_buddy h" and ?A = "pool_base (hp_buddy h)"
  assume ne: "free a h \<noteq> Some h"
  from inv obtain L where ok: "heap_ok h L" by (auto simp: heap_inv_def)
  have cok: "chunks_ok ?A (chunk_view ?b) (pool_links h) L" and cs: "chunk_size h = g_pool_sizes"
    using ok by (auto simp: heap_ok_def)
  note pool = heap_ok_pool [OF ok]
  define p where "p = addr_to_page_idx ?b a"
  from ne have ip: "in_pool ?b a" and lt: "p < G_MEM_TOTAL_PAGE ?b"
    by (auto simp: free_def Let_def p_def split: if_splits)
  have s: "?A \<le> unat a" "(unat a - ?A) div 4096 = p"
    using ip addr_page [OF pool, of a] by (auto simp: in_pool_iff [OF pool] p_def)
  note off = chunk_offset [OF pool s]
  from ne have "fr_state (frame_array ?b p) = PAGE_STATE_ALLOC_CHUNK_POOL \<and> free_chunk a p h \<noteq> Some h \<or>
      fr_state (frame_array ?b p) = PAGE_STATE_ALLOC_PAGE_HEAD \<and> free_page a p h \<noteq> h"
    by (auto simp: free_def Let_def p_def split: if_splits)
  then show False
  proof (elim disjE conjE)
    assume st: "fr_state (frame_array ?b p) = PAGE_STATE_ALLOC_CHUNK_POOL" and fc: "free_chunk a p h \<noteq> Some h"
    have V: "chunk_view ?b p = Some (meta_pool_idx (frame_array ?b p), ref_count (frame_array ?b p))"
      using st lt by (simp add: chunk_view_def)
    then obtain i where i: "i < CHUNK_POOL_COUNT" "meta_pool_idx (frame_array ?b p) = int i"
      using chunks_ok_pool [OF cok] by blast
    have "dlist (pool_links h) (PoolHead i) (pool_lists L i)"
      using dlists_dlist [OF chunks_ok_lists [OF cok], of i] i by simp
    then have "on_free_list (pool_links h) (PoolHead i) (Chunk a) (lh_next (pool_links h) (PoolHead i)) = Some (a \<in> set (L i))"
      by (auto simp: on_free_list_iff image_iff)
    with fc i have m: "unat (a - align_down_ul a PAGE_SIZE) mod pool_size i = 0" and nl: "a \<notin> set (L i)"
      by (auto simp: free_chunk_def cs Let_def split: if_splits)
    have "pool_size i dvd unat a - ?A"
      using m pool_size_dvd [OF i(1)] unfolding off by (simp add: dvd_eq_mod_eq_0 [symmetric] dvd_mod_iff)
    then have "a \<in> slots ?A p (pool_size i)" using s by (simp add: slots_def)
    with V i(2) nl have "(a, i) \<in> used_chunks h" by (auto simp: used_chunks_iff [OF ok])
    with u show False by blast
  next
    assume st: "fr_state (frame_array ?b p) = PAGE_STATE_ALLOC_PAGE_HEAD" and fp: "free_page a p h \<noteq> h"
    then have al: "a AND (PAGE_SIZE - 1) = 0" by (auto simp: free_page_def split: if_splits)
    have "\<not> (a < G_MEMPOOL_START ?b \<or> a \<ge> G_MEMPOOL_START ?b + G_MEMPOOL_SIZE ?b)"
      using ip by (simp add: in_pool_def not_le not_less)
    from checked_page_addr [OF pool this al] have a: "a = page_to_addr ?b p" by (simp add: p_def addr_to_page_idx_def)
    from ok obtain F where "buddy_open ?b F 0 0" by (auto simp: heap_ok_def buddy_inv_def)
    from buddy_open_at_head [OF this lt] st obtain k where "block (frame_array ?b) p k" by (auto simp: head_state_def)
    then have "(p, k) \<in> alloc_blocks ?b" using st lt by (simp add: alloc_blocks_def block_def)
    with b a show False by blast
  qed
qed

end
