(* ===== verification/Allocator_Props.thy ===== *)
theory Allocator_Props
  imports Allocator_Inv
begin

text \<open>
  What the kernel heap promises: \<open>allocate\<close> and \<open>free\<close> always return, keep the invariant, hand out
  disjoint regions that are large enough, and count references; the ownership contract of
  \<open>Alloc_Interface\<close> holds of the whole heap.
\<close>

section \<open>Owners of a region\<close>

definition heap_owners :: "heap \<Rightarrow> region \<Rightarrow> nat" where
  "heap_owners h r =
     (let b = hp_buddy h in
      if 0 < page_owners b r then nat (cow_ref_count (frame_array b ((fst r - pool_base b) div 4096)))
      else if \<exists>(a, i) \<in> used_chunks h. r = (unat a, pool_size i) then 1 else 0)"

lemma page_region_index [simp]: "(fst (page_region b i k) - pool_base b) div 4096 = i"
  by (simp add: page_region_def PAGE_SHIFT_def)

lemma used_chunk_page:
  assumes "heap_inv h" "(a, i) \<in> used_chunks h"
  obtains p where "block (frame_array (hp_buddy h)) p 0" "p < G_MEM_TOTAL_PAGE (hp_buddy h)"
    "fr_state (frame_array (hp_buddy h) p) = PAGE_STATE_ALLOC_CHUNK_POOL"
    "meta_pool_idx (frame_array (hp_buddy h) p) = int i"
    "a \<in> slots (pool_base (hp_buddy h)) p (pool_size i)" "i < CHUNK_POOL_COUNT"
proof -
  let ?b = "hp_buddy h"
  from assms(1) obtain L where ok: "heap_ok h L" by (auto simp: heap_inv_def)
  from assms(2) obtain p c where p: "chunk_view ?b p = Some (int i, c)" "a \<in> slots (pool_base ?b) p (pool_size i)"
    by (auto simp: used_chunks_def)
  have v: "p < G_MEM_TOTAL_PAGE ?b" "fr_state (frame_array ?b p) = PAGE_STATE_ALLOC_CHUNK_POOL"
    "meta_pool_idx (frame_array ?b p) = int i" using p(1) by (auto simp: chunk_view_some)
  from ok obtain F where "buddy_open ?b F 0 0" by (auto simp: heap_ok_def buddy_inv_def)
  from buddy_open_at_head [OF this v(1)] v(2) obtain k where k: "block (frame_array ?b) p k"
    by (auto simp: head_state_def)
  then have "k = 0" using v(2) by (simp add: block_def)
  moreover have "i < CHUNK_POOL_COUNT" using chunks_ok_count ok p(1) unfolding heap_ok_def by blast
  ultimately show ?thesis using that v k p(2) by blast
qed

lemma chunk_page_apart:
  assumes inv: "heap_inv h" and a: "(a, i) \<in> used_chunks h" and j: "(j, k) \<in> alloc_blocks (hp_buddy h)"
  shows "apart (unat a, pool_size i) (page_region (hp_buddy h) j k)"
proof -
  let ?b = "hp_buddy h"
  obtain p where p: "block (frame_array ?b) p 0" "fr_state (frame_array ?b p) = PAGE_STATE_ALLOC_CHUNK_POOL"
    "a \<in> slots (pool_base ?b) p (pool_size i)" "i < CHUNK_POOL_COUNT"
    using used_chunk_page [OF inv a] by metis
  have bi: "buddy_inv ?b" using inv by (auto simp: heap_inv_def heap_ok_def)
  have b: "block (frame_array ?b) j k" using alloc_block [OF bi j] by blast
  have "p \<noteq> j" using p(2) j by (auto simp: alloc_blocks_def)
  then have "p + 2 ^ 0 \<le> j \<or> j + 2 ^ k \<le> p"
    using blocks_disjoint [OF p(1) b] blocks_disjoint [OF b p(1)] by linarith
  then have "apart (page_region ?b p 0) (page_region ?b j k)" by (rule block_apart)
  moreover have "pool_base ?b + p * 4096 \<le> unat a" "unat a + pool_size i \<le> pool_base ?b + (p + 1) * 4096"
    using slots_range [OF p(3)] pool_size_dvd [OF p(4)] by auto
  ultimately show ?thesis by (auto simp: apart_def page_region_def PAGE_SHIFT_def)
qed

lemma chunk_chunk_apart:
  assumes inv: "heap_inv h" and a: "(a, i) \<in> used_chunks h" "(c, j) \<in> used_chunks h" "(a, i) \<noteq> (c, j)"
  shows "apart (unat a, pool_size i) (unat c, pool_size j)"
proof -
  let ?b = "hp_buddy h"
  obtain p where p: "meta_pool_idx (frame_array ?b p) = int i"
    "a \<in> slots (pool_base ?b) p (pool_size i)" "i < CHUNK_POOL_COUNT"
    using used_chunk_page [OF inv a(1)] by metis
  obtain q where q: "meta_pool_idx (frame_array ?b q) = int j"
    "c \<in> slots (pool_base ?b) q (pool_size j)" "j < CHUNK_POOL_COUNT"
    using used_chunk_page [OF inv a(2)] by metis
  have r: "pool_base ?b + p * 4096 \<le> unat a" "unat a + pool_size i \<le> pool_base ?b + (p + 1) * 4096"
    "pool_base ?b + q * 4096 \<le> unat c" "unat c + pool_size j \<le> pool_base ?b + (q + 1) * 4096"
    using slots_range [OF p(2)] slots_range [OF q(2)] pool_size_dvd [OF p(3)] pool_size_dvd [OF q(3)] by auto
  show ?thesis
  proof (cases "p = q")
    case False
    then show ?thesis using r by (cases p q rule: linorder_cases) (auto simp: apart_def)
  next
    case True
    with p(1) q(1) have "i = j" by simp
    with True a(3) p(2) q(2) slots_apart [of a _ p "pool_size i" c] slots_apart [of c _ p "pool_size i" a]
    show ?thesis by (cases "unat a" "unat c" rule: linorder_cases) (auto simp: apart_def word_unat_eq_iff)
  qed
qed

lemma apart_self: "0 < snd r \<Longrightarrow> \<not> apart r r"
  by (simp add: apart_def)

lemma heap_owners_page:
  "(i, k) \<in> alloc_blocks (hp_buddy h) \<Longrightarrow>
   heap_owners h (page_region (hp_buddy h) i k) = nat (cow_ref_count (frame_array (hp_buddy h) i))"
  by (simp add: heap_owners_def page_owners_region)

lemma chunk_no_page:
  assumes "heap_inv h" "(a, i) \<in> used_chunks h"
  shows "page_owners (hp_buddy h) (unat a, pool_size i) = 0"
proof (rule ccontr)
  assume "page_owners (hp_buddy h) (unat a, pool_size i) \<noteq> 0"
  then obtain j k where "(j, k) \<in> alloc_blocks (hp_buddy h)" "(unat a, pool_size i) = page_region (hp_buddy h) j k"
    using page_owners_pos [of "hp_buddy h" "(unat a, pool_size i)"] by auto
  with chunk_page_apart [OF assms] have "apart (unat a, pool_size i) (unat a, pool_size i)" by metis
  moreover have "i < CHUNK_POOL_COUNT" using used_chunk_page [OF assms] by metis
  ultimately show False using apart_self [of "(unat a, pool_size i)"] pool_size_dvd [of i] by simp
qed

lemma heap_owners_chunk:
  "heap_inv h \<Longrightarrow> (a, i) \<in> used_chunks h \<Longrightarrow> heap_owners h (unat a, pool_size i) = 1"
  by (auto simp: heap_owners_def chunk_no_page)

lemma heap_owned_cases:
  assumes "heap_inv h" "0 < heap_owners h r"
  obtains (page) i k where "(i, k) \<in> alloc_blocks (hp_buddy h)" "r = page_region (hp_buddy h) i k"
    | (chunk) a i where "(a, i) \<in> used_chunks h" "r = (unat a, pool_size i)"
  using assms(2) by (auto simp: heap_owners_def Let_def page_owners_pos split: if_splits)

lemma heap_owned_apart:
  assumes inv: "heap_inv h" and o: "0 < heap_owners h r" "0 < heap_owners h r'" "r \<noteq> r'"
  shows "apart r r'"
proof -
  have bi: "buddy_inv (hp_buddy h)" using inv by (auto simp: heap_inv_def heap_ok_def)
  from inv o(1) show ?thesis
  proof (cases rule: heap_owned_cases)
    case (page i k)
    from inv o(2) show ?thesis
    proof (cases rule: heap_owned_cases)
      case page2: (page j l)
      with page o(3) alloc_blocks_apart [OF bi page(1), of j l] show ?thesis by auto
    next
      case (chunk a j)
      from chunk_page_apart [OF inv chunk(1) page(1)] show ?thesis using page(2) chunk(2) by (simp add: apart_sym)
    qed
  next
    case (chunk a i)
    from inv o(2) show ?thesis
    proof (cases rule: heap_owned_cases)
      case (page j l)
      from chunk_page_apart [OF inv chunk(1) page(1)] show ?thesis using page(2) chunk(2) by simp
    next
      case chunk2: (chunk c j)
      with chunk o(3) chunk_chunk_apart [OF inv chunk(1), of c j] show ?thesis by auto
    qed
  qed
qed

lemma heap_owned_nonempty:
  assumes inv: "heap_inv h" and o: "0 < heap_owners h r"
  shows "0 < snd r"
  using inv o
proof (cases rule: heap_owned_cases)
  case (chunk a i)
  then have "i < CHUNK_POOL_COUNT" using used_chunk_page [OF inv chunk(1)] by metis
  with chunk(2) show ?thesis using pool_size_dvd [of i] by simp
qed (simp add: page_region_def)

section \<open>The ownership contract of the heap\<close>

lemma page_owners_start:
  "G_MEMPOOL_START b' = G_MEMPOOL_START b \<Longrightarrow>
   page_owners b' (page_region b i k) = (if (i, k) \<in> alloc_blocks b' then 1 else 0)"
  using page_owners_region [of b' i k] by (simp add: page_region_fields [of b' b])

text \<open>Owners after a step that keeps the pool in place, from what it does to blocks and chunks.\<close>

lemma heap_owners_same:
  assumes "G_MEMPOOL_START (hp_buddy h') = G_MEMPOOL_START (hp_buddy h)"
    and "0 < page_owners (hp_buddy h') r \<longleftrightarrow> 0 < page_owners (hp_buddy h) r"
    and "\<And>i k. (i, k) \<in> alloc_blocks (hp_buddy h) \<Longrightarrow> r = page_region (hp_buddy h) i k \<Longrightarrow>
      cow_ref_count (frame_array (hp_buddy h') i) = cow_ref_count (frame_array (hp_buddy h) i)"
    and "(\<exists>(a, i) \<in> used_chunks h'. r = (unat a, pool_size i)) \<longleftrightarrow> (\<exists>(a, i) \<in> used_chunks h. r = (unat a, pool_size i))"
  shows "heap_owners h' r = heap_owners h r"
proof (cases "0 < page_owners (hp_buddy h) r")
  case True
  then obtain i k where r: "(i, k) \<in> alloc_blocks (hp_buddy h)" "r = page_region (hp_buddy h) i k"
    by (auto simp: page_owners_pos)
  with True assms(1-3) show ?thesis by (simp add: heap_owners_def)
next
  case False
  then show ?thesis using assms(2,4) by (simp add: heap_owners_def)
qed

lemma allocate_cases:
  assumes inv: "heap_inv h"
  obtains (null) h' where "allocate len h = Some (0, h')" "heap_inv h'" "heap_owners h' = heap_owners h"
    | (given) p h' l where "allocate len h = Some (p, h')" "p \<noteq> 0" "heap_inv h'" "unat len \<le> l"
        "heap_owners h' = (heap_owners h)((unat p, l) := 1)" "heap_owners h (unat p, l) = 0"
proof -
  have rd: "g_allocator_ready h" using inv by (auto simp: heap_inv_def heap_ok_def)
  consider "len = 0 \<or> len > MAX_ALLOC_SIZE" | "0 < unat len" "unat len \<le> 2048" | "2048 < unat len" "len \<le> MAX_ALLOC_SIZE"
    by (metis linorder_not_le unat_gt_0)
  then show ?thesis
  proof cases
    case 1
    then show ?thesis using null inv by (auto simp: allocate_def)
  next
    case 2
    obtain p h' where al: "allocate len h = Some (p, h')"
    proof -
      have "\<not> len > MAX_ALLOC_SIZE" "len \<le> 2048" "len \<noteq> 0"
        using 2 by (auto simp: word_le_nat_alt word_less_nat_alt MAX_ALLOC_SIZE_def)
      then have "allocate len h \<noteq> None" using rd by (simp add: allocate_def split_beta Let_def split: option.split)
      then show ?thesis using that by (cases "allocate len h") auto
    qed
    from allocate_chunk [OF inv 2 al] show ?thesis
    proof (elim disjE conjE exE)
      assume "p = 0" "h' = h"
      then show ?thesis using null al inv by simp
    next
      fix i assume A: "p \<noteq> 0" "heap_inv h'" "i < CHUNK_POOL_COUNT" "unat len \<le> pool_size i"
        "used_chunks h' = insert (p, i) (used_chunks h)" "(p, i) \<notin> used_chunks h"
        "alloc_blocks (hp_buddy h') = alloc_blocks (hp_buddy h)"
        "G_MEMPOOL_START (hp_buddy h') = G_MEMPOOL_START (hp_buddy h)"
        "\<forall>(j, k) \<in> alloc_blocks (hp_buddy h). cow_ref_count (frame_array (hp_buddy h') j) = cow_ref_count (frame_array (hp_buddy h) j)"
      let ?r = "(unat p, pool_size i)"
      have po: "page_owners (hp_buddy h') = page_owners (hp_buddy h)" by (rule page_owners_cong [OF A(7,8)])
      have one: "heap_owners h' ?r = 1" using A(2,5) by (intro heap_owners_chunk) auto
      have "heap_owners h' r = heap_owners h r" if "r \<noteq> ?r" for r
        using A(5,9) that by (intro heap_owners_same [OF A(8)]) (auto simp: po)
      with one have eq: "heap_owners h' = (heap_owners h)(?r := 1)" by auto
      have "heap_owners h ?r = 0"
      proof (rule ccontr)
        assume "heap_owners h ?r \<noteq> 0"
        then have o: "0 < heap_owners h ?r" by simp
        from inv o show False
        proof (cases rule: heap_owned_cases)
          case (page j k)
          have "(p, i) \<in> used_chunks h'" by (simp add: A(5))
          from chunk_no_page [OF A(2) this] page show False by (simp add: po page_owners_region)
        next
          case (chunk a j)
          then have "a = p" by (simp add: word_unat_eq_iff)
          have cp: "(p, i) \<in> used_chunks h'" "(p, j) \<in> used_chunks h'" using A(5) chunk \<open>a = p\<close> by auto
          have "j < CHUNK_POOL_COUNT" using used_chunk_page [OF A(2) cp(2)] by metis
          then have "\<not> apart (unat p, pool_size i) (unat p, pool_size j)"
            using pool_size_dvd [of j] pool_size_dvd [OF A(3)] by (simp add: apart_def)
          with chunk_chunk_apart [OF A(2) cp] have "i = j" by blast
          with chunk(1) \<open>a = p\<close> A(6) show False by simp
        qed
      qed
      with given [OF al A(1,2,4) eq] show ?thesis by blast
    qed
  next
    case 3
    from allocate_pages [OF inv 3] obtain ord where
      al: "allocate len h = Some (fst (buddy_alloc_pages ord (hp_buddy h)), h\<lparr>hp_buddy := snd (buddy_alloc_pages ord (hp_buddy h))\<rparr>)"
      and l: "unat len \<le> 2 ^ ord * 4096" by blast
    have bi: "buddy_inv (hp_buddy h)" using inv by (auto simp: heap_inv_def heap_ok_def)
    show ?thesis
    proof (cases "fst (buddy_alloc_pages ord (hp_buddy h)) = 0")
      case True
      with alloc_null_state [OF bi True] null [of h] al inv show ?thesis by simp
    next
      case False
      let ?h = "h\<lparr>hp_buddy := snd (buddy_alloc_pages ord (hp_buddy h))\<rparr>"
      note A = heap_alloc_pages [OF inv False]
      from A(3) obtain idx where I: "fst (buddy_alloc_pages ord (hp_buddy h)) = page_to_addr (hp_buddy h) idx"
        "idx < G_MEM_TOTAL_PAGE (hp_buddy h)" "{idx..<idx + 2 ^ ord} \<subseteq> free_pages (hp_buddy h)"
        "alloc_blocks (hp_buddy ?h) = insert (idx, ord) (alloc_blocks (hp_buddy h))"
        "cow_ref_count (frame_array (hp_buddy ?h) idx) = 1"
        "\<forall>j. j \<notin> free_pages (hp_buddy h) \<longrightarrow> frame_array (hp_buddy ?h) j = frame_array (hp_buddy h) j" by blast
      let ?r = "page_region (hp_buddy h) idx ord"
      have reg: "page_region (hp_buddy ?h) = page_region (hp_buddy h)" using A(4) by (rule page_region_fields)
      have r: "?r = (unat (fst (buddy_alloc_pages ord (hp_buddy h))), 2 ^ ord * 4096)"
        using unat_page_to_addr [of "hp_buddy h" idx] bi I(2) by (simp add: I(1) page_region_def buddy_inv_def PAGE_SHIFT_def)
      have one: "heap_owners ?h ?r = 1"
        using heap_owners_page [of idx ord ?h] I(4,5) unfolding reg by simp
      have nf: "(j, k) \<in> alloc_blocks (hp_buddy h) \<Longrightarrow> frame_array (hp_buddy ?h) j = frame_array (hp_buddy h) j" for j k
        using I(6) not_free_alloc by blast
      have "heap_owners ?h r = heap_owners h r" if "r \<noteq> ?r" for r
      proof (rule heap_owners_same [OF A(4)])
        show "0 < page_owners (hp_buddy ?h) r \<longleftrightarrow> 0 < page_owners (hp_buddy h) r"
          using that unfolding page_owners_pos I(4) reg by auto
      qed (use nf A(2) in auto)
      with one have eq: "heap_owners ?h = (heap_owners h)(?r := 1)" by auto
      have "heap_owners h ?r = 0"
      proof (rule ccontr)
        assume "heap_owners h ?r \<noteq> 0"
        then have o: "0 < heap_owners h ?r" by simp
        from inv o show False
        proof (cases rule: heap_owned_cases)
          case (page j k)
          then have "(idx, ord) \<in> alloc_blocks (hp_buddy h)" by simp
          moreover have "idx \<in> {idx..<idx + 2 ^ ord}" by simp
          ultimately show False using I(3) not_free_alloc by blast
        next
          case (chunk a j)
          have "(a, j) \<in> used_chunks ?h" using chunk A(2) by simp
          from chunk_no_page [OF A(1) this] show False
            using page_owners_region [of "hp_buddy ?h" idx ord] I(4) chunk(2) unfolding reg by simp
        qed
      qed
      with given [OF al False A(1) l] eq show ?thesis unfolding r by blast
    qed
  qed
qed

lemma free_owners:
  assumes inv: "heap_inv h"
  shows "\<exists>h'. free p h = Some h' \<and> heap_inv h' \<and>
    (\<forall>r. heap_owners h' r = (if fst r = unat p then heap_owners h r - 1 else heap_owners h r))"
proof -
  let ?b = "hp_buddy h"
  have pool: "pool_ok ?b" using inv by (auto simp: heap_inv_def heap_ok_def buddy_inv_def)
  have only: "heap_owners h r = 0" if "0 < heap_owners h r'" "fst r = fst r'" "r \<noteq> r'" for r r'
  proof (rule ccontr)
    assume "heap_owners h r \<noteq> 0"
    then have o: "0 < heap_owners h r" by simp
    have "apart r r'" "0 < snd r" "0 < snd r'"
      using heap_owned_apart [OF inv o that(1,3)] heap_owned_nonempty [OF inv] o that(1) by blast+
    with that(2) show False by (auto simp: apart_def)
  qed
  consider (chunk) i where "(p, i) \<in> used_chunks h"
    | (page) i k where "(i, k) \<in> alloc_blocks ?b" "p = page_to_addr ?b i"
    | (other) "\<And>i. (p, i) \<notin> used_chunks h" "\<And>i k. (i, k) \<in> alloc_blocks ?b \<Longrightarrow> p \<noteq> page_to_addr ?b i" by blast
  then show ?thesis
  proof cases
    case (chunk i)
    from heap_free_chunk [OF inv chunk] obtain h' where F: "free p h = Some h'" "heap_inv h'"
      "used_chunks h' = used_chunks h - {(p, i)}" "alloc_blocks (hp_buddy h') = alloc_blocks ?b"
      "G_MEMPOOL_START (hp_buddy h') = G_MEMPOOL_START ?b"
      "\<forall>(j, k) \<in> alloc_blocks ?b. cow_ref_count (frame_array (hp_buddy h') j) = cow_ref_count (frame_array ?b j)" by blast
    let ?r = "(unat p, pool_size i)"
    have po: "page_owners (hp_buddy h') = page_owners ?b" by (rule page_owners_cong [OF F(4,5)])
    have one: "heap_owners h ?r = 1" using inv chunk by (rule heap_owners_chunk)
    have "j = i" if "(p, j) \<in> used_chunks h" "pool_size j = pool_size i" for j
      using only [of ?r "(unat p, pool_size j)"] chunk_chunk_apart [OF inv chunk that(1)] that(2)
        heap_owned_nonempty [OF inv, of ?r] one by (auto simp: apart_def)
    then have "heap_owners h' ?r = 0"
      using chunk_no_page [OF inv chunk] F(3) by (auto simp: heap_owners_def po simp flip: word_unat_eq_iff)
    moreover have "heap_owners h' r = heap_owners h r" if "r \<noteq> ?r" for r
      using F(3,6) that by (intro heap_owners_same [OF F(5)]) (auto simp: po)
    moreover have "heap_owners h r = 0" if "fst r = unat p" "r \<noteq> ?r" for r
      using only [of ?r r] that one by simp
    ultimately show ?thesis using F(1,2) one by (metis diff_self_eq_0 fst_conv zero_diff)
  next
    case (page i k)
    let ?n = "cow_ref_count (frame_array ?b i)" and ?r = "page_region ?b i k"
    from heap_free_page [OF inv page(1)] obtain h' where F: "free p h = Some h'" "heap_inv h'"
      "used_chunks h' = used_chunks h" "G_MEMPOOL_START (hp_buddy h') = G_MEMPOOL_START ?b"
      "alloc_blocks (hp_buddy h') = (if ?n = 1 then alloc_blocks ?b - {(i, k)} else alloc_blocks ?b)"
      "\<forall>(j, m) \<in> alloc_blocks (hp_buddy h'). cow_ref_count (frame_array (hp_buddy h') j) =
         (if j = i then ?n - 1 else cow_ref_count (frame_array ?b j))" unfolding page(2) by blast
    have n1: "1 \<le> ?n" using inv page(1) by (auto simp: heap_inv_def counts_ok_def)
    have old: "heap_owners h ?r = nat ?n" using page(1) by (rule heap_owners_page)
    have st: "fst ?r = unat p"
      using unat_page_to_addr [OF pool, of i] page by (simp add: page_region_def alloc_blocks_def)
    have reg: "page_region (hp_buddy h') = page_region ?b" using F(4) by (rule page_region_fields)
    have uniq: "m = k" if "(i, m) \<in> alloc_blocks ?b" for m using that page(1) by (simp add: alloc_blocks_def)
    have "heap_owners h' ?r = nat ?n - 1"
    proof (cases "?n = 1")
      case True
      have "page_owners (hp_buddy h') ?r = 0" using True F(5) by (simp add: page_owners_start [OF F(4)])
      moreover have "(a, j) \<in> used_chunks h \<Longrightarrow> ?r \<noteq> (unat a, pool_size j)" for a j
        using chunk_no_page [OF inv, of a j] page(1) page_owners_region [of ?b i k] by (metis zero_neq_one)
      ultimately show ?thesis using True F(3) by (auto simp: heap_owners_def)
    next
      case False
      then have "(i, k) \<in> alloc_blocks (hp_buddy h')" using F(5) page(1) by simp
      from heap_owners_page [OF this] F(6) this show ?thesis by (auto simp: reg nat_diff_distrib)
    qed
    moreover have "heap_owners h' r = heap_owners h r" if r: "r \<noteq> ?r" for r
    proof (rule heap_owners_same [OF F(4)])
      show "0 < page_owners (hp_buddy h') r \<longleftrightarrow> 0 < page_owners ?b r"
        using r unfolding page_owners_pos reg F(5) by auto
      show "cow_ref_count (frame_array (hp_buddy h') j) = cow_ref_count (frame_array ?b j)"
        if "(j, m) \<in> alloc_blocks ?b" "r = page_region ?b j m" for j m
      proof -
        have "j \<noteq> i" using that r uniq by auto
        moreover from this that have "(j, m) \<in> alloc_blocks (hp_buddy h')" using F(5) by simp
        ultimately show ?thesis using F(6) by auto
      qed
    qed (simp add: F(3))
    moreover have "heap_owners h r = 0" if "fst r = unat p" "r \<noteq> ?r" for r
      using only [of ?r r] that st old n1 by simp
    ultimately show ?thesis using F(1,2) old st by (metis zero_diff)
  next
    case other
    have "heap_owners h r = 0" if "fst r = unat p" for r
    proof (rule ccontr)
      assume "heap_owners h r \<noteq> 0"
      then have o: "0 < heap_owners h r" by simp
      from inv o show False
      proof (cases rule: heap_owned_cases)
        case (page i k)
        then have "unat (page_to_addr ?b i) = unat p"
          using unat_page_to_addr [OF pool, of i] that by (simp add: page_region_def alloc_blocks_def)
        then have "p = page_to_addr ?b i" by (simp add: word_unat_eq_iff)
        with other(2) [OF page(1)] show False by blast
      next
        case (chunk a i)
        then have "a = p" using that by (simp add: word_unat_eq_iff)
        with chunk(1) other(1) show False by blast
      qed
    qed
    with heap_free_other [OF inv other] inv show ?thesis by auto
  qed
qed

interpretation heap: ref_allocator heap_inv heap_owners "\<lambda>len h. the (allocate len h)" "\<lambda>p h. the (free p h)" unat
proof
  fix h :: heap and len p :: u64 and r r' :: region
  assume inv: "heap_inv h"
  let ?a = "the (allocate len h)"
  show "heap_inv (snd ?a)" "fst ?a = 0 \<Longrightarrow> heap_owners (snd ?a) = heap_owners h"
    using inv by (cases rule: allocate_cases [where len = len], auto)+
  show "\<exists>l \<ge> unat len. heap_owners (snd ?a) = (heap_owners h)((unat (fst ?a), l) := 1) \<and>
      (\<forall>b. 0 < heap_owners h b \<longrightarrow> apart b (unat (fst ?a), l))" if nz: "fst ?a \<noteq> 0"
    using inv
  proof (cases rule: allocate_cases [where len = len])
    case (given p h' l)
    have "apart b (unat p, l)" if o: "0 < heap_owners h b" for b
    proof -
      have "b \<noteq> (unat p, l)" using given(6) o by auto
      then show ?thesis using o given(5) by (intro heap_owned_apart [OF given(3)]) auto
    qed
    then show ?thesis using given by auto
  qed (use nz in simp)
  from free_owners [OF inv, of p] obtain h' where f: "free p h = Some h'" "heap_inv h'"
    "\<And>r. heap_owners h' r = (if fst r = unat p then heap_owners h r - 1 else heap_owners h r)" by blast
  show "heap_inv (the (free p h))" using f(1,2) by simp
  show "heap_owners (the (free p h)) r = (if fst r = unat p then heap_owners h r - 1 else heap_owners h r)"
    unfolding f(1) option.sel by (rule f(3))
  show "0 < heap_owners h r \<Longrightarrow> 0 < heap_owners h r' \<Longrightarrow> r \<noteq> r' \<Longrightarrow> apart r r'"
    using inv by (rule heap_owned_apart)
  show "0 < heap_owners h r \<Longrightarrow> 0 < snd r" using inv by (rule heap_owned_nonempty)
qed

section \<open>A concrete heap\<close>

text \<open>The heap as \<open>allocator_init\<close> leaves it over a pool of four pages without reservations.\<close>

definition heap4 :: heap where
  "heap4 = \<lparr>hp_buddy = pool4, chunk_size = g_pool_sizes,
     pool_links = fold (\<lambda>i. INIT_LIST_HEAD (PoolHead i)) [0..<CHUNK_POOL_COUNT] \<lparr>lh_next = (\<lambda>n. n), lh_prev = (\<lambda>n. n)\<rparr>,
     g_allocator_ready = True, reserved_rgns = []\<rparr>"

lemma fold_init_pools:
  "k < m \<Longrightarrow> dlist (fold (\<lambda>i. INIT_LIST_HEAD (PoolHead i)) [0..<m] l) (PoolHead k) []"
proof (induction m)
  case (Suc m)
  show ?case
  proof (cases "k = m")
    case False
    with Suc have "dlist (fold (\<lambda>i. INIT_LIST_HEAD (PoolHead i)) [0..<m] l) (PoolHead k) []" by simp
    then have "dlist (INIT_LIST_HEAD (PoolHead m) (fold (\<lambda>i. INIT_LIST_HEAD (PoolHead i)) [0..<m] l)) (PoolHead k) []"
      by (rule dlist_cong) (use False in \<open>auto simp: INIT_LIST_HEAD_def set_next_def set_prev_def\<close>)
    then show ?thesis by simp
  qed (simp add: dlist_init)
qed simp

text \<open>Any freshly initialised page allocator with empty pools is a well-formed heap.\<close>

lemma fresh_heap:
  assumes b: "buddy_inv b" and no: "alloc_blocks b = {}" "chunk_view b = (\<lambda>_. None)"
    and h: "hp_buddy h = b" "chunk_size h = g_pool_sizes" "g_allocator_ready h"
      "pool_links h = fold (\<lambda>i. INIT_LIST_HEAD (PoolHead i)) [0..<CHUNK_POOL_COUNT] l"
  shows "heap_inv h \<and> heap_owners h = (\<lambda>_. 0)"
proof -
  have "dlists (pool_links h) {..<CHUNK_POOL_COUNT} PoolHead (pool_lists (\<lambda>_. []))"
    using fold_init_pools [of _ CHUNK_POOL_COUNT l] by (auto simp: h dlists_def)
  then have "heap_ok h (\<lambda>_. [])" using b h no by (auto simp: heap_ok_def chunks_ok_def)
  moreover have "counts_ok (hp_buddy h)" using h no by (simp add: counts_ok_def)
  moreover have "used_chunks h = {}" using h no by (simp add: used_chunks_def)
  ultimately show ?thesis using h no by (auto simp: heap_inv_def heap_owners_def page_owners_def)
qed

lemma fresh_pool:
  assumes "buddy_inv b" "\<And>i. i < G_MEM_TOTAL_PAGE b \<Longrightarrow> i \<in> free_pages b \<or> fr_state (frame_array b i) = PAGE_STATE_RESERVED"
  shows "alloc_blocks b = {}" "chunk_view b = (\<lambda>_. None)"
proof -
  have ns: "fr_state (frame_array b i) \<notin> {PAGE_STATE_ALLOC_PAGE_HEAD, PAGE_STATE_ALLOC_CHUNK_POOL}"
    if "i < G_MEM_TOTAL_PAGE b" for i
    using assms(2) [OF that] by (auto simp: free_pages_def free_state_def)
  show "alloc_blocks b = {}" using ns by (auto simp: alloc_blocks_def)
  show "chunk_view b = (\<lambda>_. None)" using ns by (auto simp: chunk_view_def)
qed

lemma heap4_inv: "heap_inv heap4 \<and> heap_owners heap4 = (\<lambda>_. 0)"
proof (rule fresh_heap [OF pool4_inv])
  show "alloc_blocks pool4 = {}" "chunk_view pool4 = (\<lambda>_. None)"
    by (rule fresh_pool [OF pool4_inv], simp add: pool4_free)+
qed (simp_all add: heap4_def)

section \<open>Properties of the heap\<close>

text \<open>C4. \<open>allocate\<close> always returns. Either it returns null and nobody owns more than before, or it
  returns a region of at least the requested size that is apart from every region in use and now
  has exactly one owner; all other regions keep their owners, and the heap stays well-formed.\<close>

theorem allocate_correct:
  assumes "heap_inv h"
  shows "\<exists>p h'. allocate len h = Some (p, h') \<and> heap_inv h' \<and>
    (if p = 0 then heap_owners h' = heap_owners h
     else \<exists>l. unat len \<le> l \<and> heap_owners h' = (heap_owners h)((unat p, l) := 1) \<and>
            (\<forall>r. 0 < heap_owners h r \<longrightarrow> apart r (unat p, l)))"
  using assms
proof (cases rule: allocate_cases [where len = len])
  case (given p h' l)
  have "apart r (unat p, l)" if o: "0 < heap_owners h r" for r
  proof -
    have "r \<noteq> (unat p, l)" using given(6) o by auto
    then show ?thesis using o given(5) by (intro heap_owned_apart [OF given(3)]) auto
  qed
  with given show ?thesis by auto
qed auto

theorem allocate_correct_witness:
  "\<exists>p h'. allocate 100 heap4 = Some (p, h') \<and> heap_inv h' \<and>
    (if p = 0 then heap_owners h' = heap_owners heap4
     else \<exists>l. 100 \<le> l \<and> heap_owners h' = (heap_owners heap4)((unat p, l) := 1))"
proof -
  from allocate_correct [of heap4 100] heap4_inv obtain p h' where
    "allocate 100 heap4 = Some (p, h')" "heap_inv h'"
    "if p = 0 then heap_owners h' = heap_owners heap4
     else \<exists>l. unat (100 :: u64) \<le> l \<and> heap_owners h' = (heap_owners heap4)((unat p, l) := 1) \<and>
            (\<forall>r. 0 < heap_owners heap4 r \<longrightarrow> apart r (unat p, l))" by blast
  then show ?thesis by (auto split: if_splits)
qed

text \<open>C5. \<open>free\<close> always returns, whatever pointer it is given. It takes one owner from the region that
  starts at the pointer, if there is one, and changes nobody else's: null, foreign, interior and
  already freed pointers are ignored. The heap stays well-formed.\<close>

theorem free_correct:
  assumes "heap_inv h"
  shows "\<exists>h'. free p h = Some h' \<and> heap_inv h' \<and>
    (\<forall>r. heap_owners h' r = (if fst r = unat p then heap_owners h r - 1 else heap_owners h r))"
  using free_owners [OF assms] .

theorem free_correct_witness: "\<exists>h'. free 0x81000000 heap4 = Some h' \<and> heap_inv h' \<and> heap_owners h' = (\<lambda>_. 0)"
  using free_correct [of heap4 "0x81000000"] heap4_inv by (fastforce simp: fun_eq_iff)

text \<open>Freeing what \<open>allocate\<close> just returned restores the owners of every region.\<close>

theorem allocate_free_restores:
  assumes "heap_inv h" "allocate len h = Some (p, h')" "p \<noteq> 0"
  shows "\<exists>h''. free p h' = Some h'' \<and> heap_owners h'' = heap_owners h"
proof -
  have "heap_inv h'" using heap.alloc_inv [OF assms(1), of len] assms(2) by simp
  from free_owners [OF this, of p] obtain h'' where "free p h' = Some h''" by blast
  with heap.alloc_release [OF assms(1), of len] assms(2,3) show ?thesis by auto
qed

lemma heap4_alloc: "\<exists>p h'. allocate 8192 heap4 = Some (p, h') \<and> p \<noteq> 0"
proof -
  have "2048 < unat (8192 :: u64)" "(8192 :: u64) \<le> MAX_ALLOC_SIZE"
    by (simp_all add: MAX_ALLOC_SIZE_def word_le_nat_alt)
  from allocate_pages [OF conjunct1 [OF heap4_inv] this] obtain ord where
    o: "allocate 8192 heap4 = Some (fst (buddy_alloc_pages ord pool4), heap4\<lparr>hp_buddy := snd (buddy_alloc_pages ord pool4)\<rparr>)"
      "8192 \<le> 2 ^ ord * (4096 :: nat)" "\<forall>j < ord. 2 ^ j * 4096 < (8192 :: nat)" by (auto simp: heap4_def)
  have "ord = 1"
  proof (rule ccontr)
    assume "ord \<noteq> 1"
    moreover have "ord \<noteq> 0" using o(2) by (cases "ord = 0") auto
    ultimately have "1 < ord" by simp
    with o(3) have "(2 :: nat) ^ 1 * 4096 < 8192" by blast
    then show False by simp
  qed
  with o(1) pool4_alloc show ?thesis by auto
qed

theorem allocate_free_restores_witness:
  "\<exists>p h' h''. allocate 8192 heap4 = Some (p, h') \<and> free p h' = Some h'' \<and> heap_owners h'' = (\<lambda>_. 0)"
proof -
  obtain p h' where a: "allocate 8192 heap4 = Some (p, h')" "p \<noteq> 0" using heap4_alloc by blast
  from allocate_free_restores [OF conjunct1 [OF heap4_inv] a] a(1) heap4_inv show ?thesis by auto
qed

text \<open>C6. Over any sequence of allocations and frees of the kernel, regions in use never overlap, and
  a region stays owned, with no pointer into it handed out, as long as it has been freed less
  often than it is owned.\<close>

theorem heap_runs_exclusive:
  assumes "heap_inv h" and "serve (\<lambda>len h. the (allocate len h)) (\<lambda>p h. the (free p h)) cs h = (ps, h')"
  shows "(\<forall>r r'. 0 < heap_owners h' r \<and> 0 < heap_owners h' r' \<and> r \<noteq> r' \<longrightarrow> apart r r') \<and>
    (\<forall>p len. releases p cs < heap_owners h (unat p, len) \<longrightarrow>
       0 < heap_owners h' (unat p, len) \<and>
       (\<forall>q \<in> set ps. q \<noteq> 0 \<longrightarrow> \<not> (unat p \<le> unat q \<and> unat q < unat p + len)))"
proof -
  have "0 < heap_owners h' (unat p, len) \<and>
      (\<forall>q \<in> set ps. q \<noteq> 0 \<longrightarrow> \<not> (unat p \<le> unat q \<and> unat q < unat p + len))"
    if "releases p cs < heap_owners h (unat p, len)" for p len
    using heap.serve_keeps [OF assms(1) that] that by (auto simp: assms(2))
  moreover have "apart r r'" if "0 < heap_owners h' r" "0 < heap_owners h' r'" "r \<noteq> r'" for r r'
    using heap.serve_apart [OF assms(1), of cs r r'] that by (simp add: assms(2))
  ultimately show ?thesis by blast
qed

theorem heap_runs_exclusive_witness:
  "\<exists>p h' q h''. allocate 8192 heap4 = Some (p, h') \<and> p \<noteq> 0 \<and> allocate 16 h' = Some (q, h'') \<and> q \<noteq> p"
proof -
  obtain p h' where a: "allocate 8192 heap4 = Some (p, h')" "p \<noteq> 0" using heap4_alloc by blast
  have inv: "heap_inv h'" using heap.alloc_inv [OF conjunct1 [OF heap4_inv], of 8192] a by simp
  from heap.alloc_fresh [OF conjunct1 [OF heap4_inv], of 8192] a obtain l where
    l: "8192 \<le> l" "heap_owners h' (unat p, l) = 1" by auto
  from inv obtain q h'' where b: "allocate 16 h' = Some (q, h'')"
    by (cases rule: allocate_cases [where len = 16]) auto
  have "serve (\<lambda>len h. the (allocate len h)) (\<lambda>p h. the (free p h)) [Alloc 16] h' = ([q], h'')"
    by (simp add: b)
  from heap_runs_exclusive [OF inv this] l have "q \<noteq> 0 \<longrightarrow> \<not> (unat p \<le> unat q \<and> unat q < unat p + l)"
    by fastforce
  then have "q \<noteq> p" using l(1) a(2) by auto
  with a b show ?thesis by blast
qed

text \<open>A small request is served from the pool with the smallest chunks that fit; chunks never come
  from a page that a large request owns, and a failure leaves the heap as it was.\<close>

theorem allocate_tight_fit:
  assumes "heap_inv h" "0 < unat len" "unat len \<le> 2048" "allocate len h = Some (p, h')"
  shows "(p = 0 \<and> h' = h) \<or>
    (\<exists>i < CHUNK_POOL_COUNT. unat len \<le> g_pool_sizes ! i \<and> (\<forall>j < i. g_pool_sizes ! j < unat len) \<and>
       used_chunks h' = insert (p, i) (used_chunks h) \<and> (p, i) \<notin> used_chunks h \<and>
       alloc_blocks (hp_buddy h') = alloc_blocks (hp_buddy h))"
  using allocate_chunk [OF assms] by blast

theorem allocate_tight_fit_witness:
  "\<exists>p h'. allocate 100 heap4 = Some (p, h') \<and>
     ((p = 0 \<and> h' = heap4) \<or> (\<exists>i < CHUNK_POOL_COUNT. g_pool_sizes ! i \<ge> 100 \<and> (p, i) \<in> used_chunks h'))"
proof -
  from heap4_inv have inv: "heap_inv heap4" ..
  then obtain p h' where a: "allocate 100 heap4 = Some (p, h')"
    by (cases rule: allocate_cases [where len = 100]) auto
  from allocate_tight_fit [OF inv _ _ a] a show ?thesis by fastforce
qed

lemma page_inc_ref_owner:
  assumes inv: "heap_inv h" and a: "(i, k) \<in> alloc_blocks (hp_buddy h)"
  defines "p \<equiv> page_to_addr (hp_buddy h) i" and "r \<equiv> page_region (hp_buddy h) i k"
  shows "heap_inv (page_inc_ref p h) \<and>
    heap_owners (page_inc_ref p h) = (heap_owners h)(r := heap_owners h r + 1) \<and>
    get_page_ref p (page_inc_ref p h) = int (heap_owners h r) + 1 \<and> get_page_ref p h = int (heap_owners h r)"
proof -
  let ?b = "hp_buddy h"
  from inv obtain L where ok: "heap_ok h L" and ct: "counts_ok ?b" by (auto simp: heap_inv_def)
  note pool = heap_ok_pool [OF ok]
  have i: "i < G_MEM_TOTAL_PAGE ?b" using a by (simp add: alloc_blocks_def)
  note pa = page_addr_pool [OF pool i, folded p_def]
  let ?g = "\<lambda>fr. fr\<lparr>cow_ref_count := cow_ref_count fr + 1\<rparr>"
  let ?b1 = "upd_frame i ?g ?b"
  have h1: "page_inc_ref p h = h\<lparr>hp_buddy := ?b1\<rparr>" using pa by (simp add: page_inc_ref_def)
  have al1: "alloc_blocks ?b1 = alloc_blocks ?b" by (simp add: alloc_blocks_counts)
  have v1: "chunk_view ?b1 = chunk_view ?b" by (rule chunk_view_cow)
  have bi1: "buddy_inv ?b1" using ok by (simp add: buddy_inv_counts heap_ok_def)
  have "heap_ok (h\<lparr>hp_buddy := ?b1\<rparr>) L" by (rule heap_ok_buddy [OF ok bi1 v1]) simp
  moreover have "1 \<le> cow_ref_count (frame_array ?b1 j)" if "(j, m) \<in> alloc_blocks ?b" for j m
    using ct that by (force simp: counts_ok_def)
  then have "counts_ok ?b1" using ct unfolding counts_ok_def v1 al1 by blast
  ultimately have "heap_inv (page_inc_ref p h)" by (auto simp: h1 heap_inv_def)
  moreover have own: "heap_owners h r = nat (cow_ref_count (frame_array ?b i))" "1 \<le> cow_ref_count (frame_array ?b i)"
    using ct a by (auto simp: r_def heap_owners_page counts_ok_def)
  moreover have "heap_owners (page_inc_ref p h) x = ((heap_owners h)(r := heap_owners h r + 1)) x" for x
  proof (cases "x = r")
    case True
    have "page_region ?b1 i k = r" unfolding r_def by (simp add: page_region_def)
    then have "heap_owners (page_inc_ref p h) r = nat (cow_ref_count (frame_array ?b1 i))"
      using heap_owners_page [of i k "h\<lparr>hp_buddy := ?b1\<rparr>"] a by (simp add: h1 al1)
    with True own show ?thesis by (simp add: nat_add_distrib)
  next
    case False
    have uniq: "j \<noteq> i" if "(j, m) \<in> alloc_blocks ?b" "x = page_region ?b j m" for j m
      using that a False by (auto simp: r_def alloc_blocks_def)
    have po: "page_owners ?b1 = page_owners ?b" by (rule page_owners_cong [OF al1]) simp
    have uc: "used_chunks (h\<lparr>hp_buddy := ?b1\<rparr>) = used_chunks h" by (rule used_chunks_buddy [OF v1]) simp
    have "heap_owners (page_inc_ref p h) x = heap_owners h x"
      unfolding h1 using uniq by (intro heap_owners_same) (auto simp: po uc)
    with False show ?thesis by simp
  qed
  moreover have "get_page_ref p (page_inc_ref p h) = cow_ref_count (frame_array ?b i) + 1"
  proof -
    have "in_pool ?b1 p" "addr_to_page_idx ?b1 p = i"
      using pa by (simp_all add: in_pool_def addr_to_page_idx_def)
    then show ?thesis by (simp add: get_page_ref_def h1)
  qed
  moreover have "get_page_ref p h = cow_ref_count (frame_array ?b i)"
    using pa by (simp add: get_page_ref_def)
  ultimately show ?thesis by auto
qed

lemma page_ref_owned:
  assumes inv: "heap_inv h" and o: "0 < heap_owners h (unat p, l)" "4096 \<le> l"
  shows "get_page_ref p h = int (heap_owners h (unat p, l))" "heap_inv (page_inc_ref p h)"
    "heap_owners (page_inc_ref p h) = (heap_owners h)((unat p, l) := heap_owners h (unat p, l) + 1)"
proof -
  have pool: "pool_ok (hp_buddy h)" using inv by (auto simp: heap_inv_def heap_ok_def buddy_inv_def)
  from inv o(1) obtain i k where b: "(i, k) \<in> alloc_blocks (hp_buddy h)" "(unat p, l) = page_region (hp_buddy h) i k"
  proof (cases rule: heap_owned_cases)
    case (chunk c i)
    have "i < CHUNK_POOL_COUNT" using used_chunk_page [OF inv chunk(1)] by metis
    with chunk(2) o(2) pool_size_dvd [of i] show ?thesis by auto
  qed
  have "p = page_to_addr (hp_buddy h) i"
    using unat_page_to_addr [OF pool, of i] b by (simp add: word_unat_eq_iff page_region_def alloc_blocks_def)
  with page_inc_ref_owner [OF inv b(1)] b(2)
  show "get_page_ref p h = int (heap_owners h (unat p, l))" "heap_inv (page_inc_ref p h)"
    "heap_owners (page_inc_ref p h) = (heap_owners h)((unat p, l) := heap_owners h (unat p, l) + 1)" by simp_all
qed

text \<open>Sharing a page: \<open>page_inc_ref\<close> adds one owner to an allocated block, which \<open>get_page_ref\<close>
  reports, so the block survives as many frees as it has owners; no other region is affected.\<close>

theorem page_inc_ref_shares:
  assumes inv: "heap_inv h" and a: "(i, k) \<in> alloc_blocks (hp_buddy h)"
  defines "p \<equiv> page_to_addr (hp_buddy h) i" and "r \<equiv> page_region (hp_buddy h) i k"
  shows "heap_inv (page_inc_ref p h) \<and>
    heap_owners (page_inc_ref p h) = (heap_owners h)(r := heap_owners h r + 1) \<and>
    get_page_ref p (page_inc_ref p h) = int (heap_owners h r) + 1"
  using page_inc_ref_owner [OF inv a] by (simp add: p_def r_def)

theorem page_inc_ref_shares_witness:
  "\<exists>p h' r. allocate 8192 heap4 = Some (p, h') \<and> heap_owners (page_inc_ref p h') r = 2"
proof -
  from heap4_inv have inv4: "heap_inv heap4" ..
  obtain p h' where a: "allocate 8192 heap4 = Some (p, h')" "p \<noteq> 0" using heap4_alloc by blast
  have inv: "heap_inv h'" using heap.alloc_inv [OF inv4, of 8192] a by simp
  from heap.alloc_fresh [OF inv4, of 8192] a obtain l where
    l: "8192 \<le> l" "heap_owners h' (unat p, l) = 1" by auto
  have pool: "pool_ok (hp_buddy h')" using inv by (auto simp: heap_inv_def heap_ok_def buddy_inv_def)
  have "0 < heap_owners h' (unat p, l)" by (simp add: l(2))
  with inv show ?thesis
  proof (cases rule: heap_owned_cases)
    case (page i k)
    then have "p = page_to_addr (hp_buddy h') i"
      using unat_page_to_addr [OF pool, of i] by (simp add: word_unat_eq_iff page_region_def alloc_blocks_def)
    with page_inc_ref_shares [OF inv page(1)] page(2) l(2) a(1) show ?thesis
      by (intro exI [of _ p] exI [of _ h'] exI [of _ "(unat p, l)"]) simp
  next
    case (chunk c i)
    have "i < CHUNK_POOL_COUNT" using used_chunk_page [OF inv chunk(1)] by metis
    with chunk(2) l(1) pool_size_dvd [of i] show ?thesis by auto
  qed
qed

end
