(* ===== verification/Stable_Queue.thy ===== *)
theory Stable_Queue
  imports Main "HOL-Library.Multiset"
begin

text \<open>
  The contract of a priority queue kept as a sorted list: inserting keeps the list sorted, adds
  exactly the new element, and puts it behind the elements with the same key. The task queue
  (\<open>src/src/task.c\<close>) and the timer list (\<open>src/src/timer.c\<close>) both satisfy it. What follows for any
  sequence of insertions is proved once: the queue is the stable sort of what was inserted.
\<close>

locale stable_insert =
  fixes key :: "'a \<Rightarrow> 'k :: linorder"
    and ins :: "'a \<Rightarrow> 'a list \<Rightarrow> 'a list"
  assumes ins_mset: "sorted (map key q) \<Longrightarrow> mset (ins x q) = add_mset x (mset q)"
    and ins_sorted: "sorted (map key q) \<Longrightarrow> sorted (map key (ins x q))"
    and ins_stable: "sorted (map key q) \<Longrightarrow>
      filter (\<lambda>y. key y = k) (ins x q) = filter (\<lambda>y. key y = k) q @ (if key x = k then [x] else [])"
begin

lemma ins_set: "sorted (map key q) \<Longrightarrow> set (ins x q) = insert x (set q)"
  by (metis ins_mset set_mset_add_mset_insert set_mset_mset)

lemma fold_ins:
  assumes "sorted (map key q)"
  shows "sorted (map key (fold ins xs q)) \<and> mset (fold ins xs q) = mset (q @ xs) \<and>
    filter (\<lambda>y. key y = k) (fold ins xs q) = filter (\<lambda>y. key y = k) (q @ xs)"
  using assms
proof (induction xs arbitrary: q)
  case (Cons x xs)
  from Cons.IH [OF ins_sorted [OF Cons.prems, of x]] show ?case
    using ins_mset [OF Cons.prems, of x] ins_stable [OF Cons.prems, of k x] by simp
qed simp

text \<open>Inserting one by one into an empty queue is the stable sort.\<close>

lemma fold_ins_sort: "fold ins xs [] = sort_key key xs"
proof (rule properties_for_sort_key [symmetric])
  show "mset (fold ins xs []) = mset xs" "sorted (map key (fold ins xs []))"
    using fold_ins [of "[]" xs] by auto
  show "filter (\<lambda>y. key k = key y) (fold ins xs []) = filter (\<lambda>y. key k = key y) xs" for k
    using fold_ins [of "[]" xs "key k"] by (simp add: eq_commute)
qed

text \<open>The head of the queue is the least key, and the oldest with that key.\<close>

lemma fold_ins_head:
  assumes "fold ins xs [] = y # ys"
  shows "y \<in> set xs \<and> (\<forall>x \<in> set xs. key y \<le> key x) \<and> hd (filter (\<lambda>x. key x = key y) xs) = y"
proof -
  have f: "sorted (map key (y # ys))" "mset (y # ys) = mset xs"
    "filter (\<lambda>x. key x = key y) (y # ys) = filter (\<lambda>x. key x = key y) xs"
    using fold_ins [of "[]" xs "key y"] assms by auto
  have "set xs = set (y # ys)" using f(2) by (metis set_mset_mset)
  moreover have "hd (filter (\<lambda>x. key x = key y) xs) = y" unfolding f(3) [symmetric] by simp
  ultimately show ?thesis using f(1) by auto
qed

end

section \<open>Inserting behind the equal keys\<close>

text \<open>Inserting behind all keys that are not greater satisfies the contract.\<close>

lemma filter_split: "filter P (takeWhile Q xs) @ filter P (dropWhile Q xs) = filter P xs"
  by (metis filter_append takeWhile_dropWhile_id)

lemma sorted_dropWhile_greater:
  fixes key :: "'a \<Rightarrow> 'k :: linorder"
  shows "sorted (map key xs) \<Longrightarrow> y \<in> set (dropWhile (\<lambda>t. key t \<le> b) xs) \<Longrightarrow> b < key y"
  by (induction xs) (fastforce split: if_splits)+

lemma split_mset: "mset (takeWhile P xs) + mset (dropWhile P xs) = mset xs"
  by (induction xs) auto

lemma sorted_insert_behind: 
  fixes key :: "'a \<Rightarrow> 'k :: linorder"
  assumes s: "sorted (map key xs)"
  shows "sorted (map key (takeWhile (\<lambda>y. key y \<le> key x) xs @ x # dropWhile (\<lambda>y. key y \<le> key x) xs))"
  using s by (induction xs) (auto dest: set_takeWhileD set_dropWhileD intro: less_imp_le order_trans)

lemma filter_behind:
  fixes key :: "'a \<Rightarrow> 'k :: linorder"
  assumes s: "sorted (map key q)"
  shows "filter (\<lambda>y. key y = k) (takeWhile (\<lambda>y. key y \<le> key x) q @ x # dropWhile (\<lambda>y. key y \<le> key x) q)
   = filter (\<lambda>y. key y = k) q @ (if key x = k then [x] else [])"
proof -
  have "filter (\<lambda>y. key y = k) (dropWhile (\<lambda>y. key y \<le> key x) q) = []" if "key x = k"
    using sorted_dropWhile_greater [OF s] that by (fastforce simp: filter_empty_conv)
  then show ?thesis
    using filter_split [of "\<lambda>y. key y = k" "\<lambda>y. key y \<le> key x" q] by auto
qed

lemma stable_insert_behind:
  fixes key :: "'a \<Rightarrow> 'k :: linorder"
  assumes ins: "\<And>x q. ins x q = takeWhile (\<lambda>y. key y \<le> key x) q @ x # dropWhile (\<lambda>y. key y \<le> key x) q"
  shows "stable_insert key ins"
  by (rule stable_insert.intro)
    (simp_all only: ins sorted_insert_behind filter_behind mset_append mset.simps union_mset_add_mset_right split_mset)

end
