(* ===== verification/Task.thy ===== *)
theory Task
  imports Allocator_Props Stable_Queue
begin

text \<open>
  \<open>src/src/task.c\<close>: the queue of deferred work. Nodes live on the kernel heap and hang on a singly
  linked list, modelled as the list of nodes with their addresses. The kernel state is a record
  that later components extend; \<open>cur_priority\<close> is the field \<open>current_task_priority\<close> of the running
  thread. Both functions mask interrupts while they touch the queue, so each access is one step.
\<close>

section \<open>State and operations\<close>

record task_node =
  tn_addr :: u64
  callback :: u64
  arg :: u64
  priority :: int

record kernel =
  k_heap :: heap
  task_queue :: "task_node list"
  cur_priority :: int

text \<open>\<open>sizeof(struct task_node)\<close>.\<close>

definition SIZEOF_TASK_NODE :: u64 where
  "SIZEOF_TASK_NODE = 32"

text \<open>The \<open>while\<close> loop of \<open>add_task\<close>, from \<open>curr\<close>, and the insertion as a whole.\<close>

fun insert_walk :: "task_node \<Rightarrow> task_node list \<Rightarrow> task_node list" where
  "insert_walk n [] = [n]"
| "insert_walk n [cur] = [cur, n]"
| "insert_walk n (cur # nxt # rest) =
     (if priority nxt \<ge> priority n then cur # insert_walk n (nxt # rest) else cur # n # nxt # rest)"

definition insert_task :: "task_node \<Rightarrow> task_node list \<Rightarrow> task_node list" where
  "insert_task n q =
     (case q of
        [] \<Rightarrow> [n]
      | head # rest \<Rightarrow> if priority head < priority n then n # q else insert_walk n q)"

definition add_task :: "u64 \<Rightarrow> u64 \<Rightarrow> int \<Rightarrow> 'a kernel_scheme \<Rightarrow> 'a kernel_scheme option" where
  "add_task cb a prio k =
     (case allocate SIZEOF_TASK_NODE (k_heap k) of
        None \<Rightarrow> None
      | Some (p, h) \<Rightarrow>
          let k = k\<lparr>k_heap := h\<rparr>
          in Some (if p = 0 then k
                   else k\<lparr>task_queue := insert_task
                            \<lparr>tn_addr = p, callback = cb, arg = a, priority = prio\<rparr> (task_queue k)\<rparr>))"

text \<open>
  \<open>run_tasks\<close>. What the callbacks do is a parameter: a callback gets the kernel state with the
  priority raised and may change anything, also enqueue further tasks.
\<close>

partial_function (option) run_tasks ::
  "(u64 \<Rightarrow> u64 \<Rightarrow> 'a kernel_scheme \<Rightarrow> 'a kernel_scheme option) \<Rightarrow> 'a kernel_scheme \<Rightarrow> 'a kernel_scheme option" where
  "run_tasks call k =
     (case task_queue k of
        [] \<Rightarrow> Some k
      | t # rest \<Rightarrow>
          if priority t \<le> cur_priority k then Some k
          else
            let saved = cur_priority k;
                k = k\<lparr>task_queue := rest, cur_priority := priority t\<rparr>
            in case call (callback t) (arg t) k of
                 None \<Rightarrow> None
               | Some k \<Rightarrow>
                   (case free (tn_addr t) (k_heap k) of
                      None \<Rightarrow> None
                    | Some h \<Rightarrow> run_tasks call (k\<lparr>cur_priority := saved, k_heap := h\<rparr>)))"

section \<open>The queue order\<close>

lemma insert_walk_eq:
  "cur # rest = q \<Longrightarrow> priority n \<le> priority cur \<Longrightarrow>
   insert_walk n q = takeWhile (\<lambda>t. priority n \<le> priority t) q @ n # dropWhile (\<lambda>t. priority n \<le> priority t) q"
proof (induction n q arbitrary: cur rest rule: insert_walk.induct)
  case (3 n c nx r)
  then show ?case by (cases "priority n \<le> priority nx") auto
qed auto

text \<open>The new node goes behind every node of at least its priority.\<close>

lemma insert_task_eq:
  "insert_task n q = takeWhile (\<lambda>t. priority n \<le> priority t) q @ n # dropWhile (\<lambda>t. priority n \<le> priority t) q"
  by (cases q) (auto simp: insert_task_def insert_walk_eq not_less)

interpretation tasks: stable_insert "\<lambda>t. - priority t" insert_task
  by (rule stable_insert_behind) (simp add: insert_task_eq)

section \<open>Nodes on the heap\<close>

text \<open>An allocation of at most 2048 bytes owns a chunk of the smallest fitting size.\<close>

lemma allocate_small_owners:
  assumes inv: "heap_inv h" and len: "0 < unat len" "unat len \<le> 2048" and al: "allocate len h = Some (p, h')"
    and nz: "p \<noteq> 0" and i: "i < CHUNK_POOL_COUNT" "unat len \<le> pool_size i" "\<And>j. j < i \<Longrightarrow> pool_size j < unat len"
  shows "heap_inv h'" "heap_owners h' = (heap_owners h)((unat p, pool_size i) := 1)" "heap_owners h (unat p, pool_size i) = 0"
proof -
  from allocate_chunk [OF inv len al] nz obtain j where
    A: "heap_inv h'" "unat len \<le> pool_size j" "\<forall>l < j. pool_size l < unat len" "used_chunks h' = insert (p, j) (used_chunks h)"
    by blast
  have "j = i" using i(2) i(3) [of j] A(2,3) by (cases i j rule: linorder_cases) auto
  with A have one: "heap_owners h' (unat p, pool_size i) = 1" by (intro heap_owners_chunk) auto
  show "heap_inv h'" by (rule A(1))
  from inv obtain l where l: "heap_owners h' = (heap_owners h)((unat p, l) := 1)" "heap_owners h (unat p, l) = 0"
    by (cases rule: allocate_cases [where len = len]) (use al nz in auto)
  have "l = pool_size i"
  proof (rule ccontr)
    assume ne: "l \<noteq> pool_size i"
    have "0 < heap_owners h' (unat p, l)" "0 < heap_owners h' (unat p, pool_size i)" using one l(1) by auto
    then have "apart (unat p, l) (unat p, pool_size i)" "0 < l" "0 < pool_size i"
      using heap_owned_apart [OF A(1)] ne heap_owned_nonempty [OF A(1)] by fastforce+
    then show False by (simp add: apart_def)
  qed
  with l show "heap_owners h' = (heap_owners h)((unat p, pool_size i) := 1)" "heap_owners h (unat p, pool_size i) = 0"
    by auto
qed

lemma task_node_alloc:
  assumes "heap_inv h" "allocate SIZEOF_TASK_NODE h = Some (p, h')" "p \<noteq> 0"
  shows "heap_inv h'" "heap_owners h' = (heap_owners h)((unat p, 32) := 1)" "heap_owners h (unat p, 32) = 0"
  using allocate_small_owners [OF assms(1) _ _ assms(2,3), of 1]
  by (simp_all add: SIZEOF_TASK_NODE_def CHUNK_POOL_COUNT_def g_pool_sizes_def)

text \<open>Owned regions with the same start are the same, so freeing one leaves all others alone.\<close>

lemma owned_start_unique:
  assumes "heap_inv h" "0 < heap_owners h (a, l)" "0 < heap_owners h (a, m)"
  shows "l = m"
proof (rule ccontr)
  assume "l \<noteq> m"
  then have "apart (a, l) (a, m)" using heap_owned_apart [OF assms] by simp
  moreover have "0 < l" "0 < m" using heap_owned_nonempty [OF assms(1)] assms(2,3) by fastforce+
  ultimately show False by (simp add: apart_def)
qed

lemma free_other:
  assumes inv: "heap_inv h" and o: "0 < heap_owners h (unat p, l)"
  obtains h' where "free p h = Some h'" "heap_inv h'"
    "\<And>r. 0 < heap_owners h r \<Longrightarrow> r \<noteq> (unat p, l) \<Longrightarrow> heap_owners h' r = heap_owners h r"
proof -
  from free_owners [OF inv, of p] obtain h' where h': "free p h = Some h'" "heap_inv h'"
    "\<And>r. heap_owners h' r = (if fst r = unat p then heap_owners h r - 1 else heap_owners h r)" by blast
  have "heap_owners h' r = heap_owners h r" if "0 < heap_owners h r" "r \<noteq> (unat p, l)" for r
    using owned_start_unique [OF inv o, of "snd r"] that h'(3) [of r] by (cases r) auto
  with h' show thesis using that by blast
qed

text \<open>Every queued node is a live chunk, the queue is sorted, and no node is queued twice.\<close>

definition task_inv :: "'a kernel_scheme \<Rightarrow> bool" where
  "task_inv k \<longleftrightarrow> heap_inv (k_heap k) \<and> sorted (map (\<lambda>t. - priority t) (task_queue k)) \<and>
     distinct (map tn_addr (task_queue k)) \<and>
     (\<forall>t \<in> set (task_queue k). 0 < heap_owners (k_heap k) (unat (tn_addr t), 32))"

lemma add_task_cases:
  assumes inv: "task_inv k"
  obtains (dropped) h where "add_task cb a prio k = Some (k\<lparr>k_heap := h\<rparr>)" "heap_inv h"
      "heap_owners h = heap_owners (k_heap k)"
    | (queued) p h where "p \<noteq> 0" "heap_inv h" "heap_owners h = (heap_owners (k_heap k))((unat p, 32) := 1)"
      "heap_owners (k_heap k) (unat p, 32) = 0"
      "add_task cb a prio k = Some (k\<lparr>k_heap := h, task_queue := insert_task
         \<lparr>tn_addr = p, callback = cb, arg = a, priority = prio\<rparr> (task_queue k)\<rparr>)"
proof -
  have hi: "heap_inv (k_heap k)" using inv by (simp add: task_inv_def)
  then show ?thesis
  proof (cases rule: allocate_cases [where len = SIZEOF_TASK_NODE])
    case (null h')
    then show ?thesis by (intro dropped [of h']) (auto simp: add_task_def)
  next
    case (given p h' l)
    note N = task_node_alloc [OF hi given(1,2)]
    show ?thesis using given(1,2) by (intro queued [OF given(2) N]) (auto simp: add_task_def)
  qed
qed

lemma add_task_inv:
  assumes inv: "task_inv k"
  shows "\<exists>k'. add_task cb a prio k = Some k' \<and> task_inv k' \<and>
    (\<forall>r. 0 < heap_owners (k_heap k) r \<longrightarrow> heap_owners (k_heap k') r = heap_owners (k_heap k) r)"
  using inv
proof (cases rule: add_task_cases [where cb = cb and a = a and prio = prio])
  case (dropped h)
  then show ?thesis using inv by (auto simp: task_inv_def)
next
  case (queued p h)
  let ?n = "\<lparr>tn_addr = p, callback = cb, arg = a, priority = prio\<rparr>"
  have s: "sorted (map (\<lambda>t. - priority t) (task_queue k))" using inv by (simp add: task_inv_def)
  have fresh: "p \<notin> tn_addr ` set (task_queue k)" using inv queued(4) by (auto simp: task_inv_def)
  have ms: "mset (map tn_addr (insert_task ?n (task_queue k))) = add_mset p (mset (map tn_addr (task_queue k)))"
    using tasks.ins_mset [OF s, of ?n] by simp
  have "distinct (map tn_addr (insert_task ?n (task_queue k)))"
  proof -
    have "distinct (p # map tn_addr (task_queue k))" using inv fresh by (simp add: task_inv_def)
    with ms show ?thesis by (metis mset.simps(2) mset_eq_imp_distinct_iff)
  qed
  moreover have "0 < heap_owners h (unat (tn_addr t), 32)" if "t \<in> set (insert_task ?n (task_queue k))" for t
    using that tasks.ins_set [OF s, of ?n] inv queued(3) by (auto simp: task_inv_def)
  ultimately show ?thesis
    using queued tasks.ins_sorted [OF s, of ?n] by (auto simp: task_inv_def)
qed


definition kernel4 :: kernel where
  "kernel4 = \<lparr>k_heap = heap4, task_queue = [], cur_priority = -1\<rparr>"

lemma kernel4_inv: "task_inv kernel4"
  using heap4_inv by (simp add: task_inv_def kernel4_def)


text \<open>C12. Whatever order tasks are added in, the queue is their stable sort by descending priority:
  the task run first has the highest priority, and among those it was added first.\<close>

theorem task_queue_order:
  "fold insert_task ts [] = sort_key (\<lambda>t. - priority t) ts"
  by (rule tasks.fold_ins_sort)

section \<open>Running the tasks\<close>

text \<open>
  A callback that leaves the queue and the priority alone and keeps the invariant. The rest of the
  state, here a log, records which callbacks ran.
\<close>

definition logs_call :: "(u64 \<Rightarrow> u64 \<Rightarrow> (u64 \<times> u64) list kernel_scheme \<Rightarrow> (u64 \<times> u64) list kernel_scheme option) \<Rightarrow> bool" where
  "logs_call call \<longleftrightarrow> (\<forall>cb a k. task_inv k \<longrightarrow> (\<exists>k'. call cb a k = Some k' \<and> task_inv k' \<and>
     task_queue k' = task_queue k \<and> cur_priority k' = cur_priority k \<and> kernel.more k' = kernel.more k @ [(cb, a)]))"

lemma unat_eq_imp: "unat (a :: u64) = unat b \<Longrightarrow> a = b"
  by (simp add: word_unat_eq_iff)

lemma sorted_split_filter:
  "sorted (map (\<lambda>t. - priority t) q) \<Longrightarrow> takeWhile (\<lambda>t. c < priority t) q = filter (\<lambda>t. c < priority t) q \<and>
     dropWhile (\<lambda>t. c < priority t) q = filter (\<lambda>t. priority t \<le> c) q"
  by (induction q) (fastforce simp: filter_empty_conv filter_id_conv eq_commute [of q "filter P q" for q P]
      eq_commute [of "[]" "filter P q" for q P])+

lemma task_inv_pop:
  assumes "task_inv k" "task_queue k = t # q"
  shows "task_inv (k\<lparr>task_queue := q, cur_priority := p\<rparr>)"
  using assms by (auto simp: task_inv_def)

text \<open>Freeing a node that is no longer queued keeps the invariant.\<close>

lemma task_inv_free:
  assumes inv: "task_inv k" and out: "p \<notin> tn_addr ` set (task_queue k)"
  shows "\<exists>h. free p (k_heap k) = Some h \<and> task_inv (k\<lparr>cur_priority := c, k_heap := h\<rparr>)"
proof -
  from inv have "heap_inv (k_heap k)" by (simp add: task_inv_def)
  from free_owners [OF this, of p] obtain h where "free p (k_heap k) = Some h" "heap_inv h"
    "\<And>r. heap_owners h r = (if fst r = unat p then heap_owners (k_heap k) r - 1 else heap_owners (k_heap k) r)"
    by blast
  with inv out show ?thesis by (auto simp: task_inv_def image_iff dest: unat_eq_imp)
qed

lemma run_tasks_drains:
  assumes call: "logs_call call" and inv: "task_inv k" and q: "task_queue k = q"
  shows "\<exists>k'. run_tasks call k = Some k' \<and> task_inv k' \<and> cur_priority k' = cur_priority k \<and>
    task_queue k' = dropWhile (\<lambda>t. cur_priority k < priority t) q \<and>
    kernel.more k' = kernel.more k @ map (\<lambda>t. (callback t, arg t)) (takeWhile (\<lambda>t. cur_priority k < priority t) q)"
  using inv q
proof (induction q arbitrary: k)
  case Nil
  then show ?case by (simp add: run_tasks.simps)
next
  case (Cons t q)
  show ?case
  proof (cases "cur_priority k < priority t")
    case False
    with Cons.prems show ?thesis by (simp add: run_tasks.simps)
  next
    case True
    let ?k = "k\<lparr>task_queue := q, cur_priority := priority t\<rparr>"
    have "task_inv ?k" using Cons.prems by (rule task_inv_pop)
    with call obtain k1 where k1: "call (callback t) (arg t) ?k = Some k1" "task_inv k1" "task_queue k1 = q"
      "kernel.more k1 = kernel.more k @ [(callback t, arg t)]"
      unfolding logs_call_def by fastforce
    have "tn_addr t \<notin> tn_addr ` set (task_queue k1)" using Cons.prems k1(3) by (auto simp: task_inv_def)
    from task_inv_free [OF k1(2) this, of "cur_priority k"] obtain h where
      h: "free (tn_addr t) (k_heap k1) = Some h" "task_inv (k1\<lparr>cur_priority := cur_priority k, k_heap := h\<rparr>)"
      by blast
    have "run_tasks call k = run_tasks call (k1\<lparr>cur_priority := cur_priority k, k_heap := h\<rparr>)"
      using True Cons.prems(2) k1(1) h(1) by (subst run_tasks.simps) simp
    with Cons.IH [OF h(2)] k1(3,4) True show ?thesis by simp
  qed
qed

text \<open>C14. When the callbacks return and add no tasks, \<open>run_tasks\<close> returns after running exactly the
  tasks above the current priority, each once and in queue order. The others stay queued, and the
  priority of the interrupted work is restored.\<close>

theorem run_tasks_complete:
  assumes "logs_call call" "task_inv k"
  shows "\<exists>k'. run_tasks call k = Some k' \<and> task_inv k' \<and> cur_priority k' = cur_priority k \<and>
    task_queue k' = filter (\<lambda>t. priority t \<le> cur_priority k) (task_queue k) \<and>
    kernel.more k' = kernel.more k @
      map (\<lambda>t. (callback t, arg t)) (filter (\<lambda>t. cur_priority k < priority t) (task_queue k))"
proof -
  have "sorted (map (\<lambda>t. - priority t) (task_queue k))" using assms(2) by (simp add: task_inv_def)
  note sorted_split_filter [OF this, of "cur_priority k"]
  with run_tasks_drains [OF assms refl] show ?thesis by simp
qed

definition log_call :: "u64 \<Rightarrow> u64 \<Rightarrow> (u64 \<times> u64) list kernel_scheme \<Rightarrow> (u64 \<times> u64) list kernel_scheme option" where
  "log_call cb a k = Some (k\<lparr>kernel.more := kernel.more k @ [(cb, a)]\<rparr>)"

lemma log_call_logs: "logs_call log_call"
  by (auto simp: logs_call_def log_call_def task_inv_def)

definition kernel_log :: "(u64 \<times> u64) list kernel_scheme" where
  "kernel_log = kernel.extend kernel4 []"

theorem run_tasks_complete_witness:
  "\<exists>k k'. add_task 7 8 10 kernel_log = Some k \<and> run_tasks log_call k = Some k' \<and>
     kernel.more k' = map (\<lambda>t. (callback t, arg t)) (task_queue k) \<and> task_queue k' = []"
proof -
  have i: "task_inv kernel_log" "task_queue kernel_log = []" "cur_priority kernel_log = -1" "kernel.more kernel_log = []"
    using heap4_inv by (simp_all add: kernel_log_def kernel4_def task_inv_def kernel.defs)
  have "\<exists>k. add_task 7 8 10 kernel_log = Some k \<and> task_inv k \<and> cur_priority k = -1 \<and> kernel.more k = [] \<and>
      (\<forall>t \<in> set (task_queue k). -1 < priority t)"
    using add_task_inv [OF i(1), of 7 8 10] i(1)
    by (cases rule: add_task_cases [OF i(1), where cb = 7 and a = 8 and prio = 10]) (auto simp: i insert_task_def)
  then obtain k where k: "add_task 7 8 10 kernel_log = Some k" "task_inv k" "cur_priority k = -1" "kernel.more k = []"
    "\<forall>t \<in> set (task_queue k). -1 < priority t" by blast
  from k(5) have "filter (\<lambda>t. -1 < priority t) (task_queue k) = task_queue k" "filter (\<lambda>t. priority t \<le> -1) (task_queue k) = []"
    by (auto simp: filter_id_conv filter_empty_conv)
  with run_tasks_complete [OF log_call_logs k(2)] k show ?thesis by auto
qed

end
