(* ===== verification/CString.thy ===== *)
theory CString
  imports Prelude
begin

text \<open>
  \<open>src/lib/string.c\<close> over byte-addressed memory. A pointer is its address as a natural number;
  \<open>char\<close> is unsigned on RISC-V. Loops that run to a terminator are partial functions, loops that
  count down are structural. \<open>cstr m p xs\<close> says that a C string with the bytes \<open>xs\<close> lies at \<open>p\<close>.
\<close>

type_synonym mem = "nat \<Rightarrow> u8"

section \<open>The functions\<close>

partial_function (option) strcmp :: "mem \<Rightarrow> nat \<Rightarrow> nat \<Rightarrow> int option" where
  "strcmp m s1 s2 =
     (if m s1 \<noteq> 0 \<and> m s1 = m s2 then strcmp m (s1 + 1) (s2 + 1)
      else Some (uint (m s1) - uint (m s2)))"

partial_function (option) strlen_loop :: "mem \<Rightarrow> nat \<Rightarrow> nat \<Rightarrow> nat option" where
  "strlen_loop m s len = (if m (s + len) \<noteq> 0 then strlen_loop m s (len + 1) else Some len)"

definition strlen :: "mem \<Rightarrow> nat \<Rightarrow> nat option" where
  "strlen m s = strlen_loop m s 0"

fun strncmp :: "mem \<Rightarrow> nat \<Rightarrow> nat \<Rightarrow> nat \<Rightarrow> int" where
  "strncmp m s1 s2 0 = 0"
| "strncmp m s1 s2 (Suc n) =
     (if m s1 \<noteq> 0 \<and> m s1 = m s2 then strncmp m (s1 + 1) (s2 + 1) n
      else uint (m s1) - uint (m s2))"

partial_function (option) strcpy :: "nat \<Rightarrow> nat \<Rightarrow> mem \<Rightarrow> mem option" where
  "strcpy d s m =
     (let m' = m(d := m s) in if m' d \<noteq> 0 then strcpy (d + 1) (s + 1) m' else Some m')"

text \<open>
  \<open>strncpy\<close>: the copying loop hands over the position and the count it stops with; the padding
  loop writes that many zeros. The byte that ends the copying loop is stored, but the count is
  not decremented for it.
\<close>

fun strncpy_copy :: "nat \<Rightarrow> nat \<Rightarrow> nat \<Rightarrow> mem \<Rightarrow> nat \<times> nat \<times> mem" where
  "strncpy_copy d s 0 m = (d, 0, m)"
| "strncpy_copy d s (Suc n) m =
     (let m' = m(d := m s) in
      if m' d \<noteq> 0 then strncpy_copy (d + 1) (s + 1) n m' else (d + 1, Suc n, m'))"

fun memset :: "nat \<Rightarrow> u8 \<Rightarrow> nat \<Rightarrow> mem \<Rightarrow> mem" where
  "memset p c 0 m = m"
| "memset p c (Suc n) m = memset (p + 1) c n (m(p := c))"

definition strncpy :: "nat \<Rightarrow> nat \<Rightarrow> nat \<Rightarrow> mem \<Rightarrow> mem" where
  "strncpy dest s n m = (let (d, n, m) = strncpy_copy dest s n m in memset d 0 n m)"

fun memcpy :: "nat \<Rightarrow> nat \<Rightarrow> nat \<Rightarrow> mem \<Rightarrow> mem" where
  "memcpy d s 0 m = m"
| "memcpy d s (Suc n) m = memcpy (d + 1) (s + 1) n (m(d := m s))"

text \<open>
  \<open>strtok_r\<close>. The inner loop over the delimiters, the two scans, and the whole function; null
  pointers are \<open>None\<close>. The outer option is for scans that do not end.
\<close>

partial_function (option) is_delim :: "mem \<Rightarrow> nat \<Rightarrow> u8 \<Rightarrow> bool option" where
  "is_delim m d c =
     (if m d \<noteq> 0 \<and> m d \<noteq> c then is_delim m (d + 1) c else Some (m d \<noteq> 0))"

partial_function (option) scan_while :: "bool \<Rightarrow> mem \<Rightarrow> nat \<Rightarrow> nat \<Rightarrow> nat option" where
  "scan_while b m delim str =
     (if m str = 0 then Some str
      else case is_delim m delim (m str) of
          None \<Rightarrow> None
        | Some d \<Rightarrow> if d = b then scan_while b m delim (str + 1) else Some str)"

definition strtok_r :: "nat option \<Rightarrow> nat \<Rightarrow> nat option \<Rightarrow> mem \<Rightarrow> (nat option \<times> nat option \<times> mem) option" where
  "strtok_r str delim saveptr m =
     (case (case str of None \<Rightarrow> saveptr | Some s \<Rightarrow> Some s) of
        None \<Rightarrow> Some (None, None, m)
      | Some s \<Rightarrow>
          if m s = 0 then Some (None, None, m)
          else case scan_while True m delim s of
              None \<Rightarrow> None
            | Some t \<Rightarrow>
                if m t = 0 then Some (None, None, m)
                else case scan_while False m delim t of
                    None \<Rightarrow> None
                  | Some e \<Rightarrow>
                      if m e \<noteq> 0 then Some (Some t, Some (e + 1), m(e := 0))
                      else Some (Some t, None, m))"

text \<open>\<open>strtok\<close> keeps the pointer in the static variable \<open>__strtok_saveptr\<close>, here the first part of the state.\<close>

definition strtok :: "nat option \<Rightarrow> nat \<Rightarrow> nat option \<times> mem \<Rightarrow> (nat option \<times> nat option \<times> mem) option" where
  "strtok str delim = (\<lambda>(strtok_saveptr, m). strtok_r str delim strtok_saveptr m)"

section \<open>Strings in memory\<close>

fun cstr :: "mem \<Rightarrow> nat \<Rightarrow> u8 list \<Rightarrow> bool" where
  "cstr m p [] = (m p = 0)"
| "cstr m p (x # xs) = (x \<noteq> 0 \<and> m p = x \<and> cstr m (p + 1) xs)"

lemma cstr_nth: "cstr m p xs \<Longrightarrow> i < length xs \<Longrightarrow> m (p + i) = xs ! i \<and> xs ! i \<noteq> 0"
proof (induction xs arbitrary: p i)
  case (Cons x xs)
  show ?case
  proof (cases i)
    case (Suc j)
    with Cons.IH [of "p + 1" j] Cons.prems show ?thesis by simp
  qed (use Cons.prems in simp)
qed simp

lemma cstr_end: "cstr m p xs \<Longrightarrow> m (p + length xs) = 0"
  by (induction xs arbitrary: p) (force simp: add.assoc)+

lemma cstr_cong:
  "cstr m p xs \<Longrightarrow> (\<And>i. i \<le> length xs \<Longrightarrow> m' (p + i) = m (p + i)) \<Longrightarrow> cstr m' p xs"
proof (induction xs arbitrary: p)
  case (Cons x xs)
  have "m' (p + 1 + i) = m (p + 1 + i)" if "i \<le> length xs" for i
    using Cons.prems(2) [of "Suc i"] that by simp
  with Cons.IH [of "p + 1"] Cons.prems(1) Cons.prems(2) [of 0] show ?case by simp
qed simp

lemma strlen_cstr: "cstr m p xs \<Longrightarrow> strlen m p = Some (length xs)"
proof -
  assume c: "cstr m p xs"
  have "strlen_loop m p k = Some (length xs)" if "k \<le> length xs" for k
    using that
  proof (induction "length xs - k" arbitrary: k)
    case 0
    then have "k = length xs" by simp
    then show ?case using cstr_end [OF c] by (simp add: strlen_loop.simps)
  next
    case (Suc n)
    then have "k < length xs" by simp
    then have "m (p + k) \<noteq> 0" using cstr_nth [OF c] by simp
    then have "strlen_loop m p k = strlen_loop m p (k + 1)" by (subst strlen_loop.simps) simp
    with Suc show ?case by simp
  qed
  then show ?thesis by (simp add: strlen_def)
qed

text \<open>The order \<open>strcmp\<close> computes: by unsigned bytes, a proper prefix first.\<close>

fun byte_diff :: "u8 list \<Rightarrow> u8 list \<Rightarrow> int" where
  "byte_diff [] [] = 0"
| "byte_diff [] (y # ys) = - uint y"
| "byte_diff (x # xs) [] = uint x"
| "byte_diff (x # xs) (y # ys) = (if x = y then byte_diff xs ys else uint x - uint y)"

lemma strcmp_diff: "cstr m a xs \<Longrightarrow> cstr m b ys \<Longrightarrow> strcmp m a b = Some (byte_diff xs ys)"
proof (induction xs ys arbitrary: a b rule: byte_diff.induct)
  case (4 x xs y ys)
  then show ?case by (subst strcmp.simps) auto
qed (subst strcmp.simps, auto)+

lemma byte_diff_zero:
  "0 \<notin> set xs \<Longrightarrow> 0 \<notin> set ys \<Longrightarrow> byte_diff xs ys = 0 \<longleftrightarrow> xs = ys"
  by (induction xs ys rule: byte_diff.induct) (auto simp: word_uint_eq_iff)

lemma cstr_nonzero: "cstr m p xs \<Longrightarrow> 0 \<notin> set xs"
  by (induction xs arbitrary: p) auto

lemma strcmp_eq: "cstr m a xs \<Longrightarrow> cstr m b ys \<Longrightarrow> \<exists>r. strcmp m a b = Some r \<and> (r = 0 \<longleftrightarrow> xs = ys)"
  using strcmp_diff byte_diff_zero cstr_nonzero by blast

text \<open>\<open>strcmp\<close> ends on any two C strings, returns 0 exactly when they are equal, and orders
  different strings by their first differing unsigned byte (a proper prefix is smaller).\<close>

theorem strcmp_correct:
  assumes "cstr m a xs" "cstr m b ys"
  shows "\<exists>r. strcmp m a b = Some r \<and> (r = 0 \<longleftrightarrow> xs = ys) \<and>
    (\<forall>zs x xs' y ys'. xs = zs @ x # xs' \<and> ys = zs @ y # ys' \<and> x \<noteq> y \<longrightarrow> (r < 0 \<longleftrightarrow> x < y)) \<and>
    (\<forall>y ys'. ys = xs @ y # ys' \<longrightarrow> r < 0)"
proof -
  have "byte_diff (zs @ x # xs') (zs @ y # ys') = uint x - uint y" if "x \<noteq> y" for zs x xs' y ys'
    using that by (induction zs) auto
  moreover have "byte_diff xs (xs @ y # ys') = - uint y" for y ys' by (induction xs) auto
  moreover have "y \<noteq> 0" if "ys = xs @ y # ys'" for y ys' using cstr_nonzero [OF assms(2)] that by auto
  moreover have "strcmp m a b = Some (byte_diff xs ys)" using assms by (rule strcmp_diff)
  moreover have "byte_diff xs ys = 0 \<longleftrightarrow> xs = ys" using byte_diff_zero cstr_nonzero assms by blast
  ultimately show ?thesis by (auto simp: word_less_def word_uint_eq_iff) (metis less_le uint_ge_0 unsigned_0)
qed

theorem strcmp_correct_witness:
  "\<exists>r. strcmp ((\<lambda>_. 0)(10 := 97, 11 := 98, 20 := 97, 21 := 99)) 10 20 = Some r \<and> r \<noteq> 0"
  using strcmp_correct [of "(\<lambda>_. 0)(10 := 97, 11 := 98, 20 := 97, 21 := 99)" 10 "[97, 98]" 20 "[97, 99]"] by auto

section \<open>Block operations\<close>

lemma memset_eq: "memset p c n m = (\<lambda>a. if p \<le> a \<and> a < p + n then c else m a)"
  by (induction n arbitrary: p m) (auto simp: fun_eq_iff)

text \<open>\<open>memcpy\<close> copies exactly \<open>n\<close> bytes between blocks that do not overlap.\<close>

theorem memcpy_correct:
  assumes "s + n \<le> d \<or> d + n \<le> s"
  shows "memcpy d s n m = (\<lambda>a. if d \<le> a \<and> a < d + n then m (s + (a - d)) else m a)"
  using assms
proof (induction n arbitrary: d s m)
  case (Suc n)
  have IH: "memcpy (d + 1) (s + 1) n (m(d := m s)) a =
      (if d + 1 \<le> a \<and> a < d + 1 + n then (m(d := m s)) (s + 1 + (a - (d + 1))) else (m(d := m s)) a)" for a
    using Suc.IH [of "s + 1" "d + 1"] Suc.prems by (auto simp: fun_eq_iff)
  have "memcpy d s (Suc n) m a = (if d \<le> a \<and> a < d + Suc n then m (s + (a - d)) else m a)" for a
  proof (cases "d < a \<and> a < d + Suc n")
    case True
    then have "s + 1 + (a - (d + 1)) = s + (a - d)" "s + (a - d) \<noteq> d" using Suc.prems by linarith+
    with True IH [of a] show ?thesis by simp
  next
    case False
    then show ?thesis using IH [of a] by (cases "a = d") auto
  qed
  then show ?case by blast
qed (auto simp: fun_eq_iff)

theorem memcpy_correct_witness: "memcpy 8 0 3 (\<lambda>a. of_nat a) 9 = 1"
  using memcpy_correct [of 0 3 8 "\<lambda>a. of_nat a"] by simp

lemma strncpy_copy_short:
  assumes "cstr m s xs" "length xs < n" "s + length xs < d \<or> d + n < s"
  shows "strncpy_copy d s n m = (d + length xs + 1, n - length xs,
    \<lambda>a. if d \<le> a \<and> a < d + length xs then xs ! (a - d) else if a = d + length xs then 0 else m a)"
  using assms
proof (induction xs arbitrary: d s n m)
  case Nil
  then show ?case by (cases n) (auto simp: fun_eq_iff)
next
  case (Cons x xs)
  then obtain k where n: "n = Suc k" by (cases n) auto
  have x: "m s = x" "x \<noteq> 0" "cstr m (s + 1) xs" using Cons.prems(1) by auto
  have c: "cstr (m(d := x)) (s + 1) xs"
    using Cons.prems(3) by (intro cstr_cong [OF x(3)]) auto
  have "length xs < k" "s + 1 + length xs < d + 1 \<or> d + 1 + k < s + 1" using Cons.prems(2,3) n by auto
  from Cons.IH [OF c this] have
    "strncpy_copy (d + 1) (s + 1) k (m(d := x)) = (d + 1 + length xs + 1, k - length xs,
      \<lambda>a. if d + 1 \<le> a \<and> a < d + 1 + length xs then xs ! (a - (d + 1)) else if a = d + 1 + length xs then 0 else (m(d := x)) a)" .
  then show ?case using x n by (auto simp: fun_eq_iff nth_Cons' Let_def)
qed

text \<open>With a source shorter than \<open>n\<close>, \<open>strncpy\<close> writes \<open>n + 1\<close> bytes, not \<open>n\<close>: the terminator it
  copies is not counted, so the padding runs one byte past the destination, to \<open>dest + n\<close>.\<close>

theorem strncpy_overrun:
  assumes "cstr m s xs" "length xs < n" "s + length xs < d \<or> d + n < s"
  shows "strncpy d s n m =
    (\<lambda>a. if d \<le> a \<and> a < d + length xs then xs ! (a - d)
         else if d + length xs \<le> a \<and> a \<le> d + n then 0 else m a)"
  using strncpy_copy_short [OF assms] assms(2) by (auto simp: strncpy_def memset_eq fun_eq_iff)

theorem strncpy_overrun_witness: "strncpy 0 100 4 ((\<lambda>_. 7)(100 := 97, 101 := 0)) 4 = 0"
  using strncpy_overrun [of "(\<lambda>_. 7)(100 := 97, 101 := 0)" 100 "[97]" 4 0] by simp

section \<open>Tokens\<close>

lemma is_delim_cstr: "cstr m d ds \<Longrightarrow> c \<noteq> 0 \<Longrightarrow> is_delim m d c = Some (c \<in> set ds)"
proof (induction ds arbitrary: d)
  case Nil
  then show ?case by (subst is_delim.simps) simp
next
  case (Cons x ds)
  then show ?case by (subst is_delim.simps) auto
qed

lemma scan_while_cstr:
  assumes "cstr m delim ds" "cstr m s xs"
  shows "scan_while b m delim s = Some (s + length (takeWhile (\<lambda>c. (c \<in> set ds) = b) xs))"
  using assms(2)
proof (induction xs arbitrary: s)
  case Nil
  then show ?case by (subst scan_while.simps) simp
next
  case (Cons x xs)
  then have "is_delim m delim (m s) = Some (x \<in> set ds)" using is_delim_cstr [OF assms(1)] by simp
  with Cons show ?case by (subst scan_while.simps) auto
qed

lemma cstr_drop: "cstr m s xs \<Longrightarrow> k \<le> length xs \<Longrightarrow> cstr m (s + k) (drop k xs)"
proof (induction xs arbitrary: s k)
  case (Cons x xs)
  show ?case
  proof (cases k)
    case (Suc j)
    with Cons.IH [of "s + 1" j] Cons.prems show ?thesis by simp
  qed (use Cons.prems in simp)
qed simp

lemma cstr_cut:
  assumes "cstr m s xs" "k < length xs"
  shows "cstr (m(s + k := 0)) s (take k xs)"
  using assms
proof (induction xs arbitrary: s k)
  case (Cons x xs)
  show ?case
  proof (cases k)
    case (Suc j)
    with Cons.IH [of "s + 1" j] Cons.prems show ?thesis by simp
  qed simp
qed simp

text \<open>
  One step of \<open>strtok_r\<close> on a string: it skips leading delimiters, returns the start of the
  longest delimiter-free token and cuts the string behind it; the saved pointer is the rest
  after the cut, or null at the end of the string. Without a token it returns null.
\<close>

theorem strtok_r_step:
  assumes d: "cstr m delim ds" and s: "cstr m s xs"
    and tok: "rest = dropWhile (\<lambda>c. c \<in> set ds) xs" "tk = takeWhile (\<lambda>c. c \<notin> set ds) rest"
    and t: "t = s + length (takeWhile (\<lambda>c. c \<in> set ds) xs)"
  shows "strtok_r (Some s) delim sv m =
    (if rest = [] then Some (None, None, m)
     else if tk = rest then Some (Some t, None, m)
     else Some (Some t, Some (t + length tk + 1), m(t + length tk := 0))) \<and>
    (rest \<noteq> [] \<and> tk \<noteq> rest \<longrightarrow> cstr (m(t + length tk := 0)) t tk)"
proof -
  have s1: "scan_while True m delim s = Some t" using scan_while_cstr [OF d s, of True] by (simp add: t)
  have "rest = drop (length (takeWhile (\<lambda>c. c \<in> set ds) xs)) xs" unfolding tok by (rule dropWhile_eq_drop)
  then have ct: "cstr m t rest" using cstr_drop [OF s] by (simp add: t length_takeWhile_le)
  have s2: "scan_while False m delim t = Some (t + length tk)"
    using scan_while_cstr [OF d ct, of False] by (simp add: tok(2))
  have mt: "m t = 0 \<longleftrightarrow> rest = []" using ct by (cases rest) auto
  have ms: "m s = 0 \<longleftrightarrow> xs = []" using s by (cases xs) auto
  have le: "length tk \<le> length rest" unfolding tok(2) by (rule length_takeWhile_le)
  have tk: "tk = take (length tk) rest" unfolding tok(2) by (simp add: takeWhile_eq_take [symmetric])
  have full: "tk = rest \<longleftrightarrow> length tk = length rest" using tk le by (metis take_all order_refl)
  have me: "m (t + length tk) = 0 \<longleftrightarrow> tk = rest"
    using cstr_end [OF ct] cstr_nth [OF ct, of "length tk"] le full by (cases "length tk = length rest") auto
  have xs: "xs = [] \<Longrightarrow> rest = []" by (simp add: tok(1))
  have "cstr (m(t + length tk := 0)) t tk" if "tk \<noteq> rest"
    using cstr_cut [OF ct, of "length tk"] le full that tk by simp
  then show ?thesis using s1 s2 mt ms me xs by (auto simp: strtok_r_def)
qed

theorem strtok_r_step_witness:
  "strtok_r (Some 10) 20 None ((\<lambda>_. 0)(10 := 97, 11 := 32, 12 := 98, 20 := 32)) =
     Some (Some 10, Some 12, (\<lambda>_. 0)(10 := 97, 11 := 0, 12 := 98, 20 := 32))"
proof -
  let ?m = "(\<lambda>_. 0)(10 := 97, 11 := 32, 12 := 98, 20 := 32) :: mem"
  have "cstr ?m 20 [32]" "cstr ?m 10 [97, 32, 98]" by simp_all
  from strtok_r_step [OF this refl refl refl, of None] show ?thesis by (simp add: fun_upd_twist)
qed

end
