(* ===== verification/Vma.thy ===== *)
theory Vma
  imports Task
begin

text \<open>
  The virtual memory areas of a process, from \<open>src/src/syscall.c\<close>. The areas hang on a singly linked
  list sorted by start address, modelled as the list of areas with the addresses of their nodes.
  Addresses are 64-bit words and wrap the way the code's do. Writing through the null pointer that
  \<open>allocate\<close> returns when memory is short is an error result.
\<close>

section \<open>Data and operations\<close>

record vm_area =
  vm_addr :: u64
  vm_start :: u64
  vm_end :: u64
  vm_prot :: u64
  vm_flags :: u64
  vm_file_data :: u64
  vm_file_size :: u64

datatype kernel_fault = Null_deref | Buffer_overrun

definition SIZEOF_VM_AREA :: u64 where
  "SIZEOF_VM_AREA = 56"

fun is_vma_overlap :: "vm_area list \<Rightarrow> u64 \<Rightarrow> u64 \<Rightarrow> bool" where
  "is_vma_overlap [] start end = False"
| "is_vma_overlap (cur # rest) start end =
     (if \<not> (end \<le> vm_start cur \<or> start \<ge> vm_end cur) then True else is_vma_overlap rest start end)"

text \<open>The \<open>while\<close> loop of \<open>add_vma\<close> from \<open>curr\<close>, and the insertion.\<close>

fun vma_walk :: "vm_area \<Rightarrow> vm_area list \<Rightarrow> vm_area list" where
  "vma_walk n [] = [n]"
| "vma_walk n [cur] = [cur, n]"
| "vma_walk n (cur # nxt # rest) =
     (if vm_start nxt < vm_start n then cur # vma_walk n (nxt # rest) else cur # n # nxt # rest)"

definition insert_vma :: "vm_area \<Rightarrow> vm_area list \<Rightarrow> vm_area list" where
  "insert_vma n vs =
     (case vs of
        [] \<Rightarrow> [n]
      | head # rest \<Rightarrow> if vm_start n < vm_start head then n # vs else vma_walk n vs)"

definition add_vma ::
  "u64 \<Rightarrow> u64 \<Rightarrow> u64 \<Rightarrow> u64 \<Rightarrow> heap \<times> vm_area list \<Rightarrow> (kernel_fault + u64 \<times> heap \<times> vm_area list) option" where
  "add_vma start len prot flags = (\<lambda>(h, vs).
     case allocate SIZEOF_VM_AREA h of
       None \<Rightarrow> None
     | Some (p, h) \<Rightarrow>
         Some (if p = 0 then Inl Null_deref
               else Inr (p, h, insert_vma \<lparr>vm_addr = p, vm_start = start, vm_end = start + len, vm_prot = prot,
                      vm_flags = flags, vm_file_data = 0, vm_file_size = 0\<rparr> vs)))"

fun remove_vma :: "u64 \<Rightarrow> heap \<times> vm_area list \<Rightarrow> (heap \<times> vm_area list) option" where
  "remove_vma start (h, []) = Some (h, [])"
| "remove_vma start (h, cur # rest) =
     (if vm_start cur = start then map_option (\<lambda>h. (h, rest)) (free (vm_addr cur) h)
      else map_option (\<lambda>(h, rest). (h, cur # rest)) (remove_vma start (h, rest)))"

text \<open>The search loop of \<open>find_free_vma_region\<close>: the end of the first area in the way, if any.\<close>

fun first_clash :: "vm_area list \<Rightarrow> u64 \<Rightarrow> u64 \<Rightarrow> u64 option" where
  "first_clash [] addr len = None"
| "first_clash (cur # rest) addr len =
     (if \<not> (addr + len \<le> vm_start cur \<or> addr \<ge> vm_end cur) then Some (vm_end cur) else first_clash rest addr len)"

partial_function (option) find_free_from :: "vm_area list \<Rightarrow> u64 \<Rightarrow> u64 \<Rightarrow> u64 option" where
  "find_free_from vs len addr =
     (case first_clash vs addr len of
        None \<Rightarrow> Some addr
      | Some addr \<Rightarrow> find_free_from vs len addr)"

definition find_free_vma_region :: "vm_area list \<Rightarrow> u64 \<Rightarrow> u64 option" where
  "find_free_vma_region vs len = find_free_from vs len 0x10000000"

fun copy_vma_list :: "vm_area list \<Rightarrow> heap \<Rightarrow> (vm_area list \<times> heap) option" where
  "copy_vma_list [] h = Some ([], h)"
| "copy_vma_list (v # vs) h =
     (case allocate SIZEOF_VM_AREA h of
        None \<Rightarrow> None
      | Some (p, h) \<Rightarrow>
          if p = 0 then Some ([], h)
          else map_option (\<lambda>(ws, h). (v\<lparr>vm_addr := p\<rparr> # ws, h)) (copy_vma_list vs h))"

section \<open>Overlap and the search for a free region\<close>

text \<open>The byte ranges of the areas as naturals; a well-formed list is sorted, disjoint and non-empty.\<close>

definition meets :: "vm_area \<Rightarrow> nat \<Rightarrow> nat \<Rightarrow> bool" where
  "meets v a b \<longleftrightarrow> unat (vm_start v) < b \<and> a < unat (vm_end v)"

fun vmas_ok :: "vm_area list \<Rightarrow> bool" where
  "vmas_ok [] = True"
| "vmas_ok (v # vs) \<longleftrightarrow> vm_start v < vm_end v \<and> (\<forall>w \<in> set vs. vm_end v \<le> vm_start w) \<and> vmas_ok vs"

lemma is_vma_overlap_iff: "is_vma_overlap vs s e \<longleftrightarrow> (\<exists>v \<in> set vs. meets v (unat s) (unat e))"
  by (induction vs) (auto simp: meets_def word_le_nat_alt not_le)

lemma first_clash_None:
  assumes "unat a + unat len < 2 ^ 64"
  shows "first_clash vs a len = None \<longleftrightarrow> (\<forall>v \<in> set vs. \<not> meets v (unat a) (unat a + unat len))"
proof -
  have "unat (a + len) = unat a + unat len" using assms by (simp add: unat_simps)
  then show ?thesis by (induction vs) (auto simp: meets_def word_le_nat_alt not_le)
qed

text \<open>A clash moves the candidate strictly up, to the end of an area in the way.\<close>

lemma first_clash_Some:
  assumes "first_clash vs a len = Some b"
  shows "a < b" "\<exists>v \<in> set vs. vm_end v = b \<and> \<not> a + len \<le> vm_start v"
  using assms by (induction vs) (auto split: if_splits)

lemma find_free_from_ends: "\<exists>r. find_free_from vs len a = Some r \<and> a \<le> r \<and> first_clash vs r len = None"
proof (induction "2 ^ 64 - unat a" arbitrary: a rule: less_induct)
  case less
  show ?case
  proof (cases "first_clash vs a len")
    case None
    then show ?thesis by (simp add: find_free_from.simps)
  next
    case (Some b)
    from first_clash_Some(1) [OF this] have ab: "a < b" .
    then have "2 ^ 64 - unat b < 2 ^ 64 - unat a" by (intro diff_less_mono2) (simp_all add: word_less_nat_alt)
    from less [OF this] Some ab show ?thesis by (subst find_free_from.simps) auto
  qed
qed

text \<open>Below the address found every candidate from the start on meets an area.\<close>

lemma find_free_from_first:
  assumes "find_free_from vs len a = Some r" "a \<le> b" "b < r" "unat r + unat len < 2 ^ 64"
  shows "\<exists>v \<in> set vs. meets v (unat b) (unat b + unat len)"
  using assms
proof (induction "2 ^ 64 - unat a" arbitrary: a rule: less_induct)
  case less
  show ?case
  proof (cases "first_clash vs a len")
    case None
    with less.prems show ?thesis by (simp add: find_free_from.simps)
  next
    case (Some c)
    note C = first_clash_Some [OF Some]
    have step: "find_free_from vs len c = Some r" using less.prems(1) Some by (subst (asm) find_free_from.simps) simp
    with find_free_from_ends [of vs len c] have cr: "c \<le> r" by auto
    show ?thesis
    proof (cases "c \<le> b")
      case True
      have "2 ^ 64 - unat c < 2 ^ 64 - unat a" using C(1) by (intro diff_less_mono2) (simp_all add: word_less_nat_alt)
      from less.hyps [OF this step True less.prems(3,4)] show ?thesis .
    next
      case False
      from C(2) obtain v where v: "v \<in> set vs" "vm_end v = c" "\<not> a + len \<le> vm_start v" by blast
      have "unat (a + len) = unat a + unat len"
        using less.prems cr C(1) by (auto simp: unat_simps word_le_nat_alt word_less_nat_alt)
      with v less.prems(2) False have "meets v (unat b) (unat b + unat len)"
        by (auto simp: meets_def word_le_nat_alt not_le word_less_nat_alt)
      with v(1) show ?thesis by blast
    qed
  qed
qed

text \<open>C23. \<open>find_free_vma_region\<close> always returns, and unless the region would pass the end of the
  address space it is the lowest region of the length from 256 MB on that meets no area: the region
  found is free and every lower candidate is not.\<close>

theorem find_free_vma_region_correct:
  "\<exists>r. find_free_vma_region vs len = Some r \<and> 0x10000000 \<le> r \<and>
    (unat r + unat len < 2 ^ 64 \<longrightarrow>
      (\<forall>v \<in> set vs. \<not> meets v (unat r) (unat r + unat len)) \<and>
      (\<forall>b. 0x10000000 \<le> b \<and> b < r \<longrightarrow> (\<exists>v \<in> set vs. meets v (unat b) (unat b + unat len))))"
proof -
  from find_free_from_ends [of vs len "0x10000000"] obtain r where
    r: "find_free_from vs len 0x10000000 = Some r" "0x10000000 \<le> r" "first_clash vs r len = None" by blast
  then show ?thesis
    using first_clash_None [of r len vs] find_free_from_first [OF r(1)] by (auto simp: find_free_vma_region_def)
qed

definition vma_at :: "u64 \<Rightarrow> u64 \<Rightarrow> vm_area" where
  "vma_at s e = \<lparr>vm_addr = 0, vm_start = s, vm_end = e, vm_prot = 0, vm_flags = 0, vm_file_data = 0, vm_file_size = 0\<rparr>"

theorem find_free_vma_region_correct_witness:
  "find_free_vma_region [vma_at 0x10000000 0x10002000, vma_at 0x10002800 0x10004000] 0x1000 = Some 0x10004000 \<and>
     \<not> meets (vma_at 0x10002800 0x10004000) 0x10004000 0x10005000"
proof -
  have "find_free_vma_region [vma_at 0x10000000 0x10002000, vma_at 0x10002800 0x10004000] 0x1000 = Some 0x10004000"
    by (simp add: find_free_vma_region_def find_free_from.simps vma_at_def)
  with find_free_vma_region_correct [of "[vma_at 0x10000000 0x10002000, vma_at 0x10002800 0x10004000]" "0x1000"]
  show ?thesis by simp
qed

section \<open>Insertion and removal\<close>

lemma vma_walk_eq:
  "vs = cur # rest \<Longrightarrow> vm_start cur < vm_start n \<Longrightarrow>
   vma_walk n vs = takeWhile (\<lambda>v. vm_start v < vm_start n) vs @ n # dropWhile (\<lambda>v. vm_start v < vm_start n) vs"
proof (induction n vs arbitrary: cur rest rule: vma_walk.induct)
  case (3 n c nx r)
  then show ?case by (cases "vm_start nx < vm_start n") auto
qed auto

lemma insert_vma_eq:
  assumes "\<forall>v \<in> set vs. vm_start v \<noteq> vm_start n"
  shows "insert_vma n vs = takeWhile (\<lambda>v. vm_start v < vm_start n) vs @ n # dropWhile (\<lambda>v. vm_start v < vm_start n) vs"
  using assms by (cases vs) (auto simp: insert_vma_def vma_walk_eq not_less le_less)

lemma vmas_ok_append:
  "vmas_ok (xs @ ys) \<longleftrightarrow> vmas_ok xs \<and> vmas_ok ys \<and> (\<forall>v \<in> set xs. \<forall>w \<in> set ys. vm_end v \<le> vm_start w)"
  by (induction xs) auto

lemma vmas_ok_less: "vmas_ok vs \<Longrightarrow> v \<in> set vs \<Longrightarrow> vm_start v < vm_end v"
  by (induction vs) auto

text \<open>Inserting an area that meets no other keeps the list well-formed.\<close>

lemma insert_vma_ok:
  assumes ok: "vmas_ok vs" and n: "vm_start n < vm_end n"
    and free: "\<forall>v \<in> set vs. \<not> meets v (unat (vm_start n)) (unat (vm_end n))"
  shows "vmas_ok (insert_vma n vs)" "set (insert_vma n vs) = insert n (set vs)"
proof -
  let ?P = "\<lambda>v. vm_start v < vm_start n"
  have apart: "vm_end n \<le> vm_start v \<or> vm_end v \<le> vm_start n" if "v \<in> set vs" for v
    using free that by (auto simp: meets_def word_le_nat_alt not_less)
  have "\<forall>v \<in> set vs. vm_start v \<noteq> vm_start n" using apart vmas_ok_less [OF ok] n by fastforce
  note eq = insert_vma_eq [OF this]
  note split = vmas_ok_append [of "takeWhile ?P vs" "dropWhile ?P vs", unfolded takeWhile_dropWhile_id]
  have t: "vm_end v \<le> vm_start n" if "v \<in> set (takeWhile ?P vs)" for v
    using apart [of v] set_takeWhileD [OF that] n by auto
  have d: "vm_end n \<le> vm_start v" if "v \<in> set (dropWhile ?P vs)" for v
  proof -
    have "vm_start n \<le> vm_start v" using that ok
    proof (induction vs)
      case (Cons w ws)
      then show ?case using vmas_ok_less [of "w # ws" w] by (fastforce split: if_splits)
    qed simp
    then show ?thesis using apart [of v] set_dropWhileD [OF that] vmas_ok_less [OF ok, of v] by auto
  qed
  show "vmas_ok (insert_vma n vs)" unfolding eq using split ok t d n by (auto simp: vmas_ok_append)
  show "set (insert_vma n vs) = insert n (set vs)"
    unfolding eq using set_append [of "takeWhile ?P vs" "dropWhile ?P vs"] by auto
qed

text \<open>The list with its nodes on the heap: every node is a live chunk of its own.\<close>

definition vma_inv :: "heap \<times> vm_area list \<Rightarrow> bool" where
  "vma_inv = (\<lambda>(h, vs). heap_inv h \<and> vmas_ok vs \<and> distinct (map vm_addr vs) \<and>
     (\<forall>v \<in> set vs. 0 < heap_owners h (unat (vm_addr v), 64)))"

lemma vma_node_alloc:
  assumes "heap_inv h" "allocate SIZEOF_VM_AREA h = Some (p, h')" "p \<noteq> 0"
  shows "heap_inv h'" "heap_owners h' = (heap_owners h)((unat p, 64) := 1)" "heap_owners h (unat p, 64) = 0"
proof -
  have "pool_size j < unat SIZEOF_VM_AREA" if "j < 2" for j
    using that less_2_cases [of j] by (auto simp: SIZEOF_VM_AREA_def g_pool_sizes_def)
  note A = allocate_small_owners [OF assms(1) _ _ assms(2,3), of 2, OF _ _ _ _ this]
  show "heap_inv h'" "heap_owners h' = (heap_owners h)((unat p, 64) := 1)" "heap_owners h (unat p, 64) = 0"
    using A by (simp_all add: SIZEOF_VM_AREA_def CHUNK_POOL_COUNT_def g_pool_sizes_def)
qed

lemma add_vma_cases:
  assumes inv: "vma_inv (h, vs)" and n: "start < start + len"
    and free: "\<forall>v \<in> set vs. \<not> meets v (unat start) (unat (start + len))"
  obtains (fault) "add_vma start len prot flags (h, vs) = Some (Inl Null_deref)"
    | (added) p h' v where "add_vma start len prot flags (h, vs) = Some (Inr (p, h', insert_vma v vs))"
      "p \<noteq> 0" "heap_owners h (unat p, 64) = 0" "heap_owners h' = (heap_owners h)((unat p, 64) := 1)"
      "vm_addr v = p" "vm_start v = start" "vm_end v = start + len" "vm_prot v = prot"
      "vma_inv (h', insert_vma v vs)" "set (insert_vma v vs) = insert v (set vs)"
proof -
  have hi: "heap_inv h" and ok: "vmas_ok vs" using inv by (auto simp: vma_inv_def)
  from hi show thesis
  proof (cases rule: allocate_cases [where len = SIZEOF_VM_AREA])
    case (null h')
    then show thesis by (intro fault) (simp add: add_vma_def)
  next
    case (given p h' l)
    note N = vma_node_alloc [OF hi given(1,2)]
    let ?v = "\<lparr>vm_addr = p, vm_start = start, vm_end = start + len, vm_prot = prot, vm_flags = flags, vm_file_data = 0, vm_file_size = 0\<rparr>"
    note I = insert_vma_ok [OF ok, of ?v]
    have set: "set (insert_vma ?v vs) = insert ?v (set vs)" using I(2) n free by simp
    have fresh: "p \<notin> vm_addr ` set vs" using inv N(3) by (auto simp: vma_inv_def)
    have "length (insert_vma ?v vs) = Suc (length vs)"
    proof -
      have "length (vma_walk m ws) = Suc (length ws)" for m ws by (induction m ws rule: vma_walk.induct) auto
      then show ?thesis by (auto simp: insert_vma_def split: list.splits)
    qed
    moreover have "vm_addr ` set (insert_vma ?v vs) = insert p (vm_addr ` set vs)" unfolding set by simp
    ultimately have "distinct (map vm_addr (insert_vma ?v vs))"
      using inv fresh by (intro card_distinct) (simp add: vma_inv_def card_image distinct_map distinct_card)
    then have "vma_inv (h', insert_vma ?v vs)"
      using inv I n free N unfolding vma_inv_def by (auto simp: set)
    with given(1,2) N set show thesis
      by (intro added [of p h' ?v]) (auto simp: add_vma_def)
  qed
qed

text \<open>Removing the area that starts at an address frees its node and keeps the rest.\<close>

lemma remove_vma_correct:
  assumes "vma_inv (h, vs)"
  shows "\<exists>h'. remove_vma start (h, vs) = Some (h', filter (\<lambda>v. vm_start v \<noteq> start) vs) \<and>
    vma_inv (h', filter (\<lambda>v. vm_start v \<noteq> start) vs) \<and>
    (\<forall>r. r \<notin> (\<lambda>v. (unat (vm_addr v), 64)) ` set vs \<and> 0 < heap_owners h r \<longrightarrow> heap_owners h' r = heap_owners h r)"
  using assms
proof (induction vs)
  case Nil
  then show ?case by simp
next
  case (Cons v vs)
  have inv: "vma_inv (h, vs)" and hi: "heap_inv h" and o: "0 < heap_owners h (unat (vm_addr v), 64)"
    and "vm_addr v \<notin> vm_addr ` set vs"
    using Cons.prems by (auto simp: vma_inv_def)
  then have d: "\<forall>w \<in> set vs. vm_addr w \<noteq> vm_addr v" by (metis imageI)
  have d': "\<forall>w \<in> set vs. unat (vm_addr w) \<noteq> unat (vm_addr v)" using d unat_eq_imp by blast
  have later: "\<forall>w \<in> set vs. vm_start v < vm_start w" using Cons.prems by (fastforce simp: vma_inv_def)
  show ?case
  proof (cases "vm_start v = start")
    case True
    from free_other [OF hi o] obtain h' where h': "free (vm_addr v) h = Some h'" "heap_inv h'"
      "\<And>r. 0 < heap_owners h r \<Longrightarrow> r \<noteq> (unat (vm_addr v), 64) \<Longrightarrow> heap_owners h' r = heap_owners h r" by blast
    have "filter (\<lambda>w. vm_start w \<noteq> start) (v # vs) = vs" using later True by (auto simp: filter_id_conv)
    moreover have "vma_inv (h', vs)" using inv h' d' by (auto simp: vma_inv_def)
    ultimately show ?thesis using True h' by simp
  next
    case False
    from Cons.IH [OF inv] obtain h' where h': "remove_vma start (h, vs) = Some (h', filter (\<lambda>v. vm_start v \<noteq> start) vs)"
      "vma_inv (h', filter (\<lambda>v. vm_start v \<noteq> start) vs)"
      "\<And>r. r \<notin> (\<lambda>v. (unat (vm_addr v), 64)) ` set vs \<Longrightarrow> 0 < heap_owners h r \<Longrightarrow> heap_owners h' r = heap_owners h r"
      by blast
    have "0 < heap_owners h' (unat (vm_addr v), 64)" using h'(3) [OF _ o] o d' by fastforce
    then have "vma_inv (h', v # filter (\<lambda>v. vm_start v \<noteq> start) vs)"
      using h'(2) Cons.prems d by (auto simp: vma_inv_def)
    with h' False show ?thesis by auto
  qed
qed

text \<open>Copying an area list gives the child equal areas on nodes of its own, or a prefix of them.\<close>

lemma copy_vma_list_prefix:
  assumes "heap_inv h"
  shows "\<exists>ws h'. copy_vma_list vs h = Some (ws, h') \<and> heap_inv h' \<and>
    map (vm_addr_update (\<lambda>_. 0)) ws = map (vm_addr_update (\<lambda>_. 0)) (take (length ws) vs)"
  using assms
proof (induction vs arbitrary: h)
  case (Cons v vs)
  from Cons.prems show ?case
  proof (cases rule: allocate_cases [where len = SIZEOF_VM_AREA])
    case (null h')
    then show ?thesis by simp
  next
    case (given p h' l)
    from Cons.IH [OF given(3)] given(1,2) show ?thesis by auto
  qed
qed simp

end
