(* ===== verification/Fs_State.thy ===== *)
theory Fs_State
  imports Task CString Vma
begin

text \<open>
  The objects of the virtual file system (\<open>src/src/vfs.h\<close>) and the private nodes of the file systems.
  Objects live on the kernel heap and are found by address. A pointer to a table of operations is a
  value of \<open>fs_ops\<close>, one per file system, since each has one table of each kind. Names and paths are
  the bytes of C strings without the terminator, and file contents are bytes of memory.

  A function of the kernel is a state transformer that may fault: \<open>kbind\<close> runs two of them one
  after the other, and \<open>None\<close> is a computation that does not end. The file systems use the state
  \<open>vfs\<close>, threads and system calls one that includes it.
\<close>

section \<open>Objects\<close>

type_synonym bytes = "u8 list"

datatype fs_ops = No_ops | Tmpfs_ops | Ramfs_ops | Devfs_ops

record vnode =
  v_mount :: u64
  v_ops :: fs_ops
  f_ops :: fs_ops
  internal :: u64
  v_parent :: u64

record fs_file =
  f_vnode :: u64
  f_pos :: u64
  fl_ops :: fs_ops
  f_flags :: u32
  ref_count :: int

record mount =
  mt_root :: u64
  mt_fs :: fs_ops

datatype fsnode_type = FS_DIR | FS_FILE

record tmpfs_vnode =
  tn_type :: fsnode_type
  tn_name :: bytes
  tn_entry :: "nat \<Rightarrow> u64"
  tn_data :: u64
  tn_size :: u64

record ramfs_inode =
  ri_type :: fsnode_type
  ri_name :: bytes
  ri_entries :: "u64 list"
  ri_data :: u64
  ri_size :: u64
  ri_vnode :: u64

text \<open>The state: the heap, the objects, memory, and the static variables of \<open>vfs.c\<close> and \<open>devfs.c\<close>.\<close>

record vfs =
  vf_heap :: heap
  vnodes :: "u64 \<Rightarrow> vnode"
  files :: "u64 \<Rightarrow> fs_file"
  mounts :: "u64 \<Rightarrow> mount"
  tmp_nodes :: "u64 \<Rightarrow> tmpfs_vnode"
  ram_nodes :: "u64 \<Rightarrow> ramfs_inode"
  vf_mem :: mem
  rootfs :: u64
  fs_list :: "nat \<Rightarrow> (bytes \<times> fs_ops) option"
  uart_vnode :: u64
  fb_vnode :: u64

section \<open>State transformers with faults\<close>

type_synonym ('a, 's) kcomp = "'s \<Rightarrow> (kernel_fault + 'a \<times> 's) option"

type_synonym 'a kop = "('a, vfs) kcomp"

definition kret :: "'a \<Rightarrow> ('a, 's) kcomp" where
  "kret x s = Some (Inr (x, s))"

definition kbind :: "('a, 's) kcomp \<Rightarrow> ('a \<Rightarrow> ('b, 's) kcomp) \<Rightarrow> ('b, 's) kcomp" where
  "kbind m f s =
     (case m s of
        None \<Rightarrow> None
      | Some (Inl e) \<Rightarrow> Some (Inl e)
      | Some (Inr (x, s)) \<Rightarrow> f x s)"

definition kget :: "('s \<Rightarrow> 'a) \<Rightarrow> ('a, 's) kcomp" where
  "kget f s = Some (Inr (f s, s))"

definition kmod :: "('s \<Rightarrow> 's) \<Rightarrow> (unit, 's) kcomp" where
  "kmod f s = Some (Inr ((), f s))"

definition kfault :: "('a, 's) kcomp" where
  "kfault s = Some (Inl Null_deref)"

named_theorems kop_simps

lemma kret_kbind [kop_simps]: "kbind (kret x) f = f x"
  by (simp add: kbind_def kret_def fun_eq_iff)

lemma kget_kbind [kop_simps]: "kbind (kget g) f s = f (g s) s"
  by (simp add: kbind_def kget_def)

lemma kmod_kbind [kop_simps]: "kbind (kmod g) f s = f () (g s)"
  by (simp add: kbind_def kmod_def)

lemma kfault_kbind [kop_simps]: "kbind kfault f s = Some (Inl Null_deref)"
  by (simp add: kbind_def kfault_def)

lemma kret_eq [kop_simps]: "kret x s = Some (Inr (x, s))"
  by (simp add: kret_def)

lemma kget_eq [kop_simps]: "kget g s = Some (Inr (g s, s))"
  by (simp add: kget_def)

lemma kmod_eq [kop_simps]: "kmod g s = Some (Inr ((), g s))"
  by (simp add: kmod_def)

lemma kfault_eq [kop_simps]: "kfault s = Some (Inl Null_deref)"
  by (simp add: kfault_def)

lemma kbind_Inr: "m s = Some (Inr (x, s')) \<Longrightarrow> kbind m f s = f x s'"
  by (simp add: kbind_def)

lemma kbind_Inl: "m s = Some (Inl e) \<Longrightarrow> kbind m f s = Some (Inl e)"
  by (simp add: kbind_def)

text \<open>\<open>allocate\<close> followed by \<open>memset\<close> of the new object, which faults on the null pointer; \<open>free\<close>.\<close>

definition kalloc :: "u64 \<Rightarrow> u64 kop" where
  "kalloc len s =
     (case allocate len (vf_heap s) of
        None \<Rightarrow> None
      | Some (p, h) \<Rightarrow> Some (if p = 0 then Inl Null_deref else Inr (p, s\<lparr>vf_heap := h\<rparr>)))"

definition kfree :: "u64 \<Rightarrow> unit kop" where
  "kfree p s = map_option (\<lambda>h. Inr ((), s\<lparr>vf_heap := h\<rparr>)) (free p (vf_heap s))"

text \<open>An address is live when an owned region starts there; a new object is at a fresh address.\<close>

definition live :: "heap \<Rightarrow> u64 \<Rightarrow> bool" where
  "live h a \<longleftrightarrow> (\<exists>l. 0 < heap_owners h (unat a, l))"

lemma allocate_live:
  assumes "heap_inv h"
  obtains (null) h' where "allocate len h = Some (0, h')" "heap_inv h'" "live h' = live h"
    | (given) p h' where "allocate len h = Some (p, h')" "p \<noteq> 0" "heap_inv h'" "\<not> live h p" "live h' = (live h)(p := True)"
  using assms
proof (cases rule: allocate_cases [where len = len])
  case (null h')
  then show thesis using that(1) by (simp add: live_def fun_eq_iff)
next
  case (given p h' l)
  have "\<not> live h p"
  proof
    assume "live h p"
    then obtain m where "0 < heap_owners h (unat p, m)" by (auto simp: live_def)
    with given(5,6) have "0 < heap_owners h' (unat p, m)" "0 < heap_owners h' (unat p, l)" "m \<noteq> l" by auto
    with owned_start_unique [OF given(3)] show False by blast
  qed
  moreover have "live h' a = live h a" if "a \<noteq> p" for a
    using that given(5) by (auto simp: live_def dest: unat_eq_imp)
  moreover have "live h' p" using given(5) by (auto simp: live_def)
  ultimately show thesis using that(2) [of p h'] given(1-3) by (auto simp: fun_eq_iff)
qed

lemma kalloc_cases:
  assumes "heap_inv (vf_heap s)"
  obtains (fault) "kalloc len s = Some (Inl Null_deref)"
    | (given) p h where "kalloc len s = Some (Inr (p, s\<lparr>vf_heap := h\<rparr>))" "p \<noteq> 0" "heap_inv h"
      "\<not> live (vf_heap s) p" "live h = (live (vf_heap s))(p := True)"
  using assms by (cases rule: allocate_live [where len = len]) (auto simp: kalloc_def)

lemma kfree_total:
  assumes "heap_inv (vf_heap s)"
  obtains h where "kfree p s = Some (Inr ((), s\<lparr>vf_heap := h\<rparr>))" "heap_inv h" "\<And>a. a \<noteq> p \<Longrightarrow> live h a = live (vf_heap s) a"
proof -
  from free_owners [OF assms, of p] obtain h where h: "free p (vf_heap s) = Some h" "heap_inv h"
    "\<And>r. heap_owners h r = (if fst r = unat p then heap_owners (vf_heap s) r - 1 else heap_owners (vf_heap s) r)" by blast
  have "live h a = live (vf_heap s) a" if "a \<noteq> p" for a using that h(3) by (auto simp: live_def dest: unat_eq_imp)
  with h that show thesis by (simp add: kfree_def)
qed

end
