(* ===== verification/Tmpfs.thy ===== *)
theory Tmpfs
  imports Fs_State
begin

text \<open>
  \<open>src/src/tmpfs.c\<close>: the in-memory file system. A directory has 16 slots, a file one buffer of 4096
  bytes. A failed lookup or creation (-1) is \<open>None\<close>, success with the node in \<open>*target\<close> is \<open>Some\<close>.
\<close>

section \<open>Operations\<close>

definition TMPFS_MAX_FILE_NAME :: nat where "TMPFS_MAX_FILE_NAME = 32"
definition TMPFS_MAX_DIR_ENTRY :: nat where "TMPFS_MAX_DIR_ENTRY = 16"
definition TMPFS_MAX_FILE_SIZE :: u64 where "TMPFS_MAX_FILE_SIZE = 4096"

text \<open>\<open>sizeof(struct vnode)\<close> and \<open>sizeof(struct tmpfs_vnode)\<close>.\<close>

definition SIZEOF_VNODE :: u64 where "SIZEOF_VNODE = 40"
definition SIZEOF_TMPFS_VNODE :: u64 where "SIZEOF_TMPFS_VNODE = 184"

definition set_vnode :: "u64 \<Rightarrow> vnode \<Rightarrow> unit kop" where
  "set_vnode v x = kmod (\<lambda>s. s\<lparr>vnodes := (vnodes s)(v := x)\<rparr>)"

definition set_file :: "u64 \<Rightarrow> fs_file \<Rightarrow> unit kop" where
  "set_file f x = kmod (\<lambda>s. s\<lparr>files := (files s)(f := x)\<rparr>)"

definition set_tmp :: "u64 \<Rightarrow> tmpfs_vnode \<Rightarrow> unit kop" where
  "set_tmp n x = kmod (\<lambda>s. s\<lparr>tmp_nodes := (tmp_nodes s)(n := x)\<rparr>)"

definition tmpfs_create_vnode :: "fsnode_type \<Rightarrow> u64 kop" where
  "tmpfs_create_vnode ty =
     kbind (kalloc SIZEOF_VNODE) (\<lambda>v.
     kbind (set_vnode v \<lparr>v_mount = 0, v_ops = Tmpfs_ops, f_ops = Tmpfs_ops, internal = 0, v_parent = 0\<rparr>) (\<lambda>_.
     kbind (kalloc SIZEOF_TMPFS_VNODE) (\<lambda>n.
     kbind (set_tmp n \<lparr>tn_type = ty, tn_name = [], tn_entry = \<lambda>_. 0, tn_data = 0, tn_size = 0\<rparr>) (\<lambda>_.
     kbind (kmod (\<lambda>s. s\<lparr>vnodes := (vnodes s)(v := (vnodes s v)\<lparr>internal := n\<rparr>)\<rparr>)) (\<lambda>_.
     kret v)))))"

definition tmpfs_setup_mount :: "fs_ops \<Rightarrow> u64 \<Rightarrow> int kop" where
  "tmpfs_setup_mount fs mnt =
     kbind (tmpfs_create_vnode FS_DIR) (\<lambda>v.
     kbind (kmod (\<lambda>s. s\<lparr>mounts := (mounts s)(mnt := \<lparr>mt_root = v, mt_fs = fs\<rparr>)\<rparr>)) (\<lambda>_. kret 0))"

definition tmpfs_open :: "u64 \<Rightarrow> u64 \<Rightarrow> int kop" where
  "tmpfs_open file_node f =
     kbind (kmod (\<lambda>s. s\<lparr>files := (files s)(f := (files s f)\<lparr>f_vnode := file_node, fl_ops := Tmpfs_ops, f_pos := 0\<rparr>)\<rparr>))
       (\<lambda>_. kret 0)"

definition tmpfs_close :: "u64 \<Rightarrow> int kop" where
  "tmpfs_close f = kret 0"

text \<open>\<open>file->vnode->internal\<close>, and the conversion of a \<open>size_t\<close> to the \<open>int\<close> result.\<close>

definition tmp_of :: "vfs \<Rightarrow> u64 \<Rightarrow> u64" where
  "tmp_of s f = internal (vnodes s (f_vnode (files s f)))"

definition to_int :: "u64 \<Rightarrow> int" where
  "to_int len = sint (ucast len :: u32)"

definition tmpfs_read :: "u64 \<Rightarrow> u64 \<Rightarrow> u64 \<Rightarrow> int kop" where
  "tmpfs_read f buf len s =
     (let inode = tmp_nodes s (tmp_of s f); pos = f_pos (files s f)
      in if tn_type inode \<noteq> FS_FILE then kret (- 1) s
         else if pos \<ge> tn_size inode then kret 0 s
         else
           let len = if pos + len > tn_size inode then tn_size inode - pos else len
           in kret (to_int len)
                (s\<lparr>vf_mem := memcpy (unat buf) (unat (tn_data inode + pos)) (unat len) (vf_mem s),
                   files := (files s)(f := (files s f)\<lparr>f_pos := pos + len\<rparr>)\<rparr>))"

text \<open>The buffer is allocated on the first write; the result of \<open>allocate\<close> is stored untested.\<close>

definition tmpfs_buffer :: "u64 \<Rightarrow> vfs \<Rightarrow> vfs option" where
  "tmpfs_buffer n s =
     (if tn_data (tmp_nodes s n) = 0
      then map_option (\<lambda>(p, h). s\<lparr>vf_heap := h, tmp_nodes := (tmp_nodes s)(n := (tmp_nodes s n)\<lparr>tn_data := p\<rparr>)\<rparr>)
             (allocate TMPFS_MAX_FILE_SIZE (vf_heap s))
      else Some s)"

definition tmpfs_write :: "u64 \<Rightarrow> u64 \<Rightarrow> u64 \<Rightarrow> int kop" where
  "tmpfs_write f buf len s =
     (let n = tmp_of s f; pos = f_pos (files s f)
      in if tn_type (tmp_nodes s n) \<noteq> FS_FILE then kret (- 1) s
         else case tmpfs_buffer n s of
                None \<Rightarrow> None
              | Some s \<Rightarrow>
                  let len = if pos + len > TMPFS_MAX_FILE_SIZE then TMPFS_MAX_FILE_SIZE - pos else len;
                      inode = tmp_nodes s n; pos' = pos + len
                  in if tn_data inode = 0 \<and> len \<noteq> 0 then kfault s
                     else kret (to_int len)
                       (s\<lparr>vf_mem := memcpy (unat (tn_data inode + pos)) (unat buf) (unat len) (vf_mem s),
                          files := (files s)(f := (files s f)\<lparr>f_pos := pos'\<rparr>),
                          tmp_nodes := (tmp_nodes s)(n := if pos' > tn_size inode then inode\<lparr>tn_size := pos'\<rparr> else inode)\<rparr>))"

text \<open>The loops over the slots: the first one with the name, the first free one.\<close>

fun find_entry :: "vfs \<Rightarrow> (nat \<Rightarrow> u64) \<Rightarrow> bytes \<Rightarrow> nat list \<Rightarrow> u64 option" where
  "find_entry s entry nm [] = None"
| "find_entry s entry nm (i # is) =
     (if entry i = 0 then find_entry s entry nm is
      else if tn_name (tmp_nodes s (internal (vnodes s (entry i)))) = nm then Some (entry i)
      else find_entry s entry nm is)"

fun free_slot :: "(nat \<Rightarrow> u64) \<Rightarrow> nat list \<Rightarrow> nat option" where
  "free_slot entry [] = None"
| "free_slot entry (i # is) = (if entry i = 0 then Some i else free_slot entry is)"

definition tmpfs_lookup :: "u64 \<Rightarrow> bytes \<Rightarrow> u64 option kop" where
  "tmpfs_lookup dir nm s =
     (let dentry = tmp_nodes s (internal (vnodes s dir))
      in if tn_type dentry \<noteq> FS_DIR then kret None s
         else kret (find_entry s (tn_entry dentry) nm [0..<TMPFS_MAX_DIR_ENTRY]) s)"

text \<open>\<open>tmpfs_create\<close> and \<open>tmpfs_mkdir\<close> differ in the type of the new node only.\<close>

definition tmpfs_add :: "fsnode_type \<Rightarrow> u64 \<Rightarrow> bytes \<Rightarrow> u64 option kop" where
  "tmpfs_add ty dir nm =
     kbind (kget (\<lambda>s. internal (vnodes s dir))) (\<lambda>d.
     kbind (kget (\<lambda>s. tn_type (tmp_nodes s d))) (\<lambda>dty.
     if dty \<noteq> FS_DIR then kret None
     else
       kbind (tmpfs_create_vnode ty) (\<lambda>v.
       kbind (kget (\<lambda>s. internal (vnodes s v))) (\<lambda>n.
       kbind (kmod (\<lambda>s. s\<lparr>tmp_nodes := (tmp_nodes s)(n := (tmp_nodes s n)\<lparr>tn_name := take (TMPFS_MAX_FILE_NAME - 1) nm\<rparr>)\<rparr>)) (\<lambda>_.
       kbind (kget (\<lambda>s. free_slot (tn_entry (tmp_nodes s d)) [0..<TMPFS_MAX_DIR_ENTRY])) (\<lambda>i.
       case i of
         Some i \<Rightarrow>
           kbind (kmod (\<lambda>s. s\<lparr>tmp_nodes := (tmp_nodes s)(d := (tmp_nodes s d)\<lparr>tn_entry := (tn_entry (tmp_nodes s d))(i := v)\<rparr>)\<rparr>))
             (\<lambda>_. kret (Some v))
       | None \<Rightarrow> kbind (kfree n) (\<lambda>_. kbind (kfree v) (\<lambda>_. kret None))))))))"

definition tmpfs_create :: "u64 \<Rightarrow> bytes \<Rightarrow> u64 option kop" where
  "tmpfs_create = tmpfs_add FS_FILE"

definition tmpfs_mkdir :: "u64 \<Rightarrow> bytes \<Rightarrow> u64 option kop" where
  "tmpfs_mkdir = tmpfs_add FS_DIR"

section \<open>Contents of files\<close>

text \<open>The abstract file: its bytes, with reading and overwriting at a position.\<close>

definition file_read :: "nat \<Rightarrow> nat \<Rightarrow> bytes \<Rightarrow> bytes" where
  "file_read pos n xs = take n (drop pos xs)"

definition file_write :: "nat \<Rightarrow> bytes \<Rightarrow> bytes \<Rightarrow> bytes" where
  "file_write pos bs xs = take pos xs @ bs @ drop (pos + length bs) xs"

definition mem_bytes :: "mem \<Rightarrow> nat \<Rightarrow> nat \<Rightarrow> bytes" where
  "mem_bytes m a n = map (\<lambda>i. m (a + i)) [0..<n]"

definition tmp_content :: "vfs \<Rightarrow> u64 \<Rightarrow> bytes" where
  "tmp_content s n = mem_bytes (vf_mem s) (unat (tn_data (tmp_nodes s n))) (unat (tn_size (tmp_nodes s n)))"

lemma file_read_write:
  "pos \<le> length xs \<Longrightarrow> file_read pos (length bs) (file_write pos bs xs) = bs"
  by (simp add: file_read_def file_write_def)

lemma mem_bytes_memcpy:
  assumes "s + n \<le> d \<or> d + n \<le> s"
  shows "mem_bytes (memcpy d s n m) d n = mem_bytes m s n"
  using memcpy_correct [OF assms] by (simp add: mem_bytes_def)

lemma mem_bytes_memcpy_other:
  assumes "s + n \<le> d \<or> d + n \<le> s" "a + k \<le> d \<or> d + n \<le> a"
  shows "mem_bytes (memcpy d s n m) a k = mem_bytes m a k"
  using memcpy_correct [OF assms(1)] assms(2) by (auto simp: mem_bytes_def)

lemma mem_bytes_split: "mem_bytes m a (j + k) = mem_bytes m a j @ mem_bytes m (a + j) k"
  by (induction k) (simp_all add: mem_bytes_def add.assoc)

lemma length_mem_bytes [simp]: "length (mem_bytes m a n) = n"
  by (simp add: mem_bytes_def)

text \<open>Overwriting memory inside a block overwrites the bytes of the block.\<close>

lemma mem_bytes_write:
  assumes "s + n \<le> a \<or> a + k \<le> s" "pos + n \<le> k" "pos \<le> len" "len \<le> k"
  shows "mem_bytes (memcpy (a + pos) s n m) a (max len (pos + n)) = file_write pos (mem_bytes m s n) (mem_bytes m a len)"
proof -
  let ?m = "memcpy (a + pos) s n m"
  have apart: "s + n \<le> a + pos \<or> (a + pos) + n \<le> s" using assms(1,2) by auto
  have "max len (pos + n) = pos + (n + (len - (pos + n)))" using assms(3) by auto
  then have "mem_bytes ?m a (max len (pos + n)) =
      mem_bytes ?m a pos @ mem_bytes ?m (a + pos) n @ mem_bytes ?m (a + pos + n) (len - (pos + n))"
    by (simp only: mem_bytes_split)
  also have "\<dots> = mem_bytes m a pos @ mem_bytes m s n @ mem_bytes m (a + pos + n) (len - (pos + n))"
    using mem_bytes_memcpy [OF apart] mem_bytes_memcpy_other [OF apart] by simp
  also have "mem_bytes m a pos = take pos (mem_bytes m a len)"
    using mem_bytes_split [of m a pos "len - pos"] assms(3) by simp
  also have "mem_bytes m (a + pos + n) (len - (pos + n)) = drop (pos + n) (mem_bytes m a len)"
  proof (cases "pos + n \<le> len")
    case True
    then show ?thesis using mem_bytes_split [of m a "pos + n" "len - (pos + n)"] by (simp add: add.assoc)
  qed (simp add: mem_bytes_def)
  finally show ?thesis by (simp add: file_write_def)
qed

text \<open>A regular file whose buffer is allocated, and the clamped length of a transfer.\<close>

definition tmp_file_ok :: "vfs \<Rightarrow> u64 \<Rightarrow> bool" where
  "tmp_file_ok s n \<longleftrightarrow> tn_type (tmp_nodes s n) = FS_FILE \<and> tn_data (tmp_nodes s n) \<noteq> 0 \<and>
     unat (tn_data (tmp_nodes s n)) + 4096 < 2 ^ 64 \<and> unat (tn_size (tmp_nodes s n)) \<le> 4096"

lemma to_int_small:
  assumes "unat len \<le> 4096"
  shows "to_int len = int (unat len)"
proof -
  have u: "uint len \<le> 4096" using of_nat_mono [OF assms, where 'a = int] by simp
  have "uint (ucast len :: u32) = take_bit 32 (uint len)" by (simp add: unsigned_ucast_eq)
  also have "\<dots> = uint len" by (rule take_bit_int_eq_self) (use u in auto)
  finally have "sint (ucast len :: u32) = signed_take_bit 31 (uint len)" by (simp add: sint_uint)
  also have "\<dots> = uint len" by (rule signed_take_bit_int_eq_self) (use u in \<open>auto intro: order_trans [OF _ uint_ge_0]\<close>)
  finally show ?thesis by (simp add: to_int_def)
qed

lemma tmpfs_write_refines:
  assumes ok: "tmp_file_ok s (tmp_of s f)" and pos: "f_pos (files s f) \<le> tn_size (tmp_nodes s (tmp_of s f))"
    and len: "unat (f_pos (files s f)) + unat len < 2 ^ 64"
    and sep: "unat buf + 4096 \<le> unat (tn_data (tmp_nodes s (tmp_of s f))) \<or> unat (tn_data (tmp_nodes s (tmp_of s f))) + 4096 \<le> unat buf"
  defines "k \<equiv> min (unat len) (4096 - unat (f_pos (files s f)))"
  shows "\<exists>s'. tmpfs_write f buf len s = Some (Inr (int k, s')) \<and> tmp_of s' f = tmp_of s f \<and> tmp_file_ok s' (tmp_of s f) \<and>
    tmp_content s' (tmp_of s f) =
      file_write (unat (f_pos (files s f))) (mem_bytes (vf_mem s) (unat buf) k) (tmp_content s (tmp_of s f)) \<and>
    unat (f_pos (files s' f)) = unat (f_pos (files s f)) + k \<and> tn_data (tmp_nodes s' (tmp_of s f)) = tn_data (tmp_nodes s (tmp_of s f)) \<and>
    vnodes s' = vnodes s \<and> (\<forall>g. g \<noteq> f \<longrightarrow> files s' g = files s g)"
proof -
  let ?n = "tmp_of s f" and ?pos = "f_pos (files s f)"
  let ?inode = "tmp_nodes s ?n"
  let ?len = "if ?pos + len > TMPFS_MAX_FILE_SIZE then TMPFS_MAX_FILE_SIZE - ?pos else len"
  have sz: "unat (tn_size ?inode) \<le> 4096" "tn_data ?inode \<noteq> 0" "tn_type ?inode = FS_FILE" "unat (tn_data ?inode) + 4096 < 2 ^ 64"
    using ok by (auto simp: tmp_file_ok_def)
  have p: "unat ?pos \<le> unat (tn_size ?inode)" using pos by (simp add: word_le_nat_alt)
  have k: "unat ?len = k"
    using len p sz(1) by (auto simp: k_def TMPFS_MAX_FILE_SIZE_def word_less_nat_alt unat_simps word_le_nat_alt min_def)
  have k2: "unat ?pos + k \<le> 4096" using p sz(1) by (simp add: k_def)
  have e: "unat (?pos + ?len) = unat ?pos + k" using k k2 by (simp add: unat_simps)
  have d: "unat (tn_data ?inode + ?pos) = unat (tn_data ?inode) + unat ?pos" using p sz by (simp add: unat_simps)
  let ?m = "memcpy (unat (tn_data ?inode + ?pos)) (unat buf) k (vf_mem s)"
  let ?s = "s\<lparr>vf_mem := ?m, files := (files s)(f := (files s f)\<lparr>f_pos := ?pos + ?len\<rparr>),
     tmp_nodes := (tmp_nodes s)(?n := if ?pos + ?len > tn_size ?inode then ?inode\<lparr>tn_size := ?pos + ?len\<rparr> else ?inode)\<rparr>"
  have w: "tmpfs_write f buf len s = Some (Inr (int k, ?s))"
    using sz to_int_small [of ?len] k k2
    by (simp add: tmpfs_write_def tmpfs_buffer_def Let_def kret_def)
  have size': "unat (tn_size (tmp_nodes ?s ?n)) = max (unat (tn_size ?inode)) (unat ?pos + k)"
    using e by (auto simp: word_less_nat_alt)
  have data': "tn_data (tmp_nodes ?s ?n) = tn_data ?inode" "tn_type (tmp_nodes ?s ?n) = FS_FILE" using sz by auto
  have "tmp_content ?s ?n = mem_bytes ?m (unat (tn_data ?inode)) (max (unat (tn_size ?inode)) (unat ?pos + k))"
    unfolding tmp_content_def size' data' by simp
  also have "\<dots> = file_write (unat ?pos) (mem_bytes (vf_mem s) (unat buf) k) (tmp_content s ?n)"
    unfolding d tmp_content_def using sep k2 p sz(1) by (intro mem_bytes_write) auto
  finally have c: "tmp_content ?s ?n = file_write (unat ?pos) (mem_bytes (vf_mem s) (unat buf) k) (tmp_content s ?n)" .
  have "tmp_of ?s f = ?n" by (simp add: tmp_of_def)
  moreover have "tmp_file_ok ?s ?n" using sz data' size' k2 by (simp add: tmp_file_ok_def)
  ultimately show ?thesis using w c e data'(1) by (intro exI [of _ ?s]) simp
qed

lemma mem_bytes_read: "file_read pos n (mem_bytes m a len) = mem_bytes m (a + pos) (min n (len - pos))"
proof (cases "pos \<le> len")
  case True
  have "mem_bytes m a len = mem_bytes m a pos @ mem_bytes m (a + pos) (len - pos)"
    using mem_bytes_split [of m a pos "len - pos"] True by simp
  moreover have "take n (mem_bytes m (a + pos) (len - pos)) = mem_bytes m (a + pos) (min n (len - pos))"
    by (simp add: mem_bytes_def take_map min_def)
  ultimately show ?thesis by (simp add: file_read_def)
qed (simp add: file_read_def mem_bytes_def)

lemma tmpfs_read_refines:
  assumes ok: "tmp_file_ok s (tmp_of s f)" and len: "unat (f_pos (files s f)) + unat len < 2 ^ 64"
    and sep: "unat buf + 4096 \<le> unat (tn_data (tmp_nodes s (tmp_of s f))) \<or> unat (tn_data (tmp_nodes s (tmp_of s f))) + 4096 \<le> unat buf"
  defines "bs \<equiv> file_read (unat (f_pos (files s f))) (unat len) (tmp_content s (tmp_of s f))"
  shows "\<exists>s'. tmpfs_read f buf len s = Some (Inr (int (length bs), s')) \<and> mem_bytes (vf_mem s') (unat buf) (length bs) = bs \<and>
    tmp_of s' f = tmp_of s f \<and> tmp_content s' (tmp_of s f) = tmp_content s (tmp_of s f) \<and>
    unat (f_pos (files s' f)) = unat (f_pos (files s f)) + length bs"
proof -
  let ?n = "tmp_of s f" and ?pos = "f_pos (files s f)"
  let ?inode = "tmp_nodes s ?n"
  let ?len = "if ?pos + len > tn_size ?inode then tn_size ?inode - ?pos else len"
  have sz: "unat (tn_size ?inode) \<le> 4096" "tn_type ?inode = FS_FILE" "unat (tn_data ?inode) + 4096 < 2 ^ 64"
    using ok by (auto simp: tmp_file_ok_def)
  have bs: "bs = mem_bytes (vf_mem s) (unat (tn_data ?inode) + unat ?pos) (min (unat len) (unat (tn_size ?inode) - unat ?pos))"
    by (simp add: bs_def tmp_content_def mem_bytes_read)
  show ?thesis
  proof (cases "?pos \<ge> tn_size ?inode")
    case True
    then have "bs = []" by (simp add: bs mem_bytes_def word_le_nat_alt)
    with True sz show ?thesis by (simp add: tmpfs_read_def Let_def kret_def mem_bytes_def)
  next
    case False
    then have p: "unat ?pos < unat (tn_size ?inode)" by (simp add: word_le_nat_alt)
    have k: "unat ?len = length bs"
      using len p by (auto simp: bs word_less_nat_alt unat_simps word_le_nat_alt min_def)
    have kb: "length bs \<le> 4096" "unat ?pos + length bs \<le> 4096" using p sz(1) by (auto simp: bs)
    have e: "unat (?pos + ?len) = unat ?pos + length bs" using k kb by (simp add: unat_simps)
    have d: "unat (tn_data ?inode + ?pos) = unat (tn_data ?inode) + unat ?pos" using p sz by (simp add: unat_simps)
    let ?m = "memcpy (unat buf) (unat (tn_data ?inode) + unat ?pos) (length bs) (vf_mem s)"
    let ?s = "s\<lparr>vf_mem := ?m, files := (files s)(f := (files s f)\<lparr>f_pos := ?pos + ?len\<rparr>)\<rparr>"
    have r: "tmpfs_read f buf len s = Some (Inr (int (length bs), ?s))"
      using False sz to_int_small [of ?len] k kb(1) by (simp add: tmpfs_read_def Let_def kret_def d)
    have apart: "unat (tn_data ?inode) + unat ?pos + length bs \<le> unat buf \<or> unat buf + length bs \<le> unat (tn_data ?inode) + unat ?pos"
      using sep kb by auto
    have other: "unat (tn_data ?inode) + unat (tn_size ?inode) \<le> unat buf \<or> unat buf + length bs \<le> unat (tn_data ?inode)"
      using sep sz(1) kb by auto
    have "mem_bytes ?m (unat buf) (length bs) = bs"
      using mem_bytes_memcpy [OF apart] by (simp add: bs)
    moreover have "tmp_content ?s ?n = tmp_content s ?n"
      using mem_bytes_memcpy_other [OF apart other] by (simp add: tmp_content_def)
    moreover have "tmp_of ?s f = ?n" by (simp add: tmp_of_def)
    ultimately show ?thesis using r e by (intro exI [of _ ?s]) simp
  qed
qed

text \<open>C25. A write at a position inside the file followed by a read at that position through another
  handle returns the bytes written, up to the 4096 bytes a file holds: the write changes the contents
  to the old ones overwritten at the position, the read delivers them to its buffer.\<close>

theorem tmpfs_write_read:
  assumes "tmp_file_ok s n" "tmp_of s f = n" "tmp_of s g = n" "f \<noteq> g"
    "f_pos (files s g) = f_pos (files s f)" "f_pos (files s f) \<le> tn_size (tmp_nodes s n)"
    "unat (f_pos (files s f)) + unat len \<le> 4096"
    "unat buf + 4096 \<le> unat (tn_data (tmp_nodes s n)) \<or> unat (tn_data (tmp_nodes s n)) + 4096 \<le> unat buf"
    "unat buf' + 4096 \<le> unat (tn_data (tmp_nodes s n)) \<or> unat (tn_data (tmp_nodes s n)) + 4096 \<le> unat buf'"
  shows "\<exists>s' s''. tmpfs_write f buf len s = Some (Inr (int (unat len), s')) \<and>
    tmp_content s' n = file_write (unat (f_pos (files s f))) (mem_bytes (vf_mem s) (unat buf) (unat len)) (tmp_content s n) \<and>
    tmpfs_read g buf' len s' = Some (Inr (int (unat len), s'')) \<and>
    mem_bytes (vf_mem s'') (unat buf') (unat len) = mem_bytes (vf_mem s) (unat buf) (unat len)"
proof -
  let ?pos = "unat (f_pos (files s f))"
  have m: "min (unat len) (4096 - ?pos) = unat len" using assms(7) by simp
  note W = tmpfs_write_refines [of s f len buf, unfolded assms(2) m, OF assms(1,6) _ assms(8)]
  from W assms(7) obtain s' where s': "tmpfs_write f buf len s = Some (Inr (int (unat len), s'))" "tmp_file_ok s' n"
    "tmp_content s' n = file_write ?pos (mem_bytes (vf_mem s) (unat buf) (unat len)) (tmp_content s n)"
    "tn_data (tmp_nodes s' n) = tn_data (tmp_nodes s n)" "vnodes s' = vnodes s" "files s' g = files s g"
    using assms(4) by auto
  have g: "tmp_of s' g = n" "f_pos (files s' g) = f_pos (files s f)" using s'(5,6) assms(3,5) by (simp_all add: tmp_of_def)
  have "?pos \<le> length (tmp_content s n)" using assms(6) by (simp add: tmp_content_def word_le_nat_alt)
  then have r: "file_read ?pos (unat len) (tmp_content s' n) = mem_bytes (vf_mem s) (unat buf) (unat len)"
    using file_read_write [of ?pos "tmp_content s n" "mem_bytes (vf_mem s) (unat buf) (unat len)"] s'(3) by simp
  from tmpfs_read_refines [of s' g len buf', unfolded g r s'(4)] s'(2) assms(7,9) obtain s'' where
    "tmpfs_read g buf' len s' = Some (Inr (int (unat len), s''))"
    "mem_bytes (vf_mem s'') (unat buf') (unat len) = mem_bytes (vf_mem s) (unat buf) (unat len)" by auto
  with s'(1,3) show ?thesis by blast
qed

text \<open>A file with a buffer of one page, and two handles on it.\<close>

definition tmp_demo :: vfs where
  "tmp_demo = \<lparr>vf_heap = heap4, vnodes = \<lambda>_. \<lparr>v_mount = 0, v_ops = Tmpfs_ops, f_ops = Tmpfs_ops, internal = 8, v_parent = 0\<rparr>,
     files = \<lambda>_. \<lparr>f_vnode = 16, f_pos = 0, fl_ops = Tmpfs_ops, f_flags = 0, ref_count = 1\<rparr>,
     mounts = \<lambda>_. \<lparr>mt_root = 0, mt_fs = Tmpfs_ops\<rparr>,
     tmp_nodes = \<lambda>_. \<lparr>tn_type = FS_FILE, tn_name = [97], tn_entry = \<lambda>_. 0, tn_data = 0x10000, tn_size = 0\<rparr>,
     ram_nodes = \<lambda>_. \<lparr>ri_type = FS_DIR, ri_name = [], ri_entries = [], ri_data = 0, ri_size = 0, ri_vnode = 0\<rparr>,
     vf_mem = \<lambda>a. if a = 0x2001 then 1 else 2, rootfs = 0, fs_list = \<lambda>_. None, uart_vnode = 0, fb_vnode = 0\<rparr>"

theorem tmpfs_write_read_witness:
  "\<exists>s' s''. tmpfs_write 1 0x2001 2 tmp_demo = Some (Inr (2, s')) \<and> tmp_content s' 8 = [1, 2] \<and>
     tmpfs_read 2 0x3000 2 s' = Some (Inr (2, s'')) \<and> mem_bytes (vf_mem s'') 0x3000 2 = [1, 2]"
proof -
  have c: "tmp_file_ok tmp_demo 8" "tmp_of tmp_demo 1 = 8" "tmp_of tmp_demo 2 = 8" "tmp_content tmp_demo 8 = []"
    "f_pos (files tmp_demo g) = 0" "tn_size (tmp_nodes tmp_demo 8) = 0" "tn_data (tmp_nodes tmp_demo 8) = 0x10000" for g
    by (simp_all add: tmp_file_ok_def tmp_of_def tmp_demo_def tmp_content_def mem_bytes_def)
  have "mem_bytes (vf_mem tmp_demo) 0x2001 2 = [1, 2]" by (simp add: mem_bytes_def tmp_demo_def upt_rec)
  with tmpfs_write_read [OF c(1-3), of 2 "0x2001" "0x3000"] c show ?thesis by (simp add: file_write_def)
qed

text \<open>
  The sum of position and length wraps around. With the position inside the file and a length of
  minus the position the bound is not applied, and the whole length is copied.
\<close>

theorem tmpfs_read_overrun:
  assumes "tn_type (tmp_nodes s (tmp_of s f)) = FS_FILE" "0 < f_pos (files s f)" "f_pos (files s f) < tn_size (tmp_nodes s (tmp_of s f))"
  shows "\<exists>s'. tmpfs_read f buf (- f_pos (files s f)) s = Some (Inr (to_int (- f_pos (files s f)), s')) \<and>
    vf_mem s' = memcpy (unat buf) (unat (tn_data (tmp_nodes s (tmp_of s f)) + f_pos (files s f)))
      (2 ^ 64 - unat (f_pos (files s f))) (vf_mem s)"
proof -
  let ?pos = "f_pos (files s f)"
  have "unat (- ?pos) = 2 ^ 64 - unat ?pos"
    using assms(2) unat_add_u64 [of ?pos "- ?pos"] by (auto simp: word_less_nat_alt split: if_splits)
  moreover have "\<not> tn_size (tmp_nodes s (tmp_of s f)) \<le> ?pos" using assms(3) by simp
  ultimately show ?thesis using assms(1) by (simp add: tmpfs_read_def Let_def kret_def)
qed

section \<open>Directories\<close>

lemma free_slot_Some: "free_slot e is = Some i \<Longrightarrow> i \<in> set is \<and> e i = 0"
  by (induction "is") (auto split: if_splits)

lemma find_entry_cong:
  assumes "\<And>i. i \<in> set is \<Longrightarrow> e i \<noteq> 0 \<Longrightarrow>
    tn_name (tmp_nodes s' (internal (vnodes s' (e i)))) = tn_name (tmp_nodes s (internal (vnodes s (e i))))"
  shows "find_entry s' e nm is = find_entry s e nm is"
  using assms by (induction "is") auto

text \<open>Filling a free slot: the new node is found under its name unless the name was there, others as before.\<close>

lemma find_entry_new:
  assumes "i \<in> set is" "e i = 0" "v \<noteq> 0" "tn_name (tmp_nodes s (internal (vnodes s v))) = nm" "find_entry s e nm is = None"
  shows "find_entry s (e(i := v)) nm is = Some v"
  using assms by (induction "is") (auto split: if_splits)

lemma find_entry_other:
  assumes "e i = 0" "v \<noteq> 0" "tn_name (tmp_nodes s (internal (vnodes s v))) \<noteq> nm"
  shows "find_entry s (e(i := v)) nm is = find_entry s e nm is"
  using assms by (induction "is") auto

text \<open>A directory whose nodes, and those of its entries, are live.\<close>

definition dir_ok :: "vfs \<Rightarrow> u64 \<Rightarrow> bool" where
  "dir_ok s dir \<longleftrightarrow> heap_inv (vf_heap s) \<and> live (vf_heap s) dir \<and> live (vf_heap s) (internal (vnodes s dir)) \<and>
     tn_type (tmp_nodes s (internal (vnodes s dir))) = FS_DIR \<and>
     (\<forall>i < TMPFS_MAX_DIR_ENTRY. let e = tn_entry (tmp_nodes s (internal (vnodes s dir))) i in
        e \<noteq> 0 \<longrightarrow> live (vf_heap s) e \<and> live (vf_heap s) (internal (vnodes s e)))"

text \<open>Creating a node: a vnode and a private node at two fresh addresses.\<close>

lemma tmpfs_create_vnode_cases:
  assumes inv: "heap_inv (vf_heap s)"
  obtains (fault) "tmpfs_create_vnode ty s = Some (Inl Null_deref)"
    | (made) v n h where "tmpfs_create_vnode ty s = Some (Inr (v, s\<lparr>vf_heap := h,
        vnodes := (vnodes s)(v := \<lparr>v_mount = 0, v_ops = Tmpfs_ops, f_ops = Tmpfs_ops, internal = n, v_parent = 0\<rparr>),
        tmp_nodes := (tmp_nodes s)(n := \<lparr>tn_type = ty, tn_name = [], tn_entry = \<lambda>_. 0, tn_data = 0, tn_size = 0\<rparr>)\<rparr>))"
      "v \<noteq> 0" "heap_inv h" "\<not> live (vf_heap s) v" "\<not> live (vf_heap s) n" "v \<noteq> n"
      "live h = (live (vf_heap s))(v := True, n := True)"
  using inv
proof (cases rule: kalloc_cases [where len = SIZEOF_VNODE])
  case fault
  then show thesis using that(1) by (simp add: tmpfs_create_vnode_def kbind_Inl)
next
  case (given v h)
  let ?s = "s\<lparr>vf_heap := h, vnodes := (vnodes s)(v := \<lparr>v_mount = 0, v_ops = Tmpfs_ops, f_ops = Tmpfs_ops, internal = 0, v_parent = 0\<rparr>)\<rparr>"
  have "heap_inv (vf_heap ?s)" using given(3) by simp
  then show thesis
  proof (cases rule: kalloc_cases [where len = SIZEOF_TMPFS_VNODE])
    case fault
    then show thesis using that(1) given(1)
      by (simp add: tmpfs_create_vnode_def kbind_Inr kbind_Inl set_vnode_def kop_simps)
  next
    case (given n h')
    then show thesis using that(2) [of v n h'] \<open>kalloc SIZEOF_VNODE s = _\<close> \<open>v \<noteq> 0\<close> \<open>\<not> live (vf_heap s) v\<close> \<open>live h = _\<close>
      by (simp add: tmpfs_create_vnode_def kbind_Inr set_vnode_def set_tmp_def kop_simps split: if_splits)
  qed
qed

text \<open>What a lookup in a directory finds, and what adding an entry does to it.\<close>

definition dir_find :: "vfs \<Rightarrow> u64 \<Rightarrow> bytes \<Rightarrow> u64 option" where
  "dir_find s dir nm = find_entry s (tn_entry (tmp_nodes s (internal (vnodes s dir)))) nm [0..<TMPFS_MAX_DIR_ENTRY]"

lemma tmpfs_lookup_eq: "dir_ok s dir \<Longrightarrow> tmpfs_lookup dir nm s = Some (Inr (dir_find s dir nm, s))"
  by (simp add: tmpfs_lookup_def dir_ok_def dir_find_def kret_def Let_def)

text \<open>New nodes at fresh addresses do not show in the directory.\<close>

lemma dir_fresh:
  assumes ok: "dir_ok s dir" and v: "\<not> live (vf_heap s) v" and n: "\<not> live (vf_heap s) n"
    and s': "vnodes s' = (vnodes s)(v := x)" "tmp_nodes s' = (tmp_nodes s)(n := y)"
  shows "internal (vnodes s' dir) = internal (vnodes s dir)"
    "tmp_nodes s' (internal (vnodes s dir)) = tmp_nodes s (internal (vnodes s dir))"
    "find_entry s' (tn_entry (tmp_nodes s (internal (vnodes s dir)))) nm [0..<TMPFS_MAX_DIR_ENTRY] = dir_find s dir nm"
proof -
  have "dir \<noteq> v" "internal (vnodes s dir) \<noteq> n" using ok v n by (auto simp: dir_ok_def)
  then show "internal (vnodes s' dir) = internal (vnodes s dir)"
    "tmp_nodes s' (internal (vnodes s dir)) = tmp_nodes s (internal (vnodes s dir))" by (simp_all add: s')
  show "find_entry s' (tn_entry (tmp_nodes s (internal (vnodes s dir)))) nm [0..<TMPFS_MAX_DIR_ENTRY] = dir_find s dir nm"
    unfolding dir_find_def
  proof (rule find_entry_cong)
    fix i assume "i \<in> set [0..<TMPFS_MAX_DIR_ENTRY]" and nz: "tn_entry (tmp_nodes s (internal (vnodes s dir))) i \<noteq> 0"
    then have "live (vf_heap s) (tn_entry (tmp_nodes s (internal (vnodes s dir))) i)"
      "live (vf_heap s) (internal (vnodes s (tn_entry (tmp_nodes s (internal (vnodes s dir))) i)))"
      using ok by (auto simp: dir_ok_def Let_def)
    with v n show "tn_name (tmp_nodes s' (internal (vnodes s' (tn_entry (tmp_nodes s (internal (vnodes s dir))) i)))) =
        tn_name (tmp_nodes s (internal (vnodes s (tn_entry (tmp_nodes s (internal (vnodes s dir))) i))))"
      by (auto simp: s')
  qed
qed

lemma tmpfs_add_cases:
  assumes ok: "dir_ok s dir"
  obtains (fault) "tmpfs_add ty dir nm s = Some (Inl Null_deref)"
    | (full) s' where "tmpfs_add ty dir nm s = Some (Inr (None, s'))" "dir_ok s' dir" "\<And>m. dir_find s' dir m = dir_find s dir m"
    | (added) v s' where "tmpfs_add ty dir nm s = Some (Inr (Some v, s'))" "dir_ok s' dir"
      "tn_type (tmp_nodes s' (internal (vnodes s' v))) = ty"
      "dir_find s dir (take 31 nm) = None \<Longrightarrow> dir_find s' dir (take 31 nm) = Some v"
      "\<And>m. m \<noteq> take 31 nm \<Longrightarrow> dir_find s' dir m = dir_find s dir m"
proof -
  let ?d = "internal (vnodes s dir)"
  have hi: "heap_inv (vf_heap s)" and ty: "tn_type (tmp_nodes s ?d) = FS_DIR" using ok by (auto simp: dir_ok_def)
  from hi show thesis
  proof (cases rule: tmpfs_create_vnode_cases [where ty = ty])
    case fault
    then show thesis using that(1) ty by (simp add: tmpfs_add_def kop_simps kbind_Inl)
  next
    case (made v n h)
    let ?v = "\<lparr>v_mount = 0, v_ops = Tmpfs_ops, f_ops = Tmpfs_ops, internal = n, v_parent = 0\<rparr>"
    let ?n = "\<lparr>tn_type = ty, tn_name = take 31 nm, tn_entry = \<lambda>_. 0, tn_data = 0, tn_size = 0\<rparr>"
    let ?s = "s\<lparr>vf_heap := h, vnodes := (vnodes s)(v := ?v), tmp_nodes := (tmp_nodes s)(n := ?n)\<rparr>"
    note F = dir_fresh [OF ok made(4,5), of ?s ?v ?n, simplified]
    have ne: "v \<noteq> dir" "n \<noteq> ?d" using ok made(4,5) by (auto simp: dir_ok_def)
    let ?e = "tn_entry (tmp_nodes s ?d)"
    have ent: "live (vf_heap s) (?e i) \<and> live (vf_heap s) (internal (vnodes s (?e i)))" if "i < 16" "?e i \<noteq> 0" for i
      using ok that by (auto simp: dir_ok_def Let_def TMPFS_MAX_DIR_ENTRY_def)
    show thesis
    proof (cases "free_slot ?e [0..<TMPFS_MAX_DIR_ENTRY]")
      case None
      obtain h1 where h1: "kfree n ?s = Some (Inr ((), ?s\<lparr>vf_heap := h1\<rparr>))" "heap_inv h1" "\<And>a. a \<noteq> n \<Longrightarrow> live h1 a = live h a"
        using kfree_total [of ?s n] made(3) by auto
      obtain h2 where h2: "kfree v (?s\<lparr>vf_heap := h1\<rparr>) = Some (Inr ((), ?s\<lparr>vf_heap := h2\<rparr>))" "heap_inv h2" "\<And>a. a \<noteq> v \<Longrightarrow> live h2 a = live h1 a"
        using kfree_total [of "?s\<lparr>vf_heap := h1\<rparr>" v] h1(2) by auto
      have lv: "live h2 a" if "live (vf_heap s) a" for a
      proof -
        have "a \<noteq> v" "a \<noteq> n" using that made(4,5) by auto
        then show ?thesis using that made(7) h1(3) [of a] h2(3) [of a] by simp
      qed
      show thesis
      proof (rule full)
        show "tmpfs_add ty dir nm s = Some (Inr (None, ?s\<lparr>vf_heap := h2\<rparr>))"
          using made(1) ty ne None h1(1) h2(1)
          by (simp add: tmpfs_add_def kop_simps kbind_Inr TMPFS_MAX_FILE_NAME_def)
        show "dir_ok (?s\<lparr>vf_heap := h2\<rparr>) dir" using ok ne made(4,5) h2(2) lv
          by (auto simp: dir_ok_def Let_def)
        show "dir_find (?s\<lparr>vf_heap := h2\<rparr>) dir m = dir_find s dir m" for m
          using dir_fresh(3) [OF ok made(4,5), of "?s\<lparr>vf_heap := h2\<rparr>" ?v ?n m] ne by (simp add: dir_find_def)
      qed
    next
      case (Some i)
      note I = free_slot_Some [OF Some]
      let ?s' = "?s\<lparr>tmp_nodes := (tmp_nodes ?s)(?d := (tmp_nodes s ?d)\<lparr>tn_entry := ?e(i := v)\<rparr>)\<rparr>"
      have lk: "find_entry ?s' e m js = find_entry ?s e m js" for e m js
        by (rule find_entry_cong) (use ne in simp)
      have nv: "tn_name (tmp_nodes ?s (internal (vnodes ?s v))) = take 31 nm" by simp
      have df: "dir_find ?s' dir m = find_entry ?s (?e(i := v)) m [0..<TMPFS_MAX_DIR_ENTRY]" for m
        using lk [of "?e(i := v)" m "[0..<TMPFS_MAX_DIR_ENTRY]"] ne by (simp add: dir_find_def)
      show thesis
      proof (rule added)
        show "tmpfs_add ty dir nm s = Some (Inr (Some v, ?s'))"
          using made(1) ty ne Some by (simp add: tmpfs_add_def kop_simps kbind_Inr TMPFS_MAX_FILE_NAME_def)
        show "dir_ok ?s' dir" using ok ne made(3-7) I ent
          by (auto simp: dir_ok_def Let_def TMPFS_MAX_DIR_ENTRY_def)
        show "tn_type (tmp_nodes ?s' (internal (vnodes ?s' v))) = ty" using ne by simp
        show "dir_find ?s' dir (take 31 nm) = Some v" if "dir_find s dir (take 31 nm) = None"
          unfolding df using I made(2) nv F(3) [of "take 31 nm"] that by (intro find_entry_new) auto
        show "dir_find ?s' dir m = dir_find s dir m" if "m \<noteq> take 31 nm" for m
          unfolding df using find_entry_other [of ?e i v ?s m] I made(2) nv that F(3) [of m] by simp
      qed
    qed
  qed
qed

text \<open>C26. Creating a file in a directory either runs out of memory (a fault), finds the directory full
  (-1, and every lookup is as before), or succeeds: a lookup of the name, cut to 31 bytes, then finds
  the new file if it found nothing before, and lookups of all other names are unchanged.\<close>

theorem tmpfs_create_lookup:
  assumes "dir_ok s dir"
  shows "\<exists>r. tmpfs_create dir nm s = Some r \<and>
    (case r of
       Inl e \<Rightarrow> e = Null_deref
     | Inr (None, s') \<Rightarrow> dir_ok s' dir \<and> (\<forall>m. tmpfs_lookup dir m s' = Some (Inr (dir_find s dir m, s')))
     | Inr (Some v, s') \<Rightarrow> dir_ok s' dir \<and> tn_type (tmp_nodes s' (internal (vnodes s' v))) = FS_FILE \<and>
         (dir_find s dir (take 31 nm) = None \<longrightarrow> tmpfs_lookup dir (take 31 nm) s' = Some (Inr (Some v, s'))) \<and>
         (\<forall>m. m \<noteq> take 31 nm \<longrightarrow> tmpfs_lookup dir m s' = Some (Inr (dir_find s dir m, s'))))"
  using assms
proof (cases rule: tmpfs_add_cases [where ty = FS_FILE and nm = nm])
  case fault
  then show ?thesis by (simp add: tmpfs_create_def)
next
  case (full s')
  then show ?thesis by (simp add: tmpfs_create_def tmpfs_lookup_eq)
next
  case (added v s')
  then show ?thesis by (simp add: tmpfs_create_def tmpfs_lookup_eq)
qed

text \<open>An empty directory at the address of a live region.\<close>

definition dir_demo :: "heap \<Rightarrow> u64 \<Rightarrow> vfs" where
  "dir_demo h p = tmp_demo\<lparr>vf_heap := h, vnodes := \<lambda>_. \<lparr>v_mount = 0, v_ops = Tmpfs_ops, f_ops = Tmpfs_ops, internal = p, v_parent = 0\<rparr>,
     tmp_nodes := \<lambda>_. \<lparr>tn_type = FS_DIR, tn_name = [], tn_entry = \<lambda>_. 0, tn_data = 0, tn_size = 0\<rparr>\<rparr>"

theorem tmpfs_create_lookup_witness:
  "\<exists>p h r. allocate 8192 heap4 = Some (p, h) \<and> tmpfs_create p [97, 98] (dir_demo h p) = Some r \<and>
     (case r of Inl e \<Rightarrow> e = Null_deref
      | Inr (None, s') \<Rightarrow> tmpfs_lookup p [97, 98] s' = Some (Inr (None, s'))
      | Inr (Some v, s') \<Rightarrow> tmpfs_lookup p [97, 98] s' = Some (Inr (Some v, s')))"
proof -
  obtain p h where al: "allocate 8192 heap4 = Some (p, h)" "p \<noteq> 0" using heap4_alloc by blast
  have lv: "heap_inv h" "live h p"
    using conjunct1 [OF heap4_inv] al by (cases rule: allocate_cases [where len = 8192]; auto simp: live_def)+
  have "dir_ok (dir_demo h p) p" using lv by (simp add: dir_ok_def dir_demo_def tmp_demo_def)
  moreover have "dir_find (dir_demo h p) p m = None" for m
  proof -
    have "find_entry s (\<lambda>_. 0) m js = None" for s js by (induction js) auto
    then show ?thesis by (simp add: dir_find_def dir_demo_def)
  qed
  ultimately show ?thesis using tmpfs_create_lookup [of "dir_demo h p" p "[97, 98]"] al(1)
    by (auto split: sum.splits option.splits)
qed

end
