(* ===== verification/Ramfs.thy ===== *)
theory Ramfs
  imports Tmpfs
begin

text \<open>
  \<open>src/src/ramfs.c\<close>: the read-only file system over the initial ramdisk. Mounting it walks the cpio
  archive in memory and builds a tree of nodes; the contents stay in the archive. The intrusive list
  of a directory is the list of its entries in order (\<open>list.h\<close> is the subject of \<open>List_Head\<close>). The
  address of the archive is an argument.
\<close>

section \<open>Nodes\<close>

definition RAMFS_MAX_FILE_NAME :: nat where "RAMFS_MAX_FILE_NAME = 256"
definition SIZEOF_RAMFS_INODE :: u64 where "SIZEOF_RAMFS_INODE = 320"
definition SIZEOF_DIR_ENTRY :: u64 where "SIZEOF_DIR_ENTRY = 24"

definition set_ram :: "u64 \<Rightarrow> ramfs_inode \<Rightarrow> unit kop" where
  "set_ram n x = kmod (\<lambda>s. s\<lparr>ram_nodes := (ram_nodes s)(n := x)\<rparr>)"

definition ramfs_create_vnode :: "fsnode_type \<Rightarrow> bytes \<Rightarrow> u64 kop" where
  "ramfs_create_vnode ty nm =
     kbind (kalloc SIZEOF_VNODE) (\<lambda>v.
     kbind (set_vnode v \<lparr>v_mount = 0, v_ops = Ramfs_ops, f_ops = Ramfs_ops, internal = 0, v_parent = 0\<rparr>) (\<lambda>_.
     kbind (kalloc SIZEOF_RAMFS_INODE) (\<lambda>n.
     kbind (set_ram n \<lparr>ri_type = ty, ri_name = take (RAMFS_MAX_FILE_NAME - 1) nm, ri_entries = [], ri_data = 0,
        ri_size = 0, ri_vnode = v\<rparr>) (\<lambda>_.
     kbind (kmod (\<lambda>s. s\<lparr>vnodes := (vnodes s)(v := (vnodes s v)\<lparr>internal := n\<rparr>)\<rparr>)) (\<lambda>_.
     kret v)))))"

section \<open>File operations\<close>

fun find_name :: "vfs \<Rightarrow> bytes \<Rightarrow> u64 list \<Rightarrow> u64 option" where
  "find_name s nm [] = None"
| "find_name s nm (v # vs) =
     (if ri_name (ram_nodes s (internal (vnodes s v))) = nm then Some v else find_name s nm vs)"

definition ramfs_lookup :: "u64 \<Rightarrow> bytes \<Rightarrow> u64 option kop" where
  "ramfs_lookup dir nm s =
     (let inode = ram_nodes s (internal (vnodes s dir))
      in if ri_type inode \<noteq> FS_DIR then kret None s else kret (find_name s nm (ri_entries inode)) s)"

definition ramfs_open :: "u64 \<Rightarrow> u64 \<Rightarrow> int kop" where
  "ramfs_open file_node f =
     kbind (kmod (\<lambda>s. s\<lparr>files := (files s)(f := (files s f)\<lparr>f_vnode := file_node, fl_ops := Ramfs_ops, f_pos := 0\<rparr>)\<rparr>))
       (\<lambda>_. kret 0)"

definition ramfs_close :: "u64 \<Rightarrow> int kop" where
  "ramfs_close f = kret 0"

definition ramfs_read :: "u64 \<Rightarrow> u64 \<Rightarrow> u64 \<Rightarrow> int kop" where
  "ramfs_read f buf len s =
     (let inode = ram_nodes s (internal (vnodes s (f_vnode (files s f)))); pos = f_pos (files s f)
      in if ri_type inode \<noteq> FS_FILE then kret (- 1) s
         else if pos \<ge> ri_size inode then kret 0 s
         else
           let len = if pos + len > ri_size inode then ri_size inode - pos else len
           in kret (to_int len)
                (s\<lparr>vf_mem := memcpy (unat buf) (unat (ri_data inode + pos)) (unat len) (vf_mem s),
                   files := (files s)(f := (files s f)\<lparr>f_pos := pos + len\<rparr>)\<rparr>))"

definition ramfs_write :: "u64 \<Rightarrow> u64 \<Rightarrow> u64 \<Rightarrow> int kop" where
  "ramfs_write f buf len = kret (- 1)"

definition ramfs_create :: "u64 \<Rightarrow> bytes \<Rightarrow> u64 option kop" where
  "ramfs_create dir nm = kret None"

definition ramfs_mkdir :: "u64 \<Rightarrow> bytes \<Rightarrow> u64 option kop" where
  "ramfs_mkdir dir nm = kret None"

section \<open>Mounting the archive\<close>

text \<open>\<open>hextoi\<close> of this file also reads lower-case digits.\<close>

fun ram_hextoi_loop :: "mem \<Rightarrow> nat \<Rightarrow> nat \<Rightarrow> u32 \<Rightarrow> u32" where
  "ram_hextoi_loop m p 0 r = r"
| "ram_hextoi_loop m p (Suc n) r =
     (let r = push_bit 4 r in
      if m p \<ge> 97 then ram_hextoi_loop m (p + 1) n (r + (ucast (m p) - 97 + 10))
      else if m p \<ge> 65 then ram_hextoi_loop m (p + 1) n (r + (ucast (m p) - 65 + 10))
      else if m p \<ge> 48 then ram_hextoi_loop m (p + 1) n (r + (ucast (m p) - 48))
      else ram_hextoi_loop m p n r)"

definition ram_hextoi :: "mem \<Rightarrow> nat \<Rightarrow> u32" where
  "ram_hextoi m p = ram_hextoi_loop m p 8 0"

definition ram_align_up :: "u32 \<Rightarrow> u32 \<Rightarrow> u32" where
  "ram_align_up n a = (n + a - 1) AND NOT (a - 1)"

text \<open>A comparison with a string literal, and the bytes \<open>strncpy\<close> takes from a C string.\<close>

definition cstr_is :: "mem \<Rightarrow> nat \<Rightarrow> bytes \<Rightarrow> bool" where
  "cstr_is m p bs \<longleftrightarrow> mem_bytes m p (length bs) = bs \<and> m (p + length bs) = 0"

fun cstr_take :: "mem \<Rightarrow> nat \<Rightarrow> nat \<Rightarrow> bytes" where
  "cstr_take m p 0 = []"
| "cstr_take m p (Suc n) = (if m p = 0 then [] else m p # cstr_take m (p + 1) n)"

text \<open>The tokens \<open>strtok_r\<close> delivers for the delimiter \<open>/\<close>.\<close>

function tokens :: "bytes \<Rightarrow> bytes list" where
  "tokens p =
     (let q = dropWhile (\<lambda>c. c = 47) p
      in if q = [] then [] else takeWhile (\<lambda>c. c \<noteq> 47) q # tokens (dropWhile (\<lambda>c. c \<noteq> 47) q))"
  by pat_completeness auto
termination
proof (relation "measure length")
  fix p q :: bytes
  assume q: "q = dropWhile (\<lambda>c. c = 47) p" "q \<noteq> []"
  from q(2) obtain c cs where c: "q = c # cs" by (cases q) auto
  have "hd q \<noteq> 47" using hd_dropWhile [of "\<lambda>c. c = 47" p] q unfolding q(1) [symmetric] by simp
  then have "c \<noteq> 47" by (simp add: c)
  then have "length (dropWhile (\<lambda>c. c \<noteq> 47) q) < length q" using c length_dropWhile_le [of _ cs] by (simp add: le_imp_less_Suc)
  moreover have "length q \<le> length p" unfolding q(1) by (rule length_dropWhile_le)
  ultimately show "(dropWhile (\<lambda>c. c \<noteq> 47) q, p) \<in> measure length" by simp
qed simp

declare tokens.simps [simp del]

text \<open>Appending an entry to a directory.\<close>

definition add_entry :: "u64 \<Rightarrow> u64 \<Rightarrow> unit kop" where
  "add_entry dir v =
     kbind (kalloc SIZEOF_DIR_ENTRY) (\<lambda>_.
     kmod (\<lambda>s. let n = internal (vnodes s dir)
               in s\<lparr>ram_nodes := (ram_nodes s)(n := (ram_nodes s n)\<lparr>ri_entries := ri_entries (ram_nodes s n) @ [v]\<rparr>)\<rparr>))"

definition set_parent :: "u64 \<Rightarrow> u64 \<Rightarrow> unit kop" where
  "set_parent v d = kmod (\<lambda>s. s\<lparr>vnodes := (vnodes s)(v := (vnodes s v)\<lparr>v_parent := d\<rparr>)\<rparr>)"

text \<open>The token loop: descend, creating directories on the way and the file or directory at the end.\<close>

fun place :: "u32 \<Rightarrow> u64 \<Rightarrow> u64 \<Rightarrow> bytes list \<Rightarrow> u64 \<Rightarrow> unit kop" where
  "place mode data len [] cur = kret ()"
| "place mode data len (t # ts) cur =
     kbind (ramfs_lookup cur t) (\<lambda>r.
     case r of
       Some nxt \<Rightarrow> place mode data len ts nxt
     | None \<Rightarrow>
         if ts \<noteq> [] \<or> mode AND 0x4000 \<noteq> 0
         then
           kbind (ramfs_create_vnode FS_DIR t) (\<lambda>v.
           kbind (set_parent v cur) (\<lambda>_.
           kbind (add_entry cur v) (\<lambda>_. place mode data len ts v)))
         else
           kbind (ramfs_create_vnode FS_FILE t) (\<lambda>v.
           kbind (set_parent v cur) (\<lambda>_.
           kbind (kmod (\<lambda>s. let n = internal (vnodes s v)
                            in s\<lparr>ram_nodes := (ram_nodes s)(n := (ram_nodes s n)\<lparr>ri_data := data, ri_size := len\<rparr>)\<rparr>)) (\<lambda>_.
           kbind (add_entry cur v) (\<lambda>_. place mode data len ts v)))))"

text \<open>The strings \<open>"070701"\<close> and \<open>"TRAILER!!!"\<close>, and the walk over the archive.\<close>

definition cpio_magic :: bytes where
  "cpio_magic = [48, 55, 48, 55, 48, 49]"

definition cpio_trailer :: bytes where
  "cpio_trailer = [84, 82, 65, 73, 76, 69, 82, 33, 33, 33]"

definition ram_next :: "mem \<Rightarrow> nat \<Rightarrow> nat" where
  "ram_next m p = p + unat (ram_align_up (110 + ram_hextoi m (p + 94)) 4 + ram_align_up (ram_hextoi m (p + 54)) 4)"

definition ram_entry :: "u64 \<Rightarrow> nat \<Rightarrow> unit kop" where
  "ram_entry root p s =
     (let m = vf_mem s; name = p + 110
      in if cstr_is m name [46] then kret () s
         else place (ram_hextoi m (p + 14)) (of_nat (p + unat (ram_align_up (110 + ram_hextoi m (p + 94)) 4)))
                (scast (ram_hextoi m (p + 54))) (tokens (cstr_take m name 255)) root s)"

partial_function (option) ram_walk :: "u64 \<Rightarrow> nat \<Rightarrow> vfs \<Rightarrow> (kernel_fault + unit \<times> vfs) option" where
  "ram_walk root p s =
     (if mem_bytes (vf_mem s) p 6 \<noteq> cpio_magic then Some (Inr ((), s))
      else if cstr_is (vf_mem s) (p + 110) cpio_trailer then Some (Inr ((), s))
      else Option.bind (ram_entry root p s)
             (\<lambda>r. if isl r then Some (Inl (projl r)) else ram_walk root (ram_next (vf_mem s) p) (snd (projr r))))"

definition ramfs_setup_mount :: "u64 \<Rightarrow> fs_ops \<Rightarrow> u64 \<Rightarrow> int kop" where
  "ramfs_setup_mount initrd fs mnt =
     (let start = if initrd \<noteq> 0 \<and> initrd < PAGE_OFFSET then initrd + PAGE_OFFSET else initrd
      in if start = 0 then kret (- 1)
         else
           kbind (ramfs_create_vnode FS_DIR [47]) (\<lambda>root.
           kbind (kmod (\<lambda>s. s\<lparr>mounts := (mounts s)(mnt := \<lparr>mt_root = root, mt_fs = fs\<rparr>)\<rparr>)) (\<lambda>_.
           kbind (ram_walk root (unat start)) (\<lambda>_. kret 0))))"

end
