(* ===== verification/Devfs.thy ===== *)
theory Devfs
  imports Ramfs
begin

text \<open>
  \<open>src/src/devfs.c\<close>: the device files \<open>uart\<close> and \<open>fb\<close>. What the console, the scheduler and the
  framebuffer do (\<open>uart_getc_nonblocking\<close>, \<open>uart_putc\<close>, \<open>schedule\<close>, \<open>video_get_base\<close>, \<open>video_flush\<close>,
  \<open>video_get_info\<close>) are parameters, collected in a record. \<open>FB_IOCTL_GET_INFO\<close> and the addresses of
  the string literals kept in \<open>internal\<close> are too.
\<close>

record dev_io =
  io_getc :: "int kop"
  io_putc :: "u8 \<Rightarrow> unit kop"
  io_schedule :: "unit kop"
  io_fb_base :: u64
  io_flush :: "u64 \<Rightarrow> u64 \<Rightarrow> unit kop"
  io_info :: "u64 \<Rightarrow> unit kop"
  io_get_info_request :: u64
  lit_root :: u64
  lit_uart :: u64
  lit_fb :: u64

definition devfs_create_vnode :: "u64 \<Rightarrow> u64 kop" where
  "devfs_create_vnode nm =
     kbind (kalloc SIZEOF_VNODE) (\<lambda>v.
     kbind (set_vnode v \<lparr>v_mount = 0, v_ops = Devfs_ops, f_ops = Devfs_ops, internal = nm, v_parent = 0\<rparr>) (\<lambda>_.
     kret v))"

definition devfs_setup_mount :: "dev_io \<Rightarrow> fs_ops \<Rightarrow> u64 \<Rightarrow> int kop" where
  "devfs_setup_mount io fs mnt =
     kbind (devfs_create_vnode (lit_root io)) (\<lambda>v.
     kbind (kmod (\<lambda>s. s\<lparr>mounts := (mounts s)(mnt := \<lparr>mt_root = v, mt_fs = fs\<rparr>)\<rparr>)) (\<lambda>_. kret 0))"

text \<open>The names \<open>"uart"\<close> and \<open>"fb"\<close>; a device node is made at its first lookup.\<close>

definition uart_name :: bytes where "uart_name = [117, 97, 114, 116]"
definition fb_name :: bytes where "fb_name = [102, 98]"

definition devfs_lookup :: "dev_io \<Rightarrow> u64 \<Rightarrow> bytes \<Rightarrow> u64 option kop" where
  "devfs_lookup io dir nm s =
     (if nm = uart_name
      then if uart_vnode s = 0
           then kbind (devfs_create_vnode (lit_uart io)) (\<lambda>v.
                kbind (kmod (\<lambda>s. s\<lparr>uart_vnode := v\<rparr>)) (\<lambda>_. kret (Some v))) s
           else kret (Some (uart_vnode s)) s
      else if nm = fb_name
      then if fb_vnode s = 0
           then kbind (devfs_create_vnode (lit_fb io)) (\<lambda>v.
                kbind (kmod (\<lambda>s. s\<lparr>fb_vnode := v\<rparr>)) (\<lambda>_. kret (Some v))) s
           else kret (Some (fb_vnode s)) s
      else kret None s)"

definition devfs_open :: "u64 \<Rightarrow> u64 \<Rightarrow> int kop" where
  "devfs_open file_node f =
     kbind (kmod (\<lambda>s. s\<lparr>files := (files s)(f := (files s f)\<lparr>f_vnode := file_node, fl_ops := Devfs_ops, f_pos := 0\<rparr>)\<rparr>))
       (\<lambda>_. kret 0)"

definition devfs_close :: "u64 \<Rightarrow> int kop" where
  "devfs_close f = kret 0"

text \<open>Waiting for the first character, yielding the processor in between.\<close>

partial_function (option) devfs_wait :: "dev_io \<Rightarrow> vfs \<Rightarrow> (kernel_fault + int \<times> vfs) option" where
  "devfs_wait io s =
     Option.bind (io_getc io s) (\<lambda>r.
       if isl r then Some (Inl (projl r))
       else if fst (projr r) \<noteq> - 1 then Some r
       else Option.bind (io_schedule io (snd (projr r))) (\<lambda>r.
              if isl r then Some (Inl (projl r)) else devfs_wait io (snd (projr r))))"

definition put_byte :: "u64 \<Rightarrow> u8 \<Rightarrow> unit kop" where
  "put_byte a c = kmod (\<lambda>s. s\<lparr>vf_mem := (vf_mem s)(unat a := c)\<rparr>)"

text \<open>Reading on without waiting; \<open>n\<close> is \<open>len - count\<close>.\<close>

fun devfs_more :: "dev_io \<Rightarrow> u64 \<Rightarrow> u64 \<Rightarrow> nat \<Rightarrow> u64 kop" where
  "devfs_more io buf cnt 0 = kret cnt"
| "devfs_more io buf cnt (Suc n) =
     kbind (io_getc io) (\<lambda>c.
     if c = - 1 then kret cnt
     else kbind (put_byte (buf + cnt) (of_int c)) (\<lambda>_. devfs_more io buf (cnt + 1) n))"

definition devfs_read :: "dev_io \<Rightarrow> u64 \<Rightarrow> u64 \<Rightarrow> u64 \<Rightarrow> int kop" where
  "devfs_read io f buf len =
     (if len = 0 then kret 0
      else
        kbind (devfs_wait io) (\<lambda>c.
        kbind (put_byte buf (of_int c)) (\<lambda>_.
        kbind (devfs_more io buf 1 (unat len - 1)) (\<lambda>cnt. kret (to_int cnt)))))"

fun putc_all :: "dev_io \<Rightarrow> nat \<Rightarrow> nat \<Rightarrow> unit kop" where
  "putc_all io p 0 = kret ()"
| "putc_all io p (Suc n) = kbind (kget (\<lambda>s. vf_mem s p)) (\<lambda>c. kbind (io_putc io c) (\<lambda>_. putc_all io (p + 1) n))"

definition devfs_write :: "dev_io \<Rightarrow> u64 \<Rightarrow> u64 \<Rightarrow> u64 \<Rightarrow> int kop" where
  "devfs_write io f buf len s =
     (if f_vnode (files s f) = fb_vnode s
      then
        let dst = io_fb_base io + f_pos (files s f)
        in kbind (kmod (\<lambda>s. s\<lparr>vf_mem := memcpy (unat dst) (unat buf) (unat len) (vf_mem s)\<rparr>)) (\<lambda>_.
           kbind (io_flush io dst len) (\<lambda>_.
           kbind (kmod (\<lambda>s. s\<lparr>files := (files s)(f := (files s f)\<lparr>f_pos := f_pos (files s f) + len\<rparr>)\<rparr>)) (\<lambda>_.
           kret (to_int len)))) s
      else kbind (putc_all io (unat buf) (unat len)) (\<lambda>_. kret (to_int len)) s)"

definition devfs_lseek64 :: "u64 \<Rightarrow> u64 \<Rightarrow> int \<Rightarrow> u64 kop" where
  "devfs_lseek64 f offset whence =
     (if whence = 0
      then kbind (kmod (\<lambda>s. s\<lparr>files := (files s)(f := (files s f)\<lparr>f_pos := offset\<rparr>)\<rparr>)) (\<lambda>_. kret offset)
      else kret (- 1))"

definition devfs_ioctl :: "dev_io \<Rightarrow> u64 \<Rightarrow> u64 \<Rightarrow> u64 \<Rightarrow> int kop" where
  "devfs_ioctl io f request a s =
     (if f_vnode (files s f) = fb_vnode s \<and> request = io_get_info_request io
      then kbind (io_info io a) (\<lambda>_. kret 0) s
      else kret (- 1) s)"

text \<open>
  Writing to the framebuffer does not check the end of it: the position set by \<open>lseek64\<close> is used as
  it is, so the destination of the copy can be any address.
\<close>

lemma devfs_lseek_write_anywhere:
  assumes "io_flush io = (\<lambda>_ _. kret ())" "f_vnode (files s f) = fb_vnode s" "0 < len"
    and sep: "unat buf + unat len \<le> unat a \<or> unat a + unat len \<le> unat buf"
  shows "\<exists>s'. kbind (devfs_lseek64 f (a - io_fb_base io) 0) (\<lambda>_. devfs_write io f buf len) s = Some (Inr (to_int len, s')) \<and>
    vf_mem s' (unat a) = vf_mem s (unat buf)"
proof -
  have "0 < unat len" using assms(3) by (simp add: word_less_nat_alt)
  with memcpy_correct [OF sep, of "vf_mem s"] assms(1,2) show ?thesis
    by (simp add: devfs_lseek64_def devfs_write_def kop_simps kbind_Inr Let_def)
qed

end
