(* ===== verification/Vfs.thy ===== *)
theory Vfs
  imports Devfs
begin

text \<open>
  \<open>src/src/vfs.c\<close>: path resolution over mounted file systems, open files and their operations. A call
  through a table of operations becomes a case distinction on the table; the null entries of a table
  (\<open>create\<close> and \<open>mkdir\<close> of the device file system, \<open>lseek64\<close> and \<open>ioctl\<close> of the others) are faults
  or tested as in the code. \<open>cwd\<close> is the working directory of the current thread, 0 without one. The
  parameters of the file systems are in a record.
\<close>

record fs_env =
  fe_io :: dev_io
  fe_initrd :: u64

definition PATH_MAX :: nat where "PATH_MAX = 255"
definition MAX_FS :: nat where "MAX_FS = 16"
definition O_CREAT :: u32 where "O_CREAT = 64"
definition SIZEOF_FILE :: u64 where "SIZEOF_FILE = 32"
definition SIZEOF_MOUNT :: u64 where "SIZEOF_MOUNT = 16"
definition SIZEOF_FILESYSTEM :: u64 where "SIZEOF_FILESYSTEM = 16"

section \<open>The tables of operations\<close>

definition op_lookup :: "fs_env \<Rightarrow> fs_ops \<Rightarrow> u64 \<Rightarrow> bytes \<Rightarrow> u64 option kop" where
  "op_lookup E ops dir nm =
     (case ops of Tmpfs_ops \<Rightarrow> tmpfs_lookup dir nm | Ramfs_ops \<Rightarrow> ramfs_lookup dir nm
      | Devfs_ops \<Rightarrow> devfs_lookup (fe_io E) dir nm | No_ops \<Rightarrow> kfault)"

definition op_create :: "fs_ops \<Rightarrow> u64 \<Rightarrow> bytes \<Rightarrow> u64 option kop" where
  "op_create ops dir nm =
     (case ops of Tmpfs_ops \<Rightarrow> tmpfs_create dir nm | Ramfs_ops \<Rightarrow> ramfs_create dir nm | Devfs_ops \<Rightarrow> kfault | No_ops \<Rightarrow> kfault)"

definition op_mkdir :: "fs_ops \<Rightarrow> u64 \<Rightarrow> bytes \<Rightarrow> u64 option kop" where
  "op_mkdir ops dir nm =
     (case ops of Tmpfs_ops \<Rightarrow> tmpfs_mkdir dir nm | Ramfs_ops \<Rightarrow> ramfs_mkdir dir nm | Devfs_ops \<Rightarrow> kfault | No_ops \<Rightarrow> kfault)"

definition op_open :: "fs_ops \<Rightarrow> u64 \<Rightarrow> u64 \<Rightarrow> int kop" where
  "op_open ops v f =
     (case ops of Tmpfs_ops \<Rightarrow> tmpfs_open v f | Ramfs_ops \<Rightarrow> ramfs_open v f | Devfs_ops \<Rightarrow> devfs_open v f | No_ops \<Rightarrow> kfault)"

definition op_close :: "fs_ops \<Rightarrow> u64 \<Rightarrow> int kop" where
  "op_close ops f =
     (case ops of Tmpfs_ops \<Rightarrow> tmpfs_close f | Ramfs_ops \<Rightarrow> ramfs_close f | Devfs_ops \<Rightarrow> devfs_close f | No_ops \<Rightarrow> kfault)"

definition op_read :: "fs_env \<Rightarrow> fs_ops \<Rightarrow> u64 \<Rightarrow> u64 \<Rightarrow> u64 \<Rightarrow> int kop" where
  "op_read E ops f buf len =
     (case ops of Tmpfs_ops \<Rightarrow> tmpfs_read f buf len | Ramfs_ops \<Rightarrow> ramfs_read f buf len
      | Devfs_ops \<Rightarrow> devfs_read (fe_io E) f buf len | No_ops \<Rightarrow> kfault)"

definition op_write :: "fs_env \<Rightarrow> fs_ops \<Rightarrow> u64 \<Rightarrow> u64 \<Rightarrow> u64 \<Rightarrow> int kop" where
  "op_write E ops f buf len =
     (case ops of Tmpfs_ops \<Rightarrow> tmpfs_write f buf len | Ramfs_ops \<Rightarrow> ramfs_write f buf len
      | Devfs_ops \<Rightarrow> devfs_write (fe_io E) f buf len | No_ops \<Rightarrow> kfault)"

definition op_setup_mount :: "fs_env \<Rightarrow> fs_ops \<Rightarrow> u64 \<Rightarrow> int kop" where
  "op_setup_mount E ops mnt =
     (case ops of Tmpfs_ops \<Rightarrow> tmpfs_setup_mount ops mnt | Ramfs_ops \<Rightarrow> ramfs_setup_mount (fe_initrd E) ops mnt
      | Devfs_ops \<Rightarrow> devfs_setup_mount (fe_io E) ops mnt | No_ops \<Rightarrow> kfault)"

section \<open>Path resolution\<close>

partial_function (option) cross_mounts :: "vfs \<Rightarrow> u64 \<Rightarrow> u64 option" where
  "cross_mounts s node =
     (if v_mount (vnodes s node) \<noteq> 0 then cross_mounts s (mt_root (mounts s (v_mount (vnodes s node)))) else Some node)"

definition cross :: "u64 \<Rightarrow> u64 kop" where
  "cross node s = map_option (\<lambda>n. Inr (n, s)) (cross_mounts s node)"

text \<open>One component: \<open>.\<close>, \<open>..\<close>, nothing between two slashes, or a name. -1 is \<open>None\<close>.\<close>

definition step :: "fs_env \<Rightarrow> u64 \<Rightarrow> bytes \<Rightarrow> u64 option kop" where
  "step E node nm =
     (if nm = [46] then kret (Some node)
      else if nm = [46, 46]
      then kbind (kget (\<lambda>s. v_parent (vnodes s node))) (\<lambda>p. kret (Some (if p \<noteq> 0 then p else node)))
      else if nm \<noteq> []
      then
        kbind (kget (\<lambda>s. v_ops (vnodes s node))) (\<lambda>ops.
        kbind (op_lookup E ops node nm) (\<lambda>r.
        case r of
          None \<Rightarrow> kret None
        | Some nxt \<Rightarrow>
            kbind (kmod (\<lambda>s. if v_parent (vnodes s nxt) = 0 \<and> nxt \<noteq> mt_root (mounts s (rootfs s))
                             then s\<lparr>vnodes := (vnodes s)(nxt := (vnodes s nxt)\<lparr>v_parent := node\<rparr>)\<rparr> else s)) (\<lambda>_.
            kret (Some nxt))))
      else kret (Some node))"

text \<open>
  The loop over the path. A component of 255 bytes or more overruns the buffer \<open>component\<close>.
\<close>

function lookup_loop :: "fs_env \<Rightarrow> u64 \<Rightarrow> bytes \<Rightarrow> u64 option kop" where
  "lookup_loop E node path =
     (if path = [] then kret (Some node)
      else
        kbind (cross node) (\<lambda>node.
        let comp = takeWhile (\<lambda>c. c \<noteq> 47) path
        in if length comp \<ge> PATH_MAX then (\<lambda>s. Some (Inl Buffer_overrun))
           else kbind (step E node comp) (\<lambda>r.
             case r of
               None \<Rightarrow> kret None
             | Some node \<Rightarrow> lookup_loop E node (dropWhile (\<lambda>c. c = 47) (dropWhile (\<lambda>c. c \<noteq> 47) path)))))"
  by pat_completeness auto
termination
proof (relation "measure (\<lambda>(E, node, path). length path)")
  fix E :: fs_env and node x2 :: u64 and path :: bytes
  assume "path \<noteq> []"
  then obtain c cs where p: "path = c # cs" by (cases path) auto
  have "length (dropWhile (\<lambda>c. c = 47) (dropWhile (\<lambda>c. c \<noteq> 47) path)) < length path"
    using length_dropWhile_le [of "\<lambda>c. c = 47" "dropWhile (\<lambda>c. c \<noteq> 47) cs"] length_dropWhile_le [of "\<lambda>c. c \<noteq> 47" cs]
      length_dropWhile_le [of "\<lambda>c. c = 47" cs] by (auto simp: p less_Suc_eq_le)
  then show "((E, x2, dropWhile (\<lambda>c. c = 47) (dropWhile (\<lambda>c. c \<noteq> 47) path)), E, node, path) \<in> measure (\<lambda>(E, node, path). length path)"
    by simp
qed simp

declare lookup_loop.simps [simp del]

definition vfs_lookup :: "fs_env \<Rightarrow> u64 \<Rightarrow> bytes \<Rightarrow> u64 option kop" where
  "vfs_lookup E cwd path s =
     (if rootfs s = 0 then kret None s
      else
        let root = mt_root (mounts s (rootfs s));
            node = if path \<noteq> [] \<and> hd path = 47 then root else if cwd \<noteq> 0 then cwd else root;
            rest = if path \<noteq> [] \<and> hd path = 47 then dropWhile (\<lambda>c. c = 47) path else path
        in kbind (lookup_loop E node rest) (\<lambda>r.
           case r of
             None \<Rightarrow> kret None
           | Some node \<Rightarrow> if node = 0 then kret (Some 0) else kbind (cross node) (\<lambda>n. kret (Some n))) s)"

text \<open>
  \<open>get_parent_and_child\<close>. The length of the whole path indexes a buffer of 255 bytes that holds its
  first 254: a path of 255 bytes is cut, a longer one reads (and may write) outside of the buffer.
\<close>

fun strip_slashes :: "bytes \<Rightarrow> bytes" where
  "strip_slashes p = (if length p > 1 \<and> last p = 47 then strip_slashes (butlast p) else p)"

declare strip_slashes.simps [simp del]

definition get_parent_and_child :: "bytes \<Rightarrow> (bytes \<times> bytes) option" where
  "get_parent_and_child path =
     (if length path > PATH_MAX then None
      else
        let temp = if length path < PATH_MAX then strip_slashes path else take (PATH_MAX - 1) path;
            child = rev (takeWhile (\<lambda>c. c \<noteq> 47) (rev temp));
            dir = rev (dropWhile (\<lambda>c. c \<noteq> 47) (rev temp))
        in Some (if dir = [] then ([46], temp) else if length dir = 1 then ([47], child) else (butlast dir, child)))"

definition kpath :: "bytes \<Rightarrow> (bytes \<Rightarrow> bytes \<Rightarrow> 'a kop) \<Rightarrow> 'a kop" where
  "kpath path f =
     (case get_parent_and_child path of
        None \<Rightarrow> (\<lambda>s. Some (Inl Buffer_overrun))
      | Some (d, c) \<Rightarrow> f d c)"

section \<open>Files\<close>

text \<open>\<open>vfs_open\<close> returns the new file, or \<open>None\<close> for -1.\<close>

definition open_node :: "u32 \<Rightarrow> u64 \<Rightarrow> u64 option kop" where
  "open_node flags v =
     kbind (kalloc SIZEOF_FILE) (\<lambda>f.
     kbind (kget (\<lambda>s. f_ops (vnodes s v))) (\<lambda>ops.
     kbind (set_file f \<lparr>f_vnode = v, f_pos = 0, fl_ops = ops, f_flags = flags, ref_count = 1\<rparr>) (\<lambda>_.
     kbind (op_open ops v f) (\<lambda>r. kret (if r = 0 then Some f else None)))))"

definition vfs_open :: "fs_env \<Rightarrow> u64 \<Rightarrow> bytes \<Rightarrow> u32 \<Rightarrow> u64 option kop" where
  "vfs_open E cwd path flags =
     kbind (vfs_lookup E cwd path) (\<lambda>r.
     case r of
       Some v \<Rightarrow> open_node flags v
     | None \<Rightarrow>
         if flags AND O_CREAT = 0 then kret None
         else
           kpath path (\<lambda>dirname filename.
           kbind (vfs_lookup E cwd dirname) (\<lambda>r.
           case r of
             None \<Rightarrow> kret None
           | Some d \<Rightarrow>
               kbind (kget (\<lambda>s. v_ops (vnodes s d))) (\<lambda>ops.
               kbind (op_create ops d filename) (\<lambda>r.
               case r of
                 None \<Rightarrow> kret None
               | Some v \<Rightarrow> kbind (set_parent v d) (\<lambda>_. open_node flags v))))))"

definition vfs_close :: "u64 \<Rightarrow> int kop" where
  "vfs_close f =
     kbind (kmod (\<lambda>s. s\<lparr>files := (files s)(f := (files s f)\<lparr>ref_count := ref_count (files s f) - 1\<rparr>)\<rparr>)) (\<lambda>_.
     kbind (kget (\<lambda>s. files s f)) (\<lambda>x.
     if ref_count x > 0 then kret 0
     else kbind (op_close (fl_ops x) f) (\<lambda>r. kbind (kfree f) (\<lambda>_. kret r))))"

definition vfs_read :: "fs_env \<Rightarrow> u64 \<Rightarrow> u64 \<Rightarrow> u64 \<Rightarrow> int kop" where
  "vfs_read E f buf len = kbind (kget (\<lambda>s. fl_ops (files s f))) (\<lambda>ops. op_read E ops f buf len)"

definition vfs_write :: "fs_env \<Rightarrow> u64 \<Rightarrow> u64 \<Rightarrow> u64 \<Rightarrow> int kop" where
  "vfs_write E f buf len = kbind (kget (\<lambda>s. fl_ops (files s f))) (\<lambda>ops. op_write E ops f buf len)"

definition vfs_lseek64 :: "u64 \<Rightarrow> u64 \<Rightarrow> int \<Rightarrow> u64 kop" where
  "vfs_lseek64 f offset whence =
     kbind (kget (\<lambda>s. fl_ops (files s f))) (\<lambda>ops. if ops = Devfs_ops then devfs_lseek64 f offset whence else kret (- 1))"

definition vfs_ioctl :: "fs_env \<Rightarrow> u64 \<Rightarrow> u64 \<Rightarrow> u64 \<Rightarrow> int kop" where
  "vfs_ioctl E f request a =
     kbind (kget (\<lambda>s. fl_ops (files s f))) (\<lambda>ops. if ops = Devfs_ops then devfs_ioctl (fe_io E) f request a else kret (- 1))"

section \<open>Directories and mounts\<close>

definition vfs_mkdir :: "fs_env \<Rightarrow> u64 \<Rightarrow> bytes \<Rightarrow> int kop" where
  "vfs_mkdir E cwd path =
     kpath path (\<lambda>dirname filename.
     kbind (vfs_lookup E cwd dirname) (\<lambda>r.
     case r of
       None \<Rightarrow> kret (- 1)
     | Some d \<Rightarrow>
         kbind (kget (\<lambda>s. v_ops (vnodes s d))) (\<lambda>ops.
         kbind (op_mkdir ops d filename) (\<lambda>r.
         case r of
           None \<Rightarrow> kret (- 1)
         | Some v \<Rightarrow> kbind (set_parent v d) (\<lambda>_. kret 0)))))"

fun register_slot :: "(nat \<Rightarrow> (bytes \<times> fs_ops) option) \<Rightarrow> nat list \<Rightarrow> nat option" where
  "register_slot l [] = None"
| "register_slot l (i # is) = (if l i = None then Some i else register_slot l is)"

definition register_filesystem :: "bytes \<Rightarrow> fs_ops \<Rightarrow> int kop" where
  "register_filesystem nm ops =
     kbind (kget (\<lambda>s. register_slot (fs_list s) [0..<MAX_FS])) (\<lambda>r.
     case r of
       None \<Rightarrow> kret (- 1)
     | Some i \<Rightarrow> kbind (kmod (\<lambda>s. s\<lparr>fs_list := (fs_list s)(i := Some (nm, ops))\<rparr>)) (\<lambda>_. kret (int i)))"

fun find_fs :: "(nat \<Rightarrow> (bytes \<times> fs_ops) option) \<Rightarrow> bytes \<Rightarrow> nat list \<Rightarrow> fs_ops option" where
  "find_fs l nm [] = None"
| "find_fs l nm (i # is) =
     (case l i of
        Some (n, ops) \<Rightarrow> if n = nm then Some ops else find_fs l nm is
      | None \<Rightarrow> find_fs l nm is)"

text \<open>The result of \<open>setup_mount\<close> is ignored; without a root node the next access faults.\<close>

definition vfs_mount :: "fs_env \<Rightarrow> u64 \<Rightarrow> bytes \<Rightarrow> bytes \<Rightarrow> int kop" where
  "vfs_mount E cwd target fsname =
     kbind (kget (\<lambda>s. find_fs (fs_list s) fsname [0..<MAX_FS])) (\<lambda>fs.
     case fs of
       None \<Rightarrow> kret (- 1)
     | Some ops \<Rightarrow>
         kbind (vfs_lookup E cwd target) (\<lambda>r.
         case r of
           None \<Rightarrow> kret (- 1)
         | Some mp \<Rightarrow>
             kbind (kalloc SIZEOF_MOUNT) (\<lambda>mnt.
             kbind (kmod (\<lambda>s. s\<lparr>mounts := (mounts s)(mnt := \<lparr>mt_root = 0, mt_fs = ops\<rparr>)\<rparr>)) (\<lambda>_.
             kbind (op_setup_mount E ops mnt) (\<lambda>_.
             kbind (kget (\<lambda>s. mt_root (mounts s mnt))) (\<lambda>r.
             if r = 0 then kfault
             else
               kbind (kmod (\<lambda>s. s\<lparr>vnodes := (vnodes s)(r := (vnodes s r)\<lparr>v_parent :=
                   if mp = mt_root (mounts s (rootfs s)) then r else v_parent (vnodes s mp)\<rparr>)\<rparr>)) (\<lambda>_.
               kbind (kmod (\<lambda>s. s\<lparr>vnodes := (vnodes s)(mp := (vnodes s mp)\<lparr>v_mount := mnt\<rparr>)\<rparr>)) (\<lambda>_.
               kret 0))))))))"

text \<open>\<open>"tmpfs"\<close>, \<open>"ramfs"\<close>, \<open>"devfs"\<close>, \<open>"/ramfs"\<close> and \<open>"/dev"\<close>.\<close>

definition tmpfs_name :: bytes where "tmpfs_name = [116, 109, 112, 102, 115]"
definition ramfs_name :: bytes where "ramfs_name = [114, 97, 109, 102, 115]"
definition devfs_name :: bytes where "devfs_name = [100, 101, 118, 102, 115]"

definition vfs_init :: "fs_env \<Rightarrow> u64 \<Rightarrow> unit kop" where
  "vfs_init E cwd =
     kbind (kalloc SIZEOF_FILESYSTEM) (\<lambda>_. kbind (register_filesystem tmpfs_name Tmpfs_ops) (\<lambda>_.
     kbind (kalloc SIZEOF_FILESYSTEM) (\<lambda>_. kbind (register_filesystem ramfs_name Ramfs_ops) (\<lambda>_.
     kbind (kalloc SIZEOF_FILESYSTEM) (\<lambda>_. kbind (register_filesystem devfs_name Devfs_ops) (\<lambda>_.
     kbind (kalloc SIZEOF_MOUNT) (\<lambda>r.
     kbind (kmod (\<lambda>s. s\<lparr>rootfs := r, mounts := (mounts s)(r := \<lparr>mt_root = 0, mt_fs = No_ops\<rparr>)\<rparr>)) (\<lambda>_.
     kbind (tmpfs_setup_mount Tmpfs_ops r) (\<lambda>_.
     kbind (kget (\<lambda>s. mt_root (mounts s r))) (\<lambda>root.
     kbind (set_parent root root) (\<lambda>_.
     kbind (vfs_mkdir E cwd (47 # ramfs_name)) (\<lambda>_.
     kbind (vfs_mount E cwd (47 # ramfs_name) ramfs_name) (\<lambda>_.
     kbind (vfs_mkdir E cwd [47, 100, 101, 118]) (\<lambda>_.
     kbind (vfs_mount E cwd [47, 100, 101, 118] devfs_name) (\<lambda>_. kret ())))))))))))))))"

section \<open>Path resolution follows the components\<close>

text \<open>The reference: resolve the components of the path one after the other.\<close>

fun lookup_seq :: "fs_env \<Rightarrow> u64 \<Rightarrow> bytes list \<Rightarrow> u64 option kop" where
  "lookup_seq E node [] = kret (Some node)"
| "lookup_seq E node (c # cs) =
     kbind (cross node) (\<lambda>node.
     if length c \<ge> PATH_MAX then (\<lambda>s. Some (Inl Buffer_overrun))
     else kbind (step E node c) (\<lambda>r. case r of None \<Rightarrow> kret None | Some node \<Rightarrow> lookup_seq E node cs))"

definition resolve :: "fs_env \<Rightarrow> u64 \<Rightarrow> bool \<Rightarrow> bytes list \<Rightarrow> u64 option kop" where
  "resolve E cwd absolute comps s =
     (if rootfs s = 0 then kret None s
      else
        let root = mt_root (mounts s (rootfs s))
        in kbind (lookup_seq E (if absolute \<or> cwd = 0 then root else cwd) comps) (\<lambda>r.
           case r of
             None \<Rightarrow> kret None
           | Some node \<Rightarrow> if node = 0 then kret (Some 0) else kbind (cross node) (\<lambda>n. kret (Some n))) s)"

lemma dropWhile_idem: "dropWhile P (dropWhile P xs) = dropWhile P xs"
  by (induction xs) auto

lemma tokens_slashes: "tokens (dropWhile (\<lambda>c. c = 47) p) = tokens p"
  by (subst (1 2) tokens.simps) (simp only: dropWhile_idem)

lemma tokens_cons:
  assumes "p \<noteq> []" "hd p \<noteq> 47"
  shows "tokens p = takeWhile (\<lambda>c. c \<noteq> 47) p # tokens (dropWhile (\<lambda>c. c = 47) (dropWhile (\<lambda>c. c \<noteq> 47) p))"
proof -
  have "dropWhile (\<lambda>c. c = 47) p = p" using assms by (cases p) auto
  then show ?thesis unfolding tokens_slashes using assms by (subst tokens.simps) (simp add: Let_def)
qed

lemma lookup_loop_tokens:
  assumes "p = [] \<or> hd p \<noteq> 47"
  shows "lookup_loop E node p = lookup_seq E node (tokens p)"
  using assms
proof (induction p arbitrary: node rule: length_induct)
  case (1 p)
  show ?case
  proof (cases "p = []")
    case True
    have "tokens [] = []" by (subst tokens.simps) simp
    with True show ?thesis by (subst lookup_loop.simps) simp
  next
    case False
    let ?r = "dropWhile (\<lambda>c. c = 47) (dropWhile (\<lambda>c. c \<noteq> 47) p)"
    have hd: "hd p \<noteq> 47" using 1(2) False by simp
    from False obtain c cs where p: "p = c # cs" by (cases p) auto
    have "length ?r \<le> length cs"
      using hd length_dropWhile_le [of "\<lambda>c. c = 47" "dropWhile (\<lambda>c. c \<noteq> 47) cs"] length_dropWhile_le [of "\<lambda>c. c \<noteq> 47" cs]
      by (simp add: p)
    then have less: "length ?r < length p" by (simp add: p)
    have "?r = [] \<or> hd ?r \<noteq> 47" using hd_dropWhile [of "\<lambda>c. c = 47" "dropWhile (\<lambda>c. c \<noteq> 47) p"] by auto
    with 1(1) less have IH: "lookup_loop E n ?r = lookup_seq E n (tokens ?r)" for n by blast
    show ?thesis unfolding tokens_cons [OF False hd] lookup_seq.simps IH [symmetric]
      by (subst lookup_loop.simps) (simp add: False Let_def)
  qed
qed


end
