(* ===== verification/Timer.thy ===== *)
theory Timer
  imports Task List_Head "HOL-Library.Sublist"
begin

text \<open>
  \<open>src/src/timer.c\<close>: one-shot timers on an intrusive list sorted by expiry, multiplexed on the one
  hardware timer. The list head and the nodes on the heap are the nodes of a link store, and the
  other fields of a node are looked up by its address. The time register is read through the
  arguments \<open>now\<close> and \<open>clock\<close> (the \<open>i\<close>-th reading of the loop). \<open>hw_timer\<close> is the last value
  passed to \<open>sbi_set_timer\<close>, and \<open>schedule\<close> is a parameter.
\<close>

section \<open>State and operations\<close>

datatype timer_link = TimerHead | TimerNode u64

record timer_node =
  expire_time :: u64
  tm_callback :: u64
  tm_arg :: u64

record ktimers = kernel +
  timer_list :: "timer_link links"
  timer_nodes :: "u64 \<Rightarrow> timer_node"
  hw_timer :: u64
  time_freq :: u64
  sie_stie :: bool
  sstatus_sie :: bool

text \<open>\<open>list_entry\<close>, and \<open>sizeof(struct timer_node)\<close>.\<close>

fun timer_entry :: "timer_link \<Rightarrow> u64" where
  "timer_entry (TimerNode p) = p"
| "timer_entry TimerHead = 0"

definition SIZEOF_TIMER_NODE :: u64 where
  "SIZEOF_TIMER_NODE = 40"

definition TIMER_FREQ_DEFAULT :: u64 where
  "TIMER_FREQ_DEFAULT = 10000000"

definition get_time_in_seconds :: "u64 \<Rightarrow> 'a ktimers_scheme \<Rightarrow> u64" where
  "get_time_in_seconds now k = now div time_freq k"

text \<open>The loop of \<open>add_timer_ticks\<close>: the first node that expires later, or the head.\<close>

partial_function (option) timer_pos ::
  "timer_link links \<Rightarrow> (u64 \<Rightarrow> timer_node) \<Rightarrow> u64 \<Rightarrow> timer_link \<Rightarrow> timer_link option" where
  "timer_pos l nodes e pos =
     (if pos = TimerHead then Some pos
      else if e < expire_time (nodes (timer_entry pos)) then Some pos
      else timer_pos l nodes e (lh_next l pos))"

definition add_timer_ticks ::
  "u64 \<Rightarrow> u64 \<Rightarrow> u64 \<Rightarrow> u64 \<Rightarrow> 'a ktimers_scheme \<Rightarrow> (int \<times> 'a ktimers_scheme) option" where
  "add_timer_ticks now cb a ticks k =
     (let expire = now + ticks in
      case allocate SIZEOF_TIMER_NODE (k_heap k) of
        None \<Rightarrow> None
      | Some (p, h) \<Rightarrow>
          if p = 0 then Some (-1, k\<lparr>k_heap := h\<rparr>)
          else
            let nodes = (timer_nodes k)(p := \<lparr>expire_time = expire, tm_callback = cb, tm_arg = a\<rparr>);
                l = INIT_LIST_HEAD (TimerNode p) (timer_list k)
            in case timer_pos l nodes expire (lh_next l TimerHead) of
                 None \<Rightarrow> None
               | Some pos \<Rightarrow>
                   let l = list_add_tail (TimerNode p) pos l;
                       k = k\<lparr>k_heap := h, timer_nodes := nodes, timer_list := l\<rparr>
                   in Some (0, if lh_next l TimerHead = TimerNode p then k\<lparr>hw_timer := expire\<rparr> else k))"

definition add_timer :: "u64 \<Rightarrow> u64 \<Rightarrow> u64 \<Rightarrow> int \<Rightarrow> 'a ktimers_scheme \<Rightarrow> (int \<times> 'a ktimers_scheme) option" where
  "add_timer now cb a sec k = add_timer_ticks now cb a (of_int sec * time_freq k) k"

definition add_timer_ms :: "u64 \<Rightarrow> u64 \<Rightarrow> u64 \<Rightarrow> int \<Rightarrow> 'a ktimers_scheme \<Rightarrow> (int \<times> 'a ktimers_scheme) option" where
  "add_timer_ms now cb a ms k = add_timer_ticks now cb a (of_int ms * time_freq k div 1000) k"

text \<open>The two callbacks of the file re-arm themselves; \<open>self\<close> is their own address.\<close>

definition periodic_timer_callback :: "u64 \<Rightarrow> u64 \<Rightarrow> 'a ktimers_scheme \<Rightarrow> 'a ktimers_scheme option" where
  "periodic_timer_callback now self k = map_option snd (add_timer now self 0 2 k)"

definition scheduler_timer_callback :: "u64 \<Rightarrow> u64 \<Rightarrow> 'a ktimers_scheme \<Rightarrow> 'a ktimers_scheme option" where
  "scheduler_timer_callback now self k = map_option snd (add_timer_ticks now self 0 (time_freq k div 32) k)"

text \<open>
  \<open>timer_init\<close>; \<open>freq\<close> is what \<open>fdt_get_timebase_frequency\<close> returns given the present value, and
  \<open>periodic\<close> and \<open>scheduler\<close> are the addresses of the callbacks.
\<close>

definition timer_init ::
  "(u64 \<Rightarrow> u64) \<Rightarrow> u64 \<Rightarrow> u64 \<Rightarrow> u64 \<Rightarrow> u64 \<Rightarrow> 'a ktimers_scheme \<Rightarrow> 'a ktimers_scheme option" where
  "timer_init freq periodic scheduler now1 now2 k =
     (let k = k\<lparr>timer_list := INIT_LIST_HEAD TimerHead (timer_list k), time_freq := freq (time_freq k), hw_timer := - 1\<rparr>
      in case add_timer now1 periodic 0 2 k of
           None \<Rightarrow> None
         | Some (_, k) \<Rightarrow>
             (case add_timer_ticks now2 scheduler 0 (time_freq k div 32) k of
                None \<Rightarrow> None
              | Some (_, k) \<Rightarrow> Some (k\<lparr>sie_stie := True, sstatus_sie := True\<rparr>)))"

text \<open>The \<open>while\<close> loop of \<open>handle_timer_interrupt\<close>; \<open>i\<close> counts the readings of the time.\<close>

partial_function (option) expire_loop ::
  "(nat \<Rightarrow> u64) \<Rightarrow> nat \<Rightarrow> 'a ktimers_scheme \<Rightarrow> 'a ktimers_scheme option" where
  "expire_loop clock i k =
     (if list_empty TimerHead (timer_list k) then Some k
      else
        let n = lh_next (timer_list k) TimerHead; p = timer_entry n; node = timer_nodes k p
        in if expire_time node \<le> clock i
           then
             let k = k\<lparr>timer_list := list_del n (timer_list k)\<rparr>
             in case (if tm_callback node \<noteq> 0 then add_task (tm_callback node) (tm_arg node) 10 k else Some k) of
                  None \<Rightarrow> None
                | Some k \<Rightarrow>
                    (case free p (k_heap k) of
                       None \<Rightarrow> None
                     | Some h \<Rightarrow> expire_loop clock (i + 1) (k\<lparr>k_heap := h\<rparr>))
           else Some k)"

definition program_timer :: "'a ktimers_scheme \<Rightarrow> 'a ktimers_scheme" where
  "program_timer k =
     (if \<not> list_empty TimerHead (timer_list k)
      then k\<lparr>hw_timer := expire_time (timer_nodes k (timer_entry (lh_next (timer_list k) TimerHead)))\<rparr>
      else k\<lparr>hw_timer := - 1\<rparr>)"

definition handle_timer_interrupt ::
  "('a ktimers_scheme \<Rightarrow> 'a ktimers_scheme option) \<Rightarrow> (nat \<Rightarrow> u64) \<Rightarrow> 'a ktimers_scheme \<Rightarrow> 'a ktimers_scheme option" where
  "handle_timer_interrupt schedule clock k =
     (case expire_loop clock 0 k of
        None \<Rightarrow> None
      | Some k \<Rightarrow> schedule (program_timer k))"

section \<open>The abstract timer queue\<close>

text \<open>The queue the list implements: addresses with the contents of the nodes, sorted by expiry.\<close>

type_synonym timer = "u64 \<times> timer_node"

definition insert_timer :: "timer \<Rightarrow> timer list \<Rightarrow> timer list" where
  "insert_timer t q = takeWhile (\<lambda>y. expire_time (snd y) \<le> expire_time (snd t)) q @ t #
     dropWhile (\<lambda>y. expire_time (snd y) \<le> expire_time (snd t)) q"

interpretation timers: stable_insert "\<lambda>t. expire_time (snd t)" insert_timer
  by (rule stable_insert_behind) (simp add: insert_timer_def)

definition earliest :: "timer list \<Rightarrow> u64" where
  "earliest q = (case q of [] \<Rightarrow> - 1 | t # _ \<Rightarrow> expire_time (snd t))"

text \<open>
  The timers \<open>q\<close> hang on the list in order of expiry, every node is a live chunk of the heap, and
  the task queue is well-formed. \<open>timer_inv\<close> adds that the hardware timer is set to the first one.
\<close>

definition timers_on :: "'a ktimers_scheme \<Rightarrow> timer list \<Rightarrow> bool" where
  "timers_on k q \<longleftrightarrow> task_inv k \<and> dlist (timer_list k) TimerHead (map (\<lambda>t. TimerNode (fst t)) q) \<and>
     sorted (map (\<lambda>t. expire_time (snd t)) q) \<and> (\<forall>t \<in> set q. timer_nodes k (fst t) = snd t) \<and>
     (\<forall>t \<in> set q. 0 < heap_owners (k_heap k) (unat (fst t), 64))"

definition timer_inv :: "'a ktimers_scheme \<Rightarrow> timer list \<Rightarrow> bool" where
  "timer_inv k q \<longleftrightarrow> timers_on k q \<and> hw_timer k = earliest q"

lemma timer_node_alloc:
  assumes "heap_inv h" "allocate SIZEOF_TIMER_NODE h = Some (p, h')" "p \<noteq> 0"
  shows "heap_inv h'" "heap_owners h' = (heap_owners h)((unat p, 64) := 1)" "heap_owners h (unat p, 64) = 0"
proof -
  have "pool_size j < unat SIZEOF_TIMER_NODE" if "j < 2" for j
    using that less_2_cases [of j] by (auto simp: SIZEOF_TIMER_NODE_def g_pool_sizes_def)
  note A = allocate_small_owners [OF assms(1) _ _ assms(2,3), of 2, OF _ _ _ _ this]
  show "heap_inv h'" "heap_owners h' = (heap_owners h)((unat p, 64) := 1)" "heap_owners h (unat p, 64) = 0"
    using A by (simp_all add: SIZEOF_TIMER_NODE_def CHUNK_POOL_COUNT_def g_pool_sizes_def)
qed

lemma timer_pos_seg:
  assumes "seg l a (map (\<lambda>t. TimerNode (fst t)) q) TimerHead" "\<forall>t \<in> set q. nodes (fst t) = snd t"
  shows "timer_pos l nodes e (lh_next l a) =
    Some (hd (map (\<lambda>t. TimerNode (fst t)) (dropWhile (\<lambda>t. expire_time (snd t) \<le> e) q) @ [TimerHead]))"
  using assms
proof (induction q arbitrary: a)
  case (Cons t q)
  then show ?case by (subst timer_pos.simps) (auto simp: not_less)
qed (simp add: timer_pos.simps)

section \<open>Adding a timer\<close>

lemma INIT_LIST_HEAD_dlist:
  assumes "dlist l h xs" "n \<notin> set (h # xs)"
  shows "dlist (INIT_LIST_HEAD n l) h xs"
  using assms(1) by (rule dlist_cong) (use assms(2) in \<open>auto simp: INIT_LIST_HEAD_def set_next_def set_prev_def\<close>)

lemma dlist_first_map: "dlist l h (map f xs) \<Longrightarrow> xs \<noteq> [] \<Longrightarrow> lh_next l h = f (hd xs)"
  by (cases xs) (auto dest: dlist_first)

lemma insert_timer_not_Nil: "insert_timer t q \<noteq> []"
  by (simp add: insert_timer_def)

text \<open>Linking a fresh node at the position found implements the insertion.\<close>

lemma link_timer:
  assumes on: "timers_on k q" and fresh: "fst t \<notin> fst ` set q"
  defines "l \<equiv> INIT_LIST_HEAD (TimerNode (fst t)) (timer_list k)" and "nodes \<equiv> (timer_nodes k)(fst t := snd t)"
  obtains pos where "timer_pos l nodes (expire_time (snd t)) (lh_next l TimerHead) = Some pos"
    "dlist (list_add_tail (TimerNode (fst t)) pos l) TimerHead (map (\<lambda>t. TimerNode (fst t)) (insert_timer t q))"
    "\<forall>u \<in> set (insert_timer t q). nodes (fst u) = snd u"
proof -
  let ?tk = "takeWhile (\<lambda>u. expire_time (snd u) \<le> expire_time (snd t)) q"
  let ?dr = "dropWhile (\<lambda>u. expire_time (snd u) \<le> expire_time (snd t)) q"
  let ?m = "map (\<lambda>t. TimerNode (fst t))"
  have out: "TimerNode (fst t) \<notin> set (TimerHead # ?m q)" using fresh by auto
  have dl: "dlist l TimerHead (?m q)" unfolding l_def using on out by (auto simp: timers_on_def intro!: INIT_LIST_HEAD_dlist)
  have "fst u \<noteq> fst t" if "u \<in> set q" for u using fresh that by (metis imageI)
  then have nodes: "\<forall>u \<in> set q. nodes (fst u) = snd u" using on by (auto simp: timers_on_def nodes_def)
  have s: "sorted (map (\<lambda>t. expire_time (snd t)) q)" using on by (simp add: timers_on_def)
  have spl: "?m q = ?m ?tk @ ?m ?dr" by (simp add: map_append [symmetric] del: map_append)
  show thesis
  proof
    show "timer_pos l nodes (expire_time (snd t)) (lh_next l TimerHead) = Some (hd (?m ?dr @ [TimerHead]))"
      using dl nodes by (intro timer_pos_seg) (auto simp: dlist_def)
    show "dlist (list_add_tail (TimerNode (fst t)) (hd (?m ?dr @ [TimerHead])) l) TimerHead (?m (insert_timer t q))"
      using dlist_add_before [of l TimerHead "?m ?tk" "?m ?dr" "TimerNode (fst t)"] dl out
      unfolding spl by (simp add: insert_timer_def)
    show "\<forall>u \<in> set (insert_timer t q). nodes (fst u) = snd u"
      using nodes timers.ins_set [OF s, of t] by (auto simp: nodes_def)
  qed
qed

text \<open>The new timer is the first of the list exactly when it expires before all others.\<close>

lemma earliest_insert:
  assumes "fst t \<notin> fst ` set q"
  shows "earliest (insert_timer t q) = (if fst (hd (insert_timer t q)) = fst t then expire_time (snd t) else earliest q)"
proof (cases q)
  case (Cons u q')
  with assms show ?thesis by (auto simp: insert_timer_def earliest_def)
qed (simp add: insert_timer_def earliest_def)

lemma add_timer_ticks_cases:
  assumes inv: "timer_inv k q"
  obtains (dropped) k' where "add_timer_ticks now cb a ticks k = Some (-1, k')" "timer_inv k' q"
      "task_queue k' = task_queue k" "time_freq k' = time_freq k"
    | (queued) p k' where "p \<noteq> 0" "p \<notin> fst ` set q" "add_timer_ticks now cb a ticks k = Some (0, k')"
      "timer_inv k' (insert_timer (p, \<lparr>expire_time = now + ticks, tm_callback = cb, tm_arg = a\<rparr>) q)"
      "task_queue k' = task_queue k" "time_freq k' = time_freq k"
proof -
  have on: "timers_on k q" and hi: "heap_inv (k_heap k)" using inv by (auto simp: timer_inv_def timers_on_def task_inv_def)
  from hi show thesis
  proof (cases rule: allocate_cases [where len = SIZEOF_TIMER_NODE])
    case (null h')
    then show thesis using inv
      by (intro dropped [of "k\<lparr>k_heap := h'\<rparr>"]) (auto simp: add_timer_ticks_def timer_inv_def timers_on_def task_inv_def)
  next
    case (given p h' l)
    note N = timer_node_alloc [OF hi given(1,2)]
    let ?e = "now + ticks" and ?l = "INIT_LIST_HEAD (TimerNode p) (timer_list k)"
    let ?t = "(p, \<lparr>expire_time = ?e, tm_callback = cb, tm_arg = a\<rparr>)"
    let ?nodes = "(timer_nodes k)(p := snd ?t)"
    have fresh: "p \<notin> fst ` set q" using on N(3) by (auto simp: timers_on_def)
    then obtain pos where pos: "timer_pos ?l ?nodes ?e (lh_next ?l TimerHead) = Some pos"
      and dl: "dlist (list_add_tail (TimerNode p) pos ?l) TimerHead (map (\<lambda>t. TimerNode (fst t)) (insert_timer ?t q))"
      and nodes: "\<forall>u \<in> set (insert_timer ?t q). ?nodes (fst u) = snd u"
      using link_timer [OF on, of ?t] by auto
    let ?l' = "list_add_tail (TimerNode p) pos ?l"
    let ?k = "k\<lparr>k_heap := h', timer_nodes := ?nodes, timer_list := ?l'\<rparr>"
    let ?k' = "if lh_next ?l' TimerHead = TimerNode p then ?k\<lparr>hw_timer := ?e\<rparr> else ?k"
    have s: "sorted (map (\<lambda>t. expire_time (snd t)) q)" using on by (simp add: timers_on_def)
    have "task_inv ?k" using on N by (auto simp: timers_on_def task_inv_def)
    then have "timers_on ?k (insert_timer ?t q)"
      using on N dl nodes timers.ins_sorted [OF s, of ?t] timers.ins_set [OF s, of ?t] by (auto simp: timers_on_def)
    moreover have "lh_next ?l' TimerHead = TimerNode (fst (hd (insert_timer ?t q)))"
      using dl insert_timer_not_Nil by (rule dlist_first_map)
    ultimately have "timer_inv ?k' (insert_timer ?t q)"
      using inv earliest_insert [of ?t q] fresh by (auto simp: timer_inv_def timers_on_def task_inv_def)
    then show thesis using given(1,2) pos fresh
      by (intro queued [of p ?k']) (auto simp: add_timer_ticks_def Let_def)
  qed
qed

text \<open>C15. \<open>add_timer_ticks\<close> always returns and refines the insertion into the abstract queue: either
  the node cannot be allocated, -1 is returned and the timers stay as they are, or 0 is returned and
  the timer with its absolute expiry hangs on the list behind those that expire no later. In both
  cases the hardware timer is set to the earliest expiry.\<close>

theorem add_timer_ticks_refines:
  assumes "timer_inv k q"
  shows "\<exists>r k' p. add_timer_ticks now cb a ticks k = Some (r, k') \<and> task_queue k' = task_queue k \<and>
    (r = -1 \<and> timer_inv k' q \<or>
     r = 0 \<and> p \<notin> fst ` set q \<and>
       timer_inv k' (insert_timer (p, \<lparr>expire_time = now + ticks, tm_callback = cb, tm_arg = a\<rparr>) q))"
  using assms
  by (cases rule: add_timer_ticks_cases [where now = now and cb = cb and a = a and ticks = ticks]) auto

definition timers4 :: ktimers where
  "timers4 = \<lparr>k_heap = heap4, task_queue = [], cur_priority = -1,
     timer_list = \<lparr>lh_next = \<lambda>n. n, lh_prev = \<lambda>n. n\<rparr>, timer_nodes = \<lambda>_. \<lparr>expire_time = 0, tm_callback = 0, tm_arg = 0\<rparr>,
     hw_timer = -1, time_freq = TIMER_FREQ_DEFAULT, sie_stie = False, sstatus_sie = False\<rparr>"

lemma timers4_inv: "timer_inv timers4 []"
  using heap4_inv by (simp add: timer_inv_def timers_on_def task_inv_def timers4_def earliest_def dlist_def)

theorem add_timer_ticks_refines_witness:
  "\<exists>r k'. add_timer_ticks 100 7 0 50 timers4 = Some (r, k') \<and> (r = -1 \<or> r = 0 \<and> hw_timer k' = 150)"
  using add_timer_ticks_refines [OF timers4_inv, of 100 7 0 50]
  by (force simp: timer_inv_def earliest_def insert_timer_def)

section \<open>The timer interrupt\<close>

lemma timers_on_unlink:
  assumes "timers_on k (t # q)"
  shows "timers_on (k\<lparr>timer_list := list_del (TimerNode (fst t)) (timer_list k)\<rparr>) q" "fst t \<notin> fst ` set q"
  using assms dlist_del [of "timer_list k" TimerHead "[]" "TimerNode (fst t)"]
  by (auto simp: timers_on_def task_inv_def dlist_def)

text \<open>What one expired timer adds to the task queue: one task if it can be allocated.\<close>

lemma add_task_timers:
  assumes on: "timers_on k q"
  obtains ts k' where "add_task cb a prio k = Some k'" "timers_on k' q" "task_queue k' = fold insert_task ts (task_queue k)"
    "subseq (map (\<lambda>t. (callback t, arg t, priority t)) ts) [(cb, a, prio)]"
    "timer_list k' = timer_list k" "timer_nodes k' = timer_nodes k"
    "\<And>r. 0 < heap_owners (k_heap k) r \<Longrightarrow> heap_owners (k_heap k') r = heap_owners (k_heap k) r"
proof -
  have inv: "task_inv k" using on by (simp add: timers_on_def)
  from add_task_inv [OF this] obtain k' where k': "add_task cb a prio k = Some k'" "task_inv k'"
    "\<And>r. 0 < heap_owners (k_heap k) r \<Longrightarrow> heap_owners (k_heap k') r = heap_owners (k_heap k) r" by blast
  from inv show thesis
  proof (cases rule: add_task_cases [where cb = cb and a = a and prio = prio])
    case (dropped h)
    with k' on that [of k' "[]"] show thesis by (auto simp: timers_on_def)
  next
    case (queued p h)
    with k' on that [of k' "[\<lparr>tn_addr = p, callback = cb, arg = a, priority = prio\<rparr>]"] show thesis
      by (auto simp: timers_on_def)
  qed
qed

text \<open>Freeing the node of a timer that is no longer on the list.\<close>

lemma free_timer:
  assumes on: "timers_on k q" and p: "p \<notin> fst ` set q" "0 < heap_owners (k_heap k) (unat p, 64)"
  obtains h where "free p (k_heap k) = Some h" "timers_on (k\<lparr>k_heap := h\<rparr>) q"
proof -
  have "heap_inv (k_heap k)" using on by (simp add: timers_on_def task_inv_def)
  from free_other [OF this p(2)] obtain h where h: "free p (k_heap k) = Some h" "heap_inv h"
    "\<And>r. 0 < heap_owners (k_heap k) r \<Longrightarrow> r \<noteq> (unat p, 64) \<Longrightarrow> heap_owners h r = heap_owners (k_heap k) r" by blast
  have "unat (fst t) \<noteq> unat p" if "t \<in> set q" for t using p(1) that by (metis imageI unat_eq_imp)
  with h on have "timers_on (k\<lparr>k_heap := h\<rparr>) q" by (auto simp: timers_on_def task_inv_def)
  with h(1) that show thesis by blast
qed

lemma expire_loop_correct:
  assumes "timers_on k q"
  shows "\<exists>n k' ts. expire_loop clock i k = Some k' \<and> n \<le> length q \<and> timers_on k' (drop n q) \<and>
    (\<forall>j < n. expire_time (snd (q ! j)) \<le> clock (i + j)) \<and>
    (n < length q \<longrightarrow> clock (i + n) < expire_time (snd (q ! n))) \<and>
    task_queue k' = fold insert_task ts (task_queue k) \<and>
    subseq (map (\<lambda>t. (callback t, arg t, priority t)) ts)
      (map (\<lambda>t. (tm_callback (snd t), tm_arg (snd t), 10)) (filter (\<lambda>t. tm_callback (snd t) \<noteq> 0) (take n q)))"
  using assms
proof (induction q arbitrary: i k)
  case Nil
  then have "list_empty TimerHead (timer_list k)" using dlist_empty [of "timer_list k" TimerHead "[]"] by (simp add: timers_on_def)
  then show ?case using Nil by (intro exI [of _ 0] exI [of _ k] exI [of _ "[]"]) (simp add: expire_loop.simps)
next
  case (Cons t q)
  have dl: "dlist (timer_list k) TimerHead (TimerNode (fst t) # map (\<lambda>t. TimerNode (fst t)) q)"
    and node: "timer_nodes k (fst t) = snd t" and o: "0 < heap_owners (k_heap k) (unat (fst t), 64)"
    using Cons.prems by (auto simp: timers_on_def)
  note first = dlist_first [OF dl] and ne = dlist_empty [OF dl]
  show ?case
  proof (cases "expire_time (snd t) \<le> clock i")
    case False
    then have "expire_loop clock i k = Some k" using first ne node by (simp add: expire_loop.simps Let_def)
    then show ?thesis using Cons.prems False by (intro exI [of _ 0] exI [of _ k] exI [of _ "[]"]) simp
  next
    case True
    let ?k = "k\<lparr>timer_list := list_del (TimerNode (fst t)) (timer_list k)\<rparr>"
    let ?cb = "tm_callback (snd t)" and ?a = "tm_arg (snd t)"
    note U = timers_on_unlink [OF Cons.prems]
    obtain ts1 k1 where k1: "(if ?cb \<noteq> 0 then add_task ?cb ?a 10 ?k else Some ?k) = Some k1" "timers_on k1 q"
      "task_queue k1 = fold insert_task ts1 (task_queue k)"
      "subseq (map (\<lambda>t. (callback t, arg t, priority t)) ts1) (if ?cb \<noteq> 0 then [(?cb, ?a, 10)] else [])"
      "0 < heap_owners (k_heap k1) (unat (fst t), 64)"
    proof (cases "?cb = 0")
      case True
      with U o that [of ?k "[]"] show thesis by simp
    next
      case False
      from U(1) show thesis
        by (rule add_task_timers [where cb = ?cb and a = ?a and prio = 10]) (use False o that in auto)
    qed
    from free_timer [OF k1(2) U(2) k1(5)] obtain h where h: "free (fst t) (k_heap k1) = Some h" "timers_on (k1\<lparr>k_heap := h\<rparr>) q"
      by blast
    have step: "expire_loop clock i k = expire_loop clock (i + 1) (k1\<lparr>k_heap := h\<rparr>)"
      using True first ne node k1(1) h(1)
      by (subst expire_loop.simps, cases "?cb = 0") (simp_all add: Let_def)
    from Cons.IH [OF h(2), of "i + 1"] obtain n k' ts where IH: "expire_loop clock (i + 1) (k1\<lparr>k_heap := h\<rparr>) = Some k'"
      "n \<le> length q" "timers_on k' (drop n q)" "\<forall>j < n. expire_time (snd (q ! j)) \<le> clock (i + 1 + j)"
      "n < length q \<longrightarrow> clock (i + 1 + n) < expire_time (snd (q ! n))"
      "task_queue k' = fold insert_task ts (task_queue k1)"
      "subseq (map (\<lambda>t. (callback t, arg t, priority t)) ts)
        (map (\<lambda>t. (tm_callback (snd t), tm_arg (snd t), 10)) (filter (\<lambda>t. tm_callback (snd t) \<noteq> 0) (take n q)))"
      by auto
    have "expire_time (snd ((t # q) ! j)) \<le> clock (i + j)" if "j < Suc n" for j
      using True IH(4) that by (cases j) auto
    moreover have "subseq (map (\<lambda>t. (callback t, arg t, priority t)) (ts1 @ ts))
        (map (\<lambda>t. (tm_callback (snd t), tm_arg (snd t), 10)) (filter (\<lambda>t. tm_callback (snd t) \<noteq> 0) (take (Suc n) (t # q))))"
      using list_emb_append_mono [OF k1(4) IH(7)] by (auto split: if_splits)
    ultimately show ?thesis using IH step k1(3)
      by (intro exI [of _ "Suc n"] exI [of _ k'] exI [of _ "ts1 @ ts"]) auto
  qed
qed



section \<open>Initialisation\<close>

lemma add_timer_ticks_length:
  assumes "timer_inv k q"
  shows "\<exists>r k' q'. add_timer_ticks now cb a ticks k = Some (r, k') \<and> timer_inv k' q' \<and> length q' \<le> Suc (length q) \<and>
    time_freq k' = time_freq k \<and> task_queue k' = task_queue k"
proof -
  have "length (insert_timer t q) = Suc (length q)" for t
    unfolding insert_timer_def by (induction q) auto
  with assms show ?thesis
    by (cases rule: add_timer_ticks_cases [where now = now and cb = cb and a = a and ticks = ticks]) fastforce+
qed

lemma timer_init_establishes:
  assumes "task_inv k"
  shows "\<exists>k' q. timer_init freq periodic scheduler now1 now2 k = Some k' \<and> timer_inv k' q \<and> length q \<le> 2 \<and>
    task_queue k' = task_queue k \<and> time_freq k' = freq (time_freq k) \<and> sie_stie k'"
proof -
  let ?k = "k\<lparr>timer_list := INIT_LIST_HEAD TimerHead (timer_list k), time_freq := freq (time_freq k), hw_timer := - 1\<rparr>"
  have "timer_inv ?k []"
    using assms dlist_init by (auto simp: timer_inv_def timers_on_def task_inv_def earliest_def)
  from add_timer_ticks_length [OF this, of now1 periodic 0 "of_int 2 * freq (time_freq k)"]
  obtain r1 k1 q1 where 1: "add_timer now1 periodic 0 2 ?k = Some (r1, k1)" "timer_inv k1 q1" "length q1 \<le> 1"
    "time_freq k1 = freq (time_freq k)" "task_queue k1 = task_queue k" by (auto simp: add_timer_def)
  from add_timer_ticks_length [OF 1(2), of now2 scheduler 0 "time_freq k1 div 32"]
  obtain r2 k2 q2 where 2: "add_timer_ticks now2 scheduler 0 (time_freq k1 div 32) k1 = Some (r2, k2)" "timer_inv k2 q2"
    "length q2 \<le> 2" "time_freq k2 = freq (time_freq k)" "task_queue k2 = task_queue k" using 1(3-) by fastforce
  have "timer_inv (k2\<lparr>sie_stie := True, sstatus_sie := True\<rparr>) q2"
    using 2(2) by (simp add: timer_inv_def timers_on_def task_inv_def)
  then show ?thesis
    by (intro exI [of _ "k2\<lparr>sie_stie := True, sstatus_sie := True\<rparr>"] exI [of _ q2])
      (use 1 2 in \<open>simp add: timer_init_def Let_def\<close>)
qed

end
