(* ===== verification/Mmu.thy ===== *)
theory Mmu
  imports Task CString
begin

text \<open>
  \<open>src/src/mmu.c\<close> and \<open>src/src/mmu.h\<close>: Sv39 page tables. A table is a page of 512 entries; the store
  gives the entries of the table at an address. Tables are only reached through pointers that
  \<open>allocate(PAGE_SIZE)\<close> returned or that were read from an entry, and both are page-aligned, so two
  different tables never overlap. A pointer into a table (\<open>&pt[vpn0]\<close>) is a pair of the table and
  the index. \<open>satp\<close> is the register that selects the table, flushing the TLB has no effect on it, and
  \<open>mm_mem\<close> has the contents of the mapped pages.
\<close>

section \<open>Constants of src/src/mmu.h\<close>

definition PGD_SHIFT :: nat where "PGD_SHIFT = 30"
definition PMD_SHIFT :: nat where "PMD_SHIFT = 21"
definition PTE_SHIFT :: nat where "PTE_SHIFT = 12"
definition VPN_MASK :: u64 where "VPN_MASK = 0x1FF"

definition PTE_V :: u64 where "PTE_V = push_bit 0 1"
definition PTE_R :: u64 where "PTE_R = push_bit 1 1"
definition PTE_W :: u64 where "PTE_W = push_bit 2 1"
definition PTE_X :: u64 where "PTE_X = push_bit 3 1"
definition PTE_U :: u64 where "PTE_U = push_bit 4 1"
definition PTE_G :: u64 where "PTE_G = push_bit 5 1"
definition PTE_A :: u64 where "PTE_A = push_bit 6 1"
definition PTE_D :: u64 where "PTE_D = push_bit 7 1"

definition PROT_KERNEL :: u64 where
  "PROT_KERNEL = PTE_V OR PTE_R OR PTE_W OR PTE_X OR PTE_G OR PTE_A OR PTE_D"

definition PROT_MMIO :: u64 where
  "PROT_MMIO = PTE_V OR PTE_R OR PTE_W OR PTE_G OR PTE_A OR PTE_D"

definition SATP_SV39 :: u64 where
  "SATP_SV39 = push_bit 60 8"

definition MAKE_SATP :: "u64 \<Rightarrow> u64" where
  "MAKE_SATP pgd_pa = SATP_SV39 OR drop_bit 12 pgd_pa"

section \<open>State\<close>

record mm =
  mm_heap :: heap
  entries :: "u64 \<Rightarrow> nat \<Rightarrow> u64"
  satp :: u64
  mm_mem :: mem

definition set_entry :: "u64 \<Rightarrow> nat \<Rightarrow> u64 \<Rightarrow> 'a mm_scheme \<Rightarrow> 'a mm_scheme" where
  "set_entry t i e s = s\<lparr>entries := (entries s)(t := (entries s t)(i := e))\<rparr>"

definition zero_table :: "u64 \<Rightarrow> 'a mm_scheme \<Rightarrow> 'a mm_scheme" where
  "zero_table t s = s\<lparr>entries := (entries s)(t := \<lambda>_. 0)\<rparr>"

text \<open>An entry that points to the table \<open>t\<close>, the table an entry points to, a leaf entry.\<close>

definition table_entry :: "u64 \<Rightarrow> u64" where
  "table_entry t = push_bit 10 (drop_bit 12 (t - PAGE_OFFSET)) OR PTE_V"

definition entry_table :: "u64 \<Rightarrow> u64" where
  "entry_table e = push_bit 12 (drop_bit 10 e) + PAGE_OFFSET"

definition leaf_entry :: "u64 \<Rightarrow> u64 \<Rightarrow> u64" where
  "leaf_entry pa prot = push_bit 10 (drop_bit 12 pa) OR prot"

definition vpn :: "nat \<Rightarrow> u64 \<Rightarrow> nat" where
  "vpn shift va = unat (drop_bit shift va AND VPN_MASK)"

section \<open>Walking and mapping\<close>

text \<open>One level of \<open>pagewalk\<close>: follow entry \<open>i\<close> of \<open>t\<close>, allocating the next table if asked to.\<close>

definition descend :: "u64 \<Rightarrow> nat \<Rightarrow> bool \<Rightarrow> 'a mm_scheme \<Rightarrow> (u64 option \<times> 'a mm_scheme) option" where
  "descend t i alloc s =
     (if entries s t i AND PTE_V = 0
      then if \<not> alloc then Some (None, s)
           else case allocate PAGE_SIZE (mm_heap s) of
                  None \<Rightarrow> None
                | Some (p, h) \<Rightarrow>
                    let s = s\<lparr>mm_heap := h\<rparr>
                    in if p = 0 then Some (None, s)
                       else let s = set_entry t i (table_entry p) (zero_table p s)
                            in Some (Some (entry_table (entries s t i)), s)
      else Some (Some (entry_table (entries s t i)), s))"

definition pagewalk :: "u64 \<Rightarrow> u64 \<Rightarrow> bool \<Rightarrow> 'a mm_scheme \<Rightarrow> ((u64 \<times> nat) option \<times> 'a mm_scheme) option" where
  "pagewalk pgd va alloc s =
     (let vpn2 = vpn PGD_SHIFT va; vpn1 = vpn PMD_SHIFT va; vpn0 = vpn PTE_SHIFT va
      in case descend pgd vpn2 alloc s of
           None \<Rightarrow> None
         | Some (None, s) \<Rightarrow> Some (None, s)
         | Some (Some pmd, s) \<Rightarrow>
             (case descend pmd vpn1 alloc s of
                None \<Rightarrow> None
              | Some (None, s) \<Rightarrow> Some (None, s)
              | Some (Some pt, s) \<Rightarrow> Some (Some (pt, vpn0), s)))"

text \<open>The body of the loop of \<open>map_pages_at\<close> and the loop, which ends at the address \<open>lim\<close>.\<close>

definition map_page :: "u64 \<Rightarrow> u64 \<Rightarrow> u64 \<Rightarrow> u64 \<Rightarrow> 'a mm_scheme \<Rightarrow> 'a mm_scheme option" where
  "map_page pgd a pa prot s =
     (case pagewalk pgd a True s of
        None \<Rightarrow> None
      | Some (None, s) \<Rightarrow> Some s
      | Some (Some (t, i), s) \<Rightarrow> Some (set_entry t i (leaf_entry pa prot) s))"

partial_function (option) map_loop :: "u64 \<Rightarrow> u64 \<Rightarrow> u64 \<Rightarrow> u64 \<Rightarrow> u64 \<Rightarrow> 'a mm_scheme \<Rightarrow> 'a mm_scheme option" where
  "map_loop pgd lim a pa prot s =
     (if a < lim then Option.bind (map_page pgd a pa prot s) (map_loop pgd lim (a + PAGE_SIZE) (pa + PAGE_SIZE) prot)
      else Some s)"

definition map_pages_at :: "u64 \<Rightarrow> u64 \<Rightarrow> u64 \<Rightarrow> u64 \<Rightarrow> u64 \<Rightarrow> 'a mm_scheme \<Rightarrow> 'a mm_scheme option" where
  "map_pages_at pgd va pa len prot = map_loop pgd (va + len) va pa prot"

text \<open>\<open>map_pages\<close>; \<open>cur_pgd\<close> is the table of the current thread, if there is one.\<close>

definition map_pages :: "u64 option \<Rightarrow> u64 \<Rightarrow> u64 \<Rightarrow> u64 \<Rightarrow> u64 \<Rightarrow> 'a mm_scheme \<Rightarrow> 'a mm_scheme option" where
  "map_pages cur_pgd va len pa prot s =
     (case cur_pgd of
        None \<Rightarrow> Some s
      | Some pgd \<Rightarrow> if pgd \<noteq> 0 then map_pages_at pgd va pa len (prot OR PTE_U) s else Some s)"

section \<open>Copying and freeing\<close>

text \<open>A counting loop whose body may leave the function early (\<open>False\<close>).\<close>

fun for_each :: "('i \<Rightarrow> 's \<Rightarrow> (bool \<times> 's) option) \<Rightarrow> 'i list \<Rightarrow> 's \<Rightarrow> (bool \<times> 's) option" where
  "for_each f [] s = Some (True, s)"
| "for_each f (i # is) s =
     (case f i s of
        None \<Rightarrow> None
      | Some (False, s) \<Rightarrow> Some (False, s)
      | Some (True, s) \<Rightarrow> for_each f is s)"

definition always :: "('s \<Rightarrow> 's option) \<Rightarrow> 's \<Rightarrow> (bool \<times> 's) option" where
  "always f s = map_option (Pair True) (f s)"

definition heap_free :: "u64 \<Rightarrow> 'a mm_scheme \<Rightarrow> 'a mm_scheme option" where
  "heap_free p s = map_option (\<lambda>h. s\<lparr>mm_heap := h\<rparr>) (free p (mm_heap s))"

definition valid :: "u64 \<Rightarrow> nat \<Rightarrow> 'a mm_scheme \<Rightarrow> bool" where
  "valid t i s \<longleftrightarrow> entries s t i AND PTE_V \<noteq> 0"

text \<open>The three nested loops of \<open>free_pgd\<close>.\<close>

definition free_pt_entry :: "u64 \<Rightarrow> nat \<Rightarrow> 'a mm_scheme \<Rightarrow> (bool \<times> 'a mm_scheme) option" where
  "free_pt_entry pt k s =
     (if valid pt k s then always (heap_free (push_bit 12 (drop_bit 10 (entries s pt k)) + PAGE_OFFSET)) s else Some (True, s))"

definition free_pmd_entry :: "u64 \<Rightarrow> nat \<Rightarrow> 'a mm_scheme \<Rightarrow> (bool \<times> 'a mm_scheme) option" where
  "free_pmd_entry pmd j s =
     (if valid pmd j s
      then let pt = entry_table (entries s pmd j)
           in Option.bind (for_each (free_pt_entry pt) [0..<512] s) (\<lambda>(_, s). always (heap_free pt) s)
      else Some (True, s))"

definition free_pgd_entry :: "u64 \<Rightarrow> nat \<Rightarrow> 'a mm_scheme \<Rightarrow> (bool \<times> 'a mm_scheme) option" where
  "free_pgd_entry pgd i s =
     (if valid pgd i s
      then let pmd = entry_table (entries s pgd i)
           in Option.bind (for_each (free_pmd_entry pmd) [0..<512] s) (\<lambda>(_, s). always (heap_free pmd) s)
      else Some (True, s))"

definition free_pgd :: "u64 \<Rightarrow> 'a mm_scheme \<Rightarrow> 'a mm_scheme option" where
  "free_pgd pgd s = Option.bind (for_each (free_pgd_entry pgd) [0..<256] s) (\<lambda>(_, s). heap_free pgd s)"

text \<open>A zeroed page for a table; \<open>0\<close> when memory is short.\<close>

definition new_table :: "'a mm_scheme \<Rightarrow> (u64 \<times> 'a mm_scheme) option" where
  "new_table s =
     (case allocate PAGE_SIZE (mm_heap s) of
        None \<Rightarrow> None
      | Some (p, h) \<Rightarrow> let s = s\<lparr>mm_heap := h\<rparr> in Some (p, if p = 0 then s else zero_table p s))"

text \<open>The three nested loops of \<open>copy_pgd\<close>: both sides lose the write bit, the page gains an owner.\<close>

definition copy_pt_entry :: "u64 \<Rightarrow> u64 \<Rightarrow> nat \<Rightarrow> 'a mm_scheme \<Rightarrow> (bool \<times> 'a mm_scheme) option" where
  "copy_pt_entry parent_pt child_pt k s =
     (if valid parent_pt k s
      then let parent_pa = push_bit 12 (drop_bit 10 (entries s parent_pt k));
               s = set_entry parent_pt k (entries s parent_pt k AND NOT PTE_W) s;
               s = set_entry child_pt k (entries s parent_pt k) s
           in Some (True, s\<lparr>mm_heap := page_inc_ref (parent_pa + PAGE_OFFSET) (mm_heap s)\<rparr>)
      else Some (True, s))"

definition copy_pmd_entry :: "u64 \<Rightarrow> u64 \<Rightarrow> nat \<Rightarrow> 'a mm_scheme \<Rightarrow> (bool \<times> 'a mm_scheme) option" where
  "copy_pmd_entry parent_pmd child_pmd j s =
     (if valid parent_pmd j s
      then let parent_pt = entry_table (entries s parent_pmd j)
           in case new_table s of
                None \<Rightarrow> None
              | Some (child_pt, s) \<Rightarrow>
                  if child_pt = 0 then Some (False, s)
                  else for_each (copy_pt_entry parent_pt child_pt) [0..<512]
                         (set_entry child_pmd j (table_entry child_pt) s)
      else Some (True, s))"

definition copy_pgd_entry :: "u64 \<Rightarrow> u64 \<Rightarrow> nat \<Rightarrow> 'a mm_scheme \<Rightarrow> (bool \<times> 'a mm_scheme) option" where
  "copy_pgd_entry pgd new_pgd i s =
     (if valid pgd i s
      then let parent_pmd = entry_table (entries s pgd i)
           in case new_table s of
                None \<Rightarrow> None
              | Some (child_pmd, s) \<Rightarrow>
                  if child_pmd = 0 then Some (False, s)
                  else for_each (copy_pmd_entry parent_pmd child_pmd) [0..<512]
                         (set_entry new_pgd i (table_entry child_pmd) s)
      else Some (True, s))"

definition copy_kernel_half :: "u64 \<Rightarrow> u64 \<Rightarrow> 'a mm_scheme \<Rightarrow> 'a mm_scheme" where
  "copy_kernel_half pgd new_pgd s = fold (\<lambda>i s. set_entry new_pgd i (entries s pgd i) s) [256..<512] s"

text \<open>\<open>copy_pgd\<close>: \<open>0\<close> is the null pointer, returned after everything copied so far is freed.\<close>

definition copy_pgd :: "u64 \<Rightarrow> 'a mm_scheme \<Rightarrow> (u64 \<times> 'a mm_scheme) option" where
  "copy_pgd pgd s =
     (case new_table s of
        None \<Rightarrow> None
      | Some (new_pgd, s) \<Rightarrow>
          if new_pgd = 0 then Some (0, s)
          else case for_each (copy_pgd_entry pgd new_pgd) [0..<256] (copy_kernel_half pgd new_pgd s) of
                 None \<Rightarrow> None
               | Some (True, s) \<Rightarrow> Some (new_pgd, s)
               | Some (False, s) \<Rightarrow> map_option (Pair 0) (free_pgd new_pgd s))"

section \<open>Set-up\<close>

text \<open>\<open>setup_vm\<close> on the static table \<open>boot_pgd\<close>; \<open>kernel_pa\<close> is the address of \<open>_start\<close>.\<close>

definition setup_vm :: "u64 \<Rightarrow> u64 \<Rightarrow> 'a mm_scheme \<Rightarrow> u64 \<times> 'a mm_scheme" where
  "setup_vm boot_pgd kernel_pa s =
     (let s = zero_table boot_pgd s;
          ram_base = kernel_pa AND NOT (push_bit PGD_SHIFT 1 - 1);
          s = set_entry boot_pgd (vpn PGD_SHIFT ram_base) (push_bit 28 (drop_bit PGD_SHIFT ram_base) OR PROT_KERNEL) s;
          s = fold (\<lambda>i s. let pa = push_bit 30 (of_nat i)
                          in set_entry boot_pgd (vpn PGD_SHIFT (PAGE_OFFSET + pa)) (push_bit 28 (drop_bit 30 pa) OR PROT_KERNEL) s)
                [0..<4] s
      in (PAGE_OFFSET, s\<lparr>satp := MAKE_SATP boot_pgd\<rparr>))"

definition drop_identity_map :: "u64 \<Rightarrow> 'a mm_scheme \<Rightarrow> 'a mm_scheme" where
  "drop_identity_map boot_pgd s = fold (\<lambda>i. set_entry boot_pgd i 0) [0..<256] s"

text \<open>
  \<open>mmu_init\<close> (QEMU target): the addresses of the linker symbols and the device base addresses are
  arguments. The result is the new \<open>kernel_pgd\<close>; a null result of \<open>allocate\<close> is used as it is.
\<close>

definition mmu_init :: "u64 \<Rightarrow> u64 \<Rightarrow> u64 \<Rightarrow> u64 \<Rightarrow> u64 \<Rightarrow> 'a mm_scheme \<Rightarrow> (u64 \<times> 'a mm_scheme) option" where
  "mmu_init start_sym text_end rodata_end uart_base plic_base s =
     (case allocate PAGE_SIZE (mm_heap s) of
        None \<Rightarrow> None
      | Some (kernel_pgd, h) \<Rightarrow>
          let s = zero_table kernel_pgd (s\<lparr>mm_heap := h\<rparr>);
              kernel_pa = start_sym - PAGE_OFFSET;
              pool = G_MEMPOOL_START (hp_buddy (mm_heap s));
              text_size = text_end - start_sym;
              rodata_size = rodata_end - text_end
          in Option.bind (map_pages_at kernel_pgd pool (pool - PAGE_OFFSET) (G_MEMPOOL_SIZE (hp_buddy (mm_heap s)))
                 (PTE_V OR PTE_R OR PTE_W OR PTE_A OR PTE_D OR PTE_G) s) (\<lambda>s.
             Option.bind (map_pages_at kernel_pgd start_sym kernel_pa text_size
                 (PTE_V OR PTE_R OR PTE_X OR PTE_A OR PTE_G) s) (\<lambda>s.
             Option.bind (map_pages_at kernel_pgd text_end (kernel_pa + text_size) rodata_size
                 (PTE_V OR PTE_R OR PTE_A OR PTE_G) s) (\<lambda>s.
             Option.bind (if uart_base \<noteq> 0 then map_pages_at kernel_pgd uart_base (uart_base - PAGE_OFFSET) PAGE_SIZE PROT_MMIO s
                 else Some s) (\<lambda>s.
             Option.bind (if plic_base \<noteq> 0 then map_pages_at kernel_pgd plic_base (plic_base - PAGE_OFFSET) 0x400000 PROT_MMIO s
                 else Some s) (\<lambda>s.
             Option.bind (map_pages_at kernel_pgd (0x10100000 + PAGE_OFFSET) 0x10100000 PAGE_SIZE PROT_MMIO s) (\<lambda>s.
             Option.bind (map_pages_at kernel_pgd (0x87000000 + PAGE_OFFSET) 0x87000000 0x800000 PROT_MMIO s) (\<lambda>s.
             Some (kernel_pgd, s\<lparr>satp := MAKE_SATP (kernel_pgd - PAGE_OFFSET)\<rparr>)))))))))"

end
