(* ===== verification/Mmu_Props.thy ===== *)
theory Mmu_Props
  imports Mmu
begin

text \<open>
  Correctness of the page tables of \<open>Mmu\<close>. \<open>sv39\<close> is the translation the hardware performs, from the
  privileged architecture: it walks three levels and stops at a leaf. The tables reached from a root
  form a tree of separate pages; under that invariant mapping a page changes the translation of that
  page alone.
\<close>

section \<open>The translation of the hardware\<close>

definition RWX :: u64 where
  "RWX = PTE_R OR PTE_W OR PTE_X"

fun sv39_walk :: "'a mm_scheme \<Rightarrow> u64 \<Rightarrow> nat list \<Rightarrow> (u64 \<times> nat) option" where
  "sv39_walk s t [] = None"
| "sv39_walk s t (i # is) =
     (let e = entries s t i
      in if e AND PTE_V = 0 then None
         else if e AND RWX \<noteq> 0 then Some (e, length is)
         else sv39_walk s (entry_table e) is)"

text \<open>The leaf entry for an address, with the level it was found on (0 for a 4 KB page).\<close>

definition sv39 :: "'a mm_scheme \<Rightarrow> u64 \<Rightarrow> u64 \<Rightarrow> (u64 \<times> nat) option" where
  "sv39 s pgd va = sv39_walk s pgd [vpn PGD_SHIFT va, vpn PMD_SHIFT va, vpn PTE_SHIFT va]"

definition page_base :: "u64 \<Rightarrow> u64" where
  "page_base e = push_bit 12 (drop_bit 10 e)"

definition same_page :: "u64 \<Rightarrow> u64 \<Rightarrow> bool" where
  "same_page va va' \<longleftrightarrow> vpn PGD_SHIFT va = vpn PGD_SHIFT va' \<and> vpn PMD_SHIFT va = vpn PMD_SHIFT va' \<and>
     vpn PTE_SHIFT va = vpn PTE_SHIFT va'"

section \<open>Entries\<close>

lemma bit_V [simp]: "bit PTE_V n \<longleftrightarrow> n = 0"
  by (simp add: PTE_V_def bit_1_iff)

lemma bit_RWX [simp]: "bit RWX n \<longleftrightarrow> n = 1 \<or> n = 2 \<or> n = 3"
  unfolding RWX_def PTE_R_def PTE_W_def PTE_X_def
  by (auto simp only: bit_or_iff bit_push_bit_iff bit_1_iff possible_bit_word) auto

lemma page_aligned_eq: "take_bit 12 (t :: u64) = 0 \<Longrightarrow> push_bit 12 (drop_bit 12 t) = t"
  by (metis add.right_neutral bits_ident)

lemma page_aligned_diff:
  assumes "take_bit 12 (a :: u64) = 0" "take_bit 12 b = 0"
  shows "take_bit 12 (a - b) = 0"
proof -
  have "a - b = push_bit 12 (drop_bit 12 a) - push_bit 12 (drop_bit 12 b)"
    using assms by (simp only: page_aligned_eq)
  also have "\<dots> = push_bit 12 (drop_bit 12 a - drop_bit 12 b)"
    by (simp only: push_bit_eq_mult left_diff_distrib)
  finally show ?thesis by (simp add: take_bit_push_bit)
qed

lemma aligned_bit: "take_bit 12 (x :: u64) = 0 \<Longrightarrow> bit x n \<Longrightarrow> 12 \<le> n"
  by (metis bit_take_bit_iff bit_0_eq bot_apply bot_bool_def not_le)

lemma entry_table_entry:
  assumes "take_bit 12 t = 0"
  shows "entry_table (table_entry t) = t"
proof -
  have z: "take_bit 12 (t - PAGE_OFFSET) = 0"
    using assms by (rule page_aligned_diff) (simp add: PAGE_OFFSET_def)
  have low: "12 \<le> n" "bit (t - PAGE_OFFSET) (12 + (n - 12))" if "bit (t - PAGE_OFFSET) n" for n
    using aligned_bit [OF z that] that by simp_all
  have "push_bit 12 (drop_bit 10 (table_entry t)) = t - PAGE_OFFSET"
    by (rule bit_eqI) (auto simp: table_entry_def bit_simps dest: low(1) intro: low(2))
  then show ?thesis by (simp add: entry_table_def)
qed

lemma table_entry_V: "table_entry t AND PTE_V \<noteq> 0"
proof -
  have "bit (table_entry t AND PTE_V) 0" by (simp add: table_entry_def bit_simps)
  then show ?thesis by auto
qed

lemma table_entry_RWX: "table_entry t AND RWX = 0"
  by (rule bit_eqI) (auto simp: table_entry_def bit_simps)

lemma small_take_bit:
  assumes "prot < (1024 :: u64)"
  shows "take_bit 10 prot = prot"
proof (rule unat_eq_imp)
  show "unat (take_bit 10 prot) = unat prot"
    using assms by (simp only: unat_take_bit_mod) (simp add: word_less_nat_alt)
qed

lemma leaf_entry_base:
  assumes "take_bit 12 pa = 0" "prot < 1024"
  shows "page_base (leaf_entry pa prot) = pa"
proof -
  have low: "12 \<le> n" "bit pa (12 + (n - 12))" if "bit pa n" for n
    using aligned_bit [OF assms(1) that] that by simp_all
  have "take_bit 10 prot = prot" using assms(2) by (rule small_take_bit)
  then have high: "\<not> bit prot n" if "10 \<le> n" for n using that by (metis bit_take_bit_iff not_le)
  show ?thesis
    by (rule bit_eqI) (use high in \<open>auto simp: page_base_def leaf_entry_def bit_simps dest: low(1) intro: low(2)\<close>)
qed

lemma leaf_entry_flags:
  assumes "prot < 1024"
  shows "leaf_entry pa prot AND 0x3FF = prot"
proof -
  have "(0x3FF :: u64) = mask 10" by (simp add: mask_eq_exp_minus_1)
  then have "leaf_entry pa prot AND 0x3FF = take_bit 10 (leaf_entry pa prot)" by (simp only: take_bit_eq_mask)
  also have "\<dots> = take_bit 10 prot" unfolding leaf_entry_def take_bit_or by (simp add: take_bit_push_bit)
  also have "\<dots> = prot" using assms by (rule small_take_bit)
  finally show ?thesis .
qed

lemma leaf_entry_bits:
  assumes "prot AND PTE_V \<noteq> 0" "prot AND RWX \<noteq> 0"
  shows "leaf_entry pa prot AND PTE_V \<noteq> 0" "leaf_entry pa prot AND RWX \<noteq> 0"
proof -
  have "(leaf_entry pa prot AND PTE_V) AND PTE_V = prot AND PTE_V" "(leaf_entry pa prot AND RWX) AND RWX = prot AND RWX"
    by (rule bit_eqI; auto simp: leaf_entry_def bit_simps)+
  with assms show "leaf_entry pa prot AND PTE_V \<noteq> 0" "leaf_entry pa prot AND RWX \<noteq> 0" by auto
qed

section \<open>The tree of tables\<close>

definition pointer :: "u64 \<Rightarrow> bool" where
  "pointer e \<longleftrightarrow> e AND PTE_V \<noteq> 0 \<and> e AND RWX = 0"

fun walk :: "'a mm_scheme \<Rightarrow> u64 \<Rightarrow> nat list \<Rightarrow> u64 option" where
  "walk s t [] = Some t"
| "walk s t (i # is) = (if pointer (entries s t i) then walk s (entry_table (entries s t i)) is else None)"

definition page_owned :: "heap \<Rightarrow> u64 \<Rightarrow> bool" where
  "page_owned h t \<longleftrightarrow> (\<exists>l. 4096 \<le> l \<and> 0 < heap_owners h (unat t, l))"

definition pt_inv :: "'a mm_scheme \<Rightarrow> u64 \<Rightarrow> bool" where
  "pt_inv s pgd \<longleftrightarrow> heap_inv (mm_heap s) \<and>
     (\<forall>p t. length p \<le> 2 \<and> walk s pgd p = Some t \<longrightarrow> page_owned (mm_heap s) t) \<and>
     (\<forall>p t i. length p \<le> 1 \<and> walk s pgd p = Some t \<and> entries s t i AND PTE_V \<noteq> 0 \<longrightarrow> pointer (entries s t i)) \<and>
     (\<forall>p q t. length p \<le> 2 \<and> length q \<le> 2 \<and> walk s pgd p = Some t \<and> walk s pgd q = Some t \<longrightarrow> p = q)"

lemma walk_snoc:
  "walk s t (p @ [i]) = Option.bind (walk s t p)
     (\<lambda>u. if pointer (entries s u i) then Some (entry_table (entries s u i)) else None)"
  by (induction p arbitrary: t) auto

lemma pt_inv_heap_inv: "pt_inv s pgd \<Longrightarrow> heap_inv (mm_heap s)"
  unfolding pt_inv_def by blast

lemma pt_inv_owned: "pt_inv s pgd \<Longrightarrow> length p \<le> 2 \<Longrightarrow> walk s pgd p = Some t \<Longrightarrow> page_owned (mm_heap s) t"
  unfolding pt_inv_def by blast

lemma pt_inv_pointer:
  "pt_inv s pgd \<Longrightarrow> length p \<le> 1 \<Longrightarrow> walk s pgd p = Some t \<Longrightarrow> entries s t i AND PTE_V \<noteq> 0 \<Longrightarrow> pointer (entries s t i)"
  unfolding pt_inv_def by blast

lemma pt_inv_inj: "pt_inv s pgd \<Longrightarrow> length p \<le> 2 \<Longrightarrow> length q \<le> 2 \<Longrightarrow> walk s pgd p = Some t \<Longrightarrow> walk s pgd q = Some t \<Longrightarrow> p = q"
  unfolding pt_inv_def by blast

lemma sv39_eq:
  assumes "pt_inv s pgd"
  shows "sv39_walk s pgd [a, b, c] =
    (case walk s pgd [a, b] of
       None \<Rightarrow> None
     | Some t \<Rightarrow> if entries s t c AND PTE_V \<noteq> 0 \<and> entries s t c AND RWX \<noteq> 0 then Some (entries s t c, 0) else None)"
proof -
  have P: "pointer (entries s t i)" if "length p \<le> 1" "walk s pgd p = Some t" "entries s t i AND PTE_V \<noteq> 0" for p t i
    using assms that unfolding pt_inv_def by blast
  have V: "pointer (entries s t i) \<longleftrightarrow> entries s t i AND PTE_V \<noteq> 0" if "length p \<le> 1" "walk s pgd p = Some t" for p t i
    using P [OF that] by (metis pointer_def)
  note 1 = V [of "[]" pgd a, simplified]
  show ?thesis
  proof (cases "pointer (entries s pgd a)")
    case False
    with 1 show ?thesis by simp
  next
    case True
    let ?t = "entry_table (entries s pgd a)"
    have "pointer (entries s ?t b) \<longleftrightarrow> entries s ?t b AND PTE_V \<noteq> 0" using V [of "[a]" ?t b] True by simp
    with True show ?thesis by (cases "pointer (entries s ?t b)") (simp_all add: pointer_def Let_def)
  qed
qed

declare walk.simps(2) [simp del]

text \<open>Two trees that agree on a path, up to empty tables, translate alike.\<close>

lemma sv39_same:
  assumes "pt_inv s pgd" "pt_inv s' pgd"
    and "\<And>t. walk s pgd [vpn PGD_SHIFT va, vpn PMD_SHIFT va] = Some t \<Longrightarrow>
      walk s' pgd [vpn PGD_SHIFT va, vpn PMD_SHIFT va] = Some t \<and> entries s' t (vpn PTE_SHIFT va) = entries s t (vpn PTE_SHIFT va)"
    and "\<And>t. walk s pgd [vpn PGD_SHIFT va, vpn PMD_SHIFT va] = None \<Longrightarrow>
      walk s' pgd [vpn PGD_SHIFT va, vpn PMD_SHIFT va] = Some t \<Longrightarrow> entries s' t (vpn PTE_SHIFT va) = 0"
  shows "sv39 s' pgd va = sv39 s pgd va"
  unfolding sv39_def sv39_eq [OF assms(1)] sv39_eq [OF assms(2)]
  using assms(3,4) by (cases "walk s pgd [vpn PGD_SHIFT va, vpn PMD_SHIFT va]") (auto split: option.split)

section \<open>Pages from the heap\<close>

text \<open>A page that \<open>allocate\<close> returns is aligned and not in use.\<close>

lemma page_owned_aligned:
  assumes "heap_inv h" "page_owned h t"
  shows "take_bit 12 t = 0"
proof -
  from assms(2) obtain l where l: "4096 \<le> l" "0 < heap_owners h (unat t, l)" by (auto simp: page_owned_def)
  have "2 ^ 12 dvd unat t"
    using assms(1) l(2)
  proof (cases rule: heap_owned_cases)
    case (page i k)
    have "2 ^ PAGE_SHIFT dvd unat (G_MEMPOOL_START (hp_buddy h))"
      using assms(1) by (auto simp: heap_inv_def heap_ok_def buddy_inv_def pool_ok_def)
    with page(2) show ?thesis by (auto simp: page_region_def PAGE_SHIFT_def)
  next
    case (chunk a i)
    have "i < CHUNK_POOL_COUNT" using used_chunk_page [OF assms(1) chunk(1)] by metis
    with chunk(2) l(1) pool_size_dvd [of i] show ?thesis by auto
  qed
  then have "unat (take_bit 12 t) = 0" by (simp only: unat_take_bit_mod) (simp add: mod_eq_0_iff_dvd)
  then show ?thesis by (simp add: unat_eq_0)
qed

lemma table_alloc:
  assumes inv: "heap_inv h"
  obtains (null) h' where "allocate PAGE_SIZE h = Some (0, h')" "heap_inv h'" "page_owned h' = page_owned h"
    | (given) u h' where "allocate PAGE_SIZE h = Some (u, h')" "u \<noteq> 0" "heap_inv h'" "page_owned h' = (page_owned h)(u := True)"
      "\<not> page_owned h u" "take_bit 12 u = 0"
  using inv
proof (cases rule: allocate_cases [where len = PAGE_SIZE])
  case (null h')
  then show thesis using that(1) [of h'] by (simp add: page_owned_def fun_eq_iff)
next
  case (given u h' l)
  have l: "4096 \<le> l" using given(4) by (simp add: PAGE_SIZE_eq)
  have new: "page_owned h' u" using given(5) l by (auto simp: page_owned_def)
  have "\<not> page_owned h u"
  proof
    assume "page_owned h u"
    then obtain m where m: "0 < heap_owners h (unat u, m)" by (auto simp: page_owned_def)
    with given(5,6) have "0 < heap_owners h' (unat u, m)" "0 < heap_owners h' (unat u, l)" "m \<noteq> l" by auto
    with owned_start_unique [OF given(3)] show False by blast
  qed
  moreover have "page_owned h' t = page_owned h t" if "t \<noteq> u" for t
    using that given(5) by (auto simp: page_owned_def dest: unat_eq_imp)
  ultimately show thesis using that(2) [OF given(1-3)] new page_owned_aligned [OF given(3) new] by (auto simp: fun_eq_iff)
qed

section \<open>Adding a table\<close>

text \<open>Hanging a fresh zeroed table on an invalid entry \<open>i\<close> of the table at path \<open>p\<close>.\<close>

lemma walk_new_table:
  assumes inv: "pt_inv s pgd" and p: "length p \<le> 1" "walk s pgd p = Some t" and e: "entries s t i AND PTE_V = 0"
    and fresh: "\<not> page_owned (mm_heap s) u" "take_bit 12 u = 0"
    and s': "entries s' = (entries s)(u := \<lambda>_. 0, t := (entries s t)(i := table_entry u))"
  shows "length q \<le> 2 \<Longrightarrow> walk s' pgd q =
    (if q = p @ [i] then Some u else if take (Suc (length p)) q = p @ [i] then None else walk s pgd q)"
proof (induction q rule: rev_induct)
  case Nil
  then show ?case by simp
next
  case (snoc a q)
  have old: "b \<noteq> u" if "length q \<le> 2" "walk s pgd q = Some b" for b q
    using inv fresh that unfolding pt_inv_def by blast
  have tu: "t \<noteq> u" using old [of p t] p by simp
  have ent: "entries s' u = (\<lambda>_. 0)" "\<And>b. b \<noteq> u \<Longrightarrow> b \<noteq> t \<Longrightarrow> entries s' b = entries s b"
    "entries s' t = (entries s t)(i := table_entry u)" using tu by (auto simp: s')
  have np: "\<not> pointer 0" "\<not> pointer (entries s t i)" using e by (auto simp: pointer_def)
  have new: "pointer (table_entry u)" "entry_table (table_entry u) = u"
    using table_entry_V table_entry_RWX entry_table_entry [OF fresh(2)] by (auto simp: pointer_def)
  have q: "length q \<le> 1" using snoc.prems by simp
  show ?case
  proof (cases "q = p @ [i]")
    case True
    then have "p = []" using q by simp
    have "walk s' pgd q = Some u" using snoc.IH q True by simp
    then show ?thesis unfolding walk_snoc using True by (simp add: ent np)
  next
    case False
    have not_ext: "take (Suc (length p)) q \<noteq> p @ [i]" using False q by (cases q; cases p) auto
    with snoc.IH q False have IH: "walk s' pgd q = walk s pgd q" by simp
    show ?thesis
    proof (cases "walk s pgd q")
      case None
      have "q \<noteq> p" using None p(2) by auto
      then have "q @ [a] \<noteq> p @ [i]" "take (Suc (length p)) (q @ [a]) \<noteq> p @ [i]"
        using not_ext q p(1) by (auto simp: take_append) (cases q; cases p; auto)+
      with None IH show ?thesis by (simp add: walk_snoc)
    next
      case (Some b)
      have bu: "b \<noteq> u" using old [of q b] q Some by simp
      show ?thesis
      proof (cases "q = p")
        case True
        with Some p(2) have "b = t" by simp
        with True Some IH show ?thesis by (simp add: walk_snoc ent np new)
      next
        case False
        then have "b \<noteq> t" using pt_inv_inj [OF inv, of q p t] q p Some by auto
        moreover have "q @ [a] \<noteq> p @ [i]" using False by simp
        moreover have "take (Suc (length p)) (q @ [a]) \<noteq> p @ [i]"
          using not_ext False q p(1) by (cases q; cases p) auto
        ultimately show ?thesis using Some IH bu False by (simp add: walk_snoc ent)
      qed
    qed
  qed
qed

text \<open>It keeps the tree and changes no translation.\<close>

lemma new_table_inv:
  assumes inv: "pt_inv s pgd" and p: "length p \<le> 1" "walk s pgd p = Some t" and e: "entries s t i AND PTE_V = 0"
    and fresh: "\<not> page_owned (mm_heap s) u" "take_bit 12 u = 0"
    and s': "entries s' = (entries s)(u := \<lambda>_. 0, t := (entries s t)(i := table_entry u))"
    and h': "heap_inv (mm_heap s')" "page_owned (mm_heap s') = (page_owned (mm_heap s))(u := True)"
  shows "pt_inv s' pgd" "sv39 s' pgd va = sv39 s pgd va" "walk s' pgd (p @ [i]) = Some u"
proof -
  note W = walk_new_table [OF inv p e fresh s']
  have old: "b \<noteq> u" if "length q \<le> 2" "walk s pgd q = Some b" for b q
    using inv fresh that unfolding pt_inv_def by blast
  have tu: "t \<noteq> u" using old [of p t] p by simp
  have ent: "entries s' u = (\<lambda>_. 0)" "\<And>b. b \<noteq> u \<Longrightarrow> b \<noteq> t \<Longrightarrow> entries s' b = entries s b"
    "entries s' t = (entries s t)(i := table_entry u)" using tu by (auto simp: s')
  have none: "walk s pgd (p @ [i]) = None" using p(2) e by (simp add: walk_snoc pointer_def)
  have none': "walk s pgd q = None" if "take (Suc (length p)) q = p @ [i]" "length q \<le> 2" for q
  proof -
    have q: "q = p @ [i] @ drop (Suc (length p)) q" using append_take_drop_id [of "Suc (length p)" q] that by simp
    have "walk s r (xs @ ys) = None" if "walk s r xs = None" for r xs ys using that by (induction xs arbitrary: r) (auto simp: walk.simps)
    from this [OF none, of "drop (Suc (length p)) q"] q show ?thesis by simp
  qed
  have sub: "walk s' pgd q = Some b \<Longrightarrow> length q \<le> 2 \<Longrightarrow> q = p @ [i] \<and> b = u \<or> walk s pgd q = Some b \<and> b \<noteq> u" for q b
    using W [of q] old [of q b] by (auto split: if_splits)
  show inv': "pt_inv s' pgd"
    unfolding pt_inv_def
  proof (intro conjI allI impI)
    show "heap_inv (mm_heap s')" by (rule h'(1))
    show "page_owned (mm_heap s') b" if "length q \<le> 2 \<and> walk s' pgd q = Some b" for q b
      using sub [of q b] that inv h'(2) unfolding pt_inv_def by auto
    show "q = r" if "length q \<le> 2 \<and> length r \<le> 2 \<and> walk s' pgd q = Some b \<and> walk s' pgd r = Some b" for q r b
      using sub [of q b] sub [of r b] that pt_inv_inj [OF inv, of q r b] by blast
    show "pointer (entries s' b j)" if "length q \<le> 1 \<and> walk s' pgd q = Some b \<and> entries s' b j AND PTE_V \<noteq> 0" for q b j
    proof -
      have "b \<noteq> u" using that by (auto simp: ent)
      with sub [of q b] that have "walk s pgd q = Some b" by auto
      with that inv \<open>b \<noteq> u\<close> show ?thesis
        unfolding pt_inv_def by (cases "b = t") (auto simp: ent pointer_def table_entry_RWX table_entry_V split: if_splits)
    qed
  qed
  show "sv39 s' pgd va = sv39 s pgd va"
  proof (rule sv39_same [OF inv inv'])
    let ?q = "[vpn PGD_SHIFT va, vpn PMD_SHIFT va]"
    show "walk s' pgd ?q = Some b \<and> entries s' b (vpn PTE_SHIFT va) = entries s b (vpn PTE_SHIFT va)"
      if b: "walk s pgd ?q = Some b" for b
    proof -
      have "take (Suc (length p)) ?q \<noteq> p @ [i]" "?q \<noteq> p @ [i]" using none' [of ?q] none b by auto
      moreover have "b \<noteq> t" "b \<noteq> u" using pt_inv_inj [OF inv, of ?q p t] old [of ?q b] b p by auto
      ultimately show ?thesis using W [of ?q] b by (simp add: ent)
    qed
    show "entries s' b (vpn PTE_SHIFT va) = 0" if "walk s pgd ?q = None" "walk s' pgd ?q = Some b" for b
      using sub [of ?q b] that by (auto simp: ent)
  qed
  show "walk s' pgd (p @ [i]) = Some u" using W [of "p @ [i]"] p(1) by simp
qed

section \<open>Walking and mapping a page\<close>

text \<open>What a step of a walk may do: nothing, or add an empty table; no translation changes.\<close>

definition same_translation :: "'a mm_scheme \<Rightarrow> 'a mm_scheme \<Rightarrow> u64 \<Rightarrow> bool" where
  "same_translation s s' pgd \<longleftrightarrow> pt_inv s' pgd \<and> (\<forall>va. sv39 s' pgd va = sv39 s pgd va)"

lemma pt_inv_heap:
  assumes "pt_inv s pgd" "heap_inv h" "page_owned h = page_owned (mm_heap s)"
  shows "pt_inv (s\<lparr>mm_heap := h\<rparr>) pgd" "sv39 (s\<lparr>mm_heap := h\<rparr>) pgd va = sv39 s pgd va"
proof -
  have w: "walk (s\<lparr>mm_heap := h\<rparr>) t q = walk s t q" for t q by (induction q arbitrary: t) (auto simp: walk.simps)
  show "pt_inv (s\<lparr>mm_heap := h\<rparr>) pgd"
    unfolding pt_inv_def w
  proof (intro conjI allI impI)
    show "pointer (entries (s\<lparr>mm_heap := h\<rparr>) t i)"
      if "length p \<le> 1 \<and> walk s pgd p = Some t \<and> entries (s\<lparr>mm_heap := h\<rparr>) t i AND PTE_V \<noteq> 0" for p t i
      using that pt_inv_pointer [OF assms(1), of p t i] by simp
    show "p = q" if "length p \<le> 2 \<and> length q \<le> 2 \<and> walk s pgd p = Some t \<and> walk s pgd q = Some t" for p q t
      using that pt_inv_inj [OF assms(1)] by blast
  qed (use assms pt_inv_owned [OF assms(1)] in auto)
  have "sv39_walk (s\<lparr>mm_heap := h\<rparr>) t q = sv39_walk s t q" for t q by (induction q arbitrary: t) (auto simp: Let_def)
  then show "sv39 (s\<lparr>mm_heap := h\<rparr>) pgd va = sv39 s pgd va" by (simp only: sv39_def)
qed

lemma descend_correct:
  assumes inv: "pt_inv s pgd" and p: "length p \<le> 1" "walk s pgd p = Some t"
  shows "\<exists>r s'. descend t i True s = Some (r, s') \<and> same_translation s s' pgd \<and>
    (\<forall>u. r = Some u \<longrightarrow> walk s' pgd (p @ [i]) = Some u)"
proof (cases "entries s t i AND PTE_V = 0")
  case False
  have "pointer (entries s t i)" using pt_inv_pointer [OF inv p False] .
  then have "walk s pgd (p @ [i]) = Some (entry_table (entries s t i))" using p(2) by (simp add: walk_snoc)
  with False inv show ?thesis by (simp add: descend_def same_translation_def)
next
  case True
  have "heap_inv (mm_heap s)" using inv by (rule pt_inv_heap_inv)
  then show ?thesis
  proof (cases rule: table_alloc)
    case (null h')
    with True pt_inv_heap [OF inv null(2,3)] show ?thesis by (simp add: descend_def same_translation_def)
  next
    case (given u h')
    let ?s = "set_entry t i (table_entry u) (zero_table u (s\<lparr>mm_heap := h'\<rparr>))"
    have tu: "t \<noteq> u" using pt_inv_owned [OF inv _ p(2)] p(1) given(5) by auto
    have ent: "entries ?s = (entries s)(u := \<lambda>_. 0, t := (entries s t)(i := table_entry u))"
      using tu by (auto simp: set_entry_def zero_table_def)
    have h: "mm_heap ?s = h'" by (simp add: set_entry_def zero_table_def)
    note N = new_table_inv [OF inv p True given(5,6) ent, unfolded h, OF given(3,4)]
    have "descend t i True s = Some (Some u, ?s)"
      using True given(1,2) by (simp add: descend_def ent entry_table_entry [OF given(6)])
    with N show ?thesis by (simp add: same_translation_def)
  qed
qed

lemma pagewalk_correct:
  assumes inv: "pt_inv s pgd"
  shows "\<exists>r s'. pagewalk pgd va True s = Some (r, s') \<and> same_translation s s' pgd \<and>
    (\<forall>t i. r = Some (t, i) \<longrightarrow> i = vpn PTE_SHIFT va \<and> walk s' pgd [vpn PGD_SHIFT va, vpn PMD_SHIFT va] = Some t)"
proof -
  from descend_correct [OF inv, of "[]" pgd "vpn PGD_SHIFT va"] obtain r1 s1 where
    1: "descend pgd (vpn PGD_SHIFT va) True s = Some (r1, s1)" "same_translation s s1 pgd"
    "\<And>u. r1 = Some u \<Longrightarrow> walk s1 pgd [vpn PGD_SHIFT va] = Some u" by auto
  show ?thesis
  proof (cases r1)
    case None
    with 1 show ?thesis by (simp add: pagewalk_def)
  next
    case (Some pmd)
    have inv1: "pt_inv s1 pgd" using 1(2) by (simp add: same_translation_def)
    from descend_correct [OF inv1, of "[vpn PGD_SHIFT va]" pmd "vpn PMD_SHIFT va"] 1(3) [OF Some] obtain r2 s2 where
      2: "descend pmd (vpn PMD_SHIFT va) True s1 = Some (r2, s2)" "same_translation s1 s2 pgd"
      "\<And>u. r2 = Some u \<Longrightarrow> walk s2 pgd [vpn PGD_SHIFT va, vpn PMD_SHIFT va] = Some u" by auto
    have "same_translation s s2 pgd" using 1(2) 2(2) by (simp add: same_translation_def)
    with 1(1) 2 Some show ?thesis by (cases r2) (auto simp: pagewalk_def)
  qed
qed

text \<open>Writing a leaf entry changes the translation of its page alone.\<close>

lemma set_leaf:
  assumes inv: "pt_inv s pgd" and w: "walk s pgd [vpn PGD_SHIFT va, vpn PMD_SHIFT va] = Some t"
    and e: "e AND PTE_V \<noteq> 0" "e AND RWX \<noteq> 0"
  shows "pt_inv (set_entry t (vpn PTE_SHIFT va) e s) pgd"
    "sv39 (set_entry t (vpn PTE_SHIFT va) e s) pgd va' = (if same_page va va' then Some (e, 0) else sv39 s pgd va')"
proof -
  let ?s = "set_entry t (vpn PTE_SHIFT va) e s"
  have ent: "\<And>b. b \<noteq> t \<Longrightarrow> entries ?s b = entries s b" "entries ?s t = (entries s t)(vpn PTE_SHIFT va := e)" "mm_heap ?s = mm_heap s"
    by (auto simp: set_entry_def)
  have nt: "b \<noteq> t" if "length q \<le> 1" "walk s pgd q = Some b" for q b
    using pt_inv_inj [OF inv, of q "[vpn PGD_SHIFT va, vpn PMD_SHIFT va]" t] that w by auto
  have W: "length q \<le> 2 \<Longrightarrow> walk ?s pgd q = walk s pgd q" for q
  proof (induction q rule: rev_induct)
    case (snoc a q)
    then show ?case using nt [of q] by (cases "walk s pgd q") (auto simp: walk_snoc ent)
  qed simp
  show inv': "pt_inv ?s pgd"
    unfolding pt_inv_def
  proof (intro conjI allI impI)
    show "heap_inv (mm_heap ?s)" using pt_inv_heap_inv [OF inv] by (simp add: ent)
    show "page_owned (mm_heap ?s) b" if "length q \<le> 2 \<and> walk ?s pgd q = Some b" for q b
      using that pt_inv_owned [OF inv, of q b] W [of q] by (simp add: ent)
    show "pointer (entries ?s b i)" if "length q \<le> 1 \<and> walk ?s pgd q = Some b \<and> entries ?s b i AND PTE_V \<noteq> 0" for q b i
      using that nt [of q b] W [of q] pt_inv_pointer [OF inv, of q b i] by (simp add: ent)
    show "q = r" if "length q \<le> 2 \<and> length r \<le> 2 \<and> walk ?s pgd q = Some b \<and> walk ?s pgd r = Some b" for q r b
      using that W [of q] W [of r] by (intro pt_inv_inj [OF inv, of q r b]) auto
  qed
  show "sv39 ?s pgd va' = (if same_page va va' then Some (e, 0) else sv39 s pgd va')"
  proof (cases "same_page va va'")
    case True
    then show ?thesis using w e W unfolding sv39_def sv39_eq [OF inv'] same_page_def by (simp add: set_entry_def)
  next
    case False
    have "sv39 ?s pgd va' = sv39 s pgd va'"
    proof (rule sv39_same [OF inv inv'])
      let ?q = "[vpn PGD_SHIFT va', vpn PMD_SHIFT va']"
      show "walk ?s pgd ?q = Some b \<and> entries ?s b (vpn PTE_SHIFT va') = entries s b (vpn PTE_SHIFT va')"
        if "walk s pgd ?q = Some b" for b
        using that W [of ?q] False pt_inv_inj [OF inv _ _ that, of "[vpn PGD_SHIFT va, vpn PMD_SHIFT va]"] w
        by (cases "b = t") (auto simp: ent same_page_def)
      show "entries ?s b (vpn PTE_SHIFT va') = 0" if "walk s pgd ?q = None" "walk ?s pgd ?q = Some b" for b
        using that W [of ?q] by simp
    qed
    with False show ?thesis by simp
  qed
qed

lemma map_page_cases:
  assumes inv: "pt_inv s pgd" and prot: "prot AND PTE_V \<noteq> 0" "prot AND RWX \<noteq> 0"
  obtains (short) s' where "map_page pgd va pa prot s = Some s'" "pt_inv s' pgd" "\<And>va'. sv39 s' pgd va' = sv39 s pgd va'"
    | (mapped) s' where "map_page pgd va pa prot s = Some s'" "pt_inv s' pgd"
      "\<And>va'. sv39 s' pgd va' = (if same_page va va' then Some (leaf_entry pa prot, 0) else sv39 s pgd va')"
proof -
  from pagewalk_correct [OF inv, of va] obtain r s1 where
    P: "pagewalk pgd va True s = Some (r, s1)" "pt_inv s1 pgd" "\<And>va. sv39 s1 pgd va = sv39 s pgd va"
    "\<And>t i. r = Some (t, i) \<Longrightarrow> i = vpn PTE_SHIFT va \<and> walk s1 pgd [vpn PGD_SHIFT va, vpn PMD_SHIFT va] = Some t"
    by (auto simp: same_translation_def)
  show thesis
  proof (cases r)
    case None
    with P show thesis by (intro short [of s1]) (simp_all add: map_page_def)
  next
    case (Some ti)
    then obtain t where r: "r = Some (t, vpn PTE_SHIFT va)" and w: "walk s1 pgd [vpn PGD_SHIFT va, vpn PMD_SHIFT va] = Some t"
      using P(4) by (cases ti) auto
    note L = set_leaf [OF P(2) w leaf_entry_bits [OF prot, of pa]]
    show thesis
      by (rule mapped [of "set_entry t (vpn PTE_SHIFT va) (leaf_entry pa prot) s1"])
        (use P(1,3) r L in \<open>simp_all add: map_page_def\<close>)
  qed
qed


text \<open>A root table just allocated, with no entry.\<close>

definition mm_of :: "heap \<Rightarrow> mm" where
  "mm_of h = \<lparr>mm_heap = h, entries = \<lambda>_ _. 0, satp = 0, mm_mem = \<lambda>_. 0\<rparr>"

lemma mm_of_inv:
  assumes "heap_inv h" "page_owned h p"
  shows "pt_inv (mm_of h) p" "sv39 (mm_of h) p va = None"
proof -
  have w: "walk (mm_of h) p q = (if q = [] then Some p else None)" for q
    by (cases q) (auto simp: walk.simps pointer_def mm_of_def)
  show "pt_inv (mm_of h) p" using assms unfolding pt_inv_def w by (auto simp: mm_of_def split: if_splits)
  show "sv39 (mm_of h) p va = None" by (simp add: sv39_def mm_of_def)
qed

lemma heap4_page: "\<exists>p h. allocate 8192 heap4 = Some (p, h) \<and> heap_inv h \<and> page_owned h p"
proof -
  obtain p h where al: "allocate 8192 heap4 = Some (p, h)" "p \<noteq> 0" using heap4_alloc by blast
  from conjunct1 [OF heap4_inv] show ?thesis
  proof (cases rule: allocate_cases [where len = 8192])
    case (given q h' l)
    then have "page_owned h' q" unfolding page_owned_def by (intro exI [of _ l]) simp
    with given show ?thesis by blast
  qed (use al in simp)
qed


section \<open>Mapping a range\<close>

text \<open>A range of \<open>n\<close> pages that does not pass the end of the address space.\<close>

lemma map_loop_correct:
  assumes inv: "pt_inv s pgd" and prot: "prot AND PTE_V \<noteq> 0" "prot AND RWX \<noteq> 0"
    and lim: "unat lim = unat va + n * 4096"
  shows "\<exists>s'. map_loop pgd lim va pa prot s = Some s' \<and> pt_inv s' pgd \<and>
    (\<forall>va'. sv39 s' pgd va' = sv39 s pgd va' \<or>
      (\<exists>k < n. same_page (va + of_nat k * PAGE_SIZE) va' \<and> sv39 s' pgd va' = Some (leaf_entry (pa + of_nat k * PAGE_SIZE) prot, 0)))"
  using inv lim
proof (induction n arbitrary: va pa s)
  case 0
  then have "lim = va" using unat_eq_imp by simp
  with 0 show ?case by (simp add: map_loop.simps)
next
  case (Suc n)
  have less: "va < lim" using Suc.prems(2) by (simp add: word_less_nat_alt)
  have "unat va + 4096 \<le> unat lim" using Suc.prems(2) by simp
  then have "unat va + 4096 < 2 ^ 64" using u64_less [of lim] by (simp del: u64_less)
  then have lim': "unat lim = unat (va + PAGE_SIZE) + n * 4096"
    using Suc.prems(2) by (simp add: PAGE_SIZE_eq unat_simps)
  obtain s1 where s1: "map_page pgd va pa prot s = Some s1" "pt_inv s1 pgd"
    "\<And>va'. sv39 s1 pgd va' = sv39 s pgd va' \<or> same_page va va' \<and> sv39 s1 pgd va' = Some (leaf_entry pa prot, 0)"
    using Suc.prems(1) prot by (cases rule: map_page_cases [where va = va and pa = pa]) (metis, metis)
  from Suc.IH [OF s1(2) lim', of "pa + PAGE_SIZE"] obtain s' where
    s': "map_loop pgd lim (va + PAGE_SIZE) (pa + PAGE_SIZE) prot s1 = Some s'" "pt_inv s' pgd"
    "\<And>va'. sv39 s' pgd va' = sv39 s1 pgd va' \<or> (\<exists>k < n. same_page (va + PAGE_SIZE + of_nat k * PAGE_SIZE) va' \<and>
       sv39 s' pgd va' = Some (leaf_entry (pa + PAGE_SIZE + of_nat k * PAGE_SIZE) prot, 0))" by blast
  have shift: "a + PAGE_SIZE + of_nat k * PAGE_SIZE = a + of_nat (Suc k) * PAGE_SIZE" for a k by (simp add: algebra_simps)
  have "sv39 s' pgd va' = sv39 s pgd va' \<or> (\<exists>k < Suc n. same_page (va + of_nat k * PAGE_SIZE) va' \<and>
      sv39 s' pgd va' = Some (leaf_entry (pa + of_nat k * PAGE_SIZE) prot, 0))" for va'
    using s'(3) [of va'] s1(3) [of va'] unfolding shift
  proof (elim disjE exE conjE)
    assume "sv39 s' pgd va' = sv39 s1 pgd va'" "same_page va va'" "sv39 s1 pgd va' = Some (leaf_entry pa prot, 0)"
    then show ?thesis by (intro disjI2 exI [of _ 0]) simp
  qed auto
  moreover have "map_loop pgd lim va pa prot s = Some s'" using less s1(1) s'(1) by (subst map_loop.simps) simp
  ultimately show ?case using s'(2) by blast
qed



end
