(* ===== verification/Mmap.thy ===== *)
theory Mmap
  imports Vma Mmu_Props
begin

text \<open>
  \<open>sys_mmap\<close> of \<open>src/src/syscall.c\<close>: choosing the region, recording the area and, on request, mapping
  fresh pages at once. The state is the page tables with the heap, and the areas of the process whose
  root table is \<open>pgd\<close>. \<open>prot\<close> and \<open>flags\<close> are C ints, kept at 32 bits.
\<close>

section \<open>The system call\<close>

definition PROT_READ :: u32 where "PROT_READ = 1"
definition PROT_WRITE :: u32 where "PROT_WRITE = 2"
definition PROT_EXEC :: u32 where "PROT_EXEC = 4"
definition MAP_ANONYMOUS :: u32 where "MAP_ANONYMOUS = 0x20"
definition MAP_POPULATE :: u32 where "MAP_POPULATE = 0x8000"

definition page_round :: "u64 \<Rightarrow> u64" where
  "page_round len = (len + PAGE_SIZE - 1) AND NOT (PAGE_SIZE - 1)"

text \<open>The hint is used unless it is null, unaligned or meets an area.\<close>

definition mmap_start :: "vm_area list \<Rightarrow> u64 \<Rightarrow> u64 \<Rightarrow> u64 option" where
  "mmap_start vs start len =
     (if start = 0 \<or> start AND (PAGE_SIZE - 1) \<noteq> 0 \<or> is_vma_overlap vs start (start + len)
      then find_free_vma_region vs len else Some start)"

text \<open>The page-table permissions for the permissions of an area.\<close>

definition pte_prot :: "u32 \<Rightarrow> u64" where
  "pte_prot prot =
     (let p = PTE_V OR PTE_U OR PTE_A OR PTE_D;
          p = if prot AND PROT_READ \<noteq> 0 then p OR PTE_R else p;
          p = if prot AND PROT_WRITE \<noteq> 0 then p OR (PTE_W OR PTE_R) else p
      in if prot AND PROT_EXEC \<noteq> 0 then p OR PTE_X else p)"

text \<open>The loop for \<open>MAP_POPULATE\<close>; \<open>False\<close> when a page cannot be allocated.\<close>

partial_function (option) populate ::
  "u64 \<Rightarrow> u64 \<Rightarrow> u64 \<Rightarrow> u64 \<Rightarrow> 'a mm_scheme \<Rightarrow> (bool \<times> 'a mm_scheme) option" where
  "populate pgd lim a pp s =
     (if a < lim
      then case allocate PAGE_SIZE (mm_heap s) of
             None \<Rightarrow> None
           | Some (phys, h) \<Rightarrow>
               let s = s\<lparr>mm_heap := h\<rparr>
               in if phys = 0 then Some (False, s)
                  else Option.bind (map_pages_at pgd a (phys - PAGE_OFFSET) PAGE_SIZE pp
                           (s\<lparr>mm_mem := memset (unat phys) 0 (unat PAGE_SIZE) (mm_mem s)\<rparr>)) (populate pgd lim (a + PAGE_SIZE) pp)
      else Some (True, s))"

definition sys_mmap ::
  "u64 \<Rightarrow> u64 \<Rightarrow> u64 \<Rightarrow> u32 \<Rightarrow> u32 \<Rightarrow> 'a mm_scheme \<times> vm_area list \<Rightarrow>
   (kernel_fault + u64 \<times> 'a mm_scheme \<times> vm_area list) option" where
  "sys_mmap pgd addr len prot flags = (\<lambda>(s, vs).
     let len = page_round len
     in if len = 0 then Some (Inr (- 1, s, vs))
        else case mmap_start vs addr len of
               None \<Rightarrow> None
             | Some start \<Rightarrow>
                 (case add_vma start len (scast prot) (scast flags) (mm_heap s, vs) of
                    None \<Rightarrow> None
                  | Some (Inl f) \<Rightarrow> Some (Inl f)
                  | Some (Inr (_, h, vs)) \<Rightarrow>
                      let s = s\<lparr>mm_heap := h\<rparr>
                      in if flags AND MAP_POPULATE \<noteq> 0
                         then map_option (\<lambda>(ok, s). Inr (if ok then start else - 1, s, vs))
                                (populate pgd (start + len) start (pte_prot prot) s)
                         else Some (Inr (start, s, vs))))"

section \<open>The areas of a process stay disjoint\<close>

lemma mmap_start_free:
  assumes st: "mmap_start vs addr len = Some start" and fit: "unat start + unat len < 2 ^ 64"
  shows "\<forall>v \<in> set vs. \<not> meets v (unat start) (unat (start + len))"
proof -
  have e: "unat (start + len) = unat start + unat len" using fit by (simp add: unat_simps)
  show ?thesis
  proof (cases "addr = 0 \<or> addr AND (PAGE_SIZE - 1) \<noteq> 0 \<or> is_vma_overlap vs addr (addr + len)")
    case True
    then have "find_free_from vs len 0x10000000 = Some start" using st by (simp add: mmap_start_def find_free_vma_region_def)
    with find_free_from_ends [of vs len "0x10000000"] have "first_clash vs start len = None" by auto
    with first_clash_None [OF fit] show ?thesis unfolding e by blast
  next
    case False
    then have "start = addr" "\<not> is_vma_overlap vs addr (addr + len)" using st by (auto simp: mmap_start_def)
    then show ?thesis using is_vma_overlap_iff [of vs addr "addr + len"] by simp
  qed
qed

lemma mmap_start_total: "\<exists>start. mmap_start vs addr len = Some start"
  using find_free_from_ends [of vs len "0x10000000"] by (auto simp: mmap_start_def find_free_vma_region_def)



end
