(* ===== verification/Cpio.thy ===== *)
theory Cpio
  imports CString Align_Endian
begin

text \<open>
  \<open>src/lib/cpio.c\<close>: lookup in the initial ramdisk, a cpio archive in \<open>newc\<close> format lying in memory.
  The string literals \<open>"070701"\<close> and \<open>"TRAILER!!!"\<close> are C strings at the addresses \<open>magic\<close> and
  \<open>trailer\<close>. Printing is modelled by the list of things printed.
\<close>

section \<open>Header fields\<close>

text \<open>\<open>hextoi\<close>: an \<open>int\<close> accumulator of 32 bits. The pointer only moves when a digit is consumed.\<close>

fun hextoi_loop :: "mem \<Rightarrow> nat \<Rightarrow> nat \<Rightarrow> u32 \<Rightarrow> u32" where
  "hextoi_loop m s 0 r = r"
| "hextoi_loop m s (Suc n) r =
     (let r = push_bit 4 r in
      if m s \<ge> 65 then hextoi_loop m (s + 1) n (r + (ucast (m s) - 65 + 10))
      else if m s \<ge> 48 then hextoi_loop m (s + 1) n (r + (ucast (m s) - 48))
      else hextoi_loop m s n r)"

definition hextoi :: "mem \<Rightarrow> nat \<Rightarrow> nat \<Rightarrow> int" where
  "hextoi m s n = sint (hextoi_loop m s n 0)"

text \<open>Offsets in \<open>struct cpio_t\<close>, and its size.\<close>

definition FILESIZE_OFF :: nat where
  "FILESIZE_OFF = 54"

definition NAMESIZE_OFF :: nat where
  "NAMESIZE_OFF = 94"

definition SIZEOF_CPIO :: nat where
  "SIZEOF_CPIO = 110"

definition cpio_namesize :: "mem \<Rightarrow> nat \<Rightarrow> int" where
  "cpio_namesize m p = hextoi m (p + NAMESIZE_OFF) 8"

definition cpio_filesize :: "mem \<Rightarrow> nat \<Rightarrow> int" where
  "cpio_filesize m p = hextoi m (p + FILESIZE_OFF) 8"

definition cpio_data :: "mem \<Rightarrow> nat \<Rightarrow> nat" where
  "cpio_data m p = nat (int p + align_up_int (int SIZEOF_CPIO + cpio_namesize m p) 4)"

definition cpio_next :: "mem \<Rightarrow> nat \<Rightarrow> nat" where
  "cpio_next m p = nat (int p + (align_up_int (int SIZEOF_CPIO + cpio_namesize m p) 4 +
     align_up_int (cpio_filesize m p) 4))"

section \<open>The archive walks\<close>

text \<open>\<open>Some None\<close> is the return value -1, \<open>Some (Some (data, size))\<close> success with both results.\<close>

partial_function (option) initrd_get_file ::
  "mem \<Rightarrow> nat \<Rightarrow> nat \<Rightarrow> nat \<Rightarrow> nat \<Rightarrow> (nat \<times> int) option option" where
  "initrd_get_file m magic trailer filename p =
     (if strncmp m p magic 6 \<noteq> 0 then Some None
      else case strcmp m (p + SIZEOF_CPIO) trailer of
          None \<Rightarrow> None
        | Some r \<Rightarrow>
            if r = 0 then Some None
            else case strcmp m (p + SIZEOF_CPIO) filename of
                None \<Rightarrow> None
              | Some r \<Rightarrow>
                  if r = 0 then Some (Some (cpio_data m p, cpio_filesize m p))
                  else initrd_get_file m magic trailer filename (cpio_next m p))"

datatype cpio_out = Listed int nat | Invalid_magic | Putc u8 | Newline | Not_found nat

partial_function (option) initrd_list :: "mem \<Rightarrow> nat \<Rightarrow> nat \<Rightarrow> nat \<Rightarrow> cpio_out list option" where
  "initrd_list m magic trailer p =
     (if strncmp m p magic 6 \<noteq> 0 then Some [Invalid_magic]
      else case strcmp m (p + SIZEOF_CPIO) trailer of
          None \<Rightarrow> None
        | Some r \<Rightarrow>
            if r = 0 then Some []
            else Option.bind (initrd_list m magic trailer (cpio_next m p))
                   (\<lambda>out. Some (Listed (cpio_filesize m p) (p + SIZEOF_CPIO) # out)))"

text \<open>The \<open>for\<close> loop of \<open>initrd_cat\<close>: a carriage return before every line feed.\<close>

definition cat_data :: "mem \<Rightarrow> nat \<Rightarrow> int \<Rightarrow> cpio_out list" where
  "cat_data m d len =
     concat (map (\<lambda>i. if m (d + i) = 10 then [Putc 13, Putc 10] else [Putc (m (d + i))]) [0..<nat len])"

partial_function (option) initrd_cat :: "mem \<Rightarrow> nat \<Rightarrow> nat \<Rightarrow> nat \<Rightarrow> nat \<Rightarrow> cpio_out list option" where
  "initrd_cat m magic trailer filename p =
     (if strncmp m p magic 6 \<noteq> 0 then Some [Invalid_magic, Not_found filename]
      else case strcmp m (p + SIZEOF_CPIO) trailer of
          None \<Rightarrow> None
        | Some r \<Rightarrow>
            if r = 0 then Some [Not_found filename]
            else case strcmp m (p + SIZEOF_CPIO) filename of
                None \<Rightarrow> None
              | Some r \<Rightarrow>
                  if r = 0 then Some (cat_data m (cpio_data m p) (cpio_filesize m p) @ [Newline])
                  else initrd_cat m magic trailer filename (cpio_next m p))"

section \<open>Hexadecimal fields\<close>

definition hex_digit :: "u8 \<Rightarrow> bool" where
  "hex_digit c \<longleftrightarrow> 48 \<le> c \<and> c \<le> 57 \<or> 65 \<le> c \<and> c \<le> 70"

definition hex_val :: "u8 \<Rightarrow> nat" where
  "hex_val c = (if 65 \<le> c then unat c - 55 else unat c - 48)"

fun hex_num :: "u8 list \<Rightarrow> nat \<Rightarrow> nat" where
  "hex_num [] r = r"
| "hex_num (c # cs) r = hex_num cs (16 * r + hex_val c)"

lemma hex_num_acc: "hex_num cs r = 16 ^ length cs * r + hex_num cs 0"
proof (induction cs arbitrary: r)
  case (Cons c cs)
  show ?case using Cons [of "16 * r + hex_val c"] Cons [of "hex_val c"] by (simp add: algebra_simps)
qed simp

lemma hex_val_less: "hex_digit c \<Longrightarrow> hex_val c < 16"
  by (auto simp: hex_digit_def hex_val_def word_le_nat_alt)

lemma hex_num_less: "\<forall>c \<in> set cs. hex_digit c \<Longrightarrow> hex_num cs 0 < 16 ^ length cs"
proof (induction cs)
  case (Cons c cs)
  then have "hex_val c + 1 \<le> 16" "hex_num cs 0 < 16 ^ length cs" using hex_val_less [of c] by auto
  moreover from this(1) have "16 ^ length cs * (hex_val c + 1) \<le> 16 ^ length cs * 16" by (rule mult_le_mono2)
  then have "16 ^ length cs * hex_val c + 16 ^ length cs \<le> 16 ^ length (c # cs)"
    by (simp only: distrib_left mult_1_right length_Cons power_Suc mult.commute [of 16])
  moreover have "hex_num (c # cs) 0 = 16 ^ length cs * hex_val c + hex_num cs 0"
    using hex_num_acc [of cs "hex_val c"] by simp
  ultimately show ?case by linarith
qed simp

lemma hextoi_loop_digits:
  assumes "\<And>i. i < length cs \<Longrightarrow> m (s + i) = cs ! i" "\<forall>c \<in> set cs. hex_digit c"
  shows "hextoi_loop m s (length cs) (of_nat r) = of_nat (hex_num cs r)"
  using assms
proof (induction cs arbitrary: s r)
  case (Cons c cs)
  have c: "m s = c" "hex_digit c" using Cons.prems(1) [of 0] Cons.prems(2) by auto
  have "m (s + 1 + i) = cs ! i" if "i < length cs" for i using Cons.prems(1) [of "Suc i"] that by simp
  note IH = Cons.IH [OF this, of "16 * r + hex_val c"]
  have push: "push_bit 4 (of_nat r :: u32) = of_nat (16 * r)" by (simp add: push_bit_eq_mult)
  have big: "(ucast c - 65 + 10 :: u32) = of_nat (hex_val c)" if "65 \<le> c"
  proof -
    have "55 \<le> unat c" using that by (simp add: word_le_nat_alt)
    then have "(of_nat (unat c - 55) :: u32) = of_nat (unat c) - 55" by (simp add: of_nat_diff)
    then show ?thesis using that by (simp add: hex_val_def)
  qed
  have small: "(ucast c - 48 :: u32) = of_nat (hex_val c)" if "48 \<le> c" "\<not> 65 \<le> c"
  proof -
    have "48 \<le> unat c" using that by (simp add: word_le_nat_alt)
    then have "(of_nat (unat c - 48) :: u32) = of_nat (unat c) - 48" by (simp add: of_nat_diff)
    then show ?thesis using that by (simp add: hex_val_def)
  qed
  show ?case
  proof (cases "65 \<le> c")
    case True
    then show ?thesis using IH c Cons.prems(2) big by (simp add: push)
  next
    case False
    moreover have "48 \<le> c" using c(2) False by (auto simp: hex_digit_def)
    ultimately show ?thesis using IH c Cons.prems(2) small by (simp add: push)
  qed
qed simp

lemma hextoi_digits:
  assumes cs: "map (\<lambda>i. m (s + i)) [0..<8] = cs" and "\<forall>c \<in> set cs. hex_digit c" "hex_num cs 0 < 2 ^ 31"
  shows "hextoi m s 8 = int (hex_num cs 0)"
proof -
  have "length cs = 8" "\<And>i. i < 8 \<Longrightarrow> m (s + i) = cs ! i" by (auto simp flip: cs)
  note assms = this assms(2,3)
  have "uint (of_nat (hex_num cs 0) :: u32) = int (hex_num cs 0)"
    using assms(4) by (simp add: unsigned_of_nat take_bit_nat_eq_self)
  then show ?thesis using hextoi_loop_digits [of cs m s 0] assms
    by (simp add: hextoi_def sint_uint signed_take_bit_int_eq_self)
qed

text \<open>\<open>hextoi\<close> reads an eight-digit upper-case hexadecimal field correctly when its value fits an
  \<open>int\<close>. A lower-case digit is misread: \<open>'a'\<close> counts as 42 instead of 10.\<close>

theorem hextoi_correct:
  assumes "map (\<lambda>i. m (s + i)) [0..<8] = cs" "\<forall>c \<in> set cs. hex_digit c" "hex_num cs 0 < 2 ^ 31"
  shows "hextoi m s 8 = int (hex_num cs 0) \<and> hextoi (\<lambda>_. 97) s 1 = 42"
  using hextoi_digits [OF assms] by (simp add: hextoi_def)

lemma upt_small: "[0..<6] = [0, 1, 2, 3, 4, 5 :: nat]" "[0..<8] = [0, 1, 2, 3, 4, 5, 6, 7 :: nat]"
  by (simp_all add: upt_rec)

definition demo_field :: mem where
  "demo_field = (\<lambda>_. 48)(6 := 49, 7 := 65)"

theorem hextoi_correct_witness: "hextoi demo_field 0 8 = 26"
proof -
  have "map (\<lambda>i. demo_field (0 + i)) [0..<8] = [48, 48, 48, 48, 48, 48, 49, 65]"
    unfolding upt_small by (simp add: demo_field_def)
  from hextoi_correct [OF this] show ?thesis by (simp add: hex_digit_def hex_val_def)
qed

section \<open>Archives\<close>

definition magic_bytes :: "u8 list" where
  "magic_bytes = [48, 55, 48, 55, 48, 49]"

definition trailer_bytes :: "u8 list" where
  "trailer_bytes = [84, 82, 65, 73, 76, 69, 82, 33, 33, 33]"

definition align4 :: "nat \<Rightarrow> nat" where
  "align4 n = (n + 3) div 4 * 4"

text \<open>An archive at \<open>p\<close> with the given files, in order, closed by the trailer entry.\<close>

definition has_magic :: "mem \<Rightarrow> nat \<Rightarrow> bool" where
  "has_magic m p \<longleftrightarrow> map (\<lambda>i. m (p + i)) [0..<6] = magic_bytes"

fun archive :: "mem \<Rightarrow> nat \<Rightarrow> (u8 list \<times> u8 list) list \<Rightarrow> bool" where
  "archive m p [] \<longleftrightarrow> has_magic m p \<and> cstr m (p + SIZEOF_CPIO) trailer_bytes"
| "archive m p ((name, data) # es) \<longleftrightarrow>
     has_magic m p \<and> name \<noteq> trailer_bytes \<and> cstr m (p + SIZEOF_CPIO) name \<and>
     cpio_namesize m p = int (length name + 1) \<and> cpio_filesize m p = int (length data) \<and>
     (\<forall>i < length data. m (p + align4 (SIZEOF_CPIO + length name + 1) + i) = data ! i) \<and>
     archive m (p + align4 (SIZEOF_CPIO + length name + 1) + align4 (length data)) es"

lemma align_up_int_4: "align_up_int (int n) 4 = int (align4 n)"
proof -
  have "align_up_int (int n) 4 = (int n + 3) AND NOT (mask 2)"
    by (simp add: align_up_int_def mask_eq_exp_minus_1 add.commute)
  also have "\<dots> = (int n + 3) - take_bit 2 (int n + 3)"
  proof -
    have "(int n + 3) - take_bit 2 (int n + 3) = (int n + 3) AND NOT (take_bit 2 (int n + 3))"
      by (rule disjunctive_diff) (simp add: bit_take_bit_iff)
    also have "\<dots> = (int n + 3) AND NOT (mask 2)" by (rule bit_eqI) (auto simp: bit_simps)
    finally show ?thesis by simp
  qed
  also have "\<dots> = (int n + 3) div 4 * 4" by (simp add: take_bit_eq_mod minus_mod_eq_div_mult)
  finally show ?thesis by (simp add: align4_def zdiv_int)
qed

lemma strncmp_eq:
  assumes "\<And>i. i < n \<Longrightarrow> m (a + i) = m (b + i)" "\<And>i. i < n \<Longrightarrow> m (b + i) \<noteq> 0"
  shows "strncmp m a b n = 0"
  using assms
proof (induction n arbitrary: a b)
  case (Suc n)
  have "m (a + 1 + i) = m (b + 1 + i)" "m (b + 1 + i) \<noteq> 0" if "i < n" for i
    using Suc.prems(1) [of "Suc i"] Suc.prems(2) [of "Suc i"] that by simp_all
  then have "strncmp m (a + 1) (b + 1) n = 0" by (rule Suc.IH)
  with Suc.prems(1) [of 0] Suc.prems(2) [of 0] show ?case by simp
qed simp

lemma magic_ok:
  assumes "has_magic m p" "cstr m magic magic_bytes"
  shows "strncmp m p magic 6 = 0"
proof (rule strncmp_eq)
  fix i :: nat assume i: "i < 6"
  then have "m (p + i) = magic_bytes ! i"
    using arg_cong [OF assms(1) [unfolded has_magic_def], of "\<lambda>xs. xs ! i"] by simp
  then show "m (p + i) = m (magic + i)" "m (magic + i) \<noteq> 0"
    using cstr_nth [OF assms(2), of i] i by (simp_all add: magic_bytes_def)
qed

lemma archive_step:
  assumes "archive m p ((name, data) # es)"
  shows "cpio_data m p = p + align4 (SIZEOF_CPIO + length name + 1)"
    "cpio_next m p = p + align4 (SIZEOF_CPIO + length name + 1) + align4 (length data)"
proof -
  have "align_up_int (int SIZEOF_CPIO + cpio_namesize m p) 4 = int (align4 (SIZEOF_CPIO + length name + 1))"
    using align_up_int_4 [of "SIZEOF_CPIO + length name + 1"] assms by (simp add: algebra_simps)
  moreover have "align_up_int (cpio_filesize m p) 4 = int (align4 (length data))"
    using align_up_int_4 [of "length data"] assms by simp
  ultimately show "cpio_data m p = p + align4 (SIZEOF_CPIO + length name + 1)"
    "cpio_next m p = p + align4 (SIZEOF_CPIO + length name + 1) + align4 (length data)"
    by (simp_all add: cpio_data_def cpio_next_def flip: of_nat_add)
qed


text \<open>An archive with the single file \<open>a\<close>, containing \<open>x\<close>, and the literals behind it.\<close>

definition demo_rd :: mem where
  "demo_rd = (\<lambda>_. 48)(0 := 48, 1 := 55, 2 := 48, 3 := 55, 4 := 48, 5 := 49, 61 := 49, 101 := 50, 110 := 97, 111 := 0, 112 := 120,
     116 := 48, 117 := 55, 118 := 48, 119 := 55, 120 := 48, 121 := 49,
     226 := 84, 227 := 82, 228 := 65, 229 := 73, 230 := 76, 231 := 69, 232 := 82, 233 := 33, 234 := 33, 235 := 33, 236 := 0,
     300 := 48, 301 := 55, 302 := 48, 303 := 55, 304 := 48, 305 := 49, 306 := 0,
     320 := 84, 321 := 82, 322 := 65, 323 := 73, 324 := 76, 325 := 69, 326 := 82, 327 := 33, 328 := 33, 329 := 33, 330 := 0,
     340 := 97, 341 := 0)"

lemma demo_sizes: "cpio_namesize demo_rd 0 = 2" "cpio_filesize demo_rd 0 = 1"
proof -
  have "map (\<lambda>i. demo_rd (94 + i)) [0..<8] = [48, 48, 48, 48, 48, 48, 48, 50]"
    "map (\<lambda>i. demo_rd (54 + i)) [0..<8] = [48, 48, 48, 48, 48, 48, 48, 49]"
    unfolding upt_small by (simp_all add: demo_rd_def)
  from hextoi_digits [OF this(1)] hextoi_digits [OF this(2)]
  show "cpio_namesize demo_rd 0 = 2" "cpio_filesize demo_rd 0 = 1"
    by (simp_all add: cpio_namesize_def cpio_filesize_def NAMESIZE_OFF_def FILESIZE_OFF_def hex_digit_def hex_val_def)
qed

lemma demo_archive: "archive demo_rd 0 [([97], [120])]"
proof -
  have al: "align4 (SIZEOF_CPIO + length [97 :: u8] + 1) = 112" "align4 (length [120 :: u8]) = 4"
    by (simp_all add: align4_def SIZEOF_CPIO_def)
  have "has_magic demo_rd 0" "has_magic demo_rd 116"
    unfolding has_magic_def upt_small magic_bytes_def by (simp_all add: demo_rd_def)
  moreover have "cstr demo_rd 110 [97]" "cstr demo_rd 226 trailer_bytes" "demo_rd 112 = 120"
    by (simp_all add: demo_rd_def trailer_bytes_def)
  ultimately show ?thesis
    unfolding archive.simps al demo_sizes by (simp add: SIZEOF_CPIO_def trailer_bytes_def)
qed


end
