(* ===== verification/Sys_State.thy ===== *)
theory Sys_State
  imports Vfs Timer Mmap Cpio
begin

text \<open>
  The state of the whole kernel for threads, system calls and traps: the parts of the other
  components with one common heap and memory, and the threads of \<open>src/src/thread.h\<close> by address. An
  operation of a component runs on its part with the common heap put in; its own heap field is only
  used in between. A trap frame (\<open>struct pt_regs\<close>) is a function from its fields to their values, and is kept
  in memory as 64-bit little-endian words.
\<close>

section \<open>Trap frames\<close>

datatype reg = R_ra | R_sp | R_gp | R_tp | R_t0 | R_t1 | R_t2 | R_s0 | R_s1 | R_a0 | R_a1 | R_a2 | R_a3
  | R_a4 | R_a5 | R_a6 | R_a7 | R_s2 | R_s3 | R_s4 | R_s5 | R_s6 | R_s7 | R_s8 | R_s9 | R_s10 | R_s11
  | R_t3 | R_t4 | R_t5 | R_t6 | R_epc | R_status | R_cause | R_badaddr

type_synonym pt_regs = "reg \<Rightarrow> u64"

text \<open>The position of a field in the struct.\<close>

fun reg_index :: "reg \<Rightarrow> nat" where
  "reg_index R_ra = 0" | "reg_index R_sp = 1" | "reg_index R_gp = 2" | "reg_index R_tp = 3"
| "reg_index R_t0 = 4" | "reg_index R_t1 = 5" | "reg_index R_t2 = 6" | "reg_index R_s0 = 7"
| "reg_index R_s1 = 8" | "reg_index R_a0 = 9" | "reg_index R_a1 = 10" | "reg_index R_a2 = 11"
| "reg_index R_a3 = 12" | "reg_index R_a4 = 13" | "reg_index R_a5 = 14" | "reg_index R_a6 = 15"
| "reg_index R_a7 = 16" | "reg_index R_s2 = 17" | "reg_index R_s3 = 18" | "reg_index R_s4 = 19"
| "reg_index R_s5 = 20" | "reg_index R_s6 = 21" | "reg_index R_s7 = 22" | "reg_index R_s8 = 23"
| "reg_index R_s9 = 24" | "reg_index R_s10 = 25" | "reg_index R_s11 = 26" | "reg_index R_t3 = 27"
| "reg_index R_t4 = 28" | "reg_index R_t5 = 29" | "reg_index R_t6 = 30" | "reg_index R_epc = 31"
| "reg_index R_status = 32" | "reg_index R_cause = 33" | "reg_index R_badaddr = 34"

definition load64 :: "u64 \<Rightarrow> mem \<Rightarrow> u64" where
  "load64 a m = foldr (\<lambda>i w. push_bit 8 w OR ucast (m (unat a + i))) [0..<8] 0"

definition store64 :: "u64 \<Rightarrow> u64 \<Rightarrow> mem \<Rightarrow> mem" where
  "store64 a v m = fold (\<lambda>i m. m(unat a + i := ucast (drop_bit (8 * i) v))) [0..<8] m"

definition reg_addr :: "u64 \<Rightarrow> reg \<Rightarrow> u64" where
  "reg_addr regs r = regs + 8 * of_nat (reg_index r)"

definition load_regs :: "u64 \<Rightarrow> mem \<Rightarrow> pt_regs" where
  "load_regs regs m r = load64 (reg_addr regs r) m"

section \<open>Threads\<close>

datatype thread_status = THREAD_RUNNING | THREAD_READY | THREAD_WAITING | THREAD_TERMINATED | THREAD_ABORTED

record thread =
  ctx_ra :: u64
  ctx_sp :: u64
  ctx_s :: "nat \<Rightarrow> u64"
  pid :: int
  th_status :: thread_status
  kernel_sp :: u64
  user_sp :: u64
  kernel_stack :: u64
  user_stack :: u64
  th_next :: u64
  th_parent :: u64
  waiting_pid :: int
  current_task_priority :: int
  th_arg :: u64
  entry_func :: u64
  pgd :: u64
  vmas :: "vm_area list"
  signal_handler :: "nat \<Rightarrow> u64"
  sigpending :: u32
  is_handling_signal :: bool
  signal_saved_regs :: pt_regs
  signal_stack_page :: u64
  signal_stack_vaddr :: u64
  cwd :: u64
  th_root :: u64
  fdt :: "nat \<Rightarrow> u64"

definition KERNEL_STACK_SIZE :: u64 where "KERNEL_STACK_SIZE = 0x2000"
definition USER_STACK_SIZE :: u64 where "USER_STACK_SIZE = 0x2000"

text \<open>\<open>sizeof(thread)\<close>, and a thread of zero bytes.\<close>

definition SIZEOF_THREAD :: u64 where
  "SIZEOF_THREAD = 912"

definition zero_thread :: thread where
  "zero_thread = \<lparr>ctx_ra = 0, ctx_sp = 0, ctx_s = \<lambda>_. 0, pid = 0, th_status = THREAD_RUNNING, kernel_sp = 0, user_sp = 0,
     kernel_stack = 0, user_stack = 0, th_next = 0, th_parent = 0, waiting_pid = 0, current_task_priority = 0, th_arg = 0,
     entry_func = 0, pgd = 0, vmas = [], signal_handler = \<lambda>_. 0, sigpending = 0, is_handling_signal = False,
     signal_saved_regs = \<lambda>_. 0, signal_stack_page = 0, signal_stack_vaddr = 0, cwd = 0, th_root = 0, fdt = \<lambda>_. 0\<rparr>"

section \<open>The state of the kernel\<close>

text \<open>\<open>tp\<close> is the thread pointer register, which holds the current thread.\<close>

record sys =
  sy_heap :: heap
  sy_mm :: mm
  sy_vfs :: vfs
  sy_timers :: ktimers
  threads :: "u64 \<Rightarrow> thread"
  tp :: u64
  run_queue :: u64
  nr_threads :: int
  kernel_pgd :: u64

type_synonym 'a sop = "('a, sys) kcomp"

definition upd_thread :: "u64 \<Rightarrow> (thread \<Rightarrow> thread) \<Rightarrow> sys \<Rightarrow> sys" where
  "upd_thread t f s = s\<lparr>threads := (threads s)(t := f (threads s t))\<rparr>"

definition upd_mem :: "(mem \<Rightarrow> mem) \<Rightarrow> sys \<Rightarrow> sys" where
  "upd_mem f s = s\<lparr>sy_vfs := (sy_vfs s)\<lparr>vf_mem := f (vf_mem (sy_vfs s))\<rparr>\<rparr>"

abbreviation sy_mem :: "sys \<Rightarrow> mem" where
  "sy_mem s \<equiv> vf_mem (sy_vfs s)"

text \<open>Running the operations of a component.\<close>

definition sys_alloc :: "u64 \<Rightarrow> u64 sop" where
  "sys_alloc len s = map_option (\<lambda>(p, h). Inr (p, s\<lparr>sy_heap := h\<rparr>)) (allocate len (sy_heap s))"

definition sys_free :: "u64 \<Rightarrow> unit sop" where
  "sys_free p s = map_option (\<lambda>h. Inr ((), s\<lparr>sy_heap := h\<rparr>)) (free p (sy_heap s))"

definition on_mm :: "(mm \<Rightarrow> ('a \<times> mm) option) \<Rightarrow> 'a sop" where
  "on_mm f s =
     map_option (\<lambda>(x, m). Inr (x, upd_mem (\<lambda>_. mm_mem m) (s\<lparr>sy_mm := m, sy_heap := mm_heap m\<rparr>)))
       (f ((sy_mm s)\<lparr>mm_heap := sy_heap s, mm_mem := sy_mem s\<rparr>))"

definition run_mm :: "(mm \<Rightarrow> mm option) \<Rightarrow> unit sop" where
  "run_mm f = on_mm (\<lambda>m. map_option (Pair ()) (f m))"

definition on_vfs :: "'a kop \<Rightarrow> 'a sop" where
  "on_vfs f s =
     map_option (map_sum id (\<lambda>(x, v). (x, s\<lparr>sy_vfs := v, sy_heap := vf_heap v\<rparr>))) (f ((sy_vfs s)\<lparr>vf_heap := sy_heap s\<rparr>))"

text \<open>The timers and tasks use \<open>current_task_priority\<close> of the running thread.\<close>

definition on_timers :: "(ktimers \<Rightarrow> ('a \<times> ktimers) option) \<Rightarrow> 'a sop" where
  "on_timers f s =
     map_option (\<lambda>(x, k). Inr (x, upd_thread (tp s) (\<lambda>t. t\<lparr>current_task_priority := cur_priority k\<rparr>) (s\<lparr>sy_timers := k, sy_heap := k_heap k\<rparr>)))
       (f ((sy_timers s)\<lparr>k_heap := sy_heap s, cur_priority := current_task_priority (threads s (tp s))\<rparr>))"

definition on_heap_vmas :: "u64 \<Rightarrow> (heap \<times> vm_area list \<Rightarrow> (kernel_fault + 'a \<times> heap \<times> vm_area list) option) \<Rightarrow> 'a sop" where
  "on_heap_vmas t f s =
     map_option (map_sum id (\<lambda>(x, h, vs). (x, upd_thread t (\<lambda>th. th\<lparr>vmas := vs\<rparr>) (s\<lparr>sy_heap := h\<rparr>))))
       (f (sy_heap s, vmas (threads s t)))"

text \<open>A counting loop.\<close>

fun kfor :: "('i \<Rightarrow> unit sop) \<Rightarrow> 'i list \<Rightarrow> unit sop" where
  "kfor f [] = kret ()"
| "kfor f (i # is) = kbind (f i) (\<lambda>_. kfor f is)"

section \<open>Rings of threads\<close>

text \<open>
  The run queue is a circular list. \<open>linked\<close> says that following \<open>next\<close> from a list of threads
  leads through the list and then to \<open>stop\<close>, and \<open>ring\<close> that it leads back to the first thread.
\<close>

fun linked :: "(u64 \<Rightarrow> thread) \<Rightarrow> u64 list \<Rightarrow> u64 \<Rightarrow> bool" where
  "linked ts [] stop = True"
| "linked ts [t] stop = (th_next (ts t) = stop)"
| "linked ts (t # u # us) stop = (th_next (ts t) = u \<and> linked ts (u # us) stop)"

definition ring :: "(u64 \<Rightarrow> thread) \<Rightarrow> u64 list \<Rightarrow> bool" where
  "ring ts us \<longleftrightarrow> us \<noteq> [] \<and> distinct us \<and> 0 \<notin> set us \<and> linked ts us (hd us)"

text \<open>The loops that walk around the ring until a thread fits or the walk is back at \<open>stop\<close>.\<close>

partial_function (option) ring_search :: "(u64 \<Rightarrow> thread) \<Rightarrow> (thread \<Rightarrow> bool) \<Rightarrow> u64 \<Rightarrow> u64 \<Rightarrow> u64 option option" where
  "ring_search ts ok stop node =
     (if ok (ts node) then Some (Some node)
      else if th_next (ts node) = stop then Some None
      else ring_search ts ok stop (th_next (ts node)))"

lemma linked_append:
  "linked ts (us @ v # vs) stop \<longleftrightarrow> linked ts us v \<and> linked ts (v # vs) stop"
proof (induction us)
  case (Cons u us)
  then show ?case by (cases us) auto
qed simp

lemma linked_cong:
  "(\<And>t. t \<in> set us \<Longrightarrow> th_next (ts t) = th_next (ts' t)) \<Longrightarrow> linked ts us stop = linked ts' us stop"
  by (induction ts us stop rule: linked.induct) auto

lemma ring_rotate:
  assumes "ring ts (us @ vs)" "vs \<noteq> []"
  shows "ring ts (vs @ us)"
proof (cases us)
  case Nil
  with assms show ?thesis by simp
next
  case (Cons u us')
  from assms(2) obtain v vs' where v: "vs = v # vs'" by (cases vs) auto
  from assms(1) have "linked ts (us @ v # vs') u" by (simp add: ring_def Cons v)
  then have "linked ts (u # us') v" "linked ts (v # vs') u" by (simp_all add: linked_append Cons del: append_Cons)
  then have "linked ts (vs @ u # us') v" by (simp add: linked_append v del: append_Cons)
  with assms(1) show ?thesis by (auto simp: ring_def Cons v)
qed

lemma ring_search_linked:
  assumes "linked ts us stop" "us \<noteq> []" "stop \<notin> set (tl us)"
  shows "ring_search ts ok stop (hd us) = Some (List.find (\<lambda>t. ok (ts t)) us)"
  using assms
proof (induction us)
  case (Cons u us)
  then show ?case by (cases us) (auto simp: ring_search.simps [of ts ok stop u])
qed simp

lemma ring_search_ring:
  assumes "ring ts us"
  shows "ring_search ts ok (hd us) (hd us) = Some (List.find (\<lambda>t. ok (ts t)) us)"
  using assms by (intro ring_search_linked) (cases us; auto simp: ring_def)+

section \<open>Words in memory\<close>

lemma join_byte:
  fixes v :: u64
  shows "push_bit 8 (drop_bit (n + 8) v) OR ucast (ucast (drop_bit n v) :: u8) = drop_bit n v"
  by (rule bit_word_eqI) (auto simp: bit_simps)

lemma join_bytes: "k \<le> 8 \<Longrightarrow> foldr (\<lambda>i w. push_bit 8 w OR ucast (ucast (drop_bit (8 * i) v) :: u8)) [k..<8] 0 = drop_bit (8 * k) (v :: u64)"
proof (induction k rule: inc_induct)
  case base
  have "drop_bit 64 v = 0" by (rule bit_word_eqI) (auto simp: bit_simps dest: bit_imp_le_length)
  then show ?case by simp
next
  case (step k)
  then show ?case using join_byte [of "8 * k" v] by (simp add: upt_conv_Cons algebra_simps)
qed

lemma store64_byte:
  "store64 a v m x = (if unat a \<le> x \<and> x < unat a + 8 then ucast (drop_bit (8 * (x - unat a)) v) else m x)"
proof -
  have "fold (\<lambda>i m. m(unat a + i := ucast (drop_bit (8 * i) v))) [0..<n] m x =
      (if unat a \<le> x \<and> x < unat a + n then ucast (drop_bit (8 * (x - unat a)) v) else m x)" for n
    by (induction n) auto
  then show ?thesis by (simp add: store64_def)
qed

lemma load64_cong: "(\<And>i. i < 8 \<Longrightarrow> m (unat a + i) = m' (unat a + i)) \<Longrightarrow> load64 a m = load64 a m'"
  unfolding load64_def by (rule foldr_cong) auto

lemma load64_store64 [simp]: "load64 a (store64 a v m) = v"
proof -
  have "load64 a (store64 a v m) = foldr (\<lambda>i w. push_bit 8 w OR ucast (ucast (drop_bit (8 * i) v) :: u8)) [0..<8] 0"
    unfolding load64_def by (rule foldr_cong) (auto simp: store64_byte)
  then show ?thesis by (simp add: join_bytes)
qed

lemma load64_store64_other: "unat a + 8 \<le> unat b \<or> unat b + 8 \<le> unat a \<Longrightarrow> load64 b (store64 a v m) = load64 b m"
  by (rule load64_cong) (auto simp: store64_byte)

text \<open>A frame that does not wrap around the end of memory.\<close>

definition frame_fits :: "u64 \<Rightarrow> bool" where
  "frame_fits regs \<longleftrightarrow> unat regs + 280 \<le> 2 ^ 64"

lemma reg_index_less: "reg_index r < 35"
  by (cases r) simp_all

lemma reg_index_eq: "reg_index r = reg_index q \<longleftrightarrow> r = q"
  by (cases r; simp; cases q; simp)

lemma unat_reg_addr: "frame_fits regs \<Longrightarrow> unat (reg_addr regs r) = unat regs + 8 * reg_index r"
proof -
  assume f: "frame_fits regs"
  have "(8 * of_nat (reg_index r) :: u64) = of_nat (8 * reg_index r)" by simp
  moreover have "unat (of_nat (8 * reg_index r) :: u64) = 8 * reg_index r"
    using reg_index_less [of r] by (simp add: unat_of_nat del: of_nat_mult)
  ultimately have "unat (8 * of_nat (reg_index r) :: u64) = 8 * reg_index r" by metis
  with f show ?thesis using reg_index_less [of r] by (simp add: reg_addr_def frame_fits_def unat_simps)
qed

lemma load_regs_store:
  assumes "frame_fits regs"
  shows "load_regs regs (store64 (reg_addr regs r) v m) = (load_regs regs m)(r := v)"
proof
  fix q
  show "load_regs regs (store64 (reg_addr regs r) v m) q = ((load_regs regs m)(r := v)) q"
  proof (cases "q = r")
    case False
    then have "reg_index r \<noteq> reg_index q" by (simp add: reg_index_eq)
    then have "reg_index r < reg_index q \<or> reg_index q < reg_index r" by linarith
    with False show ?thesis by (auto simp: load_regs_def unat_reg_addr [OF assms] intro!: load64_store64_other)
  qed (simp add: load_regs_def)
qed

end
