(* ===== verification/Thread.thy ===== *)
theory Thread
  imports Sys_State
begin

text \<open>
  \<open>src/src/thread.c\<close>: threads, the round-robin scheduler, sleeping, exit and the removal of zombies.
  The functions that touch the run queue mask interrupts, so each is one step. \<open>switch_to\<close> loads the
  saved registers of another thread; here it only changes the current thread, so \<open>schedule\<close> ends at
  the switch. Where code goes on after \<open>schedule\<close> returns, the parameter \<open>others\<close> is what all other
  threads do until the given thread runs again. The addresses of functions and the time are
  parameters too.
\<close>

section \<open>Run queue and scheduler\<close>

definition enqueue :: "u64 \<Rightarrow> sys \<Rightarrow> sys" where
  "enqueue t s =
     (if run_queue s = 0 then upd_thread t (\<lambda>th. th\<lparr>th_next := t\<rparr>) (s\<lparr>run_queue := t\<rparr>)
      else
        let tail = th_next (threads s (run_queue s))
        in upd_thread t (\<lambda>th. th\<lparr>th_next := tail\<rparr>) (upd_thread (run_queue s) (\<lambda>th. th\<lparr>th_next := t\<rparr>) s))"

definition thread_wakeup_callback :: "u64 \<Rightarrow> sys \<Rightarrow> sys" where
  "thread_wakeup_callback t s =
     (if th_status (threads s t) = THREAD_WAITING then upd_thread t (\<lambda>th. th\<lparr>th_status := THREAD_READY\<rparr>) s else s)"

definition runnable :: "thread \<Rightarrow> bool" where
  "runnable t \<longleftrightarrow> th_status t = THREAD_READY \<or> th_status t = THREAD_RUNNING"

text \<open>The table of a thread; threads without one of their own use that of the kernel.\<close>

definition space :: "u64 \<Rightarrow> sys \<Rightarrow> u64" where
  "space t s = (if pgd (threads s t) \<noteq> 0 then pgd (threads s t) else kernel_pgd s)"

definition switch_to :: "u64 \<Rightarrow> sys \<Rightarrow> sys" where
  "switch_to nxt s = s\<lparr>tp := nxt\<rparr>"

definition set_satp :: "u64 \<Rightarrow> sys \<Rightarrow> sys" where
  "set_satp p s = s\<lparr>sy_mm := (sy_mm s)\<lparr>satp := MAKE_SATP (p - PAGE_OFFSET)\<rparr>\<rparr>"

text \<open>The end of \<open>schedule\<close>, with the next thread chosen.\<close>

definition run_next :: "u64 \<Rightarrow> u64 \<Rightarrow> sys \<Rightarrow> sys" where
  "run_next prev nxt s =
     (let s = (if th_status (threads s prev) = THREAD_RUNNING
               then upd_thread prev (\<lambda>th. th\<lparr>th_status := THREAD_READY\<rparr>) s else s);
          s = upd_thread nxt (\<lambda>th. th\<lparr>th_status := THREAD_RUNNING\<rparr>) s
      in if prev \<noteq> nxt
         then switch_to nxt (if space nxt s \<noteq> space prev s then set_satp (space nxt s) s else s)
         else s)"

definition schedule :: "unit sop" where
  "schedule s =
     (let prev = tp s
      in if prev = 0 then kret () s
         else
           let head = th_next (threads s prev)
           in case ring_search (threads s) runnable head head of
                None \<Rightarrow> None
              | Some (Some nxt) \<Rightarrow> kret () (run_next prev nxt s)
              | Some None \<Rightarrow>
                  if run_queue s = 0 then kfault s
                  else
                    (case ring_search (threads s) (\<lambda>t. pid t = 0) (run_queue s) (run_queue s) of
                       None \<Rightarrow> None
                     | Some r \<Rightarrow> kret () (run_next prev (case r of Some nxt \<Rightarrow> nxt | None \<Rightarrow> run_queue s) s)))"

text \<open>A call of \<open>schedule\<close> that is followed by more code of the same thread.\<close>

definition yield :: "(u64 \<Rightarrow> unit sop) \<Rightarrow> unit sop" where
  "yield others =
     kbind (kget tp) (\<lambda>t. kbind schedule (\<lambda>_. kbind (kget tp) (\<lambda>t'. if t' = t then kret () else others t)))"

definition thread_sleep :: "(u64 \<Rightarrow> unit sop) \<Rightarrow> u64 \<Rightarrow> u64 \<Rightarrow> u32 \<Rightarrow> int sop" where
  "thread_sleep others now wakeup usec s =
     (let t = tp s
      in if t = 0 then kret (- 1) s
         else
           kbind (kmod (upd_thread t (\<lambda>th. th\<lparr>th_status := THREAD_WAITING\<rparr>))) (\<lambda>_.
           kbind (on_timers (\<lambda>k. add_timer_ticks now wakeup t (ucast usec * time_freq k div 1000000) k)) (\<lambda>r.
           if r \<noteq> 0 then kbind (kmod (upd_thread t (\<lambda>th. th\<lparr>th_status := THREAD_READY\<rparr>))) (\<lambda>_. kret (- 1))
           else kbind (yield others) (\<lambda>_. kret 0))) s)"

section \<open>Zombies\<close>

definition zombie :: "thread \<Rightarrow> bool" where
  "zombie t \<longleftrightarrow> th_status t = THREAD_TERMINATED \<or> th_status t = THREAD_ABORTED"

definition close_fd :: "u64 \<Rightarrow> nat \<Rightarrow> unit sop" where
  "close_fd t i =
     kbind (kget (\<lambda>s. fdt (threads s t) i)) (\<lambda>f.
     if f \<noteq> 0
     then kbind (on_vfs (vfs_close f)) (\<lambda>_. kmod (upd_thread t (\<lambda>th. th\<lparr>fdt := (fdt th)(i := 0)\<rparr>)))
     else kret ())"

text \<open>Giving back what a thread owns, and the thread itself.\<close>

definition free_vmas :: "u64 \<Rightarrow> unit sop" where
  "free_vmas t = kbind (kget (\<lambda>s. map vm_addr (vmas (threads s t)))) (kfor sys_free)"

definition free_thread :: "u64 \<Rightarrow> unit sop" where
  "free_thread t =
     kbind (kfor (close_fd t) [0..<16]) (\<lambda>_.
     kbind (kget (\<lambda>s. threads s t)) (\<lambda>th.
     kbind (if kernel_stack th \<noteq> 0 then sys_free (kernel_stack th) else kret ()) (\<lambda>_.
     kbind (if user_stack th \<noteq> 0 then sys_free (user_stack th) else kret ()) (\<lambda>_.
     kbind (kget kernel_pgd) (\<lambda>kp.
     kbind (if pgd th \<noteq> 0 \<and> pgd th \<noteq> kp then run_mm (free_pgd (pgd th)) else kret ()) (\<lambda>_.
     kbind (free_vmas t) (\<lambda>_. sys_free t)))))))"

definition unlink_thread :: "u64 \<Rightarrow> u64 \<Rightarrow> sys \<Rightarrow> sys" where
  "unlink_thread prev t s =
     (let nxt = th_next (threads s t)
      in if nxt = t then s\<lparr>run_queue := 0\<rparr>
         else
           let s = upd_thread prev (\<lambda>th. th\<lparr>th_next := nxt\<rparr>) s
           in if t = run_queue s then s\<lparr>run_queue := nxt\<rparr> else s)"

definition remove_zombie :: "u64 \<Rightarrow> u64 \<Rightarrow> u64 sop" where
  "remove_zombie prev cur =
     kbind (kmod (unlink_thread prev cur)) (\<lambda>_.
     kbind (kget (\<lambda>s. th_next (threads s cur))) (\<lambda>nxt.
     kbind (free_thread cur) (\<lambda>_. kret nxt)))"

text \<open>The search for the tail and the loop of \<open>kill_zombies\<close>; \<open>n\<close> is the safety counter.\<close>

partial_function (option) find_tail :: "(u64 \<Rightarrow> thread) \<Rightarrow> u64 \<Rightarrow> u64 \<Rightarrow> u64 option" where
  "find_tail ts head t = (if th_next (ts t) \<noteq> head then find_tail ts head (th_next (ts t)) else Some t)"

fun kill_loop :: "nat \<Rightarrow> u64 \<Rightarrow> u64 \<Rightarrow> unit sop" where
  "kill_loop 0 prev cur = kret ()"
| "kill_loop (Suc n) prev cur =
     kbind (kget id) (\<lambda>s.
     if run_queue s = 0 then kret ()
     else if zombie (threads s cur)
     then
       kbind (remove_zombie prev cur) (\<lambda>nxt.
       kbind (kget run_queue) (\<lambda>q. if q = 0 \<or> nxt = q then kret () else kill_loop n prev nxt))
     else
       let nxt = th_next (threads s cur)
       in if nxt = run_queue s then kret () else kill_loop n cur nxt)"

definition kill_zombies :: "unit sop" where
  "kill_zombies s =
     (if run_queue s = 0 then kret () s
      else
        case find_tail (threads s) (run_queue s) (run_queue s) of
          None \<Rightarrow> None
        | Some tail \<Rightarrow> kill_loop (nat (nr_threads s)) tail (run_queue s) s)"

text \<open>One round of the endless loop of the idle thread.\<close>

definition idle_round :: "(u64 \<Rightarrow> unit sop) \<Rightarrow> unit sop" where
  "idle_round others = kbind kill_zombies (\<lambda>_. yield others)"

section \<open>Creation and exit\<close>

text \<open>Taking over the open files and directories of the current thread.\<close>

definition share_file :: "u64 \<Rightarrow> unit sop" where
  "share_file f = on_vfs (kmod (\<lambda>v. v\<lparr>files := (files v)(f := (files v f)\<lparr>ref_count := ref_count (files v f) + 1\<rparr>)\<rparr>))"

definition inherit_fd :: "u64 \<Rightarrow> u64 \<Rightarrow> nat \<Rightarrow> unit sop" where
  "inherit_fd c t i =
     kbind (kget (\<lambda>s. fdt (threads s c) i)) (\<lambda>f.
     kbind (kmod (upd_thread t (\<lambda>th. th\<lparr>fdt := (fdt th)(i := f)\<rparr>))) (\<lambda>_.
     if f \<noteq> 0 then share_file f else kret ()))"

definition root_dir :: "sys \<Rightarrow> u64" where
  "root_dir s = (let v = sy_vfs s in if rootfs v \<noteq> 0 then mt_root (mounts v (rootfs v)) else 0)"

definition inherit_files :: "u64 \<Rightarrow> unit sop" where
  "inherit_files t =
     kbind (kget tp) (\<lambda>c.
     if c \<noteq> 0
     then
       kbind (kmod (\<lambda>s. upd_thread t (\<lambda>th. th\<lparr>cwd := cwd (threads s c), th_root := th_root (threads s c)\<rparr>) s)) (\<lambda>_.
       kfor (inherit_fd c t) [0..<16])
     else kmod (\<lambda>s. upd_thread t (\<lambda>th. th\<lparr>cwd := root_dir s, th_root := root_dir s, fdt := \<lambda>_. 0\<rparr>) s))"

definition thread_create :: "u64 \<Rightarrow> u64 \<Rightarrow> u64 sop" where
  "thread_create wrapper threadfn =
     kbind (sys_alloc SIZEOF_THREAD) (\<lambda>t.
     if t = 0 then kret 0
     else
       kbind (kmod (\<lambda>s. upd_thread t (\<lambda>_. zero_thread\<lparr>pid := nr_threads s, th_status := THREAD_READY\<rparr>)
                          (s\<lparr>nr_threads := nr_threads s + 1\<rparr>))) (\<lambda>_.
       kbind (sys_alloc KERNEL_STACK_SIZE) (\<lambda>ks.
       kbind (kmod (\<lambda>s. upd_thread t (\<lambda>th. th\<lparr>kernel_stack := ks, th_parent := 0, waiting_pid := - 1,
                          current_task_priority := - 1, th_arg := 0, entry_func := threadfn, pgd := kernel_pgd s,
                          signal_handler := \<lambda>_. 0, sigpending := 0, is_handling_signal := False, signal_stack_page := 0\<rparr>) s)) (\<lambda>_.
       kbind (inherit_files t) (\<lambda>_.
       kbind (kmod (upd_thread t (\<lambda>th. th\<lparr>ctx_ra := wrapper, ctx_sp := ks + KERNEL_STACK_SIZE\<rparr>))) (\<lambda>_.
       kbind (kmod (enqueue t)) (\<lambda>_. kret t)))))))"

text \<open>Waking the parent, as it stands in \<open>thread_exit\<close>, \<open>sys_stop\<close> and \<open>sys_kill\<close>.\<close>

definition wake_parent :: "u64 \<Rightarrow> sys \<Rightarrow> sys" where
  "wake_parent t s =
     (let p = th_parent (threads s t); par = threads s p
      in if p \<noteq> 0 \<and> th_status par = THREAD_WAITING \<and> (waiting_pid par = pid (threads s t) \<or> waiting_pid par = - 1)
         then upd_thread p (\<lambda>th. th\<lparr>th_status := THREAD_READY, waiting_pid := - 1\<rparr>) s
         else s)"

definition thread_exit :: "unit sop" where
  "thread_exit =
     kbind (kget tp) (\<lambda>t.
     kbind (kmod (\<lambda>s. if t \<noteq> 0 then wake_parent t (upd_thread t (\<lambda>th. th\<lparr>th_status := THREAD_TERMINATED\<rparr>) s) else s)) (\<lambda>_.
     schedule))"

text \<open>The first function of a thread; \<open>run\<close> is what the function at an address does.\<close>

definition kernel_thread_wrapper :: "(u64 \<Rightarrow> unit sop) \<Rightarrow> unit sop" where
  "kernel_thread_wrapper run =
     kbind (kmod (\<lambda>s. s\<lparr>sy_timers := (sy_timers s)\<lparr>sstatus_sie := True\<rparr>\<rparr>)) (\<lambda>_.
     kbind (kget (\<lambda>s. if tp s \<noteq> 0 then entry_func (threads s (tp s)) else 0)) (\<lambda>f.
     kbind (if f \<noteq> 0 then run f else kret ()) (\<lambda>_. thread_exit)))"

definition init_thread_system :: "u64 \<Rightarrow> u64 \<Rightarrow> unit sop" where
  "init_thread_system wrapper idle =
     kbind (thread_create wrapper idle) (\<lambda>t.
     if t = 0 then kfault
     else kmod (\<lambda>s. (upd_thread t (\<lambda>th. th\<lparr>th_status := THREAD_RUNNING\<rparr>) s)\<lparr>tp := t\<rparr>))"

end
