(* ===== verification/Syscall.thy ===== *)
theory Syscall
  imports Thread
begin

text \<open>
  The system calls of \<open>src/src/syscall.c\<close> and their dispatcher. A system call of a process runs with
  interrupts masked around the accesses to user memory, so each is one step up to the calls of
  \<open>schedule\<close>. The trap frame \<open>regs\<close> is an address in memory. Strings are read from memory up to their
  terminator; one without terminator is a computation that does not end. What is outside of the
  sources modelled here (console, display, firmware, addresses of code) is in the environment.
\<close>

record sys_env =
  se_fs :: fs_env
  se_others :: "u64 \<Rightarrow> unit sop"
  se_now :: u64
  se_wakeup :: u64
  se_getc :: "int sop"
  se_putc :: "u8 \<Rightarrow> unit sop"
  se_display :: "u64 \<Rightarrow> u32 \<Rightarrow> u32 \<Rightarrow> unit sop"
  se_initrd :: u64
  lit_magic :: nat
  lit_trailer :: nat
  ret_from_exception :: u64

section \<open>Access to memory\<close>

definition get_reg :: "u64 \<Rightarrow> reg \<Rightarrow> sys \<Rightarrow> u64" where
  "get_reg regs r s = load64 (reg_addr regs r) (sy_mem s)"

definition put_reg :: "u64 \<Rightarrow> reg \<Rightarrow> u64 \<Rightarrow> sys \<Rightarrow> sys" where
  "put_reg regs r v = upd_mem (store64 (reg_addr regs r) v)"

definition all_regs :: "reg list" where
  "all_regs = [R_ra, R_sp, R_gp, R_tp, R_t0, R_t1, R_t2, R_s0, R_s1, R_a0, R_a1, R_a2, R_a3, R_a4, R_a5, R_a6, R_a7,
     R_s2, R_s3, R_s4, R_s5, R_s6, R_s7, R_s8, R_s9, R_s10, R_s11, R_t3, R_t4, R_t5, R_t6, R_epc, R_status, R_cause, R_badaddr]"

definition put_regs :: "u64 \<Rightarrow> pt_regs \<Rightarrow> sys \<Rightarrow> sys" where
  "put_regs regs f = fold (\<lambda>r. put_reg regs r (f r)) all_regs"

definition get_path :: "u64 \<Rightarrow> bytes sop" where
  "get_path p s = map_option (\<lambda>n. Inr (map (\<lambda>i. sy_mem s (unat p + i)) [0..<n], s)) (strlen (sy_mem s) (unat p))"

definition set_sie :: "bool \<Rightarrow> sys \<Rightarrow> sys" where
  "set_sie b s = s\<lparr>sy_timers := (sy_timers s)\<lparr>sstatus_sie := b\<rparr>\<rparr>"

text \<open>Conversions between the registers and C types: \<open>int\<close>, \<open>long\<close>.\<close>

definition as_int :: "u64 \<Rightarrow> int" where "as_int x = sint (ucast x :: u32)"
definition as_long :: "u64 \<Rightarrow> int" where "as_long x = sint x"

section \<open>Processes\<close>

definition sys_getpid :: "int sop" where
  "sys_getpid = kget (\<lambda>s. pid (threads s (tp s)))"

partial_function (option) uart_wait :: "sys_env \<Rightarrow> sys \<Rightarrow> (kernel_fault + int \<times> sys) option" where
  "uart_wait E s =
     Option.bind (se_getc E s) (\<lambda>r.
       if isl r then Some (Inl (projl r))
       else if fst (projr r) \<noteq> - 1 then Some r
       else Option.bind (yield (se_others E) (snd (projr r))) (\<lambda>r.
              if isl r then Some (Inl (projl r)) else uart_wait E (snd (projr r))))"

definition read_char :: "sys_env \<Rightarrow> u64 \<Rightarrow> nat \<Rightarrow> unit sop" where
  "read_char E buf i = kbind (uart_wait E) (\<lambda>c. kmod (upd_mem (\<lambda>m. m(unat buf + i := of_int c))))"

definition sys_uart_read :: "sys_env \<Rightarrow> u64 \<Rightarrow> int \<Rightarrow> int sop" where
  "sys_uart_read E buf cnt =
     kbind (kmod (set_sie True)) (\<lambda>_.
     kbind (kfor (read_char E buf) [0..<nat cnt]) (\<lambda>_.
     kbind (kmod (set_sie False)) (\<lambda>_. kret (int (nat cnt)))))"

definition sys_uart_write :: "sys_env \<Rightarrow> u64 \<Rightarrow> int \<Rightarrow> int sop" where
  "sys_uart_write E buf cnt =
     kbind (kfor (\<lambda>i. kbind (kget (\<lambda>s. sy_mem s (unat buf + i))) (se_putc E)) [0..<nat cnt]) (\<lambda>_. kret (int (nat cnt)))"

text \<open>Adding an area to a thread; \<open>add_vma\<close> of another component on the areas of thread \<open>t\<close>.\<close>

definition thread_add_vma :: "u64 \<Rightarrow> u64 \<Rightarrow> u64 \<Rightarrow> u64 \<Rightarrow> u64 \<Rightarrow> u64 sop" where
  "thread_add_vma t start len prot flags = on_heap_vmas t (add_vma start len prot flags)"

text \<open>A new table with the kernel half of \<open>kernel_pgd\<close>; \<open>memset\<close> faults on the null pointer.\<close>

definition new_space :: "u64 sop" where
  "new_space =
     kbind (sys_alloc PAGE_SIZE) (\<lambda>p.
     if p = 0 then kfault
     else
       kbind (kget kernel_pgd) (\<lambda>kp.
       kbind (run_mm (\<lambda>m. Some (copy_kernel_half kp p (zero_table p m)))) (\<lambda>_. kret p)))"

text \<open>The areas of a new program: its code, backed by the archive, and the stack.\<close>

definition STACK_TOP :: u64 where "STACK_TOP = 0x4000000000"

definition back_vma :: "u64 \<Rightarrow> u64 \<Rightarrow> u64 \<Rightarrow> vm_area list \<Rightarrow> vm_area list" where
  "back_vma p data len = map (\<lambda>v. if vm_addr v = p then v\<lparr>vm_file_data := data, vm_file_size := len\<rparr> else v)"

definition program_areas :: "u64 \<Rightarrow> u64 \<Rightarrow> int \<Rightarrow> unit sop" where
  "program_areas t data len =
     (let pages = (of_int len + PAGE_SIZE - 1) div PAGE_SIZE;
          rw = ucast (PROT_READ OR PROT_WRITE)
      in kbind (thread_add_vma t 0 (pages * PAGE_SIZE) (rw OR ucast PROT_EXEC) (ucast MAP_ANONYMOUS)) (\<lambda>p.
         kbind (kmod (upd_thread t (\<lambda>th. th\<lparr>vmas := back_vma p data (of_int len) (vmas th)\<rparr>))) (\<lambda>_.
         kbind (thread_add_vma t (STACK_TOP - USER_STACK_SIZE) USER_STACK_SIZE rw (ucast MAP_ANONYMOUS)) (\<lambda>_.
         kret ()))))"

definition find_program :: "sys_env \<Rightarrow> u64 \<Rightarrow> u64 \<Rightarrow> (nat \<times> int) option sop" where
  "find_program E initrd path s =
     map_option (\<lambda>r. Inr (r, s)) (initrd_get_file (sy_mem s) (lit_magic E) (lit_trailer E) (unat path) (unat initrd))"

definition sys_exec :: "sys_env \<Rightarrow> u64 \<Rightarrow> u64 \<Rightarrow> int sop" where
  "sys_exec E path regs =
     (let initrd = if se_initrd E \<noteq> 0 \<and> se_initrd E < PAGE_OFFSET then se_initrd E + PAGE_OFFSET else se_initrd E
      in kbind (find_program E initrd path) (\<lambda>r.
         case r of
           None \<Rightarrow> kret (- 1)
         | Some (data, len) \<Rightarrow>
             kbind (kget tp) (\<lambda>t.
             kbind (free_vmas t) (\<lambda>_.
             kbind (kmod (upd_thread t (\<lambda>th. th\<lparr>vmas := []\<rparr>))) (\<lambda>_.
             kbind (kget (\<lambda>s. pgd (threads s t))) (\<lambda>old_pgd.
             kbind new_space (\<lambda>p.
             kbind (kmod (upd_thread t (\<lambda>th. th\<lparr>pgd := p\<rparr>))) (\<lambda>_.
             kbind (program_areas t (of_nat data) len) (\<lambda>_.
             kbind (kmod (set_satp p)) (\<lambda>_.
             kbind (kget kernel_pgd) (\<lambda>kp.
             kbind (if old_pgd \<noteq> 0 \<and> old_pgd \<noteq> kp then run_mm (free_pgd old_pgd) else kret ()) (\<lambda>_.
             kbind (kmod (put_reg regs R_epc (0 - 4))) (\<lambda>_.
             kbind (kmod (put_reg regs R_sp STACK_TOP)) (\<lambda>_. kret 0))))))))))))))"

text \<open>The table of a child; 0 when memory is short.\<close>

definition fork_space :: "u64 \<Rightarrow> u64 sop" where
  "fork_space p =
     kbind (kget kernel_pgd) (\<lambda>kp. if p \<noteq> 0 \<and> p \<noteq> kp then on_mm (copy_pgd p) else kret kp)"

definition fork_vmas :: "u64 \<Rightarrow> u64 \<Rightarrow> unit sop" where
  "fork_vmas parent child =
     kbind (kget (\<lambda>s. vmas (threads s parent))) (\<lambda>vs.
     on_heap_vmas child (\<lambda>(h, _). map_option (\<lambda>(ws, h). Inr ((), h, ws)) (copy_vma_list vs h)))"

definition share_fd :: "u64 \<Rightarrow> nat \<Rightarrow> unit sop" where
  "share_fd t i = kbind (kget (\<lambda>s. fdt (threads s t) i)) (\<lambda>f. if f \<noteq> 0 then share_file f else kret ())"

text \<open>The frame of the child on its own kernel stack: \<open>fork\<close> returns 0 there.\<close>

definition fork_frame :: "sys_env \<Rightarrow> u64 \<Rightarrow> u64 \<Rightarrow> sys \<Rightarrow> sys" where
  "fork_frame E child child_regs s =
     (let s = put_reg child_regs R_a0 0 s;
          s = put_reg child_regs R_tp child s;
          s = put_reg child_regs R_epc (get_reg child_regs R_epc s + 4) s
      in upd_thread child (\<lambda>th. th\<lparr>ctx_sp := child_regs, ctx_ra := ret_from_exception E\<rparr>) s)"

definition sys_fork :: "sys_env \<Rightarrow> u64 \<Rightarrow> int sop" where
  "sys_fork E parent_regs =
     kbind (kget tp) (\<lambda>parent.
     kbind (sys_alloc SIZEOF_THREAD) (\<lambda>child.
     if child = 0 then kret (- 1)
     else
       kbind (kmod (\<lambda>s. upd_thread child (\<lambda>_. (threads s parent)\<lparr>pid := nr_threads s, th_status := THREAD_READY, th_parent := parent,
                          sigpending := 0, is_handling_signal := False, signal_stack_page := 0, signal_stack_vaddr := 0\<rparr>)
                          (s\<lparr>nr_threads := nr_threads s + 1\<rparr>))) (\<lambda>_.
       kbind (sys_alloc KERNEL_STACK_SIZE) (\<lambda>ks.
       kbind (kmod (upd_thread child (\<lambda>th. th\<lparr>kernel_stack := ks\<rparr>))) (\<lambda>_.
       if ks = 0 then kbind (sys_free child) (\<lambda>_. kret (- 1))
       else
         kbind (kget (\<lambda>s. threads s parent)) (\<lambda>par.
         kbind (kmod (upd_mem (memcpy (unat ks) (unat (kernel_stack par)) (unat KERNEL_STACK_SIZE)))) (\<lambda>_.
         kbind (fork_space (pgd par)) (\<lambda>p.
         kbind (kmod (upd_thread child (\<lambda>th. th\<lparr>pgd := p\<rparr>))) (\<lambda>_.
         if p = 0 then kbind (sys_free ks) (\<lambda>_. kbind (sys_free child) (\<lambda>_. kret (- 1)))
         else
           kbind (fork_vmas parent child) (\<lambda>_.
           kbind (kfor (share_fd child) [0..<16]) (\<lambda>_.
           kbind (kmod (fork_frame E child (parent_regs + (ks - kernel_stack par)))) (\<lambda>_.
           kbind (kmod (enqueue child)) (\<lambda>_.
           kget (\<lambda>s. pid (threads s child)))))))))))))))"

text \<open>Looking for a process in the run queue.\<close>

definition find_pid :: "int \<Rightarrow> u64 option sop" where
  "find_pid p s = map_option (\<lambda>r. Inr (r, s)) (ring_search (threads s) (\<lambda>t. pid t = p) (run_queue s) (run_queue s))"

definition sys_waitpid :: "sys_env \<Rightarrow> int \<Rightarrow> int sop" where
  "sys_waitpid E p =
     kbind (kget id) (\<lambda>s.
     if run_queue s = 0 then kfault
     else
       kbind (find_pid p) (\<lambda>r.
       case r of
         None \<Rightarrow> kret (- 1)
       | Some target \<Rightarrow>
           if zombie (threads s target) then kret p
           else
             kbind (kmod (upd_thread (tp s) (\<lambda>th. th\<lparr>th_status := THREAD_WAITING, waiting_pid := p\<rparr>))) (\<lambda>_.
             kbind (yield (se_others E)) (\<lambda>_. kret p))))"

text \<open>\<open>sys_exit\<close> does not return: the state is the one at the switch to another thread.\<close>

definition sys_exit :: "unit sop" where
  "sys_exit = kbind (kget tp) (\<lambda>t. kbind (kfor (close_fd t) [0..<16]) (\<lambda>_. thread_exit))"

text \<open>Ending another thread, or the current one, which then gives up the processor.\<close>

definition abort_thread :: "sys_env \<Rightarrow> u64 \<Rightarrow> int sop" where
  "abort_thread E target =
     kbind (kmod (\<lambda>s. wake_parent target (upd_thread target (\<lambda>th. th\<lparr>th_status := THREAD_ABORTED\<rparr>) s))) (\<lambda>_.
     kbind (kget tp) (\<lambda>t. if target = t then kbind (yield (se_others E)) (\<lambda>_. kret 0) else kret 0))"

definition sys_stop :: "sys_env \<Rightarrow> int \<Rightarrow> int sop" where
  "sys_stop E p =
     (if p \<le> 0 then kret (- 1)
      else
        kbind (kget id) (\<lambda>s.
        kbind (if run_queue s \<noteq> 0 then find_pid p else kret None) (\<lambda>r.
        case r of
          None \<Rightarrow> kret (- 1)
        | Some target \<Rightarrow> if zombie (threads s target) then kret (- 1) else abort_thread E target)))"

definition sys_display :: "sys_env \<Rightarrow> u64 \<Rightarrow> u32 \<Rightarrow> u32 \<Rightarrow> unit sop" where
  "sys_display E bmp width height = se_display E bmp width height"

definition sys_usleep :: "sys_env \<Rightarrow> u32 \<Rightarrow> int sop" where
  "sys_usleep E usec = thread_sleep (se_others E) (se_now E) (se_wakeup E) usec"

section \<open>Signals\<close>

definition sys_signal :: "int \<Rightarrow> u64 \<Rightarrow> int sop" where
  "sys_signal signum handler =
     (if signum < 0 \<or> signum \<ge> 32 then kret (- 1)
      else
        kbind (kmod (\<lambda>s. upd_thread (tp s) (\<lambda>th. th\<lparr>signal_handler := (signal_handler th)(nat signum := handler)\<rparr>) s)) (\<lambda>_.
        kret 0))"

text \<open>Clearing the entry of the signal stack in the page table, if there is one.\<close>

definition clear_pte :: "u64 \<Rightarrow> u64 \<Rightarrow> mm \<Rightarrow> mm option" where
  "clear_pte p va m =
     (case pagewalk p va False m of
        None \<Rightarrow> None
      | Some (None, m) \<Rightarrow> Some m
      | Some (Some (t, i), m) \<Rightarrow> Some (set_entry t i 0 m))"

definition thread_remove_vma :: "u64 \<Rightarrow> u64 \<Rightarrow> unit sop" where
  "thread_remove_vma t start = on_heap_vmas t (\<lambda>hv. map_option (\<lambda>hv. Inr ((), hv)) (remove_vma start hv))"

definition sys_sigreturn :: "u64 \<Rightarrow> unit sop" where
  "sys_sigreturn regs =
     kbind (kget tp) (\<lambda>t.
     kbind (kget (\<lambda>s. threads s t)) (\<lambda>th.
     kbind (if signal_stack_page th \<noteq> 0
            then
              kbind (sys_free (signal_stack_page th)) (\<lambda>_.
              kbind (kmod (upd_thread t (\<lambda>th. th\<lparr>signal_stack_page := 0\<rparr>))) (\<lambda>_.
              kbind (run_mm (clear_pte (pgd th) (signal_stack_vaddr th))) (\<lambda>_.
              kbind (thread_remove_vma t (signal_stack_vaddr th)) (\<lambda>_.
              kmod (upd_thread t (\<lambda>th. th\<lparr>signal_stack_vaddr := 0\<rparr>))))))
            else kret ()) (\<lambda>_.
     kbind (kmod (put_regs regs (signal_saved_regs th))) (\<lambda>_.
     kmod (upd_thread t (\<lambda>th. th\<lparr>is_handling_signal := False\<rparr>))))))"

definition sys_kill :: "sys_env \<Rightarrow> int \<Rightarrow> int \<Rightarrow> int sop" where
  "sys_kill E p signum =
     (if signum < 0 \<or> signum \<ge> 32 \<or> p \<le> 0 then kret (- 1)
      else
        kbind (kget id) (\<lambda>s.
        kbind (if run_queue s \<noteq> 0 then find_pid p else kret None) (\<lambda>r.
        case r of
          None \<Rightarrow> kret (- 1)
        | Some target \<Rightarrow>
            if zombie (threads s target) then kret (- 1)
            else if signal_handler (threads s target) (nat signum) \<noteq> 0
            then
              kbind (kmod (upd_thread target (\<lambda>th. th\<lparr>sigpending := sigpending th OR push_bit (nat signum) 1\<rparr>))) (\<lambda>_. kret 0)
            else abort_thread E target)))"

section \<open>Memory and files\<close>

text \<open>\<open>sys_mmap\<close> of another component on the tables and areas of the current thread.\<close>

definition thread_mmap :: "u64 \<Rightarrow> u64 \<Rightarrow> u32 \<Rightarrow> u32 \<Rightarrow> u64 sop" where
  "thread_mmap addr len prot flags s =
     map_option (map_sum id (\<lambda>(r, m, vs).
         (r, upd_thread (tp s) (\<lambda>th. th\<lparr>vmas := vs\<rparr>) (upd_mem (\<lambda>_. mm_mem m) (s\<lparr>sy_mm := m, sy_heap := mm_heap m\<rparr>)))))
       (sys_mmap (pgd (threads s (tp s))) addr len prot flags
          ((sy_mm s)\<lparr>mm_heap := sy_heap s, mm_mem := sy_mem s\<rparr>, vmas (threads s (tp s))))"

definition cur_cwd :: "sys \<Rightarrow> u64" where
  "cur_cwd s = (if tp s \<noteq> 0 then cwd (threads s (tp s)) else 0)"

text \<open>The first free descriptor.\<close>

definition free_fd :: "(nat \<Rightarrow> u64) \<Rightarrow> nat option" where
  "free_fd fds = List.find (\<lambda>i. fds i = 0) [0..<16]"

definition sys_open :: "sys_env \<Rightarrow> u64 \<Rightarrow> u32 \<Rightarrow> int sop" where
  "sys_open E pathname flags =
     kbind (get_path pathname) (\<lambda>path.
     kbind (kget cur_cwd) (\<lambda>dir.
     kbind (on_vfs (vfs_open (se_fs E) dir path flags)) (\<lambda>r.
     case r of
       None \<Rightarrow> kret (- 1)
     | Some f \<Rightarrow>
         kbind (kget tp) (\<lambda>t.
         kbind (kget (\<lambda>s. free_fd (fdt (threads s t)))) (\<lambda>slot.
         case slot of
           Some i \<Rightarrow> kbind (kmod (upd_thread t (\<lambda>th. th\<lparr>fdt := (fdt th)(i := f)\<rparr>))) (\<lambda>_. kret (int i))
         | None \<Rightarrow> kbind (on_vfs (vfs_close f)) (\<lambda>_. kret (- 1)))))))"

text \<open>The checks that the calls on a descriptor start with.\<close>

definition with_fd :: "int \<Rightarrow> 'a \<Rightarrow> (u64 \<Rightarrow> 'a sop) \<Rightarrow> 'a sop" where
  "with_fd fd err f =
     (if fd < 0 \<or> fd \<ge> 16 then kret err
      else kbind (kget (\<lambda>s. fdt (threads s (tp s)) (nat fd))) (\<lambda>x. if x = 0 then kret err else f x))"

definition sys_close :: "int \<Rightarrow> int sop" where
  "sys_close fd =
     with_fd fd (- 1) (\<lambda>f.
       kbind (on_vfs (vfs_close f)) (\<lambda>_.
       kbind (kmod (\<lambda>s. upd_thread (tp s) (\<lambda>th. th\<lparr>fdt := (fdt th)(nat fd := 0)\<rparr>) s)) (\<lambda>_. kret 0)))"

definition sys_read :: "sys_env \<Rightarrow> int \<Rightarrow> u64 \<Rightarrow> u64 \<Rightarrow> int sop" where
  "sys_read E fd buf cnt = with_fd fd (- 1) (\<lambda>f. on_vfs (vfs_read (se_fs E) f buf cnt))"

definition sys_write :: "sys_env \<Rightarrow> int \<Rightarrow> u64 \<Rightarrow> u64 \<Rightarrow> int sop" where
  "sys_write E fd buf cnt = with_fd fd (- 1) (\<lambda>f. on_vfs (vfs_write (se_fs E) f buf cnt))"

definition sys_lseek64 :: "int \<Rightarrow> u64 \<Rightarrow> int \<Rightarrow> u64 sop" where
  "sys_lseek64 fd offset whence = with_fd fd (- 1) (\<lambda>f. on_vfs (vfs_lseek64 f offset whence))"

definition sys_ioctl :: "sys_env \<Rightarrow> int \<Rightarrow> u64 \<Rightarrow> u64 \<Rightarrow> int sop" where
  "sys_ioctl E fd request a = with_fd fd (- 1) (\<lambda>f. on_vfs (vfs_ioctl (se_fs E) f request a))"

definition sys_mkdir :: "sys_env \<Rightarrow> u64 \<Rightarrow> int sop" where
  "sys_mkdir E pathname =
     kbind (get_path pathname) (\<lambda>path. kbind (kget cur_cwd) (\<lambda>dir. on_vfs (vfs_mkdir (se_fs E) dir path)))"

definition sys_mount :: "sys_env \<Rightarrow> u64 \<Rightarrow> u64 \<Rightarrow> int sop" where
  "sys_mount E target filesystem =
     kbind (get_path target) (\<lambda>path. kbind (get_path filesystem) (\<lambda>nm.
     kbind (kget cur_cwd) (\<lambda>dir. on_vfs (vfs_mount (se_fs E) dir path nm))))"

definition sys_chdir :: "sys_env \<Rightarrow> u64 \<Rightarrow> int sop" where
  "sys_chdir E path =
     kbind (get_path path) (\<lambda>path.
     kbind (kget cur_cwd) (\<lambda>dir.
     kbind (on_vfs (vfs_lookup (se_fs E) dir path)) (\<lambda>r.
     case r of
       Some node \<Rightarrow> kbind (kmod (\<lambda>s. upd_thread (tp s) (\<lambda>th. th\<lparr>cwd := node\<rparr>) s)) (\<lambda>_. kret 0)
     | None \<Rightarrow> kret (- 1))))"

section \<open>The dispatcher\<close>

definition long_result :: "int sop \<Rightarrow> u64 option sop" where
  "long_result m = kbind m (\<lambda>r. kret (Some (of_int r)))"

text \<open>
  The result of the call numbered \<open>n\<close>, from the registers of the frame. \<open>None\<close>: the call has set the
  frame itself (\<open>sigreturn\<close>) or does not return (\<open>exit\<close>).
\<close>

definition dispatch :: "sys_env \<Rightarrow> u64 \<Rightarrow> pt_regs \<Rightarrow> u64 option sop" where
  "dispatch E regs g =
     (let n = g R_a7; a0 = g R_a0; a1 = g R_a1; a2 = g R_a2; a3 = g R_a3
      in if n = 0 then long_result sys_getpid
         else if n = 1 then long_result (sys_uart_read E a0 (as_long a1))
         else if n = 2 then long_result (sys_uart_write E a0 (as_long a1))
         else if n = 3 then long_result (sys_exec E a0 regs)
         else if n = 4 then long_result (sys_fork E regs)
         else if n = 5 then long_result (sys_waitpid E (as_long a0))
         else if n = 6 then kbind sys_exit (\<lambda>_. kret None)
         else if n = 7 then long_result (sys_stop E (as_long a0))
         else if n = 8 then kbind (sys_display E a0 (ucast a1) (ucast a2)) (\<lambda>_. kret (Some 0))
         else if n = 9 then long_result (sys_usleep E (ucast a0))
         else if n = 10 then long_result (sys_signal (as_int a0) a1)
         else if n = 11 then kbind (sys_sigreturn regs) (\<lambda>_. kret None)
         else if n = 12 then long_result (sys_kill E (as_int a0) (as_int a1))
         else if n = 13 then kbind (thread_mmap a0 a1 (ucast a2) (ucast a3)) (\<lambda>r. kret (Some r))
         else if n = 14 then long_result (sys_open E a0 (ucast a1))
         else if n = 15 then long_result (sys_close (as_int a0))
         else if n = 16 then long_result (sys_read E (as_int a0) a1 a2)
         else if n = 17 then long_result (sys_write E (as_int a0) a1 a2)
         else if n = 18 then long_result (sys_mkdir E a0)
         else if n = 19 then long_result (sys_mount E a1 a2)
         else if n = 20 then long_result (sys_chdir E a0)
         else if n = 21 then kbind (sys_lseek64 (as_int a0) a1 (as_int a2)) (\<lambda>r. kret (Some r))
         else if n = 22 then long_result (sys_ioctl E (as_int a0) a1 a2)
         else kret (Some (- 1)))"

definition handle_syscall :: "sys_env \<Rightarrow> u64 \<Rightarrow> unit sop" where
  "handle_syscall E regs =
     kbind (kget (\<lambda>s. load_regs regs (sy_mem s))) (\<lambda>g.
     kbind (dispatch E regs g) (\<lambda>r.
     case r of
       None \<Rightarrow> kret ()
     | Some v \<Rightarrow> kmod (\<lambda>s. let s = put_reg regs R_a0 v s in put_reg regs R_epc (get_reg regs R_epc s + 4) s)))"

end
