(* ===== verification/Trap.thy ===== *)
theory Trap
  imports Syscall
begin

text \<open>
  \<open>src/src/exception.c\<close>: the trap handler with the page faults that implement demand paging and
  copy-on-write, the delivery of signals, and the start of the first user program. The interrupt
  controller, the console handler and the callbacks of tasks are in the environment. Output for
  logging is left out. \<open>thread_exit\<close> does not return, so what follows it in \<open>do_trap\<close> is not run.
\<close>

record trap_env = sys_env +
  te_clock :: "nat \<Rightarrow> u64"
  te_claim :: "int sop"
  te_complete :: "int \<Rightarrow> unit sop"
  te_uart_irq :: int
  te_uart :: "unit sop"
  te_call :: "u64 \<Rightarrow> u64 \<Rightarrow> sys \<Rightarrow> sys option"
  sigreturn_stub :: u64
  sigreturn_stub_end :: u64

section \<open>Signals\<close>

definition first_signal :: "u32 \<Rightarrow> nat option" where
  "first_signal pending = List.find (\<lambda>i. pending AND push_bit i 1 \<noteq> 0) [0..<32]"

definition SIG_PROT :: u64 where
  "SIG_PROT = PTE_V OR PTE_U OR PTE_R OR PTE_W OR PTE_X OR PTE_A OR PTE_D"

text \<open>A page for the handler's stack, recorded and mapped at a free address, which is returned.\<close>

definition signal_stack :: "u64 \<Rightarrow> (u64 \<times> u64) sop" where
  "signal_stack t =
     kbind (sys_alloc 4096) (\<lambda>page.
     if page = 0 then kfault
     else
       kbind (kmod (upd_mem (memset (unat page) 0 4096))) (\<lambda>_.
       kbind (kmod (upd_thread t (\<lambda>th. th\<lparr>signal_stack_page := page\<rparr>))) (\<lambda>_.
       kbind (\<lambda>s. map_option (\<lambda>a. Inr (a, s)) (find_free_vma_region (vmas (threads s t)) 4096)) (\<lambda>va.
       kbind (kmod (upd_thread t (\<lambda>th. th\<lparr>signal_stack_vaddr := va\<rparr>))) (\<lambda>_.
       kbind (thread_add_vma t va 4096 (ucast (PROT_READ OR PROT_WRITE OR PROT_EXEC)) (ucast MAP_ANONYMOUS)) (\<lambda>_.
       kbind (kget (\<lambda>s. pgd (threads s t))) (\<lambda>p.
       kbind (run_mm (map_pages_at p va (page - PAGE_OFFSET) 4096 SIG_PROT)) (\<lambda>_.
       kret (page, va)))))))))"

definition deliver :: "trap_env \<Rightarrow> u64 \<Rightarrow> u64 \<Rightarrow> nat \<Rightarrow> unit sop" where
  "deliver E regs t i =
     kbind (kmod (\<lambda>s. upd_thread t (\<lambda>th. th\<lparr>sigpending := sigpending th AND NOT (push_bit i 1), is_handling_signal := True,
                        signal_saved_regs := load_regs regs (sy_mem s)\<rparr>) s)) (\<lambda>_.
     kbind (signal_stack t) (\<lambda>(page, va).
     let stub_size = sigreturn_stub_end E - sigreturn_stub E;
         trampoline = va + 4096 - stub_size
     in kbind (kmod (upd_mem (memcpy (unat (page + 4096 - stub_size)) (unat (sigreturn_stub E)) (unat stub_size)))) (\<lambda>_.
        kmod (\<lambda>s. put_reg regs R_epc (signal_handler (threads s t) i) (put_reg regs R_sp trampoline (put_reg regs R_ra trampoline s))))))"

definition check_signals :: "trap_env \<Rightarrow> u64 \<Rightarrow> unit sop" where
  "check_signals E regs =
     kbind (kget tp) (\<lambda>t.
     kbind (kget (\<lambda>s. threads s t)) (\<lambda>th.
     if t \<noteq> 0 \<and> sigpending th \<noteq> 0 \<and> \<not> is_handling_signal th
     then (case first_signal (sigpending th) of None \<Rightarrow> kret () | Some i \<Rightarrow> deliver E regs t i)
     else kret ()))"

section \<open>Page faults\<close>

definition set_pte :: "u64 \<Rightarrow> nat \<Rightarrow> u64 \<Rightarrow> sys \<Rightarrow> sys" where
  "set_pte t i e s = s\<lparr>sy_mm := set_entry t i e (sy_mm s)\<rparr>"

text \<open>A private copy of a shared page; when there is no memory for it nothing changes.\<close>

definition cow_copy :: "u64 \<Rightarrow> nat \<Rightarrow> u64 \<Rightarrow> u64 \<Rightarrow> unit sop" where
  "cow_copy t i e old_page =
     kbind (sys_alloc PAGE_SIZE) (\<lambda>new_page.
     if new_page \<noteq> 0
     then
       kbind (kmod (upd_mem (memcpy (unat new_page) (unat old_page) (unat PAGE_SIZE)))) (\<lambda>_.
       kbind (kmod (set_pte t i (push_bit 10 (drop_bit 12 (new_page - PAGE_OFFSET)) OR (e AND 0x3FF) OR PTE_W))) (\<lambda>_.
       sys_free old_page))
     else kret ())"

text \<open>The write to a page mapped read-only in a writable area; \<open>True\<close> when the fault is handled.\<close>

definition cow_fault :: "u64 \<Rightarrow> u64 \<Rightarrow> bool sop" where
  "cow_fault p badaddr =
     kbind (on_mm (pagewalk p badaddr False)) (\<lambda>r.
     case r of
       None \<Rightarrow> kret False
     | Some (t, i) \<Rightarrow>
         kbind (kget (\<lambda>s. entries (sy_mm s) t i)) (\<lambda>e.
         if e AND PTE_V \<noteq> 0 \<and> e AND PTE_W = 0
         then
           let old_page = push_bit 12 (drop_bit 10 e) + PAGE_OFFSET
           in kbind (kget (\<lambda>s. get_page_ref old_page (sy_heap s))) (\<lambda>n.
              kbind (if n > 1 then cow_copy t i e old_page else kmod (set_pte t i (e OR PTE_W))) (\<lambda>_. kret True))
         else kret False))"

definition permission_ok :: "u64 \<Rightarrow> u64 \<Rightarrow> bool" where
  "permission_ok cause prot \<longleftrightarrow>
     \<not> (cause = 12 \<and> prot AND ucast PROT_EXEC = 0) \<and> \<not> (cause = 13 \<and> prot AND ucast PROT_READ = 0) \<and>
     \<not> (cause = 15 \<and> prot AND ucast PROT_WRITE = 0)"

text \<open>The part of the file behind an area that belongs on the page of \<open>badaddr\<close>.\<close>

definition fill_page :: "vm_area \<Rightarrow> u64 \<Rightarrow> u64 \<Rightarrow> mem \<Rightarrow> mem" where
  "fill_page v badaddr page m =
     (let m = memset (unat page) 0 (unat PAGE_SIZE) m;
          offset = (badaddr AND NOT (PAGE_SIZE - 1)) - vm_start v;
          len = vm_file_size v - offset;
          len = if len > PAGE_SIZE then PAGE_SIZE else len
      in if vm_file_data v \<noteq> 0 \<and> offset < vm_file_size v
         then memcpy (unat page) (unat (vm_file_data v + offset)) (unat len) m else m)"

definition demand_page :: "u64 \<Rightarrow> vm_area \<Rightarrow> u64 \<Rightarrow> bool sop" where
  "demand_page p v badaddr =
     kbind (sys_alloc PAGE_SIZE) (\<lambda>page.
     if page \<noteq> 0
     then
       kbind (kmod (upd_mem (fill_page v badaddr page))) (\<lambda>_.
       kbind (run_mm (map_pages_at p (badaddr AND NOT (PAGE_SIZE - 1)) (page - PAGE_OFFSET) PAGE_SIZE (pte_prot (ucast (vm_prot v))))) (\<lambda>_.
       kret True))
     else kret False)"

text \<open>The area of an address, and the handling of a fault there.\<close>

definition find_vma :: "vm_area list \<Rightarrow> u64 \<Rightarrow> vm_area option" where
  "find_vma vs a = List.find (\<lambda>v. vm_start v \<le> a \<and> a < vm_end v) vs"

definition page_fault :: "u64 \<Rightarrow> u64 \<Rightarrow> bool sop" where
  "page_fault cause badaddr =
     kbind (kget tp) (\<lambda>t.
     if t = 0 then kfault
     else
       kbind (kget (\<lambda>s. threads s t)) (\<lambda>th.
       case find_vma (vmas th) badaddr of
         None \<Rightarrow> kret False
       | Some v \<Rightarrow>
           kbind (if cause = 15 \<and> vm_prot v AND ucast PROT_WRITE \<noteq> 0 then cow_fault (pgd th) badaddr else kret False) (\<lambda>done.
           if done then kret True
           else if \<not> permission_ok cause (vm_prot v) then kret False
           else demand_page (pgd th) v badaddr)))"

section \<open>Traps\<close>

definition external_interrupt :: "trap_env \<Rightarrow> unit sop" where
  "external_interrupt E =
     kbind (te_claim E) (\<lambda>irq.
     if irq = 0 then (\<lambda>s. None)
     else if irq > 0
     then kbind (if irq = te_uart_irq E then te_uart E else kret ()) (\<lambda>_. te_complete E irq)
     else kret ())"

text \<open>\<open>handle_timer_interrupt\<close> calls \<open>schedule\<close> last; it comes after the part on the timers here.\<close>

definition timer_interrupt :: "trap_env \<Rightarrow> unit sop" where
  "timer_interrupt E =
     kbind (on_timers (\<lambda>k. map_option (Pair ()) (handle_timer_interrupt Some (te_clock E) k))) (\<lambda>_. yield (se_others E))"

text \<open>\<open>run_tasks\<close> on the whole state, which the callbacks can change.\<close>

definition to_kernel :: "sys \<Rightarrow> sys kernel_scheme" where
  "to_kernel s = \<lparr>k_heap = sy_heap s, task_queue = task_queue (sy_timers s),
     cur_priority = current_task_priority (threads s (tp s)), \<dots> = s\<rparr>"

definition of_kernel :: "sys kernel_scheme \<Rightarrow> sys" where
  "of_kernel k =
     (let s = kernel.more k
      in upd_thread (tp s) (\<lambda>th. th\<lparr>current_task_priority := cur_priority k\<rparr>)
           (s\<lparr>sy_heap := k_heap k, sy_timers := (sy_timers s)\<lparr>task_queue := task_queue k\<rparr>\<rparr>))"

definition sys_run_tasks :: "trap_env \<Rightarrow> unit sop" where
  "sys_run_tasks E s =
     map_option (\<lambda>k. Inr ((), of_kernel k))
       (run_tasks (\<lambda>cb a k. map_option to_kernel (te_call E cb a (of_kernel k))) (to_kernel s))"

text \<open>The end of \<open>do_trap\<close>: the status register is restored at last.\<close>

definition after_trap :: "trap_env \<Rightarrow> u64 \<Rightarrow> unit sop" where
  "after_trap E regs =
     kbind (kget (\<lambda>s. sstatus_sie (sy_timers s))) (\<lambda>b.
     kbind (sys_run_tasks E) (\<lambda>_. kbind (check_signals E regs) (\<lambda>_. kmod (set_sie b))))"

definition INTERRUPT :: u64 where "INTERRUPT = push_bit 63 1"

definition do_trap :: "trap_env \<Rightarrow> u64 \<Rightarrow> unit sop" where
  "do_trap E regs =
     kbind (kget (\<lambda>s. load_regs regs (sy_mem s))) (\<lambda>g.
     if g R_cause AND INTERRUPT \<noteq> 0
     then
       let cause = g R_cause AND NOT INTERRUPT
       in kbind (if cause = 5 then timer_interrupt E else if cause = 9 then external_interrupt E else kret ()) (\<lambda>_.
          after_trap E regs)
     else
       let cause = g R_cause
       in if cause = 8 then kbind (handle_syscall (sys_env.truncate E) regs) (\<lambda>_. check_signals E regs)
          else if cause = 12 \<or> cause = 13 \<or> cause = 15
          then kbind (page_fault cause (g R_badaddr)) (\<lambda>handled. if handled then kret () else thread_exit)
          else thread_exit)"

section \<open>The first user program\<close>

text \<open>\<open>exec\<close>: -1 when the program is not found, otherwise it ends in user mode (0 here).\<close>

definition exec :: "trap_env \<Rightarrow> u64 \<Rightarrow> u64 \<Rightarrow> int sop" where
  "exec E filename initrd =
     kbind (find_program (sys_env.truncate E) initrd filename) (\<lambda>r.
     case r of
       None \<Rightarrow> kret (- 1)
     | Some (data, len) \<Rightarrow>
         kbind (kget tp) (\<lambda>t.
         kbind (if t \<noteq> 0 then kbind (free_vmas t) (\<lambda>_. kmod (upd_thread t (\<lambda>th. th\<lparr>vmas := []\<rparr>))) else kret ()) (\<lambda>_.
         kbind new_space (\<lambda>p.
         if t = 0 then kfault
         else
           kbind (kmod (upd_thread t (\<lambda>th. th\<lparr>pgd := p\<rparr>))) (\<lambda>_.
           kbind (program_areas t (of_nat data) len) (\<lambda>_.
           kbind (kmod (set_satp p)) (\<lambda>_. kret 0)))))))"

end
