(* ===== verification/Thread_Props.thy ===== *)
theory Thread_Props
  imports Thread
begin

text \<open>
  The scheduler picks threads in the order of the ring and is fair; creating a thread puts it into
  the ring; \<open>kill_zombies\<close> takes the zombies out of it.
\<close>

section \<open>The order of the ring\<close>

text \<open>All threads of a ring in the order in which \<open>schedule\<close> looks at them: \<open>t\<close> comes last.\<close>

definition around :: "'a \<Rightarrow> 'a list \<Rightarrow> 'a list" where
  "around t us = tl (dropWhile (\<lambda>u. u \<noteq> t) us) @ takeWhile (\<lambda>u. u \<noteq> t) us @ [t]"

lemma around_split: "t \<notin> set xs \<Longrightarrow> around t (xs @ t # ys) = ys @ xs @ [t]"
  by (simp add: around_def takeWhile_append dropWhile_append)

lemma set_around: "t \<in> set us \<Longrightarrow> set (around t us) = set us"
  using split_list_first [of t us] by (auto simp: around_split)

lemma ring_around:
  assumes "ring ts us" "t \<in> set us"
  shows "ring ts (around t us)" "hd (around t us) = th_next (ts t)"
proof -
  from assms(2) obtain xs ys where us: "us = xs @ t # ys" "t \<notin> set xs" by (auto dest: split_list_first)
  have "ring ts (ys @ xs @ [t])"
    using assms(1) ring_rotate [of ts "xs @ [t]" ys] by (cases "ys = []") (auto simp: us)
  then show r: "ring ts (around t us)" by (simp add: around_split us)
  have "linked ts ((ys @ xs) @ t # []) (hd (around t us))" using r by (simp add: ring_def around_split us)
  then show "hd (around t us) = th_next (ts t)" unfolding linked_append by simp
qed

text \<open>The current thread is in the ring of the run queue.\<close>

definition on_queue :: "u64 list \<Rightarrow> sys \<Rightarrow> bool" where
  "on_queue us s \<longleftrightarrow> ring (threads s) us \<and> run_queue s = hd us \<and> tp s \<in> set us"

definition idle_thread :: "u64 list \<Rightarrow> sys \<Rightarrow> u64" where
  "idle_thread us s = (case List.find (\<lambda>t. pid (threads s t) = 0) us of Some t \<Rightarrow> t | None \<Rightarrow> hd us)"

definition next_thread :: "u64 list \<Rightarrow> sys \<Rightarrow> u64" where
  "next_thread us s =
     (case List.find (\<lambda>t. runnable (threads s t)) (around (tp s) us) of Some t \<Rightarrow> t | None \<Rightarrow> idle_thread us s)"

lemma find_in_set: "List.find P xs = Some x \<Longrightarrow> x \<in> set xs \<and> P x"
  by (auto simp: find_Some_iff)

lemma on_queue_nonnull:
  assumes "on_queue us s"
  shows "tp s \<noteq> 0" "run_queue s \<noteq> 0"
proof -
  from assms have "ring (threads s) us" "run_queue s = hd us" "tp s \<in> set us" by (simp_all add: on_queue_def)
  moreover from this have "hd us \<in> set us" "0 \<notin> set us" by (auto simp: ring_def)
  ultimately show "tp s \<noteq> 0" "run_queue s \<noteq> 0" by (auto simp del: hd_in_set)
qed

lemma schedule_eq:
  assumes "on_queue us s"
  shows "schedule s = Some (Inr ((), run_next (tp s) (next_thread us s) s))"
proof -
  from assms have r: "ring (threads s) us" "run_queue s = hd us" "tp s \<in> set us" by (simp_all add: on_queue_def)
  from ring_search_ring [OF ring_around(1) [OF r(1,3)], of runnable] ring_around(2) [OF r(1,3)]
  have "ring_search (threads s) runnable (th_next (threads s (tp s))) (th_next (threads s (tp s))) =
      Some (List.find (\<lambda>t. runnable (threads s t)) (around (tp s) us))" by simp
  then show ?thesis
    using on_queue_nonnull [OF assms] ring_search_ring [OF r(1), of "\<lambda>t. pid t = 0"]
    by (simp add: schedule_def Let_def kret_def r(2) next_thread_def idle_thread_def split: option.split)
qed

lemma next_thread_in:
  assumes "on_queue us s"
  shows "next_thread us s \<in> set us"
  using assms set_around [of "tp s" us]
  by (auto simp: next_thread_def idle_thread_def on_queue_def ring_def split: option.split dest: find_in_set)

section \<open>schedule\<close>

text \<open>Only the current thread is marked as running; the hardware uses its table.\<close>

definition one_running :: "u64 list \<Rightarrow> sys \<Rightarrow> bool" where
  "one_running us s \<longleftrightarrow> (\<forall>t \<in> set us. th_status (threads s t) = THREAD_RUNNING \<longrightarrow> t = tp s)"

definition right_space :: "sys \<Rightarrow> bool" where
  "right_space s \<longleftrightarrow> satp (sy_mm s) = MAKE_SATP (space (tp s) s - PAGE_OFFSET)"

lemma run_next_threads:
  "threads (run_next prev nxt s) t =
     (if t = nxt then (threads s t)\<lparr>th_status := THREAD_RUNNING\<rparr>
      else if t = prev \<and> th_status (threads s t) = THREAD_RUNNING then (threads s t)\<lparr>th_status := THREAD_READY\<rparr>
      else threads s t)"
  by (auto simp: run_next_def Let_def upd_thread_def switch_to_def set_satp_def)

lemma run_next_tp: "tp (run_next (tp s) nxt s) = nxt"
  by (auto simp: run_next_def Let_def upd_thread_def switch_to_def)

lemma run_next_queue [simp]:
  "run_queue (run_next prev nxt s) = run_queue s" "kernel_pgd (run_next prev nxt s) = kernel_pgd s"
  by (auto simp: run_next_def Let_def upd_thread_def switch_to_def set_satp_def)

lemma run_next_space [simp]: "space t (run_next prev nxt s) = space t s"
  by (simp add: space_def run_next_threads)

lemma run_next_satp:
  "satp (sy_mm (run_next prev nxt s)) =
     (if space nxt s \<noteq> space prev s then MAKE_SATP (space nxt s - PAGE_OFFSET) else satp (sy_mm s))"
proof -
  have "space t (upd_thread u (\<lambda>th. th\<lparr>th_status := x\<rparr>) s) = space t s" for t u x s
    by (simp add: space_def upd_thread_def)
  then show ?thesis by (auto simp: run_next_def Let_def switch_to_def set_satp_def) (auto simp: upd_thread_def)
qed

lemma run_next_ring: "ring (threads (run_next prev nxt s)) us = ring (threads s) us"
  unfolding ring_def by (intro conj_cong refl linked_cong) (simp add: run_next_threads)

lemma schedule_keeps:
  assumes "on_queue us s" "schedule s = Some (Inr ((), s'))"
  shows "on_queue us s'" "tp s' = next_thread us s"
  using assms next_thread_in [OF assms(1)] schedule_eq [OF assms(1)]
  by (auto simp: on_queue_def run_next_ring run_next_tp)

text \<open>C32. Called by a thread of the run queue, \<open>schedule\<close> ends and switches to the first thread after the
  current one, in the order of the queue, that is ready or running, and to the idle thread if there
  is none. The chosen thread is marked as running, the previous one goes from running to ready,
  nothing else about any thread changes, the queue stays the same ring, still at most one thread is
  marked as running and the page table in use is the one of the current thread.\<close>

theorem schedule_correct:
  assumes "on_queue us s"
  shows "\<exists>s'. schedule s = Some (Inr ((), s')) \<and> on_queue us s' \<and>
    ((\<exists>xs ys. around (tp s) us = xs @ tp s' # ys \<and> runnable (threads s (tp s')) \<and> (\<forall>t \<in> set xs. \<not> runnable (threads s t))) \<or>
       (\<forall>t \<in> set us. \<not> runnable (threads s t)) \<and> tp s' = idle_thread us s) \<and>
    (\<forall>t. threads s' t =
      (if t = tp s' then (threads s t)\<lparr>th_status := THREAD_RUNNING\<rparr>
       else if t = tp s \<and> th_status (threads s t) = THREAD_RUNNING then (threads s t)\<lparr>th_status := THREAD_READY\<rparr>
       else threads s t)) \<and>
    (one_running us s \<longrightarrow> one_running us s') \<and> (right_space s \<longrightarrow> right_space s')"
proof -
  let ?n = "next_thread us s" and ?s = "run_next (tp s) (next_thread us s) s"
  have "(\<exists>xs ys. around (tp s) us = xs @ ?n # ys \<and> runnable (threads s ?n) \<and> (\<forall>t \<in> set xs. \<not> runnable (threads s t))) \<or>
       (\<forall>t \<in> set us. \<not> runnable (threads s t)) \<and> ?n = idle_thread us s"
  proof (cases "List.find (\<lambda>t. runnable (threads s t)) (around (tp s) us)")
    case None
    then have "\<forall>t \<in> set us. \<not> runnable (threads s t)" using assms by (simp add: find_None_iff on_queue_def set_around)
    with None show ?thesis by (simp add: next_thread_def)
  next
    case (Some t)
    then obtain i where i: "i < length (around (tp s) us)" "runnable (threads s t)" "t = around (tp s) us ! i"
      "\<And>j. j < i \<Longrightarrow> \<not> runnable (threads s (around (tp s) us ! j))" by (auto simp: find_Some_iff)
    then have "\<forall>u \<in> set (take i (around (tp s) us)). \<not> runnable (threads s u)" by (auto simp: in_set_conv_nth)
    with i(2,3) id_take_nth_drop [OF i(1)] have "\<exists>xs ys. around (tp s) us = xs @ t # ys \<and> runnable (threads s t) \<and> (\<forall>t \<in> set xs. \<not> runnable (threads s t))"
      by metis
    with Some show ?thesis by (simp add: next_thread_def)
  qed
  moreover have "one_running us ?s" if "one_running us s"
    using that by (auto simp: one_running_def run_next_threads run_next_tp)
  moreover have "right_space ?s" if "right_space s"
    using that by (auto simp: right_space_def run_next_tp run_next_satp)
  ultimately show ?thesis
    using schedule_keeps(1) [OF assms schedule_eq [OF assms]]
    by (intro exI [of _ ?s] conjI) (simp_all add: schedule_eq [OF assms] run_next_threads run_next_tp)
qed

text \<open>A kernel with the idle thread at 8, the current one at 16, a zombie at 24 and a ready one at 32.\<close>

definition demo_thread :: "int \<Rightarrow> thread_status \<Rightarrow> u64 \<Rightarrow> thread" where
  "demo_thread p st nxt = zero_thread\<lparr>pid := p, th_status := st, th_next := nxt\<rparr>"

definition demo_sys :: sys where
  "demo_sys = \<lparr>sy_heap = heap4, sy_mm = mm_of heap4, sy_vfs = tmp_demo, sy_timers = timers4,
     threads = (\<lambda>t. if t = 8 then demo_thread 0 THREAD_READY 16 else if t = 16 then demo_thread 3 THREAD_RUNNING 24
       else if t = 24 then demo_thread 2 THREAD_TERMINATED 32 else demo_thread 1 THREAD_READY 8),
     tp = 16, run_queue = 8, nr_threads = 4, kernel_pgd = 0\<rparr>"

lemma demo_on_queue: "on_queue [8, 16, 24, 32] demo_sys"
  by (simp add: on_queue_def ring_def demo_sys_def demo_thread_def)

theorem schedule_correct_witness:
  "\<exists>s'. schedule demo_sys = Some (Inr ((), s')) \<and> tp s' = 32 \<and> th_status (threads s' 16) = THREAD_READY \<and> on_queue [8, 16, 24, 32] s'"
proof -
  have d: "around (tp demo_sys) [8, 16, 24, 32] = [24, 32, 8, 16]" "runnable (threads demo_sys 32)" "tp demo_sys = 16"
    "\<not> runnable (threads demo_sys 24)" "th_status (threads demo_sys 16) = THREAD_RUNNING"
    by (simp_all add: around_def demo_sys_def demo_thread_def runnable_def)
  from schedule_correct [OF demo_on_queue] obtain s' xs ys where
    "schedule demo_sys = Some (Inr ((), s'))" "on_queue [8, 16, 24, 32] s'"
    "\<forall>t. threads s' t =
      (if t = tp s' then (threads demo_sys t)\<lparr>th_status := THREAD_RUNNING\<rparr>
       else if t = tp demo_sys \<and> th_status (threads demo_sys t) = THREAD_RUNNING then (threads demo_sys t)\<lparr>th_status := THREAD_READY\<rparr>
       else threads demo_sys t)"
    "[24, 32, 8, 16] = xs @ tp s' # ys" "runnable (threads demo_sys (tp s'))" "\<forall>t \<in> set xs. \<not> runnable (threads demo_sys t)"
    unfolding d(1) using d(2) by auto
  moreover from this(4-6) d(2,4) have "tp s' = 32" by (auto simp: Cons_eq_append_conv)
  ultimately show ?thesis using d(3,5) by auto
qed

section \<open>Fairness\<close>

text \<open>How many threads the scheduler looks at before \<open>t\<close> when \<open>c\<close> is the current thread.\<close>

definition dist :: "u64 list \<Rightarrow> u64 \<Rightarrow> u64 \<Rightarrow> nat" where
  "dist us c t = length (takeWhile (\<lambda>u. u \<noteq> t) (around c us))"

lemma around_around:
  assumes "distinct us" "t \<in> set us" "n \<in> set us"
  shows "around n (around t us) = around n us"
proof -
  from assms(2) obtain xs ys where us: "us = xs @ t # ys" "t \<notin> set xs" by (auto dest: split_list_first)
  consider "n = t" | "n \<noteq> t" "n \<in> set xs" | "n \<noteq> t" "n \<in> set ys" using assms(3) us by auto
  then show ?thesis
  proof cases
    case 1
    with assms(1) us show ?thesis using around_split [of t "ys @ xs" "[]"] by (simp add: around_split)
  next
    case 2
    then obtain a b where "xs = a @ n # b" "n \<notin> set a" by (auto dest: split_list_first)
    with assms(1) us 2 show ?thesis
      using around_split [of n "ys @ a" "b @ [t]"] around_split [of n a "b @ t # ys"]
        around_split [of t "a @ n # b" ys] by simp
  next
    case 3
    then obtain a b where "ys = a @ n # b" "n \<notin> set a" by (auto dest: split_list_first)
    with assms(1) us 3 show ?thesis
      using around_split [of n a "b @ xs @ [t]"] around_split [of n "xs @ t # a" b]
        around_split [of t xs "a @ n # b"] by simp
  qed
qed

lemma dist_less:
  assumes "t \<in> set us" "c \<in> set us"
  shows "dist us c t < length us"
proof -
  have "t \<in> set (around c us)" using assms by (simp add: set_around)
  then obtain xs ys where "around c us = xs @ t # ys" "t \<notin> set xs" by (auto dest: split_list_first)
  moreover have "length (around c us) = length us"
    using split_list_first [OF assms(2)] by (auto simp: around_split)
  ultimately show ?thesis by (simp add: dist_def takeWhile_append)
qed

lemma schedule_closer:
  assumes q: "on_queue us s" and t: "t \<in> set us" "runnable (threads s t)"
    and s': "schedule s = Some (Inr ((), s'))" "tp s' \<noteq> t"
  shows "dist us (tp s') t < dist us (tp s) t"
proof -
  let ?A = "around (tp s) us" and ?n = "tp s'"
  have d: "distinct us" "tp s \<in> set us" using q by (auto simp: on_queue_def ring_def)
  have n: "?n = next_thread us s" using schedule_keeps(2) [OF q s'(1)] .
  have tA: "t \<in> set ?A" using t d by (simp add: set_around)
  obtain xs ys where A: "?A = xs @ ?n # ys" "\<forall>u \<in> set xs. \<not> runnable (threads s u)"
  proof (cases "List.find (\<lambda>t. runnable (threads s t)) ?A")
    case None
    with tA t show ?thesis by (auto simp: find_None_iff)
  next
    case (Some u)
    then obtain i where i: "i < length ?A" "u = ?A ! i" "\<And>j. j < i \<Longrightarrow> \<not> runnable (threads s (?A ! j))"
      by (auto simp: find_Some_iff)
    then have "\<forall>v \<in> set (take i ?A). \<not> runnable (threads s v)" by (auto simp: in_set_conv_nth)
    with id_take_nth_drop [OF i(1)] i(2) Some n that show ?thesis by (auto simp: next_thread_def)
  qed
  have dA: "distinct ?A" using ring_around(1) [of "threads s" us "tp s"] q by (auto simp: on_queue_def ring_def)
  have tx: "t \<notin> set xs" using A(2) t(2) by blast
  then have ty: "t \<in> set ys" using tA A(1) s'(2) by auto
  have "?n \<in> set us" using schedule_keeps(1) [OF q s'(1)] by (simp add: on_queue_def)
  then have "around ?n us = ys @ xs @ [?n]"
    using around_around [OF d, of ?n] dA by (simp add: A(1) around_split)
  then have "dist us ?n t = length (takeWhile (\<lambda>u. u \<noteq> t) ys)"
    using ty by (auto simp: dist_def dest: split_list_first)
  moreover have "takeWhile (\<lambda>u. u \<noteq> t) (xs @ ?n # ys) = xs @ ?n # takeWhile (\<lambda>u. u \<noteq> t) ys"
    using tx s'(2) by (auto simp: takeWhile_append)
  ultimately show ?thesis by (simp add: dist_def A(1))
qed

text \<open>
  A turn: the current thread works until it calls \<open>schedule\<close>, or an interrupt does; meanwhile
  \<open>t\<close> is ready and the members of the ring stay the same.
\<close>

definition turn :: "u64 list \<Rightarrow> u64 \<Rightarrow> sys \<Rightarrow> sys \<Rightarrow> bool" where
  "turn us t s s' \<longleftrightarrow>
     (\<exists>m. tp m = tp s \<and> on_queue us m \<and> runnable (threads m t) \<and> schedule m = Some (Inr ((), s')))"

text \<open>C33. The scheduler is fair: a thread that stays ready gets the processor within as many turns as there
  are threads in the run queue, whatever the running threads do in their turns.\<close>

theorem schedule_fair:
  assumes "t \<in> set us" "\<forall>i < length us. turn us t (ss i) (ss (Suc i))"
  shows "\<exists>i. 0 < i \<and> i \<le> length us \<and> tp (ss i) = t"
proof (rule ccontr)
  assume no: "\<not> ?thesis"
  have "on_queue us (ss (Suc i))" "tp (ss i) \<in> set us"
    "tp (ss (Suc i)) \<noteq> t \<Longrightarrow> dist us (tp (ss (Suc i))) t < dist us (tp (ss i)) t" if i: "i < length us" for i
  proof -
    from assms(2) i obtain m where m: "tp m = tp (ss i)" "on_queue us m" "runnable (threads m t)"
      "schedule m = Some (Inr ((), ss (Suc i)))" by (auto simp: turn_def)
    from schedule_keeps(1) [OF m(2,4)] show "on_queue us (ss (Suc i))" .
    from m(1,2) show "tp (ss i) \<in> set us" by (simp add: on_queue_def)
    show "dist us (tp (ss (Suc i))) t < dist us (tp (ss i)) t" if "tp (ss (Suc i)) \<noteq> t"
      using schedule_closer [OF m(2) assms(1) m(3,4) that] m(1) by simp
  qed note step = this
  have "i \<le> length us \<Longrightarrow> dist us (tp (ss i)) t + i < length us" for i
  proof (induction i)
    case 0
    then show ?case using dist_less [OF assms(1) step(2) [of 0]] assms(1) by (cases us) auto
  next
    case (Suc i)
    then show ?case using step(3) [of i] no by fastforce
  qed
  from this [of "length us"] show False by simp
qed

text \<open>The system above, when every thread does nothing but give up the processor.\<close>

fun demo_run :: "nat \<Rightarrow> sys" where
  "demo_run 0 = demo_sys"
| "demo_run (Suc i) = run_next (tp (demo_run i)) (next_thread [8, 16, 24, 32] (demo_run i)) (demo_run i)"

theorem schedule_fair_witness: "\<exists>i. 0 < i \<and> i \<le> 4 \<and> tp (demo_run i) = 8"
proof -
  have i: "on_queue [8, 16, 24, 32] (demo_run i) \<and> runnable (threads (demo_run i) 8)" for i
  proof (induction i)
    case 0
    then show ?case using demo_on_queue by (simp add: runnable_def demo_sys_def demo_thread_def)
  next
    case (Suc i)
    then show ?case using schedule_keeps(1) [OF _ schedule_eq] by (auto simp: run_next_threads runnable_def)
  qed
  then have "\<forall>i < length [8, 16, 24, 32 :: u64]. turn [8, 16, 24, 32] 8 (demo_run i) (demo_run (Suc i))"
    by (auto simp: turn_def schedule_eq simp del: One_nat_def)
  from schedule_fair [OF _ this] show ?thesis by (simp add: numeral_eq_Suc)
qed

section \<open>thread_create\<close>

text \<open>What the loop over the file descriptors leaves alone.\<close>

definition same_but_files :: "sys \<Rightarrow> sys \<Rightarrow> bool" where
  "same_but_files s s' \<longleftrightarrow> sy_heap s' = sy_heap s \<and> sy_mm s' = sy_mm s \<and> tp s' = tp s \<and> run_queue s' = run_queue s \<and>
     nr_threads s' = nr_threads s \<and> kernel_pgd s' = kernel_pgd s"

definition refs_added :: "(u64 \<Rightarrow> nat) \<Rightarrow> (u64 \<Rightarrow> fs_file) \<Rightarrow> (u64 \<Rightarrow> fs_file) \<Rightarrow> bool" where
  "refs_added n fs fs' \<longleftrightarrow> (\<forall>f. fs' f = (fs f)\<lparr>ref_count := ref_count (fs f) + int (n f)\<rparr>)"

definition fd_refs :: "nat list \<Rightarrow> (nat \<Rightarrow> u64) \<Rightarrow> u64 \<Rightarrow> nat" where
  "fd_refs is fds f = (if f \<noteq> 0 then length (filter (\<lambda>i. fds i = f) is) else 0)"

lemma inherit_fd_effect:
  assumes "t \<noteq> c"
  shows "\<exists>s'. inherit_fd c t i s = Some (Inr ((), s')) \<and> same_but_files s s' \<and>
    threads s' = (threads s)(t := (threads s t)\<lparr>fdt := (fdt (threads s t))(i := fdt (threads s c) i)\<rparr>) \<and>
    refs_added (fd_refs [i] (fdt (threads s c))) (files (sy_vfs s)) (files (sy_vfs s'))"
  using assms
  by (auto simp: inherit_fd_def kop_simps share_file_def on_vfs_def upd_thread_def same_but_files_def refs_added_def fd_refs_def)

lemma inherit_fds_effect:
  assumes "t \<noteq> c"
  shows "\<exists>s'. kfor (inherit_fd c t) is s = Some (Inr ((), s')) \<and> same_but_files s s' \<and>
    threads s' = (threads s)(t := (threads s t)\<lparr>fdt := \<lambda>i. if i \<in> set is then fdt (threads s c) i else fdt (threads s t) i\<rparr>) \<and>
    refs_added (fd_refs is (fdt (threads s c))) (files (sy_vfs s)) (files (sy_vfs s'))"
proof (induction "is" arbitrary: s)
  case Nil
  then show ?case by (simp add: kret_def same_but_files_def refs_added_def fd_refs_def)
next
  case (Cons i "is")
  from inherit_fd_effect [OF assms, of i s] obtain s1 where s1: "inherit_fd c t i s = Some (Inr ((), s1))" "same_but_files s s1"
    "threads s1 = (threads s)(t := (threads s t)\<lparr>fdt := (fdt (threads s t))(i := fdt (threads s c) i)\<rparr>)"
    "refs_added (fd_refs [i] (fdt (threads s c))) (files (sy_vfs s)) (files (sy_vfs s1))" by blast
  from Cons.IH [of s1] obtain s2 where s2: "kfor (inherit_fd c t) is s1 = Some (Inr ((), s2))" "same_but_files s1 s2"
    "threads s2 = (threads s1)(t := (threads s1 t)\<lparr>fdt := \<lambda>i. if i \<in> set is then fdt (threads s1 c) i else fdt (threads s1 t) i\<rparr>)"
    "refs_added (fd_refs is (fdt (threads s1 c))) (files (sy_vfs s1)) (files (sy_vfs s2))"
    by blast
  have "kfor (inherit_fd c t) (i # is) s = Some (Inr ((), s2))" using s1(1) s2(1) by (simp add: kbind_Inr)
  moreover have "same_but_files s s2" using s1(2) s2(2) by (simp add: same_but_files_def)
  moreover have "threads s2 = (threads s)(t := (threads s t)\<lparr>fdt := \<lambda>j. if j \<in> set (i # is) then fdt (threads s c) j else fdt (threads s t) j\<rparr>)"
    using assms by (auto simp: s2(3) s1(3) fun_eq_iff)
  moreover have "refs_added (fd_refs (i # is) (fdt (threads s c)))
      (files (sy_vfs s)) (files (sy_vfs s2))"
    using s1(4) s2(4) assms by (auto simp: refs_added_def fd_refs_def s1(3))
  ultimately show ?case by blast
qed

text \<open>
  The state between two operations: the run queue is a ring of live heap objects (or empty, at the
  start), and the process ids in it are different and below the next one.
\<close>

definition queue_ok :: "u64 list \<Rightarrow> sys \<Rightarrow> bool" where
  "queue_ok us s \<longleftrightarrow> (if us = [] then run_queue s = 0 else ring (threads s) us \<and> run_queue s = hd us)"

definition thread_inv :: "u64 list \<Rightarrow> sys \<Rightarrow> bool" where
  "thread_inv us s \<longleftrightarrow> heap_inv (sy_heap s) \<and> queue_ok us s \<and> (\<forall>t \<in> set us. live (sy_heap s) t) \<and>
     distinct (map (\<lambda>t. pid (threads s t)) us) \<and> (\<forall>t \<in> set us. 0 \<le> pid (threads s t) \<and> pid (threads s t) < nr_threads s) \<and>
     0 \<le> nr_threads s \<and> (tp s = 0 \<or> tp s \<in> set us)"

text \<open>A new thread comes second in the queue.\<close>

definition second :: "'a \<Rightarrow> 'a list \<Rightarrow> 'a list" where
  "second t us = (case us of [] \<Rightarrow> [t] | u # us \<Rightarrow> u # t # us)"

lemma set_second [simp]: "set (second t us) = insert t (set us)"
  by (auto simp: second_def split: list.split)

lemma enqueue_queue:
  assumes "queue_ok us s" "t \<notin> set us" "t \<noteq> 0"
  shows "queue_ok (second t us) (enqueue t s)"
proof (cases us)
  case Nil
  with assms show ?thesis by (simp add: queue_ok_def enqueue_def second_def ring_def upd_thread_def)
next
  case (Cons u vs)
  from assms(1) have r: "ring (threads s) (u # vs)" "run_queue s = u" by (simp_all add: queue_ok_def Cons)
  let ?ts = "threads (enqueue t s)"
  have u: "u \<noteq> 0" "u \<noteq> t" "u \<notin> set vs" using r(1) assms(2) by (auto simp: ring_def Cons)
  have ts: "th_next (?ts u) = t" "th_next (?ts t) = th_next (threads s u)" "\<And>v. v \<noteq> u \<Longrightarrow> v \<noteq> t \<Longrightarrow> ?ts v = threads s v"
    using r(2) u by (simp_all add: enqueue_def upd_thread_def Let_def)
  have "linked (threads s) (u # vs) u" using r(1) by (simp add: ring_def)
  moreover have "linked ?ts vs u = linked (threads s) vs u" 
    using u assms(2) Cons by (intro linked_cong, subst ts(3)) auto
  ultimately have "linked ?ts (u # t # vs) u" using ts by (cases vs) auto
  with r u assms Cons show ?thesis
    by (auto simp: queue_ok_def second_def ring_def) (simp add: enqueue_def upd_thread_def Let_def)
qed

lemma enqueue_thread [simp]:
  "(threads (enqueue t s) u)\<lparr>th_next := x\<rparr> = (threads s u)\<lparr>th_next := x\<rparr>"
  "pid (threads (enqueue t s) u) = pid (threads s u)" "th_status (threads (enqueue t s) u) = th_status (threads s u)"
  "entry_func (threads (enqueue t s) u) = entry_func (threads s u)" "ctx_ra (threads (enqueue t s) u) = ctx_ra (threads s u)"
  "ctx_sp (threads (enqueue t s) u) = ctx_sp (threads s u)" "kernel_stack (threads (enqueue t s) u) = kernel_stack (threads s u)"
  "cwd (threads (enqueue t s) u) = cwd (threads s u)" "fdt (threads (enqueue t s) u) = fdt (threads s u)"
  "tp (enqueue t s) = tp s" "nr_threads (enqueue t s) = nr_threads s" "sy_heap (enqueue t s) = sy_heap s"
  "sy_vfs (enqueue t s) = sy_vfs s"
  by (auto simp: enqueue_def upd_thread_def Let_def)

lemma thread_inv_enqueue:
  assumes inv: "thread_inv us s" and t: "t \<notin> set us" "t \<noteq> 0"
    and s': "heap_inv (sy_heap s')" "\<forall>u \<in> insert t (set us). live (sy_heap s') u" "\<forall>u. u \<noteq> t \<longrightarrow> threads s' u = threads s u"
      "pid (threads s' t) = nr_threads s" "nr_threads s' = nr_threads s + 1" "tp s' = tp s" "run_queue s' = run_queue s"
  shows "thread_inv (second t us) (enqueue t s')"
proof -
  have us: "threads s' u = threads s u" if "u \<in> set us" for u using that t(1) s'(3) by metis
  have "queue_ok us s'"
    using inv us s'(7) linked_cong [of us "threads s'" "threads s"] by (auto simp: thread_inv_def queue_ok_def ring_def)
  then have q: "queue_ok (second t us) (enqueue t s')" using t by (rule enqueue_queue)
  have "map (\<lambda>u. pid (threads s' u)) us = map (\<lambda>u. pid (threads s u)) us" using us by simp
  moreover have "distinct (map (\<lambda>u. pid (threads s u)) us)" using inv by (simp add: thread_inv_def)
  ultimately have "distinct (map (\<lambda>u. pid (threads s' u)) us)" by metis
  moreover have "nr_threads s \<notin> (\<lambda>u. pid (threads s' u)) ` set us" using inv us by (auto simp: thread_inv_def)
  ultimately have "distinct (map (\<lambda>u. pid (threads s' u)) (second t us))"
    using s'(4) by (auto simp: second_def split: list.splits)
  moreover have "\<forall>u \<in> insert t (set us). 0 \<le> pid (threads s' u) \<and> pid (threads s' u) < nr_threads s'"
    using inv us s'(4,5) by (auto simp: thread_inv_def)
  ultimately show ?thesis using q inv s' by (auto simp: thread_inv_def)
qed

lemma inherit_files_effect:
  assumes "t \<noteq> tp s"
  shows "\<exists>s'. inherit_files t s = Some (Inr ((), s')) \<and> same_but_files s s' \<and>
    (\<forall>u. u \<noteq> t \<longrightarrow> threads s' u = threads s u) \<and>
    threads s' t = (threads s t)\<lparr>cwd := cwd (threads s' t), th_root := th_root (threads s' t), fdt := fdt (threads s' t)\<rparr> \<and>
    (tp s = 0 \<longrightarrow> cwd (threads s' t) = root_dir s \<and> (\<forall>i. fdt (threads s' t) i = 0) \<and> files (sy_vfs s') = files (sy_vfs s)) \<and>
    (tp s \<noteq> 0 \<longrightarrow> cwd (threads s' t) = cwd (threads s (tp s)) \<and> (\<forall>i < 16. fdt (threads s' t) i = fdt (threads s (tp s)) i) \<and>
       refs_added (fd_refs [0..<16] (fdt (threads s (tp s))))
         (files (sy_vfs s)) (files (sy_vfs s')))"
proof (cases "tp s = 0")
  case True
  then show ?thesis by (simp add: inherit_files_def kop_simps upd_thread_def same_but_files_def)
next
  case False
  let ?s = "upd_thread t (\<lambda>th. th\<lparr>cwd := cwd (threads s (tp s)), th_root := th_root (threads s (tp s))\<rparr>) s"
  have t: "threads ?s u = (if u = t then (threads s t)\<lparr>cwd := cwd (threads s (tp s)), th_root := th_root (threads s (tp s))\<rparr> else threads s u)"
    "same_but_files s ?s" "sy_vfs ?s = sy_vfs s" "tp ?s = tp s" for u by (simp_all add: upd_thread_def same_but_files_def)
  from inherit_fds_effect [OF assms, of "[0..<16]" ?s] obtain s' where
    s': "kfor (inherit_fd (tp s) t) [0..<16] ?s = Some (Inr ((), s'))" "same_but_files ?s s'"
    "threads s' = (threads ?s)(t := (threads ?s t)\<lparr>fdt := \<lambda>i. if i \<in> set [0..<16] then fdt (threads ?s (tp s)) i else fdt (threads ?s t) i\<rparr>)"
    "refs_added (fd_refs [0..<16] (fdt (threads ?s (tp s)))) (files (sy_vfs ?s)) (files (sy_vfs s'))"
    by blast
  have "inherit_files t s = Some (Inr ((), s'))" using s'(1) False by (simp add: inherit_files_def kop_simps)
  moreover have "same_but_files s s'" using t(2) s'(2) by (simp add: same_but_files_def)
  ultimately show ?thesis using s'(3,4) assms False by (auto simp: t)
qed



section \<open>kill_zombies\<close>

text \<open>
  Operations that give back memory of the thread \<open>c\<close>: they return, keep the heap consistent, and
  change no thread except for closing files of \<open>c\<close>.
\<close>

definition fds_ok :: "u64 \<Rightarrow> sys \<Rightarrow> bool" where
  "fds_ok c s \<longleftrightarrow> (\<forall>i < 16. fdt (threads s c) i \<noteq> 0 \<longrightarrow> fl_ops (files (sy_vfs s) (fdt (threads s c) i)) \<noteq> No_ops)"

definition freed :: "u64 \<Rightarrow> sys \<Rightarrow> sys \<Rightarrow> bool" where
  "freed c s s' \<longleftrightarrow> heap_inv (sy_heap s') \<and> (\<forall>t. t \<noteq> c \<longrightarrow> threads s' t = threads s t) \<and>
     (\<exists>fds. threads s' c = (threads s c)\<lparr>fdt := fds\<rparr> \<and> (\<forall>i. fds i = fdt (threads s c) i \<or> fds i = 0)) \<and>
     run_queue s' = run_queue s \<and> tp s' = tp s \<and> nr_threads s' = nr_threads s \<and> kernel_pgd s' = kernel_pgd s \<and>
     (\<forall>f. fl_ops (files (sy_vfs s') f) = fl_ops (files (sy_vfs s) f))"

definition frees :: "u64 \<Rightarrow> unit sop \<Rightarrow> bool" where
  "frees c m \<longleftrightarrow> (\<forall>s. heap_inv (sy_heap s) \<and> fds_ok c s \<longrightarrow> (\<exists>s'. m s = Some (Inr ((), s')) \<and> freed c s s'))"

lemma freed_trans:
  assumes "freed c s s'" "freed c s' s''"
  shows "freed c s s''"
proof -
  from assms obtain fds fds' where f: "threads s' c = (threads s c)\<lparr>fdt := fds\<rparr>" "\<forall>i. fds i = fdt (threads s c) i \<or> fds i = 0"
    "threads s'' c = (threads s' c)\<lparr>fdt := fds'\<rparr>" "\<forall>i. fds' i = fdt (threads s' c) i \<or> fds' i = 0" by (auto simp: freed_def)
  from f(1,3) have "threads s'' c = (threads s c)\<lparr>fdt := fds'\<rparr>" by simp
  moreover from f have "\<forall>i. fds' i = fdt (threads s c) i \<or> fds' i = 0" by (metis thread.select_convs(26) thread.surjective thread.update_convs(26))
  ultimately show ?thesis using assms unfolding freed_def by auto
qed

lemma freed_fds_ok:
  assumes "freed c s s'" "fds_ok t s"
  shows "fds_ok t s'"
proof (cases "t = c")
  case True
  from assms(1) obtain fds where "threads s' c = (threads s c)\<lparr>fdt := fds\<rparr>" "\<forall>i. fds i = fdt (threads s c) i \<or> fds i = 0"
    by (auto simp: freed_def)
  then have "fdt (threads s' c) i = fdt (threads s c) i \<or> fdt (threads s' c) i = 0" for i by simp
  with assms True show ?thesis by (auto simp: fds_ok_def freed_def) metis
next
  case False
  with assms show ?thesis by (auto simp: fds_ok_def freed_def)
qed

lemma frees_bind: "frees c m \<Longrightarrow> frees c m' \<Longrightarrow> frees c (kbind m (\<lambda>_. m'))"
  unfolding frees_def
proof (intro allI impI)
  fix s
  assume m: "\<forall>s. heap_inv (sy_heap s) \<and> fds_ok c s \<longrightarrow> (\<exists>s'. m s = Some (Inr ((), s')) \<and> freed c s s')"
    and m': "\<forall>s. heap_inv (sy_heap s) \<and> fds_ok c s \<longrightarrow> (\<exists>s'. m' s = Some (Inr ((), s')) \<and> freed c s s')"
    and s: "heap_inv (sy_heap s) \<and> fds_ok c s"
  from m s obtain s1 where s1: "m s = Some (Inr ((), s1))" "freed c s s1" by blast
  moreover have "heap_inv (sy_heap s1) \<and> fds_ok c s1" using freed_fds_ok [OF s1(2), of c] s1(2) s by (simp add: freed_def)
  with m' obtain s2 where "m' s1 = Some (Inr ((), s2))" "freed c s1 s2" by blast
  ultimately show "\<exists>s'. kbind m (\<lambda>_. m') s = Some (Inr ((), s')) \<and> freed c s s'"
    using freed_trans by (auto simp: kbind_Inr)
qed

lemma freed_self: "heap_inv (sy_heap s) \<Longrightarrow> freed c s s"
  by (auto simp: freed_def intro: exI [of _ "fdt (threads s c)"])

lemma frees_get: "(\<And>x. frees c (f x)) \<Longrightarrow> frees c (kbind (kget g) f)"
  by (simp add: frees_def kget_kbind)

lemma frees_ret: "frees c (kret ())"
  by (simp add: frees_def kret_def freed_self)

lemma frees_if: "(b \<Longrightarrow> frees c m) \<Longrightarrow> (\<not> b \<Longrightarrow> frees c m') \<Longrightarrow> frees c (if b then m else m')"
  by simp

lemma frees_for: "(\<And>i. i \<in> set is \<Longrightarrow> frees c (f i)) \<Longrightarrow> frees c (kfor f is)"
  by (induction "is") (auto intro: frees_ret frees_bind)

lemma frees_heap: "heap_inv h \<Longrightarrow> freed c s (s\<lparr>sy_heap := h\<rparr>)"
  by (auto simp: freed_def intro: exI [of _ "fdt (threads s c)"])

lemma frees_free: "frees c (sys_free p)"
  unfolding frees_def
proof (intro allI impI, elim conjE)
  fix s :: sys assume "heap_inv (sy_heap s)"
  from free_owners [OF this, of p] obtain h where "free p (sy_heap s) = Some h" "heap_inv h" by blast
  then show "\<exists>s'. sys_free p s = Some (Inr ((), s')) \<and> freed c s s'" by (simp add: sys_free_def frees_heap)
qed

lemma for_each_inv:
  assumes "\<And>i s. P s \<Longrightarrow> \<exists>s'. f i s = Some (True, s') \<and> P s'" "P s"
  shows "\<exists>s'. for_each f is s = Some (True, s') \<and> P s'"
  using assms(2)
proof (induction "is" arbitrary: s)
  case (Cons i "is")
  with assms(1) [of s i] show ?case by fastforce
qed simp

lemma heap_free_inv:
  assumes "heap_inv (mm_heap s)"
  shows "\<exists>s'. heap_free p s = Some s' \<and> heap_inv (mm_heap s') \<and> entries s' = entries s"
  using free_owners [OF assms, of p] by (auto simp: heap_free_def)

lemma free_pgd_inv:
  assumes "heap_inv (mm_heap s)"
  shows "\<exists>s'. free_pgd p s = Some s' \<and> heap_inv (mm_heap s') \<and> entries s' = entries s"
proof -
  let ?P = "\<lambda>s'. heap_inv (mm_heap s') \<and> entries s' = entries s"
  have al: "\<exists>s'. always (heap_free p) s = Some (True, s') \<and> ?P s'" if "?P s" for p and s :: "'a mm_scheme"
    using heap_free_inv [OF conjunct1 [OF that], of p] that by (auto simp: always_def)
  have pt: "\<exists>s'. free_pt_entry pt k s = Some (True, s') \<and> ?P s'" if "?P s" for pt k and s :: "'a mm_scheme"
    using al [OF that] that by (auto simp: free_pt_entry_def)
  have pmd: "\<exists>s'. free_pmd_entry pmd k s = Some (True, s') \<and> ?P s'" if "?P s" for pmd k and s :: "'a mm_scheme"
  proof (cases "valid pmd k s")
    case True
    from for_each_inv [of ?P "free_pt_entry (entry_table (entries s pmd k))", OF pt that] obtain s1 where
      "for_each (free_pt_entry (entry_table (entries s pmd k))) [0..<512] s = Some (True, s1)" "?P s1" by blast
    with True al [OF this(2)] show ?thesis by (auto simp: free_pmd_entry_def)
  qed (simp add: free_pmd_entry_def that)
  have pgd: "\<exists>s'. free_pgd_entry pgd k s = Some (True, s') \<and> ?P s'" if "?P s" for pgd k and s :: "'a mm_scheme"
  proof (cases "valid pgd k s")
    case True
    from for_each_inv [of ?P "free_pmd_entry (entry_table (entries s pgd k))", OF pmd that] obtain s1 where
      "for_each (free_pmd_entry (entry_table (entries s pgd k))) [0..<512] s = Some (True, s1)" "?P s1" by blast
    with True al [OF this(2)] show ?thesis by (auto simp: free_pgd_entry_def)
  qed (simp add: free_pgd_entry_def that)
  from for_each_inv [of ?P "free_pgd_entry p", OF pgd conjI [OF assms refl]] obtain s1 where
    "for_each (free_pgd_entry p) [0..<256] s = Some (True, s1)" "?P s1" by blast
  with heap_free_inv [OF conjunct1 [OF this(2)], of p] show ?thesis by (auto simp: free_pgd_def)
qed

lemma frees_pgd: "frees c (run_mm (free_pgd p))"
  unfolding frees_def
proof (intro allI impI, elim conjE)
  fix s :: sys assume "heap_inv (sy_heap s)"
  then have "heap_inv (mm_heap ((sy_mm s)\<lparr>mm_heap := sy_heap s, mm_mem := sy_mem s\<rparr>))" by simp
  from free_pgd_inv [OF this, of p] obtain m where "free_pgd p ((sy_mm s)\<lparr>mm_heap := sy_heap s, mm_mem := sy_mem s\<rparr>) = Some m" "heap_inv (mm_heap m)" by blast
  then show "\<exists>s'. run_mm (free_pgd p) s = Some (Inr ((), s')) \<and> freed c s s'"
    by (auto simp: run_mm_def on_mm_def upd_mem_def freed_def intro: exI [of _ "fdt (threads s c)"])
qed

lemma frees_close:
  assumes "i < 16"
  shows "frees c (close_fd c i)"
  unfolding frees_def
proof (intro allI impI, elim conjE)
  fix s :: sys assume s: "heap_inv (sy_heap s)" "fds_ok c s"
  show "\<exists>s'. close_fd c i s = Some (Inr ((), s')) \<and> freed c s s'"
  proof (cases "fdt (threads s c) i = 0")
    case True
    then show ?thesis using s by (simp add: close_fd_def kop_simps freed_self)
  next
    case False
    let ?f = "fdt (threads s c) i" and ?v = "(sy_vfs s)\<lparr>vf_heap := sy_heap s\<rparr>"
    have ops: "fl_ops (files (sy_vfs s) ?f) \<noteq> No_ops" using s(2) assms False by (auto simp: fds_ok_def)
    have "\<exists>r v. vfs_close ?f ?v = Some (Inr (r, v)) \<and> heap_inv (vf_heap v) \<and> (\<forall>f. fl_ops (files v f) = fl_ops (files (sy_vfs s) f))"
    proof -
      let ?w = "?v\<lparr>files := (files ?v)(?f := (files ?v ?f)\<lparr>ref_count := ref_count (files ?v ?f) - 1\<rparr>)\<rparr>"
      have c: "op_close (fl_ops (files ?w ?f)) ?f = kret 0"
        using ops by (cases "fl_ops (files (sy_vfs s) ?f)") (simp_all add: op_close_def tmpfs_close_def ramfs_close_def devfs_close_def)
      from s(1) have "heap_inv (vf_heap ?w)" by simp
      from kfree_total [OF this, of ?f] obtain h where "kfree ?f ?w = Some (Inr ((), ?w\<lparr>vf_heap := h\<rparr>))" "heap_inv h" by blast
      then show ?thesis using c s(1) by (auto simp: vfs_close_def kop_simps kbind_Inr)
    qed
    then obtain r v where v: "vfs_close ?f ?v = Some (Inr (r, v))" "heap_inv (vf_heap v)"
      "\<forall>f. fl_ops (files v f) = fl_ops (files (sy_vfs s) f)" by blast
    then show ?thesis using False
      by (auto simp: close_fd_def kop_simps on_vfs_def kbind_def upd_thread_def freed_def
          intro!: exI [of _ "(fdt (threads s c))(i := 0)"])
  qed
qed

lemma frees_thread: "frees c (free_thread c)"
  unfolding free_thread_def free_vmas_def
  by (intro frees_bind frees_get frees_if frees_for frees_free frees_pgd frees_ret frees_close) auto

lemma linked_update: "p \<notin> set us \<Longrightarrow> linked (ts(p := x)) us stop = linked ts us stop"
  by (rule linked_cong) auto

lemma ring_remove:
  assumes "ring ts (ds @ c # rest)" "ds \<noteq> []"
  shows "ring (ts(last ds := (ts (last ds))\<lparr>th_next := th_next (ts c)\<rparr>)) (ds @ rest)" (is "ring ?ts _")
proof -
  obtain es p where ds: "ds = es @ [p]" using assms(2) by (cases ds rule: rev_cases) auto
  let ?h = "hd ds"
  from assms(1) have d: "distinct (es @ p # c # rest)" "0 \<notin> set (es @ p # c # rest)" and "linked ts (es @ p # c # rest) ?h"
    by (cases es; simp add: ring_def ds)+
  then have l: "linked ts es p" "linked ts (p # c # rest) ?h" unfolding linked_append by simp_all
  have "linked ?ts es p" using l(1) d(1) by (simp add: linked_update ds)
  moreover have "linked ?ts rest ?h = linked ts rest ?h" using d(1) by (simp add: linked_update ds)
  then have "linked ?ts (p # rest) ?h" using l(2) by (cases rest) (auto simp: ds)
  ultimately have "linked ?ts (es @ p # rest) ?h" unfolding linked_append by simp
  with d show ?thesis by (cases es) (simp_all add: ring_def ds)
qed

text \<open>Threads keep everything but their links and, when removed, their files.\<close>

definition links_only :: "sys \<Rightarrow> sys \<Rightarrow> bool" where
  "links_only s s' \<longleftrightarrow> (\<forall>t. (threads s' t)\<lparr>th_next := 0, fdt := \<lambda>_. 0\<rparr> = (threads s t)\<lparr>th_next := 0, fdt := \<lambda>_. 0\<rparr>) \<and>
     (\<forall>t. \<not> zombie (threads s t) \<longrightarrow> fdt (threads s' t) = fdt (threads s t)) \<and> tp s' = tp s \<and> nr_threads s' = nr_threads s"

lemma links_only_status: "links_only s s' \<Longrightarrow> th_status (threads s' t) = th_status (threads s t)"
  unfolding links_only_def by (metis (no_types, lifting) thread.ext_inject thread.surjective thread.update_convs(10) thread.update_convs(26))

lemma links_only_trans: "links_only s s' \<Longrightarrow> links_only s' s'' \<Longrightarrow> links_only s s''"
  using links_only_status [of s s'] by (simp add: links_only_def zombie_def)

text \<open>Removing one zombie that is not the head.\<close>

lemma kill_one:
  assumes r: "ring (threads s) (ds @ c # rest)" "ds \<noteq> []" "run_queue s = hd ds" and z: "zombie (threads s c)"
    and h: "heap_inv (sy_heap s)" "\<forall>t \<in> set (c # rest). zombie (threads s t) \<longrightarrow> fds_ok t s"
  shows "\<exists>s'. remove_zombie (last ds) c s = Some (Inr (th_next (threads s c), s')) \<and>
    ring (threads s') (ds @ rest) \<and> run_queue s' = run_queue s \<and> links_only s s' \<and> heap_inv (sy_heap s') \<and>
    (\<forall>t \<in> set rest. zombie (threads s t) \<longrightarrow> fds_ok t s')"
proof -
  have d: "c \<notin> set ds" "last ds \<noteq> c" "c \<notin> set rest" "last ds \<notin> set rest" "hd ds \<noteq> c"
    using r(1,2) by (auto simp: ring_def) (metis last_in_set disjoint_iff)
  have "linked (threads s) (c # rest) (hd ds)" using r(1,2) linked_append [of "threads s" ds c rest] by (simp add: ring_def)
  then have n: "th_next (threads s c) \<noteq> c" using d by (cases rest) auto
  let ?u = "s\<lparr>threads := (threads s)(last ds := (threads s (last ds))\<lparr>th_next := th_next (threads s c)\<rparr>)\<rparr>"
  have u: "unlink_thread (last ds) c s = ?u" using n r(3) d by (simp add: unlink_thread_def Let_def upd_thread_def)
  have fo: "fds_ok t ?u = fds_ok t s" for t by (simp add: fds_ok_def)
  have "heap_inv (sy_heap ?u) \<and> fds_ok c ?u" using h z fo by simp
  with frees_thread [of c] obtain s' where s': "free_thread c ?u = Some (Inr ((), s'))" "freed c ?u s'"
    unfolding frees_def by blast
  then have t: "threads s' t = threads ?u t" if "t \<noteq> c" for t using that by (auto simp: freed_def)
  obtain fds where fds: "threads s' c = (threads s c)\<lparr>fdt := fds\<rparr>" using s'(2) d(2) by (auto simp: freed_def)
  have "ring (threads ?u) (ds @ rest)" using ring_remove [OF r(1,2)] by simp
  moreover have "linked (threads s') (ds @ rest) h = linked (threads ?u) (ds @ rest) h" for h
    using d(1,3) by (intro linked_cong, subst t) auto
  ultimately have "ring (threads s') (ds @ rest)" by (simp add: ring_def)
  moreover have "links_only s s'"
    unfolding links_only_def
  proof (intro conjI allI impI)
    fix u
    show "(threads s' u)\<lparr>th_next := 0, fdt := \<lambda>_. 0\<rparr> = (threads s u)\<lparr>th_next := 0, fdt := \<lambda>_. 0\<rparr>"
      by (cases "u = c") (simp_all add: t fds)
    show "fdt (threads s' u) = fdt (threads s u)" if "\<not> zombie (threads s u)"
      using that z by (subst t) auto
  qed (use s'(2) in \<open>simp_all add: freed_def\<close>)
  moreover have "\<forall>t \<in> set rest. zombie (threads s t) \<longrightarrow> fds_ok t s'" using freed_fds_ok [OF s'(2)] h(2) by (auto simp: fo)
  moreover have "run_queue s' = run_queue s" "heap_inv (sy_heap s')" using s'(2) by (simp_all add: freed_def)
  ultimately show ?thesis using s'(1) d(2) by (simp add: remove_zombie_def kop_simps u kbind_Inr)
qed

lemma links_only_self: "links_only s s"
  by (simp add: links_only_def)

lemma kill_loop_correct:
  assumes "ring (threads s) (ds @ c # rest)" "ds \<noteq> []" "run_queue s = hd ds" "length rest < n" "heap_inv (sy_heap s)"
    "\<forall>t \<in> set (c # rest). zombie (threads s t) \<longrightarrow> fds_ok t s"
  shows "\<exists>s'. kill_loop n (last ds) c s = Some (Inr ((), s')) \<and> links_only s s' \<and> heap_inv (sy_heap s') \<and>
    run_queue s' = run_queue s \<and> ring (threads s') (ds @ filter (\<lambda>t. \<not> zombie (threads s t)) (c # rest))"
  using assms
proof (induction rest arbitrary: ds c n s)
  case Nil
  then obtain m where n: "n = Suc m" by (cases n) auto
  have l: "linked (threads s) (ds @ [c]) (hd ds)" using Nil.prems(1,2) by (simp add: ring_def)
  then have nx: "th_next (threads s c) = run_queue s" using linked_append [of _ ds c "[]"] Nil.prems(3) by simp
  have q: "run_queue s \<noteq> 0" using Nil.prems(1-3) by (cases ds) (auto simp: ring_def)
  show ?case
  proof (cases "zombie (threads s c)")
    case True
    from kill_one [OF Nil.prems(1-3) True Nil.prems(5,6)] show ?thesis
      using True nx q by (auto simp: n kop_simps kbind_Inr)
  next
    case False
    then show ?thesis using nx q Nil.prems by (simp add: n kop_simps Let_def links_only_self)
  qed
next
  case (Cons d rest)
  then obtain m where n: "n = Suc m" by (cases n) auto
  have l: "linked (threads s) (ds @ c # d # rest) (hd ds)" using Cons.prems(1,2) by (simp add: ring_def)
  then have nx: "th_next (threads s c) = d" using linked_append [of _ ds c "d # rest"] by simp
  have q: "run_queue s \<noteq> 0" "d \<noteq> run_queue s" using Cons.prems(1-3) by (cases ds; auto simp: ring_def)+
  show ?case
  proof (cases "zombie (threads s c)")
    case True
    from kill_one [OF Cons.prems(1-3) True Cons.prems(5,6)] nx obtain s1 where
      s1: "remove_zombie (last ds) c s = Some (Inr (d, s1))" "ring (threads s1) (ds @ d # rest)" "run_queue s1 = run_queue s"
      "links_only s s1" "heap_inv (sy_heap s1)" "\<forall>t \<in> set (d # rest). zombie (threads s t) \<longrightarrow> fds_ok t s1" by auto
    have z: "zombie (threads s1 t) = zombie (threads s t)" for t using links_only_status [OF s1(4)] by (simp add: zombie_def)
    have "length rest < m" using Cons.prems(4) n by simp
    from Cons.IH [OF s1(2) Cons.prems(2) _ this s1(5)] s1(3,6) Cons.prems(3) z obtain s' where
      "kill_loop m (last ds) d s1 = Some (Inr ((), s'))" "links_only s1 s'" "heap_inv (sy_heap s')" "run_queue s' = run_queue s1"
      "ring (threads s') (ds @ filter (\<lambda>t. \<not> zombie (threads s t)) (d # rest))" by auto
    then show ?thesis using s1 True q links_only_trans [OF s1(4)] by (auto simp: n kop_simps kbind_Inr)
  next
    case False
    have "ring (threads s) ((ds @ [c]) @ d # rest)" "run_queue s = hd (ds @ [c])" "length rest < m"
      using Cons.prems n by simp_all
    from Cons.IH [OF this(1) _ this(2,3) Cons.prems(5)] Cons.prems(6) obtain s' where
      "kill_loop m c d s = Some (Inr ((), s'))" "links_only s s'" "heap_inv (sy_heap s')" "run_queue s' = run_queue s"
      "ring (threads s') ((ds @ [c]) @ filter (\<lambda>t. \<not> zombie (threads s t)) (d # rest))" by auto
    then show ?thesis using False nx q by (auto simp: n kop_simps Let_def)
  qed
qed

lemma find_tail_linked:
  "linked ts us h \<Longrightarrow> us \<noteq> [] \<Longrightarrow> h \<notin> set (tl us) \<Longrightarrow> find_tail ts h (hd us) = Some (last us)"
proof (induction us)
  case (Cons u us)
  then show ?case by (cases us) (auto simp: find_tail.simps [of ts h u])
qed simp

text \<open>A zombie at the head is removed, and the walk ends there.\<close>

lemma kill_head:
  assumes r: "ring (threads s) (c # rest)" "run_queue s = c" and z: "zombie (threads s c)"
    and h: "heap_inv (sy_heap s)" "fds_ok c s"
  shows "\<exists>s'. kill_loop (Suc n) (last (c # rest)) c s = Some (Inr ((), s')) \<and> queue_ok rest s' \<and> links_only s s' \<and> heap_inv (sy_heap s')"
proof -
  let ?nx = "th_next (threads s c)" and ?p = "last (c # rest)"
  define u where "u = unlink_thread ?p c s"
  have d: "c \<noteq> 0" "c \<notin> set rest" "0 \<notin> set rest" and nx: "?nx = hd (rest @ [c])"
    using r(1) by (cases rest; auto simp: ring_def)+
  have u: "u = (if rest = [] then s\<lparr>run_queue := 0\<rparr>
      else s\<lparr>threads := (threads s)(last rest := (threads s (last rest))\<lparr>th_next := ?nx\<rparr>), run_queue := ?nx\<rparr>)"
    using nx d r(2) by (cases rest) (auto simp: u_def unlink_thread_def Let_def upd_thread_def)
  have ru: "queue_ok rest u"
    using ring_rotate [of "threads s" "[c]" rest] ring_remove [of "threads s" rest c "[]"] r(1) nx
    by (cases rest) (auto simp: queue_ok_def u)
  have c: "threads u c = threads s c" using d by (cases rest) (auto simp: u dest: last_in_set)
  have "heap_inv (sy_heap u) \<and> fds_ok c u" using h c by (auto simp: fds_ok_def u)
  with frees_thread [of c] obtain s' where s': "free_thread c u = Some (Inr ((), s'))" "freed c u s'" unfolding frees_def by blast
  then have t: "threads s' t = threads u t" if "t \<noteq> c" for t using that by (auto simp: freed_def)
  obtain fds where fds: "threads s' c = (threads s c)\<lparr>fdt := fds\<rparr>" using s'(2) c by (auto simp: freed_def)
  have k: "run_queue s' = run_queue u" "tp s' = tp u" "nr_threads s' = nr_threads u" "heap_inv (sy_heap s')" using s'(2) by (simp_all add: freed_def)
  have "linked (threads s') rest x = linked (threads u) rest x" for x using d(2) by (intro linked_cong, subst t) auto
  with ru k(1) have "queue_ok rest s'" by (auto simp: queue_ok_def ring_def split: if_splits)
  moreover have "links_only s s'"
    unfolding links_only_def
  proof (intro conjI allI impI)
    fix v
    show "(threads s' v)\<lparr>th_next := 0, fdt := \<lambda>_. 0\<rparr> = (threads s v)\<lparr>th_next := 0, fdt := \<lambda>_. 0\<rparr>"
      by (cases "v = c") (simp_all add: t fds, simp add: u)
    show "fdt (threads s' v) = fdt (threads s v)" if "\<not> zombie (threads s v)"
      using that z by (subst t) (auto simp: u)
  qed (use k in \<open>simp_all add: u\<close>)
  moreover have "kill_loop (Suc n) ?p c s = Some (Inr ((), s'))"
  proof -
    have "remove_zombie ?p c s = Some (Inr (?nx, s'))"
      using s'(1) c by (simp add: remove_zombie_def kop_simps kbind_Inr u_def [symmetric] del: last.simps)
    moreover have "run_queue s' = 0 \<or> run_queue s' = ?nx" using k(1) by (simp add: u)
    ultimately show ?thesis using z r(2) d(1) by (auto simp: kop_simps kbind_Inr simp del: last.simps)
  qed
  ultimately show ?thesis using k(4) by blast
qed

text \<open>C35. \<open>kill_zombies\<close> ends with the heap consistent. If the head of the run queue is a zombie exactly that
  thread is removed, otherwise exactly the zombies are removed from the ring; the remaining threads
  keep their order, and nothing about them changes but the links.\<close>

theorem kill_zombies_correct:
  assumes "queue_ok us s" "heap_inv (sy_heap s)" "int (length us) \<le> nr_threads s"
    "\<forall>t \<in> set us. zombie (threads s t) \<longrightarrow> fds_ok t s"
  shows "\<exists>s'. kill_zombies s = Some (Inr ((), s')) \<and> links_only s s' \<and> heap_inv (sy_heap s') \<and>
    queue_ok (if us \<noteq> [] \<and> zombie (threads s (hd us)) then tl us else filter (\<lambda>t. \<not> zombie (threads s t)) us) s'"
proof (cases us)
  case Nil
  with assms show ?thesis by (simp add: kill_zombies_def queue_ok_def kret_def links_only_self)
next
  case (Cons c rest)
  with assms(1) have r: "ring (threads s) (c # rest)" "run_queue s = c" "c \<noteq> 0" by (auto simp: queue_ok_def ring_def)
  have tail: "find_tail (threads s) c c = Some (last (c # rest))"
    using find_tail_linked [of "threads s" "c # rest" c] r(1) by (auto simp: ring_def)
  obtain n where n: "nat (nr_threads s) = Suc n" "length rest \<le> n" using assms(3) Cons by (cases "nat (nr_threads s)") auto
  have ev: "kill_zombies s = kill_loop (Suc n) (last (c # rest)) c s" using r tail n by (simp add: kill_zombies_def)
  show ?thesis
  proof (cases "zombie (threads s c)")
    case True
    then have "fds_ok c s" using assms(4) Cons by simp
    from kill_head [OF r(1,2) True assms(2) this, of n] True show ?thesis
      unfolding ev by (auto simp: Cons simp del: kill_loop.simps last.simps)
  next
    case False
    show ?thesis
    proof (cases rest)
      case Nil
      then show ?thesis using r False Cons assms(1,2)
        by (auto simp: ev kop_simps Let_def ring_def links_only_self)
    next
      case (Cons d rest')
      have nx: "th_next (threads s c) = d" "d \<noteq> c" using r(1) by (auto simp: ring_def Cons)
      from kill_loop_correct [of s "[c]" d rest' n] r n(2) assms(2,4) \<open>us = c # rest\<close> obtain s' where
        "kill_loop n c d s = Some (Inr ((), s'))" "links_only s s'" "heap_inv (sy_heap s')" "run_queue s' = c"
        "ring (threads s') (c # filter (\<lambda>t. \<not> zombie (threads s t)) rest)" by (auto simp: Cons)
      then show ?thesis using r False nx \<open>us = c # rest\<close> by (auto simp: ev kop_simps Let_def queue_ok_def)
    qed
  qed
qed

theorem kill_zombies_correct_witness:
  "\<exists>s'. kill_zombies demo_sys = Some (Inr ((), s')) \<and> queue_ok [8, 16, 32] s'"
proof -
  have "queue_ok [8, 16, 24, 32] demo_sys" using demo_on_queue by (simp add: on_queue_def queue_ok_def)
  moreover have "heap_inv (sy_heap demo_sys)" "int (length [8, 16, 24, 32 :: u64]) \<le> nr_threads demo_sys"
    "\<forall>t \<in> set [8, 16, 24, 32]. zombie (threads demo_sys t) \<longrightarrow> fds_ok t demo_sys"
    using heap4_inv by (auto simp: demo_sys_def fds_ok_def demo_thread_def zero_thread_def)
  ultimately show ?thesis using kill_zombies_correct [of "[8, 16, 24, 32]" demo_sys]
    by (auto simp: demo_sys_def demo_thread_def zombie_def)
qed

end
