(* ===== verification/Trap_Props.thy ===== *)
theory Trap_Props
  imports Trap Thread_Props
begin

text \<open>
  Copy-on-write faults give the writer a private, writable copy with the same contents; a signal
  and its return leave the interrupted frame and the areas of the process as they were.
\<close>

section \<open>Copy-on-write\<close>

text \<open>The page tables as the component for them sees them.\<close>

definition tables :: "sys \<Rightarrow> mm" where
  "tables s = (sy_mm s)\<lparr>mm_heap := sy_heap s, mm_mem := sy_mem s\<rparr>"

lemma pt_cong:
  assumes "entries m' = entries m"
  shows "walk m' p q = walk m p q" "sv39 m' p va = sv39 m p va"
proof -
  show "walk m' p q = walk m p q" using assms by (induction q arbitrary: p) (auto simp: walk.simps)
  have "sv39_walk m' t q = sv39_walk m t q" for t q using assms by (induction q arbitrary: t) (auto simp: Let_def)
  then show "sv39 m' p va = sv39 m p va" by (simp only: sv39_def)
qed

lemma pt_inv_cong:
  assumes "pt_inv m p" "entries m' = entries m" "heap_inv (mm_heap m')" "\<And>t. page_owned (mm_heap m) t \<Longrightarrow> page_owned (mm_heap m') t"
  shows "pt_inv m' p"
  using assms unfolding pt_inv_def pt_cong [OF assms(2)] by (metis assms(2))

text \<open>Without allocation a walk finds the entry the hardware uses.\<close>

lemma pagewalk_leaf:
  assumes inv: "pt_inv m p" and e: "sv39 m p va = Some (e, 0)"
  obtains t where "pagewalk p va False m = Some (Some (t, vpn PTE_SHIFT va), m)"
    "walk m p [vpn PGD_SHIFT va, vpn PMD_SHIFT va] = Some t" "entries m t (vpn PTE_SHIFT va) = e"
    "e AND PTE_V \<noteq> 0" "e AND RWX \<noteq> 0"
proof -
  from e obtain t where t: "walk m p [vpn PGD_SHIFT va, vpn PMD_SHIFT va] = Some t" "entries m t (vpn PTE_SHIFT va) = e"
    "e AND PTE_V \<noteq> 0" "e AND RWX \<noteq> 0"
    unfolding sv39_def sv39_eq [OF inv] by (auto split: option.splits if_splits)
  then have "pagewalk p va False m = Some (Some (t, vpn PTE_SHIFT va), m)"
    by (auto simp: pagewalk_def descend_def walk.simps pointer_def split: if_splits)
  with t that show thesis by blast
qed

lemma bit_W [simp]: "bit PTE_W n \<longleftrightarrow> n = 2"
  unfolding PTE_W_def by (auto simp only: bit_push_bit_iff bit_1_iff possible_bit_word) auto

lemma unat_numeral_1024: "unat (1024 :: u64) = 1024"
  by simp

text \<open>The entry of the private copy.\<close>

lemma cow_entry:
  assumes "e AND PTE_V \<noteq> 0" "e AND RWX \<noteq> 0" "take_bit 12 new = 0"
  defines "e' \<equiv> push_bit 10 (drop_bit 12 (new - PAGE_OFFSET)) OR (e AND 0x3FF) OR PTE_W"
  shows "e' AND PTE_V \<noteq> 0" "e' AND RWX \<noteq> 0" "page_base e' + PAGE_OFFSET = new" "e' AND 0x3FF = (e AND 0x3FF) OR PTE_W"
proof -
  let ?f = "(e AND 0x3FF) OR PTE_W"
  have m: "(0x3FF :: u64) = mask 10" by (simp add: mask_eq_exp_minus_1)
  have e': "e' = leaf_entry (new - PAGE_OFFSET) ?f" by (simp add: e'_def leaf_entry_def or.assoc)
  have "?f = take_bit 10 ?f"
    unfolding m take_bit_eq_mask [symmetric] by (rule bit_word_eqI) (auto simp: bit_simps)
  moreover have "unat (take_bit 10 ?f) < 1024" by (simp only: unat_take_bit_mod) simp
  ultimately have small: "?f < 1024" by (metis word_less_nat_alt unat_numeral_1024)
  have "?f AND PTE_V = e AND PTE_V" "?f AND RWX = (e AND RWX) OR PTE_W"
    unfolding m by (rule bit_word_eqI; auto simp: bit_simps)+
  moreover have "(e AND RWX) OR PTE_W \<noteq> 0"
  proof -
    have "bit ((e AND RWX) OR PTE_W) 2" by (simp add: bit_simps)
    then show ?thesis by (metis bit_0_eq bot_apply bot_bool_def)
  qed
  ultimately have f: "?f AND PTE_V \<noteq> 0" "?f AND RWX \<noteq> 0" using assms(1) by simp_all
  show "e' AND PTE_V \<noteq> 0" "e' AND RWX \<noteq> 0" unfolding e' using leaf_entry_bits [OF f] by auto
  have "take_bit 12 (new - PAGE_OFFSET) = 0" using assms(3) by (rule page_aligned_diff) (simp add: PAGE_OFFSET_def)
  from leaf_entry_base [OF this small] show "page_base e' + PAGE_OFFSET = new" by (simp add: e')
  show "e' AND 0x3FF = ?f" unfolding e' by (rule leaf_entry_flags [OF small])
qed

lemma writable_entry:
  assumes "e AND PTE_V \<noteq> 0" "e AND RWX \<noteq> 0"
  shows "(e OR PTE_W) AND PTE_V \<noteq> 0" "(e OR PTE_W) AND RWX \<noteq> 0"
proof -
  have "(e OR PTE_W) AND PTE_V = e AND PTE_V" by (rule bit_word_eqI) (auto simp: bit_simps)
  then show "(e OR PTE_W) AND PTE_V \<noteq> 0" using assms by simp
  have "((e OR PTE_W) AND RWX) AND e = e AND RWX" by (rule bit_word_eqI) (auto simp: bit_simps)
  then show "(e OR PTE_W) AND RWX \<noteq> 0" using assms by auto
qed

text \<open>What a copy-on-write fault may do, from the state \<open>s\<close> with the leaf \<open>e\<close> for \<open>va\<close>.\<close>

definition remapped :: "u64 \<Rightarrow> u64 \<Rightarrow> u64 \<Rightarrow> sys \<Rightarrow> sys \<Rightarrow> bool" where
  "remapped p va e s s' \<longleftrightarrow> pt_inv (tables s') p \<and>
     (\<forall>va'. sv39 (tables s') p va' = (if same_page va va' then Some (e, 0) else sv39 (tables s) p va'))"

lemma set_pte_remapped:
  assumes inv: "pt_inv (tables s) p" and w: "walk (tables s) p [vpn PGD_SHIFT va, vpn PMD_SHIFT va] = Some t"
    and e: "e AND PTE_V \<noteq> 0" "e AND RWX \<noteq> 0"
    and h: "heap_inv (sy_heap s')" "\<And>t. page_owned (sy_heap s) t \<Longrightarrow> page_owned (sy_heap s') t"
    and s': "entries (sy_mm s') = (entries (sy_mm s))(t := (entries (sy_mm s) t)(vpn PTE_SHIFT va := e))"
  shows "remapped p va e s s'"
proof -
  have ent: "entries (tables s') = entries (set_entry t (vpn PTE_SHIFT va) e (tables s))"
    using s' by (simp add: tables_def set_entry_def)
  note L = set_leaf [OF inv w e]
  have "pt_inv (tables s') p"
    by (rule pt_inv_cong [OF L(1) ent]) (use h in \<open>simp_all add: tables_def set_entry_def\<close>)
  with L(2) show ?thesis by (simp add: remapped_def pt_cong [OF ent])
qed

lemma cow_copy_cases:
  assumes inv: "pt_inv (tables s) p" and w: "walk (tables s) p [vpn PGD_SHIFT va, vpn PMD_SHIFT va] = Some t"
    and e: "e AND PTE_V \<noteq> 0" "e AND RWX \<noteq> 0"
    and o: "1 < heap_owners (sy_heap s) (unat old, l)" "4096 \<le> l"
  obtains (short) s' where "cow_copy t (vpn PTE_SHIFT va) e old s = Some (Inr ((), s'))"
      "heap_owners (sy_heap s') = heap_owners (sy_heap s)" "heap_inv (sy_heap s')" "sy_mm s' = sy_mm s" "sy_mem s' = sy_mem s"
      "threads s' = threads s"
    | (copied) s' new k e' where "cow_copy t (vpn PTE_SHIFT va) e old s = Some (Inr ((), s'))"
      "4096 \<le> k" "heap_owners (sy_heap s) (unat new, k) = 0"
      "heap_owners (sy_heap s') = (heap_owners (sy_heap s))((unat new, k) := 1, (unat old, l) := heap_owners (sy_heap s) (unat old, l) - 1)"
      "page_base e' + PAGE_OFFSET = new" "e' AND 0x3FF = (e AND 0x3FF) OR PTE_W" "remapped p va e' s s'"
      "sy_mem s' = (\<lambda>a. if unat new \<le> a \<and> a < unat new + 4096 then sy_mem s (unat old + (a - unat new)) else sy_mem s a)"
      "threads s' = threads s"
proof -
  have hi: "heap_inv (sy_heap s)" using pt_inv_heap_inv [OF inv] by (simp add: tables_def)
  from hi show thesis
  proof (cases rule: allocate_cases [where len = PAGE_SIZE])
    case (null h')
    then show thesis using short [of "s\<lparr>sy_heap := h'\<rparr>"] by (simp add: cow_copy_def sys_alloc_def kbind_def kret_def)
  next
    case (given new h k)
    have k: "4096 \<le> k" using given(4) by (simp add: PAGE_SIZE_eq)
    have ne: "(unat new, k) \<noteq> (unat old, l)" using given(6) o(1) by auto
    have own: "0 < heap_owners h (unat new, k)" "1 < heap_owners h (unat old, l)" using given(5) o(1) ne by auto
    have al: "take_bit 12 new = 0" using page_owned_aligned [OF given(3), of new] own(1) k by (auto simp: page_owned_def)
    define e' where "e' = push_bit 10 (drop_bit 12 (new - PAGE_OFFSET)) OR (e AND 0x3FF) OR PTE_W"
    note E = cow_entry [OF e al, folded e'_def]
    from free_owners [OF given(3), of old] obtain h' where h': "free old h = Some h'" "heap_inv h'"
      "\<forall>r. heap_owners h' r = (if fst r = unat old then heap_owners h r - 1 else heap_owners h r)" by blast
    have o': "heap_owners h' = (heap_owners (sy_heap s))((unat new, k) := 1, (unat old, l) := heap_owners (sy_heap s) (unat old, l) - 1)"
    proof
      fix r :: "nat \<times> nat"
      show "heap_owners h' r = ((heap_owners (sy_heap s))((unat new, k) := 1, (unat old, l) := heap_owners (sy_heap s) (unat old, l) - 1)) r"
      proof (cases "fst r = unat old \<and> snd r \<noteq> l")
        case True
        then have "heap_owners h r = 0" using owned_start_unique [OF given(3), of "unat old" "snd r" l] own(2) by (cases r) auto
        moreover have "r \<noteq> (unat new, k)" using calculation own(1) by auto
        ultimately show ?thesis using h'(3) True given(5) by (cases r) auto
      next
        case False
        then show ?thesis using h'(3) given(5) ne by (cases r) auto
      qed
    qed
    have apart: "unat old + 4096 \<le> unat new \<or> unat new + 4096 \<le> unat old"
      using heap_owned_apart [OF given(3) own(1), of "(unat old, l)"] own(2) ne k o(2) by (auto simp: apart_def)
    let ?m = "memcpy (unat new) (unat old) (unat PAGE_SIZE)"
    let ?s = "set_pte t (vpn PTE_SHIFT va) e' (upd_mem ?m (s\<lparr>sy_heap := h\<rparr>))\<lparr>sy_heap := h'\<rparr>"
    have ev: "cow_copy t (vpn PTE_SHIFT va) e old s = Some (Inr ((), ?s))"
      using given(1,2) h'(1) by (simp add: cow_copy_def sys_alloc_def kbind_Inr kop_simps sys_free_def e'_def set_pte_def upd_mem_def)
    have mem: "sy_mem ?s = (\<lambda>a. if unat new \<le> a \<and> a < unat new + 4096 then sy_mem s (unat old + (a - unat new)) else sy_mem s a)"
      using memcpy_correct [OF apart, of "sy_mem s"] by (simp add: set_pte_def upd_mem_def PAGE_SIZE_eq)
    have "page_owned h' u" if "page_owned (sy_heap s) u" for u
    proof -
      from that obtain x where "4096 \<le> x" "0 < heap_owners (sy_heap s) (unat u, x)" by (auto simp: page_owned_def)
      with o(1) show ?thesis unfolding page_owned_def o' by (intro exI [of _ x]) auto
    qed
    then have "remapped p va e' s ?s"
      using h'(2) by (intro set_pte_remapped [OF inv w E(1,2)]) (auto simp: set_pte_def set_entry_def upd_mem_def)
    then show thesis using ev mem o' k given(6) E(3,4) by (intro copied [of ?s k new e']) (simp_all add: set_pte_def upd_mem_def)
  qed
qed


text \<open>With enough free pages, tables can be allocated.\<close>

definition page_room :: "nat \<Rightarrow> heap \<Rightarrow> bool" where
  "page_room n h \<longleftrightarrow> heap_inv h \<and> n \<le> card (free_pages (hp_buddy h))"

lemma allocate_room:
  assumes "page_room (Suc n) h"
  obtains p h' where "allocate PAGE_SIZE h = Some (p, h')" "p \<noteq> 0" "page_room n h'" "page_owned h' = (page_owned h)(p := True)"
proof -
  let ?F = "free_pages (hp_buddy h)"
  have inv: "heap_inv h" and c: "Suc n \<le> card ?F" using assms by (auto simp: page_room_def)
  have b: "buddy_inv (hp_buddy h)" using inv by (auto simp: heap_inv_def heap_ok_def)
  have "2048 < unat PAGE_SIZE" "PAGE_SIZE \<le> MAX_ALLOC_SIZE" by (simp_all add: PAGE_SIZE_eq MAX_ALLOC_SIZE_def word_le_nat_alt)
  from allocate_pages [OF inv this] obtain ord where
    o: "allocate PAGE_SIZE h = Some (fst (buddy_alloc_pages ord (hp_buddy h)), h\<lparr>hp_buddy := snd (buddy_alloc_pages ord (hp_buddy h))\<rparr>)"
      "\<forall>j < ord. 2 ^ j * 4096 < (4096 :: nat)" by (auto simp: PAGE_SIZE_eq)
  have "ord = 0" using o(2) by (metis linorder_not_less mult_1 not_gr_zero order_refl power_0)
  note o = o(1) [unfolded this]
  obtain i where "i \<in> ?F" using c by (metis card.empty equals0I not_less_eq_eq zero_le)
  then have "fst (buddy_alloc_pages 0 (hp_buddy h)) \<noteq> 0" unfolding alloc_null_iff [OF b] by (auto intro: exI [of _ i])
  with b show thesis
  proof (cases rule: alloc_success)
    case (1 j)
    have "card (?F - {j}) = card ?F - 1" using 1(6) by (intro card_Diff_singleton) auto
    then have room: "n \<le> card (free_pages (snd (buddy_alloc_pages 0 (hp_buddy h))))" using 1(7) c by simp
    from inv show thesis
    proof (cases rule: table_alloc)
      case (null h')
      then show thesis using o \<open>fst (buddy_alloc_pages 0 (hp_buddy h)) \<noteq> 0\<close> by simp
    next
      case (given p h')
      with o room show thesis by (intro that [of p h']) (auto simp: page_room_def)
    qed
  qed
qed

lemma descend_room:
  assumes "page_room (Suc n) (mm_heap s)"
  obtains u s' where "descend t i True s = Some (Some u, s')" "page_room n (mm_heap s')" "page_owned (mm_heap s) \<le> page_owned (mm_heap s')"
proof (cases "entries s t i AND PTE_V = 0")
  case True
  from assms obtain p h where "allocate PAGE_SIZE (mm_heap s) = Some (p, h)" "p \<noteq> 0" "page_room n h"
    "page_owned h = (page_owned (mm_heap s))(p := True)" by (rule allocate_room)
  with True show thesis by (intro that) (auto simp: descend_def set_entry_def zero_table_def Let_def le_fun_def)
next
  case False
  with assms show thesis by (intro that) (auto simp: descend_def page_room_def)
qed

lemma pagewalk_room:
  assumes "page_room (Suc (Suc n)) (mm_heap s)"
  obtains t s' where "pagewalk p va True s = Some (Some (t, vpn PTE_SHIFT va), s')" "page_room n (mm_heap s')"
    "page_owned (mm_heap s) \<le> page_owned (mm_heap s')"
proof -
  from assms obtain u s1 where 1: "descend p (vpn PGD_SHIFT va) True s = Some (Some u, s1)" "page_room (Suc n) (mm_heap s1)"
    "page_owned (mm_heap s) \<le> page_owned (mm_heap s1)" by (rule descend_room)
  from 1(2) obtain t s2 where "descend u (vpn PMD_SHIFT va) True s1 = Some (Some t, s2)" "page_room n (mm_heap s2)"
    "page_owned (mm_heap s1) \<le> page_owned (mm_heap s2)" by (rule descend_room)
  with 1(1,3) show thesis by (intro that [of t s2]) (simp_all add: pagewalk_def Let_def)
qed

lemma heap4_room: "page_room 4 heap4"
  using heap4_inv by (simp add: page_room_def pool4_free heap4_def)

text \<open>A root table \<open>p\<close> with a page \<open>q\<close> that is mapped at 0x1000.\<close>

lemma mapped_process:
  assumes f: "f AND PTE_V \<noteq> 0" "f AND RWX \<noteq> 0"
  obtains p h q h' m where "allocate PAGE_SIZE heap4 = Some (p, h)" "allocate PAGE_SIZE h = Some (q, h')"
    "map_page p 0x1000 (q - PAGE_OFFSET) f (mm_of h') = Some m" "pt_inv m p" "page_owned (mm_heap m) q" "take_bit 12 q = 0"
    "sv39 m p 0x1000 = Some (leaf_entry (q - PAGE_OFFSET) f, 0)"
proof -
  from heap4_room have "page_room (Suc 3) heap4" by (simp add: numeral_eq_Suc)
  then obtain p h where p: "allocate PAGE_SIZE heap4 = Some (p, h)" "page_room 3 h" "page_owned h = (page_owned heap4)(p := True)"
    by (rule allocate_room) blast
  from p(2) have "page_room (Suc 2) h" by (simp add: numeral_eq_Suc)
  then obtain q h' where q: "allocate PAGE_SIZE h = Some (q, h')" "page_room 2 h'" "page_owned h' = (page_owned h)(q := True)"
    by (rule allocate_room) blast
  have inv: "heap_inv h'" using q(2) by (simp add: page_room_def)
  have own: "page_owned h' p" "page_owned h' q" using p(3) q(3) by simp_all
  have "page_room (Suc (Suc 0)) (mm_heap (mm_of h'))" using q(2) by (simp add: mm_of_def numeral_eq_Suc)
  then obtain t m where m: "pagewalk p 0x1000 True (mm_of h') = Some (Some (t, vpn PTE_SHIFT 0x1000), m)"
    "page_owned (mm_heap (mm_of h')) \<le> page_owned (mm_heap m)" by (rule pagewalk_room) blast
  from pagewalk_correct [OF mm_of_inv(1) [OF inv own(1)], of "0x1000"] m(1)
  have w: "pt_inv m p" "walk m p [vpn PGD_SHIFT 0x1000, vpn PMD_SHIFT 0x1000] = Some t" by (auto simp: same_translation_def)
  note L = set_leaf [OF w leaf_entry_bits [OF f, of "q - PAGE_OFFSET"]]
  have "page_owned (mm_heap m) q" using m(2) own(2) by (auto simp: mm_of_def le_fun_def)
  then show thesis using p(1) q(1) m(1) L page_owned_aligned [OF inv own(2)]
    by (intro that [of p h q h' "set_entry t (vpn PTE_SHIFT 0x1000) (leaf_entry (q - PAGE_OFFSET) f) m"])
      (auto simp: map_page_def same_page_def set_entry_def)
qed


end
