(* ===== verification/Signal_Props.thy ===== *)
theory Signal_Props
  imports Trap_Props
begin

text \<open>
  Signals: the delivery of a signal redirects the interrupted frame to the handler, with a stack of
  its own, and \<open>sys_sigreturn\<close> gives the process back the frame and the areas it had before.
\<close>

section \<open>Frames\<close>

lemma load_regs_cong:
  assumes "frame_fits regs" "\<And>a. unat regs \<le> a \<Longrightarrow> a < unat regs + 280 \<Longrightarrow> m a = m' a"
  shows "load_regs regs m = load_regs regs m'"
proof
  fix r
  show "load_regs regs m r = load_regs regs m' r"
    unfolding load_regs_def using reg_index_less [of r] by (intro load64_cong) (auto simp: unat_reg_addr [OF assms(1)] intro!: assms(2))
qed

lemma put_reg_mem [simp]: "sy_mem (put_reg regs r v s) = store64 (reg_addr regs r) v (sy_mem s)"
  "sy_heap (put_reg regs r v s) = sy_heap s" "sy_mm (put_reg regs r v s) = sy_mm s" "threads (put_reg regs r v s) = threads s"
  "tp (put_reg regs r v s) = tp s"
  by (simp_all add: put_reg_def upd_mem_def)

lemma load_put_regs:
  assumes "frame_fits regs"
  shows "load_regs regs (sy_mem (put_regs regs f s)) = f" "threads (put_regs regs f s) = threads s" "sy_heap (put_regs regs f s) = sy_heap s"
proof -
  have *: "load_regs regs (sy_mem (fold (\<lambda>r. put_reg regs r (f r)) rs s)) =
      (\<lambda>r. if r \<in> set rs then f r else load_regs regs (sy_mem s) r)" for rs s
    by (induction rs arbitrary: s) (auto simp: fun_eq_iff load_regs_store [OF assms])
  have "set all_regs = UNIV" unfolding all_regs_def using reg.exhaust by auto
  then show "load_regs regs (sy_mem (put_regs regs f s)) = f" unfolding put_regs_def * by simp
  have "threads (fold (\<lambda>r. put_reg regs r (f r)) rs s) = threads s \<and> sy_heap (fold (\<lambda>r. put_reg regs r (f r)) rs s) = sy_heap s" for rs
    by (induction rs arbitrary: s) auto
  then show "threads (put_regs regs f s) = threads s" "sy_heap (put_regs regs f s) = sy_heap s" by (simp_all add: put_regs_def)
qed

section \<open>Operations that only allocate\<close>

definition grows :: "heap \<Rightarrow> heap \<Rightarrow> bool" where
  "grows h h' \<longleftrightarrow> heap_inv h' \<and> (\<forall>r. 0 < heap_owners h r \<longrightarrow> heap_owners h' r = heap_owners h r)"

lemma grows_trans: "grows h h' \<Longrightarrow> grows h' h'' \<Longrightarrow> grows h h''"
  unfolding grows_def by metis

lemma grows_page_owned: "grows h h' \<Longrightarrow> page_owned h t \<Longrightarrow> page_owned h' t"
  unfolding grows_def page_owned_def by metis

lemma grows_vma_inv: "vma_inv (h, vs) \<Longrightarrow> grows h h' \<Longrightarrow> vma_inv (h', vs)"
  unfolding grows_def vma_inv_def by auto

lemma allocate_grows: "heap_inv h \<Longrightarrow> \<exists>p h'. allocate len h = Some (p, h') \<and> grows h h'"
  by (erule allocate_cases [where len = len]) (auto simp: grows_def)

lemma descend_grows:
  assumes "heap_inv (mm_heap m)"
  obtains u m' where "descend t i True m = Some (u, m')" "grows (mm_heap m) (mm_heap m')" "mm_mem m' = mm_mem m"
proof -
  from allocate_grows [OF assms, of PAGE_SIZE] obtain p h where "allocate PAGE_SIZE (mm_heap m) = Some (p, h)" "grows (mm_heap m) h" by blast
  then show thesis using that assms
    by (cases "entries m t i AND PTE_V = 0"; cases "p = 0") (auto simp: descend_def Let_def set_entry_def zero_table_def grows_def)
qed

lemma map_page_grows:
  assumes "heap_inv (mm_heap m)"
  obtains m' where "map_page p va pa f m = Some m'" "grows (mm_heap m) (mm_heap m')" "mm_mem m' = mm_mem m"
proof -
  from assms obtain u m1 where 1: "descend p (vpn PGD_SHIFT va) True m = Some (u, m1)" "grows (mm_heap m) (mm_heap m1)" "mm_mem m1 = mm_mem m"
    by (rule descend_grows)
  have "heap_inv (mm_heap m1)" using 1(2) by (simp add: grows_def)
  then obtain v m2 where "descend (the u) (vpn PMD_SHIFT va) True m1 = Some (v, m2)" "grows (mm_heap m1) (mm_heap m2)" "mm_mem m2 = mm_mem m1"
    by (rule descend_grows)
  then show thesis using 1 grows_trans [OF 1(2)] that
    by (cases u; cases v) (auto simp: map_page_def pagewalk_def Let_def set_entry_def)
qed

text \<open>A page mapped by \<open>map_pages_at\<close>.\<close>

lemma map_pages_at_one:
  fixes m :: "'a mm_scheme"
  assumes "va < va + 4096"
  shows "map_pages_at p va pa 4096 f m = map_page p va pa f m"
proof -
  have ps: "PAGE_SIZE = 4096" by (simp add: PAGE_SIZE_def PAGE_SHIFT_def)
  have "map_loop p (va + 4096) (va + 4096) (pa + 4096) f = (Some :: 'a mm_scheme \<Rightarrow> _)" by (simp add: map_loop.simps fun_eq_iff)
  then have "map_loop p (va + 4096) va pa f m = Option.bind (map_page p va pa f m) Some"
    unfolding map_loop.simps [of p "va + 4096" va] ps using assms by simp
  then show ?thesis by (simp add: map_pages_at_def)
qed

section \<open>The stack of a handler\<close>

lemma find_free_from_range:
  assumes "find_free_from vs len a = Some r"
  shows "r = a \<or> (\<exists>v \<in> set vs. r = vm_end v)"
  using assms
proof (induction "2 ^ 64 - unat a" arbitrary: a rule: less_induct)
  case less
  show ?case
  proof (cases "first_clash vs a len")
    case None
    with less.prems show ?thesis by (simp add: find_free_from.simps)
  next
    case (Some b)
    note C = first_clash_Some [OF Some]
    have "2 ^ 64 - unat b < 2 ^ 64 - unat a" using C(1) by (intro diff_less_mono2) (simp_all add: word_less_nat_alt)
    moreover have "find_free_from vs len b = Some r" using less.prems Some by (subst (asm) find_free_from.simps) simp
    ultimately show ?thesis using less.hyps [of b] C(2) by auto
  qed
qed

text \<open>A region for the stack above the areas of user space.\<close>

lemma find_free_page:
  assumes "\<forall>v \<in> set vs. vm_end v \<le> STACK_TOP"
  obtains va where "find_free_vma_region vs 4096 = Some va" "va < va + 4096" "\<forall>v \<in> set vs. \<not> meets v (unat va) (unat (va + 4096))"
proof -
  from find_free_from_ends [of vs 4096 "0x10000000"] obtain va where
    r: "find_free_from vs 4096 0x10000000 = Some va" "first_clash vs va 4096 = None" by blast
  have "va \<le> STACK_TOP" using find_free_from_range [OF r(1)] assms by (auto simp: STACK_TOP_def)
  then have "unat va \<le> 0x4000000000" by (simp add: STACK_TOP_def word_le_nat_alt)
  then have "unat (va + 4096) = unat va + 4096" by (simp add: unat_simps)
  then show thesis using r first_clash_None [of va 4096 vs] \<open>unat va \<le> 0x4000000000\<close>
    by (intro that [of va]) (auto simp: find_free_vma_region_def word_less_nat_alt)
qed

lemma insert_vma_filter:
  assumes "\<forall>w \<in> set vs. vm_start w < vm_end w \<and> \<not> meets w (unat (vm_start v)) (unat (vm_end v))" "vm_start v < vm_end v"
  shows "filter (\<lambda>w. vm_start w \<noteq> vm_start v) (insert_vma v vs) = vs"
proof -
  have "\<forall>w \<in> set vs. vm_start w \<noteq> vm_start v" using assms by (auto simp: meets_def word_less_nat_alt)
  moreover from this have "filter (\<lambda>w. vm_start w \<noteq> vm_start v) vs = vs" by (simp add: filter_id_conv)
  ultimately show ?thesis
    using filter_append [of "\<lambda>w. vm_start w \<noteq> vm_start v" "takeWhile (\<lambda>w. vm_start w < vm_start v) vs"
        "dropWhile (\<lambda>w. vm_start w < vm_start v) vs"]
    by (simp add: insert_vma_eq)
qed

text \<open>What \<open>signal_stack\<close> does with the process of thread \<open>t\<close>.\<close>

definition user_areas :: "u64 \<Rightarrow> sys \<Rightarrow> bool" where
  "user_areas t s \<longleftrightarrow> vma_inv (sy_heap s, vmas (threads s t)) \<and> (\<forall>v \<in> set (vmas (threads s t)). vm_end v \<le> STACK_TOP)"

lemma signal_stack_cases:
  assumes areas: "user_areas t s"
  obtains (fault) "signal_stack t s = Some (Inl Null_deref)"
    | (given) page va l v s' where "signal_stack t s = Some (Inr ((page, va), s'))" "page \<noteq> 0" "4096 \<le> l"
      "heap_owners (sy_heap s) (unat page, l) = 0" "0 < heap_owners (sy_heap s') (unat page, l)" "grows (sy_heap s) (sy_heap s')"
      "threads s' = (threads s)(t := (threads s t)\<lparr>signal_stack_page := page, signal_stack_vaddr := va, vmas := insert_vma v (vmas (threads s t))\<rparr>)"
      "vma_inv (sy_heap s', insert_vma v (vmas (threads s t)))"
      "filter (\<lambda>w. vm_start w \<noteq> va) (insert_vma v (vmas (threads s t))) = vmas (threads s t)"
      "sy_mem s' = memset (unat page) 0 4096 (sy_mem s)" "tp s' = tp s"
proof -
  let ?vs = "vmas (threads s t)"
  have vi: "vma_inv (sy_heap s, ?vs)" and hi: "heap_inv (sy_heap s)" and ok: "vmas_ok ?vs" using areas by (auto simp: user_areas_def vma_inv_def)
  from areas obtain va where va: "find_free_vma_region ?vs 4096 = Some va" "va < va + 4096"
    "\<forall>v \<in> set ?vs. \<not> meets v (unat va) (unat (va + 4096))" using find_free_page [of ?vs] by (auto simp: user_areas_def)
  from hi show thesis
  proof (cases rule: allocate_cases [where len = 4096])
    case (null h')
    then show thesis by (intro fault) (simp add: signal_stack_def sys_alloc_def kbind_Inr kop_simps)
  next
    case (given page h l)
    have g: "grows (sy_heap s) h" using given(3,5,6) by (auto simp: grows_def)
    from grows_vma_inv [OF vi g] va(2,3) show thesis
    proof (cases rule: add_vma_cases [where prot = "ucast (PROT_READ OR PROT_WRITE OR PROT_EXEC)" and flags = "ucast MAP_ANONYMOUS"])
      case fault': fault
      show thesis using given(1,2) fault'
        by (intro fault) (simp add: signal_stack_def sys_alloc_def kbind_Inr kop_simps kbind_def upd_thread_def upd_mem_def thread_add_vma_def on_heap_vmas_def va(1) kmod_def)
    next
      case (added q h' v)
      let ?th = "(threads s t)\<lparr>signal_stack_page := page, signal_stack_vaddr := va, vmas := insert_vma v ?vs\<rparr>"
      let ?s = "upd_mem (memset (unat page) 0 4096) (s\<lparr>sy_heap := h', threads := (threads s)(t := ?th)\<rparr>)"
      have g': "grows (sy_heap s) h'" using g added(3,4,9) by (auto simp: grows_def vma_inv_def)
      have "heap_inv (mm_heap (tables ?s))" using g' by (simp add: tables_def upd_mem_def grows_def)
      then obtain m where m: "map_page (pgd (threads s t)) va (page - PAGE_OFFSET) SIG_PROT (tables ?s) = Some m"
        "grows h' (mm_heap m)" "mm_mem m = memset (unat page) 0 4096 (sy_mem s)"
        by (rule map_page_grows) (simp add: tables_def upd_mem_def)
      let ?s' = "?s\<lparr>sy_mm := m, sy_heap := mm_heap m\<rparr>"
      have "signal_stack t s = Some (Inr ((page, va), ?s'))"
        using given(1,2) added(1) m(1,3)
        by (simp add: signal_stack_def sys_alloc_def kbind_Inr kop_simps upd_thread_def upd_mem_def thread_add_vma_def on_heap_vmas_def va(1) run_mm_def tables_def)
          (simp add: kbind_def on_mm_def upd_mem_def kret_def map_pages_at_one [OF va(2)])
      moreover have "filter (\<lambda>w. vm_start w \<noteq> va) (insert_vma v ?vs) = ?vs"
        using insert_vma_filter [of ?vs v] added(6,7) va(2,3) vmas_ok_less [OF ok] by auto
      moreover have "0 < heap_owners (mm_heap m) (unat page, l)" using given(5,6) g' m(2) added(4) by (auto simp: grows_def)
      moreover have "vma_inv (mm_heap m, insert_vma v ?vs)" using grows_vma_inv [OF added(9) m(2)] .
      ultimately show thesis using given(2,4,6) grows_trans [OF g' m(2)]
        by (intro that(2) [of page va ?s' l v]) (auto simp: upd_mem_def)
    qed
  qed
qed

section \<open>Return from a handler\<close>

lemma clear_pte_total: "\<exists>m'. clear_pte p va m = Some m' \<and> mm_heap m' = mm_heap m \<and> mm_mem m' = mm_mem m"
  by (auto simp: clear_pte_def pagewalk_def descend_def set_entry_def Let_def split: option.splits)

lemma free_page_vmas:
  assumes "vma_inv (h, vs)" "page_owned h p"
  obtains h' where "free p h = Some h'" "vma_inv (h', vs)"
proof -
  have hi: "heap_inv h" using assms(1) by (simp add: vma_inv_def)
  from free_owners [OF hi, of p] obtain h' where h': "free p h = Some h'" "heap_inv h'"
    "\<forall>r. heap_owners h' r = (if fst r = unat p then heap_owners h r - 1 else heap_owners h r)" by blast
  from assms(2) obtain l where l: "4096 \<le> l" "0 < heap_owners h (unat p, l)" by (auto simp: page_owned_def)
  have "unat (vm_addr v) \<noteq> unat p" if "v \<in> set vs" for v
    using owned_start_unique [OF hi l(2), of 64] l(1) assms(1) that by (auto simp: vma_inv_def)
  with assms(1) h' have "vma_inv (h', vs)" by (auto simp: vma_inv_def)
  with h'(1) that show thesis by blast
qed

lemma sys_sigreturn_effect:
  assumes page: "page_owned (sy_heap s) (signal_stack_page (threads s (tp s)))" "signal_stack_page (threads s (tp s)) \<noteq> 0"
    and vi: "vma_inv (sy_heap s, vmas (threads s (tp s)))" and f: "frame_fits regs"
  shows "\<exists>s'. sys_sigreturn regs s = Some (Inr ((), s')) \<and> load_regs regs (sy_mem s') = signal_saved_regs (threads s (tp s)) \<and>
    threads s' = (threads s)(tp s := (threads s (tp s))\<lparr>signal_stack_page := 0,
      vmas := filter (\<lambda>v. vm_start v \<noteq> signal_stack_vaddr (threads s (tp s))) (vmas (threads s (tp s))),
      signal_stack_vaddr := 0, is_handling_signal := False\<rparr>)"
proof -
  let ?t = "tp s"
  let ?th = "threads s ?t"
  let ?va = "signal_stack_vaddr ?th"
  let ?vs = "filter (\<lambda>v. vm_start v \<noteq> ?va) (vmas ?th)"
  from vi page(1) obtain h where h: "free (signal_stack_page ?th) (sy_heap s) = Some h" "vma_inv (h, vmas ?th)" by (rule free_page_vmas)
  from remove_vma_correct [OF h(2), of ?va] obtain h' where h': "remove_vma ?va (h, vmas ?th) = Some (h', ?vs)" by blast
  let ?s1 = "s\<lparr>sy_heap := h, threads := (threads s)(?t := ?th\<lparr>signal_stack_page := 0\<rparr>)\<rparr>"
  from clear_pte_total [of "pgd ?th" ?va "tables ?s1"] obtain m where
    m: "clear_pte (pgd ?th) ?va (tables ?s1) = Some m" "mm_heap m = h" "mm_mem m = sy_mem s" by (auto simp: tables_def)
  let ?s2 = "s\<lparr>sy_mm := m, sy_heap := h', threads := (threads s)(?t := ?th\<lparr>signal_stack_page := 0, vmas := ?vs, signal_stack_vaddr := 0\<rparr>)\<rparr>"
  have m': "clear_pte (pgd ?th) ?va (sy_mm s\<lparr>mm_heap := h, mm_mem := sy_mem s\<rparr>) = Some m" using m(1) by (simp add: tables_def)
  have "sys_sigreturn regs s = Some (Inr ((), upd_thread ?t (\<lambda>th. th\<lparr>is_handling_signal := False\<rparr>) (put_regs regs (signal_saved_regs ?th) ?s2)))"
    using page(2) h(1) h' m' m(2,3)
    by (simp add: sys_sigreturn_def kbind_def kmod_def kget_def sys_free_def run_mm_def on_mm_def upd_mem_def thread_remove_vma_def on_heap_vmas_def upd_thread_def)
  then show ?thesis using load_put_regs [OF f, of "signal_saved_regs ?th" ?s2] by (simp add: upd_thread_def)
qed

section \<open>Delivery and return\<close>

lemma memcpy_outside: "\<not> (d \<le> a \<and> a < d + n) \<Longrightarrow> memcpy d s n m a = m a"
  by (induction d s n m rule: memcpy.induct) auto

lemma page_fits:
  fixes page :: u64
  assumes "take_bit 12 page = 0"
  shows "unat page + 4096 \<le> 2 ^ 64"
proof -
  have "unat page mod 2 ^ 12 = 0" using assms by (metis unat_0 unat_take_bit_mod)
  then obtain q where "unat page = 4096 * q" by (auto simp: mod_eq_0_iff_dvd)
  moreover have "unat page < 2 ^ 64" using unsigned_less [of page] by simp
  ultimately show ?thesis by auto
qed

lemma stub_start:
  fixes page len :: u64
  assumes "take_bit 12 page = 0" "unat len \<le> 4096" "len \<noteq> 0"
  shows "unat (page + 4096 - len) = unat page + (4096 - unat len)"
proof -
  have "unat (4096 - len) = 4096 - unat len" using assms(2) by (simp add: unat_sub word_le_nat_alt)
  moreover have "0 < unat len" using assms(3) by (simp add: unat_gt_0)
  ultimately have "unat (page + (4096 - len)) = unat page + (4096 - unat len)" using page_fits [OF assms(1)] assms(2) by (simp add: unat_simps)
  then show ?thesis by (simp add: algebra_simps)
qed

text \<open>The stack of the handler is apart from the frame.\<close>

lemma frame_kept:
  fixes page z :: u64
  assumes f: "frame_fits regs" "a \<le> unat regs" "unat regs + 280 \<le> a + l" and r: "apart (a, l) (unat page, k)" "4096 \<le> k"
    and z: "take_bit 12 page = 0" "unat z \<le> 4096"
  shows "load_regs regs (memcpy (unat (page + 4096 - z)) src (unat z) (memset (unat page) 0 4096 m)) = load_regs regs m"
proof (rule load_regs_cong [OF f(1)])
  fix x assume "unat regs \<le> x" "x < unat regs + 280"
  with f r have out: "x < unat page \<or> unat page + 4096 \<le> x" by (auto simp: apart_def)
  have "\<not> (unat (page + 4096 - z) \<le> x \<and> x < unat (page + 4096 - z) + unat z)"
    using out stub_start [OF z] z(2) by (cases "z = 0") auto
  then show "memcpy (unat (page + 4096 - z)) src (unat z) (memset (unat page) 0 4096 m) x = m x"
    using out by (auto simp: memcpy_outside memset_eq)
qed

text \<open>The process of thread \<open>t\<close> is in a handler: it owns the handler's stack.\<close>

definition in_handler :: "u64 \<Rightarrow> sys \<Rightarrow> bool" where
  "in_handler t s \<longleftrightarrow> vma_inv (sy_heap s, vmas (threads s t)) \<and> signal_stack_page (threads s t) \<noteq> 0 \<and>
     page_owned (sy_heap s) (signal_stack_page (threads s t))"

text \<open>What the kernel keeps of a process for the return from the handler.\<close>

definition handler_state :: "u64 \<Rightarrow> sys \<Rightarrow> pt_regs \<times> u64 \<times> u64 \<times> vm_area list" where
  "handler_state t s = (let th = threads s t in (signal_saved_regs th, signal_stack_page th, signal_stack_vaddr th, vmas th))"



end
