(* ===== verification/Fork_Props.thy ===== *)
theory Fork_Props
  imports Trap_Props
begin

text \<open>
  \<open>copy_pgd\<close>, the core of \<open>sys_fork\<close>: the child gets tables of its own that map the same pages, and both
  sides lose the permission to write, so that the first store of either goes through a
  copy-on-write fault.
\<close>

section \<open>Copying tables, path by path\<close>

definition cow :: "u64 \<Rightarrow> u64" where
  "cow e = e AND NOT PTE_W"

text \<open>The entry of the table at path \<open>q\<close> of the tree of \<open>p\<close>, and the paths of valid entries in the user half.\<close>

definition entry_at :: "mm \<Rightarrow> u64 \<Rightarrow> nat list \<Rightarrow> nat \<Rightarrow> u64" where
  "entry_at s p q k = (case walk s p q of Some t \<Rightarrow> entries s t k | None \<Rightarrow> 0)"

definition user_path :: "mm \<Rightarrow> u64 \<Rightarrow> nat list \<Rightarrow> bool" where
  "user_path s p r \<longleftrightarrow> r \<noteq> [] \<and> hd r < 256 \<and> (\<forall>k \<in> set r. k < 512) \<and> entry_at s p (butlast r) (last r) AND PTE_V \<noteq> 0"

definition user_leaves :: "mm \<Rightarrow> u64 \<Rightarrow> nat list set" where
  "user_leaves s p = {r. user_path s p r \<and> length r = 3}"

text \<open>A page with two owners.\<close>

definition shared :: "heap \<Rightarrow> u64 \<Rightarrow> bool" where
  "shared h e \<longleftrightarrow> (\<exists>l. 4096 \<le> l \<and> 2 \<le> heap_owners h (unat (page_base e + PAGE_OFFSET), l))"

text \<open>
  The state in the middle of the copy of the tree of \<open>p\<close> in \<open>s\<^sub>0\<close>: the tables at the paths \<open>D\<close> have
  copies, the table at \<open>q\<close> the copy \<open>N q\<close>, and the leaves at the paths \<open>E\<close> have been copied.
\<close>

definition child_entry :: "mm \<Rightarrow> u64 \<Rightarrow> nat list set \<Rightarrow> nat list set \<Rightarrow> (nat list \<Rightarrow> u64) \<Rightarrow> nat list \<Rightarrow> nat \<Rightarrow> u64" where
  "child_entry s0 p D E N q k =
     (if q @ [k] \<in> D then table_entry (N (q @ [k]))
      else if q @ [k] \<in> E then cow (entry_at s0 p q k)
      else if q = [] \<and> 256 \<le> k \<and> k < 512 then entries s0 p k else 0)"

definition copy_inv :: "mm \<Rightarrow> u64 \<Rightarrow> mm \<Rightarrow> nat list set \<Rightarrow> nat list set \<Rightarrow> (nat list \<Rightarrow> u64) \<Rightarrow> bool" where
  "copy_inv s0 p s D E N \<longleftrightarrow> heap_inv (mm_heap s) \<and> page_owned (mm_heap s0) \<le> page_owned (mm_heap s) \<and>
     inj_on N (insert [] D) \<and> E \<subseteq> user_leaves s0 p \<and>
     (\<forall>q \<in> insert [] D. page_owned (mm_heap s) (N q) \<and> \<not> page_owned (mm_heap s0) (N q) \<and> N q \<noteq> 0 \<and>
        (\<forall>k. entries s (N q) k = child_entry s0 p D E N q k)) \<and>
     (\<forall>q t k. length q \<le> 2 \<and> walk s0 p q = Some t \<longrightarrow> entries s t k = (if q @ [k] \<in> E then cow (entries s0 t k) else entries s0 t k)) \<and>
     (\<forall>q k. q @ [k] \<in> E \<longrightarrow> shared (mm_heap s) (entry_at s0 p q k)) \<and>
     (\<forall>r. heap_owners (mm_heap s0) r \<le> heap_owners (mm_heap s) r) \<and> mm_mem s = mm_mem s0"

text \<open>The leaves of the user half map owned pages.\<close>

definition leaves_owned :: "mm \<Rightarrow> u64 \<Rightarrow> bool" where
  "leaves_owned s p \<longleftrightarrow> (\<forall>q k. length q = 2 \<and> user_path s p (q @ [k]) \<longrightarrow>
     page_owned (mm_heap s) (page_base (entry_at s p q k) + PAGE_OFFSET) \<and> entry_at s p q k AND (PTE_R OR PTE_X) \<noteq> 0)"

lemma shared_mono:
  assumes "shared h e" "\<And>r. heap_owners h r \<le> heap_owners h' r"
  shows "shared h' e"
  using assms unfolding shared_def by (meson le_trans)

lemma page_owned_mono: "(\<And>r. heap_owners h r \<le> heap_owners h' r) \<Longrightarrow> page_owned h \<le> page_owned h'"
  unfolding page_owned_def le_fun_def by (auto intro: less_le_trans)

lemma table_alloc_owners:
  assumes "heap_inv h"
  obtains (null) h' where "allocate PAGE_SIZE h = Some (0, h')" "heap_inv h'" "heap_owners h' = heap_owners h"
    | (given) u h' where "allocate PAGE_SIZE h = Some (u, h')" "u \<noteq> 0" "heap_inv h'" "page_owned h' = (page_owned h)(u := True)"
      "\<not> page_owned h u" "take_bit 12 u = 0" "\<And>r. heap_owners h r \<le> heap_owners h' r"
proof -
  from assms show thesis
  proof (cases rule: table_alloc)
    case (null h')
    with assms show thesis using that(1) by (cases rule: allocate_cases [where len = PAGE_SIZE]) auto
  next
    case (given u h')
    have "heap_owners h r \<le> heap_owners h' r" for r
      using assms given(1,2) by (cases rule: allocate_cases [where len = PAGE_SIZE]) auto
    with given that(2) show thesis by blast
  qed
qed

text \<open>A new table of the child.\<close>

lemma copy_invD:
  assumes "copy_inv s0 p s D E N"
  shows "heap_inv (mm_heap s)" "page_owned (mm_heap s0) \<le> page_owned (mm_heap s)" "inj_on N (insert [] D)"
    "\<And>q. q \<in> insert [] D \<Longrightarrow> page_owned (mm_heap s) (N q)" "\<And>q. q \<in> insert [] D \<Longrightarrow> \<not> page_owned (mm_heap s0) (N q)"
    "\<And>q. q \<in> insert [] D \<Longrightarrow> N q \<noteq> 0" "\<And>q k. q \<in> insert [] D \<Longrightarrow> entries s (N q) k = child_entry s0 p D E N q k"
    "\<And>q t k. length q \<le> 2 \<Longrightarrow> walk s0 p q = Some t \<Longrightarrow> entries s t k = (if q @ [k] \<in> E then cow (entries s0 t k) else entries s0 t k)"
    "\<And>q k. q @ [k] \<in> E \<Longrightarrow> shared (mm_heap s) (entry_at s0 p q k)" "E \<subseteq> user_leaves s0 p"
    "\<And>r. heap_owners (mm_heap s0) r \<le> heap_owners (mm_heap s) r" "mm_mem s = mm_mem s0"
  using assms unfolding copy_inv_def by blast+

lemma copy_table:
  assumes inv: "copy_inv s0 p s D E N" and pt: "pt_inv s0 p" and q: "q \<in> insert [] D" and r: "q @ [k] \<notin> D" "\<forall>k'. q @ [k, k'] \<notin> D \<union> E"
    and u: "heap_inv h" "page_owned h = (page_owned (mm_heap s))(u := True)" "\<not> page_owned (mm_heap s) u" "u \<noteq> 0"
      "\<And>r. heap_owners (mm_heap s) r \<le> heap_owners h r"
  defines "s' \<equiv> set_entry (N q) k (table_entry u) (zero_table u (s\<lparr>mm_heap := h\<rparr>))"
  shows "copy_inv s0 p s' (insert (q @ [k]) D) E (N(q @ [k] := u))"
proof -
  note I = copy_invD [OF inv]
  let ?D = "insert (q @ [k]) D" and ?N = "N(q @ [k] := u)"
  have Nu: "N x \<noteq> u" if "x \<in> insert [] D" for x using I(4) [OF that] u(3) by auto
  have ent: "entries s' (N q) = (entries s (N q))(k := table_entry u)" "entries s' u = (\<lambda>_. 0)"
    "\<And>v. v \<noteq> N q \<Longrightarrow> v \<noteq> u \<Longrightarrow> entries s' v = entries s v" "mm_heap s' = h" "mm_mem s' = mm_mem s0"
    using Nu [OF q] I(12) by (auto simp: s'_def set_entry_def zero_table_def)
  have N: "?N x = N x" "x \<noteq> q @ [k]" if "x \<in> insert [] D" for x using that r(1) by auto
  have old: "t \<noteq> u" "t \<noteq> N q" if "length x \<le> 2" "walk s0 p x = Some t" for x t
    using pt_inv_owned [OF pt that] I(2) I(5) [OF q] u(3) by (auto simp: le_fun_def)
  have same: "child_entry s0 p ?D E ?N x k' = (if x = q \<and> k' = k then table_entry u else child_entry s0 p D E N x k')"
    if "x \<in> insert [] D" for x k'
    using r(1) by (auto simp: child_entry_def)
  have old_table: "entries s' (?N x) k' = child_entry s0 p ?D E ?N x k'" if x: "x \<in> insert [] D" for x k'
  proof (cases "x = q")
    case True
    then show ?thesis using I(7) [OF x] N(1) [OF x] same [OF x] ent(1) by auto
  next
    case False
    then have "N x \<noteq> N q" using inj_onD [OF I(3) _ x q] by blast
    then show ?thesis using I(7) [OF x] N(1) [OF x] same [OF x, of k'] ent(3) [of "N x"] Nu [OF x] False by auto
  qed
  have new_table: "entries s' (?N (q @ [k])) k' = child_entry s0 p ?D E ?N (q @ [k]) k'" for k'
    using r(2) ent(2) by (auto simp: child_entry_def)
  have inj: "inj_on ?N (insert [] ?D)"
  proof (rule inj_onI)
    fix x y assume "x \<in> insert [] ?D" "y \<in> insert [] ?D" "?N x = ?N y"
    then show "x = y" using Nu N I(3) by (cases "x = q @ [k]"; cases "y = q @ [k]") (auto simp: inj_on_def)
  qed
  have mono: "page_owned (mm_heap s0) \<le> page_owned h" using I(2) u(2) by (auto simp: le_fun_def)
  have own: "page_owned h (?N x) \<and> \<not> page_owned (mm_heap s0) (?N x) \<and> ?N x \<noteq> 0" if "x \<in> insert [] ?D" for x
  proof (cases "x = q @ [k]")
    case True
    then show ?thesis using u(2-4) I(2) by (auto simp: le_fun_def)
  next
    case False
    then have "x \<in> insert [] D" using that by auto
    then show ?thesis using N(1) I(4-6) u(2) by auto
  qed
  have parent: "entries s' t k' = (if x @ [k'] \<in> E then cow (entries s0 t k') else entries s0 t k')"
    if "length x \<le> 2" "walk s0 p x = Some t" for x t k'
    using I(8) [OF that] ent(3) old [OF that] by simp
  have sh: "shared h (entry_at s0 p x k')" if "x @ [k'] \<in> E" for x k'
    using shared_mono [OF I(9) [OF that]] u(5) by blast
  have child: "entries s' (?N x) k' = child_entry s0 p ?D E ?N x k'" if x: "x \<in> insert [] ?D" for x k'
  proof (cases "x = q @ [k]")
    case False
    then have "x \<in> insert [] D" using x by blast
    then show ?thesis by (rule old_table)
  qed (simp only: new_table)
  show ?thesis unfolding copy_inv_def ent(4)
  proof (intro conjI ballI allI impI)
    fix x assume x: "x \<in> insert [] ?D"
    show "page_owned h (?N x)" using own [OF x] by (elim conjE)
    show "\<not> page_owned (mm_heap s0) (?N x)" using own [OF x] by (elim conjE)
    show "?N x \<noteq> 0" using own [OF x] by (elim conjE)
    show "entries s' (?N x) k' = child_entry s0 p ?D E ?N x k'" for k' using child [OF x] .
  next
    fix x t k' assume "length x \<le> 2 \<and> walk s0 p x = Some t"
    then show "entries s' t k' = (if x @ [k'] \<in> E then cow (entries s0 t k') else entries s0 t k')" by (elim conjE) (rule parent)
  next
    fix r show "heap_owners (mm_heap s0) r \<le> heap_owners h r" using I(11) u(5) by (rule le_trans)
  qed (rule u(1) mono inj sh I(10) ent(5) | assumption)+
qed

text \<open>A leaf, which both sides now share.\<close>

lemma cow_bits: "cow e AND PTE_V = e AND PTE_V" "page_base (cow e) = page_base e" "cow (cow e) = cow e"
proof -
  show "cow e AND PTE_V = e AND PTE_V" by (rule bit_word_eqI) (auto simp: cow_def bit_simps)
  show "page_base (cow e) = page_base e" by (rule bit_word_eqI) (auto simp: cow_def page_base_def bit_simps)
  show "cow (cow e) = cow e" by (rule bit_word_eqI) (auto simp: cow_def bit_simps)
qed

lemma copy_leaf:
  assumes inv: "copy_inv s0 p s D E N" and pt: "pt_inv s0 p" and q: "q \<in> D" "length q = 2" and t: "walk s0 p q = Some t"
    and r: "q @ [k] \<notin> E" "q @ [k] \<notin> D" "user_path s0 p (q @ [k])" and v: "entries s0 t k AND PTE_V \<noteq> 0" "page_owned (mm_heap s0) (page_base (entries s0 t k) + PAGE_OFFSET)"
  obtains s' where "copy_pt_entry t (N q) k s = Some (True, s')" "copy_inv s0 p s' D (insert (q @ [k]) E) N"
proof -
  note I = copy_invD [OF inv]
  let ?e = "entries s0 t k" and ?E = "insert (q @ [k]) E"
  let ?pg = "page_base ?e + PAGE_OFFSET"
  let ?h = "page_inc_ref ?pg (mm_heap s)"
  have q': "q \<in> insert [] D" "length q \<le> 2" using q by simp_all
  have e: "entries s t k = ?e" using I(8) [OF q'(2) t] r(1) by simp
  have "page_owned (mm_heap s) ?pg" using v(2) I(2) by (auto simp: le_fun_def)
  then obtain l where l: "4096 \<le> l" "0 < heap_owners (mm_heap s) (unat ?pg, l)" by (auto simp: page_owned_def)
  note P = page_ref_owned [OF I(1) l(2,1)]
  have mono: "heap_owners (mm_heap s) r \<le> heap_owners ?h r" for r unfolding P(3) by simp
  have tN: "t \<noteq> N x" if "x \<in> insert [] D" for x using pt_inv_owned [OF pt q'(2) t] I(5) [OF that] by auto
  define s' where "s' = (set_entry (N q) k (cow ?e) (set_entry t k (cow ?e) s))\<lparr>mm_heap := ?h\<rparr>"
  have ev: "copy_pt_entry t (N q) k s = Some (True, s')"
    using e v(1) by (simp add: copy_pt_entry_def valid_def s'_def set_entry_def page_base_def cow_def Let_def)
  have ent: "entries s' (N q) = (entries s (N q))(k := cow ?e)" "entries s' t = (entries s t)(k := cow ?e)"
    "\<And>v. v \<noteq> N q \<Longrightarrow> v \<noteq> t \<Longrightarrow> entries s' v = entries s v" "mm_heap s' = ?h" "mm_mem s' = mm_mem s0"
    using tN [OF q'(1)] I(12) by (auto simp: s'_def set_entry_def)
  have ea: "entry_at s0 p q k = ?e" by (simp add: entry_at_def t)
  have same: "child_entry s0 p D ?E N x k' = (if x = q \<and> k' = k then cow ?e else child_entry s0 p D E N x k')" for x k'
    using r(2) ea by (auto simp: child_entry_def)
  have child: "entries s' (N x) k' = child_entry s0 p D ?E N x k'" if x: "x \<in> insert [] D" for x k'
  proof (cases "x = q")
    case True
    then show ?thesis using I(7) [OF x] same ent(1) by auto
  next
    case False
    then have "N x \<noteq> N q" using inj_onD [OF I(3) _ x q'(1)] by blast
    then show ?thesis using I(7) [OF x] same [of x k'] ent(3) [of "N x"] tN [OF x] False by auto
  qed
  have parent: "entries s' t' k' = (if x @ [k'] \<in> ?E then cow (entries s0 t' k') else entries s0 t' k')"
    if x: "length x \<le> 2" "walk s0 p x = Some t'" for x t' k'
  proof (cases "x = q")
    case True
    then show ?thesis using x t ent(2) I(8) [OF x, of k'] by auto
  next
    case False
    then have "t' \<noteq> t" using pt_inv_inj [OF pt x(1) q'(2)] x(2) t by blast
    moreover have "t' \<noteq> N q" using pt_inv_owned [OF pt x] I(5) [OF q'(1)] by auto
    ultimately show ?thesis using False ent(3) I(8) [OF x, of k'] by auto
  qed
  have sh: "shared ?h (entry_at s0 p x k')" if "x @ [k'] \<in> ?E" for x k'
  proof (cases "x @ [k'] \<in> E")
    case True
    then show ?thesis using shared_mono [OF I(9)] mono by blast
  next
    case False
    then have "x = q" "k' = k" using that by auto
    moreover have "2 \<le> heap_owners ?h (unat ?pg, l)" unfolding P(3) using l(2) by simp
    ultimately show ?thesis using l(1) ea unfolding shared_def by (intro exI [of _ l]) simp
  qed
  have mono': "page_owned (mm_heap s) \<le> page_owned ?h" by (rule page_owned_mono) (rule mono)
  have "copy_inv s0 p s' D ?E N" unfolding copy_inv_def ent(4)
  proof (intro conjI ballI allI impI)
    show "heap_inv ?h" by (rule P(2))
    show "page_owned (mm_heap s0) \<le> page_owned ?h" using I(2) mono' by (rule order_trans)
    show "inj_on N (insert [] D)" by (rule I(3))
    show "?E \<subseteq> user_leaves s0 p" using I(10) r(3) q(2) by (simp add: user_leaves_def)
    fix x assume x: "x \<in> insert [] D"
    show "page_owned ?h (N x)" using I(4) [OF x] mono' by (auto simp: le_fun_def)
    show "\<not> page_owned (mm_heap s0) (N x)" by (rule I(5) [OF x])
    show "N x \<noteq> 0" by (rule I(6) [OF x])
    show "entries s' (N x) k' = child_entry s0 p D ?E N x k'" for k' by (rule child [OF x])
  next
    fix x t' k' assume "length x \<le> 2 \<and> walk s0 p x = Some t'"
    then show "entries s' t' k' = (if x @ [k'] \<in> ?E then cow (entries s0 t' k') else entries s0 t' k')" by (elim conjE) (rule parent)
  next
    fix x k' assume "x @ [k'] \<in> ?E"
    then show "shared ?h (entry_at s0 p x k')" by (rule sh)
  next
    fix r show "heap_owners (mm_heap s0) r \<le> heap_owners ?h r" using I(11) mono by (rule le_trans)
  qed (rule ent(5))
  with ev show thesis by (rule that)
qed

section \<open>The loops\<close>

text \<open>The valid entries among \<open>K\<close> of the table at \<open>q\<close>.\<close>

definition ext :: "mm \<Rightarrow> u64 \<Rightarrow> nat list \<Rightarrow> nat set \<Rightarrow> nat list set" where
  "ext s p q K = {q @ [k] | k. k \<in> K \<and> user_path s p (q @ [k])}"

definition levels :: "nat list set \<Rightarrow> nat list set \<Rightarrow> bool" where
  "levels D E \<longleftrightarrow> (\<forall>r \<in> D. r \<noteq> [] \<and> length r \<le> 2) \<and> (\<forall>r \<in> E. length r = 3)"

lemma ext_insert: "ext s p q (insert k K) = ext s p q {k} \<union> ext s p q K"
  by (auto simp: ext_def)

lemma copy_inv_heap:
  assumes "copy_inv s0 p s D E N" "heap_inv h" "heap_owners h = heap_owners (mm_heap s)"
  shows "copy_inv s0 p (s\<lparr>mm_heap := h\<rparr>) D E N"
proof -
  have "page_owned h = page_owned (mm_heap s)" "shared h = shared (mm_heap s)" using assms(3) by (simp_all add: page_owned_def shared_def fun_eq_iff)
  then show ?thesis using assms unfolding copy_inv_def by simp
qed

lemma copy_pt_loop:
  assumes pt: "pt_inv s0 p" "leaves_owned s0 p" and lv: "levels D {}"
    and q: "q \<in> D" "length q = 2" "hd q < 256" "\<forall>k \<in> set q. k < 512" and t: "walk s0 p q = Some t"
  shows "copy_inv s0 p s D E N \<Longrightarrow> distinct ks \<Longrightarrow> \<forall>k \<in> set ks. k < 512 \<and> q @ [k] \<notin> E \<Longrightarrow>
    \<exists>s'. for_each (copy_pt_entry t (N q)) ks s = Some (True, s') \<and> copy_inv s0 p s' D (E \<union> ext s0 p q (set ks)) N"
proof (induction ks arbitrary: s E)
  case Nil
  then show ?case by (simp add: ext_def)
next
  case (Cons k ks)
  have up: "user_path s0 p (q @ [k]) \<longleftrightarrow> entries s0 t k AND PTE_V \<noteq> 0"
    using q Cons.prems(3) t by (auto simp: user_path_def entry_at_def hd_append)
  have ea: "entry_at s0 p q k = entries s0 t k" by (simp add: entry_at_def t)
  have kD: "q @ [k] \<notin> D" using lv q(2) by (auto simp: levels_def)
  show ?case
  proof (cases "user_path s0 p (q @ [k])")
    case True
    have own: "page_owned (mm_heap s0) (page_base (entries s0 t k) + PAGE_OFFSET)" using pt(2) q(2) True unfolding leaves_owned_def ea [symmetric] by blast
    have "entries s0 t k AND PTE_V \<noteq> 0" "q @ [k] \<notin> E" using True up Cons.prems(3) by simp_all
    with copy_leaf [OF Cons.prems(1) pt(1) q(1,2) t _ kD True _ own] obtain s1 where
      s1: "copy_pt_entry t (N q) k s = Some (True, s1)" "copy_inv s0 p s1 D (insert (q @ [k]) E) N" by blast
    have "\<forall>k' \<in> set ks. k' < 512 \<and> q @ [k'] \<notin> insert (q @ [k]) E" using Cons.prems(2,3) by auto
    from Cons.IH [OF s1(2) _ this] Cons.prems(2) obtain s2 where
      s2: "for_each (copy_pt_entry t (N q)) ks s1 = Some (True, s2)" "copy_inv s0 p s2 D (insert (q @ [k]) E \<union> ext s0 p q (set ks)) N" by auto
    have "insert (q @ [k]) E \<union> ext s0 p q (set ks) = E \<union> ext s0 p q (set (k # ks))" using True by (auto simp: ext_def)
    with s1(1) s2 show ?thesis by auto
  next
    case False
    have "entries s t k = entries s0 t k" using copy_invD(8) [OF Cons.prems(1) _ t] q(2) Cons.prems(3) by simp
    then have "copy_pt_entry t (N q) k s = Some (True, s)" using False up by (simp add: copy_pt_entry_def valid_def)
    moreover have "ext s0 p q (set (k # ks)) = ext s0 p q (set ks)" using False by (auto simp: ext_def)
    ultimately show ?thesis using Cons.IH [OF Cons.prems(1)] Cons.prems(2,3) by simp
  qed
qed

text \<open>
  A step of an outer loop: it runs out of memory with the child's tree \<open>c\<close> partly built, or adds
  \<open>D'\<close> and \<open>E'\<close> to it.
\<close>

definition copy_step :: "mm \<Rightarrow> u64 \<Rightarrow> u64 \<Rightarrow> (mm \<Rightarrow> (bool \<times> mm) option) \<Rightarrow> nat list set \<Rightarrow> nat list set \<Rightarrow> (nat list \<Rightarrow> u64) \<Rightarrow> mm \<Rightarrow>
    nat list set \<Rightarrow> nat list set \<Rightarrow> bool" where
  "copy_step s0 p c f D E N s D' E' \<longleftrightarrow>
     (\<exists>s' D2 E2 N2. f s = Some (False, s') \<and> copy_inv s0 p s' D2 E2 N2 \<and> levels D2 E2 \<and> N2 [] = c) \<or>
     (\<exists>s' N'. f s = Some (True, s') \<and> copy_inv s0 p s' (D \<union> D') (E \<union> E') N' \<and> (\<forall>x \<in> insert [] D. N' x = N x))"

lemma copy_step_loop:
  assumes step: "\<And>k D E N s. k \<in> set ks \<Longrightarrow> copy_inv s0 p s D E N \<Longrightarrow> levels D E \<Longrightarrow> N [] = c \<Longrightarrow> P D E N k \<Longrightarrow> copy_step s0 p c (f k) D E N s (D' k) (E' k)"
    and lv: "\<And>k. k \<in> set ks \<Longrightarrow> levels (D' k) (E' k)"
    and keep: "\<And>k k' D E N N'. k \<in> set ks \<Longrightarrow> k' \<in> set ks \<Longrightarrow> k \<noteq> k' \<Longrightarrow> P D E N k \<Longrightarrow> \<forall>x \<in> insert [] D. N' x = N x \<Longrightarrow> P (D \<union> D' k') (E \<union> E' k') N' k"
  shows "distinct ks \<Longrightarrow> copy_inv s0 p s D E N \<Longrightarrow> levels D E \<Longrightarrow> N [] = c \<Longrightarrow> \<forall>k \<in> set ks. P D E N k \<Longrightarrow>
    copy_step s0 p c (for_each f ks) D E N s (\<Union>k \<in> set ks. D' k) (\<Union>k \<in> set ks. E' k)"
  using assms
proof (induction ks arbitrary: s D E N)
  case Nil
  then show ?case by (auto simp: copy_step_def)
next
  case (Cons k ks)
  from Cons.prems(6) [of k] Cons.prems(2-5) have "copy_step s0 p c (f k) D E N s (D' k) (E' k)" by simp
  then consider (short) s' D2 E2 N2 where "f k s = Some (False, s')" "copy_inv s0 p s' D2 E2 N2" "levels D2 E2" "N2 [] = c"
    | (ok) s' N' where "f k s = Some (True, s')" "copy_inv s0 p s' (D \<union> D' k) (E \<union> E' k) N'" "\<forall>x \<in> insert [] D. N' x = N x"
    unfolding copy_step_def by blast
  then show ?case
  proof cases
    case short
    then show ?thesis unfolding copy_step_def by auto
  next
    case ok
    have "levels (D \<union> D' k) (E \<union> E' k)" "N' [] = c" using Cons.prems(3,4,7) ok(3) by (auto simp: levels_def)
    moreover have "\<forall>x \<in> set ks. P (D \<union> D' k) (E \<union> E' k) N' x" using Cons.prems(1,5) ok(3) by (auto intro!: Cons.prems(8))
    ultimately have "copy_step s0 p c (for_each f ks) (D \<union> D' k) (E \<union> E' k) N' s' (\<Union>k \<in> set ks. D' k) (\<Union>k \<in> set ks. E' k)"
      using Cons.prems(1) ok(2) by (intro Cons.IH) (simp_all add: Cons.prems(6-8))
    then show ?thesis
      unfolding copy_step_def
    proof (elim disjE exE conjE)
      fix s2 N2 assume a: "for_each f ks s' = Some (True, s2)"
        "copy_inv s0 p s2 (D \<union> D' k \<union> (\<Union>k \<in> set ks. D' k)) (E \<union> E' k \<union> (\<Union>k \<in> set ks. E' k)) N2" "\<forall>x \<in> insert [] (D \<union> D' k). N2 x = N' x"
      have "copy_inv s0 p s2 (D \<union> (\<Union>k \<in> set (k # ks). D' k)) (E \<union> (\<Union>k \<in> set (k # ks). E' k)) N2" using a(2) by (simp add: Un_assoc)
      moreover have "\<forall>x \<in> insert [] D. N2 x = N x" using a(3) ok(3) by auto
      moreover have "for_each f (k # ks) s = Some (True, s2)" using ok(1) a(1) by simp
      ultimately show "(\<exists>s' D2 E2 N2. for_each f (k # ks) s = Some (False, s') \<and> copy_inv s0 p s' D2 E2 N2 \<and> levels D2 E2 \<and> N2 [] = c) \<or>
        (\<exists>s' N'. for_each f (k # ks) s = Some (True, s') \<and>
          copy_inv s0 p s' (D \<union> (\<Union>k \<in> set (k # ks). D' k)) (E \<union> (\<Union>k \<in> set (k # ks). E' k)) N' \<and> (\<forall>x \<in> insert [] D. N' x = N x))"
        by blast
    qed (use ok(1) in auto)
  qed
qed

text \<open>The next table on a path of the parent.\<close>

lemma ext_none: "walk s p q = None \<Longrightarrow> ext s p q K = {}"
  by (auto simp: ext_def user_path_def entry_at_def)

lemma parent_entry:
  assumes inv: "copy_inv s0 p s D E N" and pt: "pt_inv s0 p" and lv: "levels D E" and q: "length q \<le> 1" "walk s0 p q = Some t"
    and k: "k < 512" "\<forall>x \<in> set q. x < 512" "hd (q @ [k]) < 256"
  shows "valid t k s \<longleftrightarrow> user_path s0 p (q @ [k])" "entries s t k = entries s0 t k"
    "user_path s0 p (q @ [k]) \<Longrightarrow> walk s0 p (q @ [k]) = Some (entry_table (entries s0 t k))"
    "\<not> user_path s0 p (q @ [k]) \<Longrightarrow> walk s0 p (q @ [k]) = None"
proof -
  have "q @ [k] \<notin> E" using lv q(1) by (auto simp: levels_def)
  then show e: "entries s t k = entries s0 t k" using copy_invD(8) [OF inv _ q(2)] q(1) by simp
  have up: "user_path s0 p (q @ [k]) \<longleftrightarrow> entries s0 t k AND PTE_V \<noteq> 0" using k q(2) by (auto simp: user_path_def entry_at_def)
  then show "valid t k s \<longleftrightarrow> user_path s0 p (q @ [k])" using e by (simp add: valid_def)
  show "walk s0 p (q @ [k]) = Some (entry_table (entries s0 t k))" if "user_path s0 p (q @ [k])"
    using pt_inv_pointer [OF pt q] that up by (simp add: walk_snoc q(2))
  show "walk s0 p (q @ [k]) = None" if "\<not> user_path s0 p (q @ [k])" using that up by (simp add: walk_snoc q(2) pointer_def)
qed

lemma copy_pmd_step:
  assumes pt: "pt_inv s0 p" "leaves_owned s0 p" and i: "i < 256" "walk s0 p [i] = Some t" and j: "j < 512"
    and inv: "copy_inv s0 p s D E N" and lv: "levels D E" and c: "N [] = c" and D: "[i] \<in> D" "[i, j] \<notin> D" "\<forall>k. [i, j, k] \<notin> E"
  shows "copy_step s0 p c (copy_pmd_entry t (N [i]) j) D E N s (ext s0 p [i] {j}) (ext s0 p [i, j] {..<512})"
proof -
  have W: "valid t j s \<longleftrightarrow> user_path s0 p [i, j]" "entries s t j = entries s0 t j"
    "user_path s0 p [i, j] \<Longrightarrow> walk s0 p [i, j] = Some (entry_table (entries s0 t j))" "\<not> user_path s0 p [i, j] \<Longrightarrow> walk s0 p [i, j] = None"
    using parent_entry [OF inv pt(1) lv _ i(2) j] i(1) by auto
  show ?thesis
  proof (cases "user_path s0 p [i, j]")
    case False
    then have "ext s0 p [i] {j} = {}" "ext s0 p [i, j] {..<512} = {}" using ext_none [OF W(4)] by (auto simp: ext_def)
    then show ?thesis using False W(1) inv unfolding copy_step_def by (auto simp: copy_pmd_entry_def)
  next
    case True
    then have eD: "D \<union> ext s0 p [i] {j} = insert [i, j] D" by (auto simp: ext_def)
    have v: "valid t j s" using True W(1) by simp
    have hi: "heap_inv (mm_heap s)" using copy_invD(1) [OF inv] .
    then show ?thesis
    proof (cases rule: table_alloc_owners)
      case (null h')
      have "copy_pmd_entry t (N [i]) j s = Some (False, s\<lparr>mm_heap := h'\<rparr>)" using v null(1) by (simp add: copy_pmd_entry_def new_table_def Let_def)
      then show ?thesis using copy_inv_heap [OF inv null(2,3)] lv c unfolding copy_step_def by blast
    next
      case (given u h')
      let ?N = "N([i] @ [j] := u)" and ?s = "set_entry (N [i]) j (table_entry u) (zero_table u (s\<lparr>mm_heap := h'\<rparr>))"
      let ?t = "entry_table (entries s0 t j)"
      have r: "[i] \<in> insert [] D" "[i] @ [j] \<notin> D" "\<forall>k'. [i] @ [j, k'] \<notin> D \<union> E" using D lv by (auto simp: levels_def)
      have inv1: "copy_inv s0 p ?s (insert [i, j] D) E ?N"
        using copy_table [OF inv pt(1) r given(3,4,5,2,7)] by simp
      have "levels (insert [i, j] D) {}" "[i, j] \<in> insert [i, j] D" "\<forall>k \<in> set [0..<512]. k < 512 \<and> [i, j] @ [k] \<notin> E"
        using lv D(3) by (auto simp: levels_def)
      with copy_pt_loop [OF pt _ _ _ _ _ W(3) [OF True] inv1, of "[0..<512]"] i(1) j obtain s2 where
        s2: "for_each (copy_pt_entry ?t (?N [i, j])) [0..<512] ?s = Some (True, s2)"
        "copy_inv s0 p s2 (insert [i, j] D) (E \<union> ext s0 p [i, j] (set [0..<512])) ?N" by auto
      have "copy_pmd_entry t (N [i]) j s = Some (True, s2)"
        using v given(1,2) s2(1) W(2) by (simp add: copy_pmd_entry_def new_table_def Let_def)
      moreover have "copy_inv s0 p s2 (D \<union> ext s0 p [i] {j}) (E \<union> ext s0 p [i, j] {..<512}) ?N"
        using s2(2) unfolding eD by (simp add: atLeast0LessThan)
      moreover have "\<forall>x \<in> insert [] D. ?N x = N x" using D(2) by auto
      ultimately show ?thesis unfolding copy_step_def by blast
    qed
  qed
qed

lemma copy_pgd_step:
  assumes pt: "pt_inv s0 p" "leaves_owned s0 p" and i: "i < 256"
    and inv: "copy_inv s0 p s D E N" and lv: "levels D E" and c: "N [] = c" and D: "[i] \<notin> D" "\<forall>j. [i, j] \<notin> D" "\<forall>j k. [i, j, k] \<notin> E"
  shows "copy_step s0 p c (copy_pgd_entry p c i) D E N s (ext s0 p [] {i} \<union> ext s0 p [i] {..<512}) (\<Union>j \<in> {..<512}. ext s0 p [i, j] {..<512})"
proof -
  have W: "valid p i s \<longleftrightarrow> user_path s0 p [i]" "entries s p i = entries s0 p i"
    "user_path s0 p [i] \<Longrightarrow> walk s0 p [i] = Some (entry_table (entries s0 p i))" "\<not> user_path s0 p [i] \<Longrightarrow> walk s0 p [i] = None"
    using parent_entry [OF inv pt(1) lv, of "[]" p i] i by auto
  show ?thesis
  proof (cases "user_path s0 p [i]")
    case False
    have "walk s0 p [i, j] = None" for j using walk_snoc [of s0 p "[i]" j] W(4) [OF False] by simp
    then have "(\<Union>j \<in> {..<512}. ext s0 p [i, j] {..<512}) = {}" by (simp add: ext_none)
    moreover have "ext s0 p [] {i} \<union> ext s0 p [i] {..<512} = {}" using False ext_none [OF W(4) [OF False]] by (auto simp: ext_def)
    ultimately show ?thesis using False W(1) inv unfolding copy_step_def by (auto simp: copy_pgd_entry_def)
  next
    case True
    have v: "valid p i s" using True W(1) by simp
    have hi: "heap_inv (mm_heap s)" using copy_invD(1) [OF inv] .
    then show ?thesis
    proof (cases rule: table_alloc_owners)
      case (null h')
      have "copy_pgd_entry p c i s = Some (False, s\<lparr>mm_heap := h'\<rparr>)" using v null(1) by (simp add: copy_pgd_entry_def new_table_def Let_def)
      then show ?thesis using copy_inv_heap [OF inv null(2,3)] lv c unfolding copy_step_def by blast
    next
      case (given u h')
      let ?D = "insert [i] D" and ?N = "N([i] := u)" and ?s = "set_entry c i (table_entry u) (zero_table u (s\<lparr>mm_heap := h'\<rparr>))"
      let ?t = "entry_table (entries s0 p i)" and ?P = "\<lambda>D E N j. [i] \<in> D \<and> N [i] = u \<and> [i, j] \<notin> D \<and> (\<forall>k. [i, j, k] \<notin> E)"
      have r: "[] \<in> insert [] D" "[] @ [i] \<notin> D" "\<forall>k'. [] @ [i, k'] \<notin> D \<union> E" using D lv by (auto simp: levels_def)
      have inv1: "copy_inv s0 p ?s ?D E ?N" using copy_table [OF inv pt(1) r given(3,4,5,2,7)] c by simp
      have loop: "copy_step s0 p c (for_each (copy_pmd_entry ?t u) [0..<512]) ?D E ?N ?s
          (\<Union>j \<in> set [0..<512]. ext s0 p [i] {j}) (\<Union>j \<in> set [0..<512]. ext s0 p [i, j] {..<512})"
      proof (rule copy_step_loop [where P = ?P])
        fix j D E N s assume "j \<in> set [0..<512]" "copy_inv s0 p s D E N" "levels D E" "N [] = c" "?P D E N j"
        then show "copy_step s0 p c (copy_pmd_entry ?t u j) D E N s (ext s0 p [i] {j}) (ext s0 p [i, j] {..<512})"
          using copy_pmd_step [OF pt i W(3) [OF True], of j s D E N c] by auto
      next
        fix j j' D E N N' assume "j \<noteq> j'" "?P D E N j" "\<forall>x \<in> insert [] D. N' x = N x"
        then show "?P (D \<union> ext s0 p [i] {j'}) (E \<union> ext s0 p [i, j'] {..<512}) N' j" by (auto simp: ext_def)
      next
        show "\<forall>j \<in> set [0..<512]. ?P ?D E ?N j" using D by auto
        show "levels (insert [i] D) E" using lv by (simp add: levels_def)
      qed (use inv1 c in \<open>auto simp: levels_def ext_def\<close>)
      have ev: "copy_pgd_entry p c i s = for_each (copy_pmd_entry ?t u) [0..<512] ?s"
        using v given(1,2) W(2) by (simp add: copy_pgd_entry_def new_table_def Let_def)
      have eD: "?D \<union> (\<Union>j \<in> set [0..<512]. ext s0 p [i] {j}) = D \<union> (ext s0 p [] {i} \<union> ext s0 p [i] {..<512})" using True by (auto simp: ext_def)
      have eE: "(\<Union>j \<in> set [0..<512]. ext s0 p [i, j] {..<512}) = (\<Union>j \<in> {..<512}. ext s0 p [i, j] {..<512})" by (simp add: atLeast0LessThan)
      have eN: "\<forall>x \<in> insert [] D. N' x = N x" if "\<forall>x \<in> insert [] ?D. N' x = ?N x" for N' using that D(1) by auto
      show ?thesis using loop eN unfolding copy_step_def ev eD eE by blast
    qed
  qed
qed

text \<open>The whole loop copies every table and every leaf of the user half.\<close>

definition user_tables :: "mm \<Rightarrow> u64 \<Rightarrow> nat list set" where
  "user_tables s p = {r. user_path s p r \<and> length r \<le> 2}"

lemma user_tables_ext: "user_tables s p = (\<Union>i \<in> set [0..<256]. ext s p [] {i} \<union> ext s p [i] {..<512})"
proof (rule set_eqI)
  fix r show "r \<in> user_tables s p \<longleftrightarrow> r \<in> (\<Union>i \<in> set [0..<256]. ext s p [] {i} \<union> ext s p [i] {..<512})"
  proof
    assume "r \<in> user_tables s p"
    then obtain i where r: "user_path s p r" "r = [i] \<or> (\<exists>j. r = [i, j])"
      by (auto simp: user_tables_def user_path_def length_Suc_conv le_Suc_eq numeral_2_eq_2)
    then have "i < 256" "\<forall>j \<in> set r. j < 512" by (auto simp: user_path_def)
    with r show "r \<in> (\<Union>i \<in> set [0..<256]. ext s p [] {i} \<union> ext s p [i] {..<512})" by (auto simp: ext_def)
  qed (auto simp: ext_def user_tables_def)
qed

lemma user_leaves_ext: "user_leaves s p = (\<Union>i \<in> set [0..<256]. \<Union>j \<in> {..<512}. ext s p [i, j] {..<512})"
proof (rule set_eqI)
  fix r show "r \<in> user_leaves s p \<longleftrightarrow> r \<in> (\<Union>i \<in> set [0..<256]. \<Union>j \<in> {..<512}. ext s p [i, j] {..<512})"
  proof
    assume "r \<in> user_leaves s p"
    then obtain i j k where r: "user_path s p r" "r = [i, j, k]" by (auto simp: user_leaves_def length_Suc_conv numeral_3_eq_3)
    then have "i < 256" "j < 512" "k < 512" by (auto simp: user_path_def)
    with r show "r \<in> (\<Union>i \<in> set [0..<256]. \<Union>j \<in> {..<512}. ext s p [i, j] {..<512})" by (auto simp: ext_def)
  qed (auto simp: ext_def user_leaves_def)
qed

lemma copy_pgd_loop:
  assumes pt: "pt_inv s0 p" "leaves_owned s0 p" and inv: "copy_inv s0 p s {} {} N"
  shows "copy_step s0 p (N []) (for_each (copy_pgd_entry p (N [])) [0..<256]) {} {} N s (user_tables s0 p) (user_leaves s0 p)"
proof -
  let ?P = "\<lambda>D E (N :: nat list \<Rightarrow> u64) (i :: nat). [i] \<notin> D \<and> (\<forall>j. [i, j] \<notin> D) \<and> (\<forall>j k. [i, j, k] \<notin> E)"
  show ?thesis unfolding user_tables_ext user_leaves_ext
  proof (rule copy_step_loop [where P = ?P])
    fix i D E N' s assume "i \<in> set [0..<256]" "copy_inv s0 p s D E N'" "levels D E" "N' [] = N []" "?P D E N' i"
    then show "copy_step s0 p (N []) (copy_pgd_entry p (N []) i) D E N' s (ext s0 p [] {i} \<union> ext s0 p [i] {..<512})
      (\<Union>j \<in> {..<512}. ext s0 p [i, j] {..<512})" by (intro copy_pgd_step [OF pt]) auto
  next
    fix i i' D E and N1 N2 :: "nat list \<Rightarrow> u64" assume "i \<noteq> i'" "?P D E N1 i"
    then show "?P (D \<union> (ext s0 p [] {i'} \<union> ext s0 p [i'] {..<512})) (E \<union> (\<Union>j \<in> {..<512}. ext s0 p [i', j] {..<512})) N2 i"
      by (auto simp: ext_def)
  qed (use inv in \<open>auto simp: levels_def ext_def\<close>)
qed

text \<open>The new root, with the kernel half of the old one.\<close>

lemma copy_kernel_half_entries:
  assumes "p \<noteq> c"
  shows "entries (copy_kernel_half p c s) = (entries s)(c := \<lambda>k. if 256 \<le> k \<and> k < 512 then entries s p k else entries s c k)"
    "mm_heap (copy_kernel_half p c s) = mm_heap s" "mm_mem (copy_kernel_half p c s) = mm_mem s"
proof -
  have "entries (fold (\<lambda>i s. set_entry c i (entries s p i) s) ks s) = (entries s)(c := \<lambda>k. if k \<in> set ks then entries s p k else entries s c k) \<and>
      mm_heap (fold (\<lambda>i s. set_entry c i (entries s p i) s) ks s) = mm_heap s \<and>
      mm_mem (fold (\<lambda>i s. set_entry c i (entries s p i) s) ks s) = mm_mem s" for ks
    using assms by (induction ks arbitrary: s) (auto simp: set_entry_def fun_eq_iff)
  from this [of "[256..<512]"]
  show "entries (copy_kernel_half p c s) = (entries s)(c := \<lambda>k. if 256 \<le> k \<and> k < 512 then entries s p k else entries s c k)"
    "mm_heap (copy_kernel_half p c s) = mm_heap s" "mm_mem (copy_kernel_half p c s) = mm_mem s" by (simp_all only: copy_kernel_half_def set_upt atLeastLessThan_iff)
qed

lemma copy_start:
  assumes pt: "pt_inv s p" and u: "heap_inv h" "page_owned h = (page_owned (mm_heap s))(c := True)" "\<not> page_owned (mm_heap s) c" "c \<noteq> 0"
      "\<And>r. heap_owners (mm_heap s) r \<le> heap_owners h r"
  shows "copy_inv s p (copy_kernel_half p c (zero_table c (s\<lparr>mm_heap := h\<rparr>))) {} {} (\<lambda>_. c)"
proof -
  have pc: "t \<noteq> c" if "length q \<le> 2" "walk s p q = Some t" for q t using pt_inv_owned [OF pt that] u(3) by auto
  have "p \<noteq> c" using pc [of "[]"] by simp
  note K = copy_kernel_half_entries [OF this, of "zero_table c (s\<lparr>mm_heap := h\<rparr>)"]
  show ?thesis unfolding copy_inv_def K using u pc \<open>p \<noteq> c\<close>
    by (auto simp: child_entry_def zero_table_def le_fun_def)
qed

section \<open>The two trees after the copy\<close>

text \<open>The tables of the parent stay; its leaves in \<open>E\<close> lose their write bit.\<close>

lemma copy_parent_walk:
  assumes inv: "copy_inv s0 p s D E N" and lv: "levels D E"
  shows "length r \<le> 2 \<Longrightarrow> walk s p r = walk s0 p r"
proof (induction r rule: rev_induct)
  case (snoc k r)
  have e: "entries s t k = entries s0 t k" if "walk s0 p r = Some t" for t
    using copy_invD(8) [OF inv _ that, of k] lv snoc.prems by (auto simp: levels_def)
  have "walk s p r = walk s0 p r" using snoc by simp
  then show ?case using e by (cases "walk s0 p r") (auto simp: walk_snoc)
qed simp

lemma copy_parent:
  assumes inv: "copy_inv s0 p s D E N" and pt: "pt_inv s0 p" and lv: "levels D E"
  shows "pt_inv s p"
proof -
  have W: "walk s p r = walk s0 p r" if "length r \<le> 2" for r by (rule copy_parent_walk [OF inv lv that])
  have own: "page_owned (mm_heap s) t" if "length r \<le> 2" "walk s0 p r = Some t" for r t
    using pt_inv_owned [OF pt that] copy_invD(2) [OF inv] by (auto simp: le_fun_def)
  have ptr: "pointer (entries s t i)" if "length r \<le> 1" "walk s0 p r = Some t" "entries s t i AND PTE_V \<noteq> 0" for r t i
  proof -
    have "entries s t i = entries s0 t i" using copy_invD(8) [OF inv _ that(2), of i] lv that(1) by (auto simp: levels_def)
    then show ?thesis using pt_inv_pointer [OF pt that(1,2)] that(3) by simp
  qed
  show ?thesis unfolding pt_inv_def
  proof (intro conjI allI impI)
    show "heap_inv (mm_heap s)" using copy_invD(1) [OF inv] .
    show "page_owned (mm_heap s) t" if "length r \<le> 2 \<and> walk s p r = Some t" for r t using own that W by auto
    show "pointer (entries s t i)" if "length r \<le> 1 \<and> walk s p r = Some t \<and> entries s t i AND PTE_V \<noteq> 0" for r t i
      using ptr [of r t i] that W [of r] by auto
    show "r = q" if "length r \<le> 2 \<and> length q \<le> 2 \<and> walk s p r = Some t \<and> walk s p q = Some t" for r q t
      using pt_inv_inj [OF pt, of r q t] that W by auto
  qed
qed

text \<open>The tables of the child: copies in the user half, the parent's own in the kernel half.\<close>

lemma table_pointer: "take_bit 12 u = 0 \<Longrightarrow> pointer (table_entry u) \<and> entry_table (table_entry u) = u"
  using table_entry_V table_entry_RWX entry_table_entry by (auto simp: pointer_def)

lemma user_levels: "levels (user_tables s p) (user_leaves s p)"
  by (auto simp: levels_def user_tables_def user_leaves_def user_path_def)

lemma user_path_walk:
  assumes pt: "pt_inv s p" and r: "length r \<le> 1" "hd (r @ [k]) < 256"
  shows "user_path s p (r @ [k]) \<longleftrightarrow> (\<forall>j \<in> set (r @ [k]). j < 512) \<and> walk s p (r @ [k]) \<noteq> None"
proof (cases "walk s p r")
  case None
  then show ?thesis by (simp add: user_path_def entry_at_def walk_snoc)
next
  case (Some t)
  have "entries s t k AND PTE_V \<noteq> 0 \<longleftrightarrow> pointer (entries s t k)" using pt_inv_pointer [OF pt r(1) Some] by (auto simp: pointer_def)
  then show ?thesis using Some r(2) by (auto simp: user_path_def entry_at_def walk_snoc)
qed

lemma user_tables_prefix:
  assumes "pt_inv s p" "r @ [k] \<in> user_tables s p" "r \<noteq> []"
  shows "r \<in> user_tables s p"
proof -
  have up: "user_path s p (r @ [k])" "length r \<le> 1" using assms(2) by (auto simp: user_tables_def)
  with assms(3) obtain i where r: "r = [i]" by (cases r) auto
  have i: "i < 256" "walk s p [i] \<noteq> None" using up(1) r by (auto simp: user_path_def entry_at_def split: option.splits)
  then have "user_path s p [i]" using user_path_walk [OF assms(1), of "[]" i] by simp
  then show ?thesis by (simp add: r user_tables_def)
qed

lemma child_walk:
  assumes inv: "copy_inv s0 p s (user_tables s0 p) (user_leaves s0 p) N" and pt: "pt_inv s0 p"
  shows "length r \<le> 2 \<Longrightarrow> walk s (N []) r = (if r \<in> insert [] (user_tables s0 p) then Some (N r)
    else if r \<noteq> [] \<and> 256 \<le> hd r \<and> hd r < 512 then walk s0 p r else None)"
proof (induction r rule: rev_induct)
  case (snoc k r)
  note I = copy_invD [OF inv]
  let ?D = "user_tables s0 p" and ?E = "user_leaves s0 p"
  have len: "length r \<le> 1" using snoc.prems by simp
  then have rk: "r @ [k] \<notin> ?E" by (auto simp: user_leaves_def)
  show ?case
  proof (cases "r \<in> insert [] ?D")
    case True
    have w: "walk s (N []) r = Some (N r)" using snoc.IH len True by simp
    have e: "entries s (N r) k = child_entry s0 p ?D ?E N r k" by (rule I(7) [OF True])
    show ?thesis
    proof (cases "r @ [k] \<in> ?D")
      case D: True
      have "take_bit 12 (N (r @ [k])) = 0" using page_owned_aligned [OF I(1) I(4)] D by simp
      then show ?thesis using D w e table_pointer [of "N (r @ [k])"] by (simp add: walk_snoc child_entry_def)
    next
      case D: False
      have hd: "hd r < 256" if "r \<noteq> []" using that True by (auto simp: user_tables_def user_path_def)
      show ?thesis using D w e rk hd
        by (cases r) (auto simp: walk_snoc child_entry_def pointer_def walk.simps)
    qed
  next
    case False
    then have "r @ [k] \<notin> insert [] ?D" using user_tables_prefix [OF pt] by auto
    moreover have "entries s t k = entries s0 t k" if "walk s0 p r = Some t" for t using I(8) [OF _ that, of k] len rk by simp
    ultimately show ?thesis using False snoc.IH len by (cases "walk s0 p r") (auto simp: walk_snoc)
  qed
qed simp

lemma copy_child:
  assumes inv: "copy_inv s0 p s (user_tables s0 p) (user_leaves s0 p) N" and pt: "pt_inv s0 p"
  shows "pt_inv s (N [])"
proof -
  note I = copy_invD [OF inv]
  let ?D = "user_tables s0 p" and ?E = "user_leaves s0 p"
  have W: "r \<in> insert [] ?D \<and> t = N r \<or> r \<notin> insert [] ?D \<and> walk s0 p r = Some t" if "length r \<le> 2" "walk s (N []) r = Some t" for r t
    using that child_walk [OF inv pt, of r] by (auto split: if_splits)
  have own: "page_owned (mm_heap s) t" if "length r \<le> 2" "walk s (N []) r = Some t" for r t
    using W [OF that] pt_inv_owned [OF pt that(1)] I(2,4) by (auto simp: le_fun_def)
  have apart: "t \<noteq> N r" if "length q \<le> 2" "walk s0 p q = Some t" "r \<in> insert [] ?D" for q r t
    using pt_inv_owned [OF pt that(1,2)] I(5) [OF that(3)] by auto
  have ptr: "pointer (entries s t k)" if r: "length r \<le> 1" "walk s (N []) r = Some t" "entries s t k AND PTE_V \<noteq> 0" for r t k
  proof -
    have rk: "r @ [k] \<notin> ?E" using r(1) by (auto simp: user_leaves_def)
    from W [of r t] r(1,2) consider (own) "r \<in> insert [] ?D" "t = N r" | (old) "walk s0 p r = Some t" by auto
    then show ?thesis
    proof cases
      case own
      note e = I(7) [OF own(1), of k]
      show ?thesis
      proof (cases "r @ [k] \<in> ?D")
        case True
        then have "take_bit 12 (N (r @ [k])) = 0" using page_owned_aligned [OF I(1) I(4)] by simp
        then show ?thesis using True e own(2) table_pointer by (simp add: child_entry_def)
      next
        case False
        then have "r = []" "entries s t k = entries s0 p k" using e own(2) rk r(3) by (auto simp: child_entry_def split: if_splits)
        then show ?thesis using pt_inv_pointer [OF pt, of "[]" p k] r(3) by simp
      qed
    next
      case old
      have "entries s t k = entries s0 t k" using I(8) [OF _ old, of k] r(1) rk by simp
      then show ?thesis using pt_inv_pointer [OF pt r(1) old] r(3) by simp
    qed
  qed
  have inj: "r = q" if "length r \<le> 2" "length q \<le> 2" "walk s (N []) r = Some t" "walk s (N []) q = Some t" for r q t
    using W [OF that(1,3)] W [OF that(2,4)] apart [OF that(1)] apart [OF that(2)] inj_onD [OF I(3)] pt_inv_inj [OF pt that(1,2)] by metis
  show ?thesis unfolding pt_inv_def using I(1) own ptr inj by blast
qed

text \<open>What the hardware sees.\<close>

lemma vpn_less: "vpn n va < 512"
proof -
  have "drop_bit n va AND VPN_MASK \<le> VPN_MASK" by (rule word_and_le1)
  then show ?thesis by (simp add: vpn_def VPN_MASK_def word_le_nat_alt)
qed

lemma bit_perm: "bit PTE_R n \<longleftrightarrow> n = 1" "bit PTE_W n \<longleftrightarrow> n = 2" "bit PTE_X n \<longleftrightarrow> n = 3"
  unfolding PTE_R_def PTE_W_def PTE_X_def by (auto simp only: bit_push_bit_iff bit_1_iff possible_bit_word) auto

lemma cow_leaf:
  assumes "e AND (PTE_R OR PTE_X) \<noteq> 0"
  shows "e AND RWX \<noteq> 0" "cow e AND RWX \<noteq> 0"
proof -
  have "(e AND RWX) AND (PTE_R OR PTE_X) = e AND (PTE_R OR PTE_X)" "(cow e AND RWX) AND (PTE_R OR PTE_X) = e AND (PTE_R OR PTE_X)"
    by (rule bit_word_eqI; auto simp: cow_def bit_and_iff bit_or_iff bit_not_iff bit_perm)+
  with assms show "e AND RWX \<noteq> 0" "cow e AND RWX \<noteq> 0" by auto
qed

lemma copy_translation:
  assumes inv: "copy_inv s0 p s D E N" and pt: "pt_inv s0 p" "leaves_owned s0 p" and lv: "levels D E"
  defines "path va \<equiv> [vpn PGD_SHIFT va, vpn PMD_SHIFT va, vpn PTE_SHIFT va]"
  shows "sv39 s p va = (if path va \<in> E then map_option (apfst cow) (sv39 s0 p va) else sv39 s0 p va)"
    and "sv39 s0 p va = Some (e, l) \<Longrightarrow> path va \<in> E \<Longrightarrow> shared (mm_heap s) e"
proof -
  let ?q = "[vpn PGD_SHIFT va, vpn PMD_SHIFT va]" and ?k = "vpn PTE_SHIFT va"
  have path: "path va = ?q @ [?k]" by (simp add: path_def)
  have pt': "pt_inv s p" by (rule copy_parent [OF inv pt(1) lv])
  have w: "walk s p ?q = walk s0 p ?q" by (rule copy_parent_walk [OF inv lv]) simp
  show "sv39 s p va = (if path va \<in> E then map_option (apfst cow) (sv39 s0 p va) else sv39 s0 p va)"
  proof (cases "walk s0 p ?q")
    case None
    then show ?thesis unfolding sv39_def sv39_eq [OF pt'] sv39_eq [OF pt(1)] w by simp
  next
    case (Some t)
    have e: "entries s t ?k = (if path va \<in> E then cow (entries s0 t ?k) else entries s0 t ?k)"
      unfolding path by (rule copy_invD(8) [OF inv _ Some]) simp
    have leaf: "entries s0 t ?k AND RWX \<noteq> 0" "cow (entries s0 t ?k) AND RWX \<noteq> 0" if "path va \<in> E"
    proof -
      have "user_path s0 p (?q @ [?k])" "length ?q = 2" using copy_invD(10) [OF inv] that unfolding path by (auto simp: user_leaves_def)
      then have "entry_at s0 p ?q ?k AND (PTE_R OR PTE_X) \<noteq> 0" using pt(2) unfolding leaves_owned_def by blast
      then show "entries s0 t ?k AND RWX \<noteq> 0" "cow (entries s0 t ?k) AND RWX \<noteq> 0" using cow_leaf Some by (auto simp: entry_at_def)
    qed
    show ?thesis unfolding sv39_def sv39_eq [OF pt'] sv39_eq [OF pt(1)] w using Some e leaf cow_bits(1) by auto
  qed
  assume a: "sv39 s0 p va = Some (e, l)" "path va \<in> E"
  then have "entry_at s0 p ?q ?k = e" unfolding sv39_def sv39_eq [OF pt(1)] by (auto simp: entry_at_def split: option.splits if_splits)
  then show "shared (mm_heap s) e" using copy_invD(9) [OF inv, of ?q ?k] a(2) unfolding path by simp
qed

lemma copy_child_translation:
  assumes inv: "copy_inv s0 p s (user_tables s0 p) (user_leaves s0 p) N" and pt: "pt_inv s0 p" "leaves_owned s0 p"
  shows "sv39 s (N []) va = sv39 s p va"
proof -
  note I = copy_invD [OF inv]
  let ?q = "[vpn PGD_SHIFT va, vpn PMD_SHIFT va]" and ?k = "vpn PTE_SHIFT va" and ?D = "user_tables s0 p" and ?E = "user_leaves s0 p"
  have pt': "pt_inv s p" "pt_inv s (N [])" using copy_parent [OF inv pt(1) user_levels] copy_child [OF inv pt(1)] by simp_all
  have w: "walk s p ?q = walk s0 p ?q" by (rule copy_parent_walk [OF inv user_levels]) simp
  have w': "walk s (N []) ?q = (if ?q \<in> ?D then Some (N ?q) else if 256 \<le> vpn PGD_SHIFT va then walk s0 p ?q else None)"
    using child_walk [OF inv pt(1), of ?q] vpn_less by simp
  have D: "?q \<in> ?D \<longleftrightarrow> vpn PGD_SHIFT va < 256 \<and> walk s0 p ?q \<noteq> None"
    using user_path_walk [OF pt(1), of "[vpn PGD_SHIFT va]" "vpn PMD_SHIFT va"] vpn_less
    by (auto simp: user_tables_def) (auto simp: user_path_def)
  have ent: "entries s (N ?q) ?k = entries s t ?k \<or> entries s (N ?q) ?k AND PTE_V = 0 \<and> entries s t ?k AND PTE_V = 0"
    if t: "walk s0 p ?q = Some t" and q: "?q \<in> ?D" for t
  proof -
    have "?q @ [?k] \<in> ?E \<longleftrightarrow> entries s0 t ?k AND PTE_V \<noteq> 0"
      using t q vpn_less by (auto simp: user_leaves_def user_tables_def user_path_def entry_at_def)
    moreover have "?q @ [?k] \<notin> ?D" by (simp add: user_tables_def)
    ultimately show ?thesis using I(7) [of ?q ?k] I(8) [OF _ t, of ?k] q t by (auto simp: child_entry_def entry_at_def)
  qed
  show ?thesis unfolding sv39_def sv39_eq [OF pt'(1)] sv39_eq [OF pt'(2)] w w' using D ent by (auto split: option.splits)
qed

section \<open>The result\<close>

text \<open>The first part of \<open>copy_pgd\<close> gives the new root.\<close>

lemma copy_pgd_cases:
  assumes pt: "pt_inv s p" "leaves_owned s p"
  obtains (none) h where "copy_pgd p s = Some (0, s\<lparr>mm_heap := h\<rparr>)" "heap_inv h"
    | (short) s1 s' D E N where "copy_pgd p s = Some (0, s')" "copy_inv s p s1 D E N" "levels D E" "heap_inv (mm_heap s')" "entries s' = entries s1"
    | (full) s' N where "copy_pgd p s = Some (N [], s')" "N [] \<noteq> 0" "copy_inv s p s' (user_tables s p) (user_leaves s p) N"
  using pt_inv_heap_inv [OF pt(1)]
proof (cases rule: table_alloc_owners)
  case (null h)
  then show thesis by (intro none) (simp_all add: copy_pgd_def new_table_def)
next
  case (given c h)
  let ?s = "copy_kernel_half p c (zero_table c (s\<lparr>mm_heap := h\<rparr>))"
  have ev: "copy_pgd p s = (case for_each (copy_pgd_entry p c) [0..<256] ?s of
      None \<Rightarrow> None | Some (True, s) \<Rightarrow> Some (c, s) | Some (False, s) \<Rightarrow> map_option (Pair 0) (free_pgd c s))"
    using given(1,2) unfolding copy_pgd_def new_table_def by simp
  from copy_pgd_loop [OF pt copy_start [OF pt(1) given(3,4,5,2,7)]]
  consider (fail) s1 D E N where "for_each (copy_pgd_entry p c) [0..<256] ?s = Some (False, s1)" "copy_inv s p s1 D E N" "levels D E"
    | (all) s1 N where "for_each (copy_pgd_entry p c) [0..<256] ?s = Some (True, s1)"
        "copy_inv s p s1 (user_tables s p) (user_leaves s p) N" "N [] = c"
    unfolding copy_step_def by auto
  then show thesis
  proof cases
    case fail
    from free_pgd_inv [OF copy_invD(1) [OF fail(2)], of c] obtain s' where
      s': "free_pgd c s1 = Some s'" "heap_inv (mm_heap s')" "entries s' = entries s1" by blast
    show thesis by (rule short [OF _ fail(2,3) s'(2,3)]) (simp add: ev fail(1) s'(1))
  next
    case all
    show thesis by (rule full [OF _ _ all(2)]) (simp_all add: ev all(1,3) given(2))
  qed
qed

lemma sv39_path:
  assumes "pt_inv s p" "sv39 s p va = Some (e, l)" "vpn PGD_SHIFT va < 256"
  shows "[vpn PGD_SHIFT va, vpn PMD_SHIFT va, vpn PTE_SHIFT va] \<in> user_leaves s p"
  using assms(2,3) vpn_less unfolding sv39_def sv39_eq [OF assms(1)]
  by (auto simp: user_leaves_def user_path_def entry_at_def split: option.splits if_splits)


text \<open>A process with one writable page at 0x1000.\<close>

definition tree1 :: "heap \<Rightarrow> u64 \<Rightarrow> u64 \<Rightarrow> u64 \<Rightarrow> u64 \<Rightarrow> mm" where
  "tree1 h p t u e = (mm_of h)\<lparr>entries := (\<lambda>_ _. 0)(p := (\<lambda>_. 0)(0 := table_entry t), t := (\<lambda>_. 0)(0 := table_entry u), u := (\<lambda>_. 0)(1 := e))\<rparr>"

lemma tree1_inv:
  assumes h: "heap_inv h" "page_owned h p" "page_owned h t" "page_owned h u" and d: "distinct [p, t, u]"
    and e: "e AND PTE_V \<noteq> 0" "e AND (PTE_R OR PTE_X) \<noteq> 0" "page_owned h (page_base e + PAGE_OFFSET)"
  shows "pt_inv (tree1 h p t u e) p" "leaves_owned (tree1 h p t u e) p" "sv39 (tree1 h p t u e) p 0x1000 = Some (e, 0)"
proof -
  let ?m = "tree1 h p t u e"
  have ent: "entries ?m p = (\<lambda>_. 0)(0 := table_entry t)" "entries ?m t = (\<lambda>_. 0)(0 := table_entry u)" "entries ?m u = (\<lambda>_. 0)(1 := e)"
    "mm_heap ?m = h" using d by (auto simp: tree1_def mm_of_def)
  have tp: "pointer (table_entry t)" "entry_table (table_entry t) = t" "pointer (table_entry u)" "entry_table (table_entry u) = u" "\<not> pointer 0"
    using table_pointer page_owned_aligned [OF h(1)] h(3,4) by (simp_all add: pointer_def)
  have W: "walk ?m p r = (if r = [] then Some p else if r = [0] then Some t else if r = [0, 0] then Some u else None)" if "length r \<le> 2" for r
  proof -
    from that consider "r = []" | i where "r = [i]" | i j where "r = [i, j]" by (cases r; cases "tl r") auto
    then show ?thesis by cases (auto simp: walk.simps ent tp)
  qed
  show pt: "pt_inv ?m p" unfolding pt_inv_def
    using h d W tp(1,3) by (auto simp: ent split: if_splits)
  show "leaves_owned ?m p" unfolding leaves_owned_def
  proof (intro allI impI)
    fix q k assume a: "length q = 2 \<and> user_path ?m p (q @ [k])"
    then have "entry_at ?m p q k \<noteq> 0" by (auto simp: user_path_def)
    then have "entry_at ?m p q k = e" using a W [of q] by (auto simp: entry_at_def ent split: if_splits)
    then show "page_owned (mm_heap ?m) (page_base (entry_at ?m p q k) + PAGE_OFFSET) \<and> entry_at ?m p q k AND (PTE_R OR PTE_X) \<noteq> 0"
      using e by (simp add: ent)
  qed
  have "vpn PGD_SHIFT 0x1000 = 0" "vpn PMD_SHIFT 0x1000 = 0" "vpn PTE_SHIFT 0x1000 = 1"
    by (simp_all add: vpn_def VPN_MASK_def PGD_SHIFT_def PMD_SHIFT_def PTE_SHIFT_def drop_bit_eq_div word_arith_nat_div)
  then show "sv39 ?m p 0x1000 = Some (e, 0)" unfolding sv39_def sv39_eq [OF pt] using W [of "[0, 0]"] e(1) cow_leaf(1) [OF e(2)] by (simp add: ent)
qed

lemma fresh_page:
  assumes "page_room (Suc n) h"
  obtains p h' where "allocate PAGE_SIZE h = Some (p, h')" "page_room n h'" "page_owned h' = (page_owned h)(p := True)" "\<not> page_owned h p"
proof -
  from assms obtain p h' where p: "allocate PAGE_SIZE h = Some (p, h')" "p \<noteq> 0" "page_room n h'" "page_owned h' = (page_owned h)(p := True)"
    by (rule allocate_room)
  moreover have "heap_inv h" using assms by (simp add: page_room_def)
  then have "\<not> page_owned h p" by (cases rule: table_alloc) (use p(1,2) in auto)
  ultimately show thesis using that by blast
qed


end
