(* ===== verification/Fault_Props.thy ===== *)
theory Fault_Props
  imports Signal_Props Fork_Props
begin

text \<open>
  Demand paging: the first access to a page of an area, checked against the permissions of the area, gives
  the process a fresh page with the bytes of the file behind the area, or zeros.
\<close>

section \<open>Pages and permissions\<close>

definition page_of :: "u64 \<Rightarrow> u64" where
  "page_of va = va AND NOT (PAGE_SIZE - 1)"

lemma page_of_mask: "page_of va = va AND NOT (mask 12)"
  by (simp add: page_of_def PAGE_SIZE_eq mask_eq_exp_minus_1)

lemma vpn_page_of: "12 \<le> n \<Longrightarrow> vpn n (page_of va) = vpn n va"
proof -
  assume "12 \<le> n"
  then have "drop_bit n (page_of va) = drop_bit n va" unfolding page_of_mask by (intro bit_word_eqI) (auto simp: bit_simps dest: bit_imp_le_length)
  then show ?thesis by (simp add: vpn_def)
qed

lemma same_page_page_of: "same_page (page_of va) va' = same_page va va'"
  by (simp add: same_page_def vpn_page_of PGD_SHIFT_def PMD_SHIFT_def PTE_SHIFT_def)

lemma page_of_top:
  assumes "va < STACK_TOP"
  shows "page_of va < page_of va + 4096"
proof -
  have "unat (page_of va) \<le> unat va" unfolding page_of_mask unat_and_not_mask by simp
  moreover have "unat va < 0x4000000000" using assms by (simp add: STACK_TOP_def word_less_nat_alt)
  ultimately show ?thesis by (simp add: word_less_nat_alt unat_word_ariths)
qed

lemma prot_bits:
  fixes prot :: u64
  shows "(ucast prot :: u32) AND PROT_READ \<noteq> 0 \<longleftrightarrow> prot AND ucast PROT_READ \<noteq> 0"
    "(ucast prot :: u32) AND PROT_WRITE \<noteq> 0 \<longleftrightarrow> prot AND ucast PROT_WRITE \<noteq> 0"
    "(ucast prot :: u32) AND PROT_EXEC \<noteq> 0 \<longleftrightarrow> prot AND ucast PROT_EXEC \<noteq> 0"
proof -
  have e: "x AND 1 \<noteq> 0 \<longleftrightarrow> bit x 0" "x AND 2 \<noteq> 0 \<longleftrightarrow> bit x 1" "x AND 4 \<noteq> 0 \<longleftrightarrow> bit x 2" for x :: "'a::len word"
    using and_exp_eq_0_iff_not_bit [of x 0] and_exp_eq_0_iff_not_bit [of x 1] and_exp_eq_0_iff_not_bit [of x 2] by simp_all
  show "(ucast prot :: u32) AND PROT_READ \<noteq> 0 \<longleftrightarrow> prot AND ucast PROT_READ \<noteq> 0"
    "(ucast prot :: u32) AND PROT_WRITE \<noteq> 0 \<longleftrightarrow> prot AND ucast PROT_WRITE \<noteq> 0"
    "(ucast prot :: u32) AND PROT_EXEC \<noteq> 0 \<longleftrightarrow> prot AND ucast PROT_EXEC \<noteq> 0"
    by (simp_all add: PROT_READ_def PROT_WRITE_def PROT_EXEC_def e bit_simps)
qed

lemma pte_prot_V: "pte_prot prot AND PTE_V \<noteq> 0" "pte_prot prot < 1024"
  by (simp_all add: pte_prot_def Let_def PTE_V_def PTE_U_def PTE_A_def PTE_D_def PTE_R_def PTE_W_def PTE_X_def)

lemma pte_prot_RWX:
  assumes "prot AND PROT_READ \<noteq> 0 \<or> prot AND PROT_WRITE \<noteq> 0 \<or> prot AND PROT_EXEC \<noteq> 0"
  shows "pte_prot prot AND RWX \<noteq> 0"
  using assms by (auto simp: pte_prot_def Let_def RWX_def PTE_V_def PTE_U_def PTE_A_def PTE_D_def PTE_R_def PTE_W_def PTE_X_def)

section \<open>The contents of a new page\<close>

text \<open>Byte \<open>i\<close> of the page of \<open>va\<close> in area \<open>v\<close>.\<close>

definition area_byte :: "vm_area \<Rightarrow> u64 \<Rightarrow> mem \<Rightarrow> nat \<Rightarrow> u8" where
  "area_byte v va m i =
     (if vm_file_data v \<noteq> 0 \<and> unat (page_of va - vm_start v) + i < unat (vm_file_size v)
      then m (unat (vm_file_data v + (page_of va - vm_start v)) + i) else 0)"

text \<open>The bytes of the file do not lie on the page.\<close>

definition file_apart :: "vm_area \<Rightarrow> u64 \<Rightarrow> u64 \<Rightarrow> bool" where
  "file_apart v va page \<longleftrightarrow> vm_file_data v = 0 \<or>
     (let a = unat (vm_file_data v + (page_of va - vm_start v)) in a + 4096 \<le> unat page \<or> unat page + 4096 \<le> a)"

lemma fill_page_eq:
  assumes "file_apart v va page"
  shows "fill_page v va page m = (\<lambda>a. if unat page \<le> a \<and> a < unat page + 4096 then area_byte v va m (a - unat page) else m a)"
proof -
  let ?off = "page_of va - vm_start v"
  let ?len = "if vm_file_size v - ?off > PAGE_SIZE then PAGE_SIZE else vm_file_size v - ?off"
  let ?m = "memset (unat page) 0 (unat PAGE_SIZE) m" and ?a = "unat (vm_file_data v + ?off)"
  have m: "?m = (\<lambda>a. if unat page \<le> a \<and> a < unat page + 4096 then 0 else m a)" by (simp add: memset_eq PAGE_SIZE_eq)
  have F: "fill_page v va page m = (if vm_file_data v \<noteq> 0 \<and> ?off < vm_file_size v then memcpy (unat page) ?a (unat ?len) ?m else ?m)"
    by (simp add: fill_page_def Let_def page_of_def)
  show ?thesis
  proof (cases "vm_file_data v \<noteq> 0 \<and> ?off < vm_file_size v")
    case True
    have sub: "unat (vm_file_size v - ?off) = unat (vm_file_size v) - unat ?off" using True by (simp add: unat_sub order.strict_implies_order)
    have len: "unat ?len = min 4096 (unat (vm_file_size v) - unat ?off)"
      using sub by (auto simp: PAGE_SIZE_eq word_less_nat_alt)
    have ap: "?a + 4096 \<le> unat page \<or> unat page + 4096 \<le> ?a" using assms True by (simp add: file_apart_def Let_def)
    then have "?a + unat ?len \<le> unat page \<or> unat page + unat ?len \<le> ?a" unfolding len by auto
    from memcpy_correct [OF this, of ?m]
    have "fill_page v va page m = (\<lambda>a. if unat page \<le> a \<and> a < unat page + unat ?len then ?m (?a + (a - unat page)) else ?m a)" using True F by simp
    also have "\<dots> = (\<lambda>a. if unat page \<le> a \<and> a < unat page + 4096 then area_byte v va m (a - unat page) else m a)"
      unfolding len m using ap True by (auto simp: fun_eq_iff area_byte_def)
    finally show ?thesis .
  next
    case False
    then have z: "area_byte v va m i = 0" for i by (auto simp: area_byte_def word_less_nat_alt)
    show ?thesis unfolding F if_not_P [OF False] m z by (rule refl)
  qed
qed

section \<open>Demand paging\<close>

lemma demand_page_cases:
  assumes inv: "pt_inv (tables s) p" and f: "pte_prot (ucast (vm_prot v)) AND RWX \<noteq> 0" and va: "va < STACK_TOP"
    and src: "\<forall>page h. allocate PAGE_SIZE (sy_heap s) = Some (page, h) \<and> page \<noteq> 0 \<longrightarrow> file_apart v va page"
  obtains (short) s' where "demand_page p v va s = Some (Inr (False, s'))" "pt_inv (tables s') p" "\<And>va'. sv39 (tables s') p va' = sv39 (tables s) p va'"
      "sy_mem s' = sy_mem s" "threads s' = threads s"
    | (given) s' page where "demand_page p v va s = Some (Inr (True, s'))" "\<not> page_owned (sy_heap s) page" "page_owned (sy_heap s') page"
      "take_bit 12 page = 0" "threads s' = threads s" "pt_inv (tables s') p"
      "sy_mem s' = (\<lambda>a. if unat page \<le> a \<and> a < unat page + 4096 then area_byte v va (sy_mem s) (a - unat page) else sy_mem s a)"
      "remapped p va (leaf_entry (page - PAGE_OFFSET) (pte_prot (ucast (vm_prot v)))) s s' \<or> (\<forall>va'. sv39 (tables s') p va' = sv39 (tables s) p va')"
proof -
  have hi: "heap_inv (sy_heap s)" using pt_inv_heap_inv [OF inv] by (simp add: tables_def)
  then show thesis
  proof (cases rule: table_alloc)
    case (null h)
    let ?s = "s\<lparr>sy_heap := h\<rparr>"
    have e: "entries (tables ?s) = entries (tables s)" by (simp add: tables_def)
    have "pt_inv (tables ?s) p" by (rule pt_inv_cong [OF inv e]) (use null in \<open>simp_all add: tables_def\<close>)
    then show thesis using null(1) pt_cong(2) [OF e]
      by (intro short [of ?s]) (simp_all add: demand_page_def sys_alloc_def kbind_Inr kop_simps)
  next
    case (given page h)
    let ?f = "pte_prot (ucast (vm_prot v))"
    let ?m = "(tables s)\<lparr>mm_heap := h, mm_mem := fill_page v va page (sy_mem s)\<rparr>"
    have "entries ?m = entries (tables s)" by simp
    note E = pt_cong(2) [OF this]
    have pm: "pt_inv ?m p" by (rule pt_inv_cong [OF inv]) (use given in \<open>simp_all add: tables_def\<close>)
    have "heap_inv (mm_heap ?m)" using given(3) by simp
    then obtain m' where m': "map_page p (page_of va) (page - PAGE_OFFSET) ?f ?m = Some m'" "grows h (mm_heap m')"
      "mm_mem m' = fill_page v va page (sy_mem s)" by (rule map_page_grows [of ?m p "page_of va" "page - PAGE_OFFSET" ?f]) auto
    let ?s = "upd_mem (\<lambda>_. mm_mem m') (s\<lparr>sy_mm := m', sy_heap := mm_heap m'\<rparr>)"
    have ps: "PAGE_SIZE = 4096" by (simp add: PAGE_SIZE_eq)
    have mm: "(sy_mm s)\<lparr>mm_heap := h, mm_mem := fill_page v va page (sy_mem s)\<rparr> = ?m" by (simp add: tables_def)
    have ev: "demand_page p v va s = Some (Inr (True, ?s))"
      using given(1,2) m'(1) map_pages_at_one [OF page_of_top [OF va], of p "page - PAGE_OFFSET" ?f ?m]
      by (simp add: demand_page_def sys_alloc_def kbind_Inr kop_simps run_mm_def on_mm_def upd_mem_def ps [symmetric] page_of_def [symmetric] mm kbind_def)
    have ts: "tables ?s = m'" by (cases m') (simp add: tables_def upd_mem_def)
    have mem: "sy_mem ?s = (\<lambda>a. if unat page \<le> a \<and> a < unat page + 4096 then area_byte v va (sy_mem s) (a - unat page) else sy_mem s a)"
      using fill_page_eq [of v va page] src given(1,2) m'(3) by (simp add: upd_mem_def)
    have own: "page_owned (sy_heap ?s) page" using grows_page_owned [OF m'(2)] given(4) by (simp add: upd_mem_def)
    from pm pte_prot_V(1) f have "pt_inv m' p \<and>
      (remapped p va (leaf_entry (page - PAGE_OFFSET) ?f) s ?s \<or> (\<forall>va'. sv39 m' p va' = sv39 (tables s) p va'))"
      by (cases rule: map_page_cases [of ?m p ?f "page_of va" "page - PAGE_OFFSET"])
        (use m'(1) in \<open>auto simp: remapped_def ts E same_page_page_of\<close>)
    then show thesis using ev own mem given(5,6) ts
      by (intro that(2) [of ?s page]) (simp_all add: upd_mem_def)
  qed
qed

text \<open>Without allocation a walk finds the table of the last level if there is one.\<close>

lemma pagewalk_look:
  assumes inv: "pt_inv m p"
  shows "pagewalk p va False m = Some (map_option (\<lambda>t. (t, vpn PTE_SHIFT va)) (walk m p [vpn PGD_SHIFT va, vpn PMD_SHIFT va]), m)"
proof -
  let ?i = "vpn PGD_SHIFT va" and ?j = "vpn PMD_SHIFT va"
  let ?u = "entry_table (entries m p ?i)"
  have 1: "entries m p ?i AND PTE_V \<noteq> 0 \<longleftrightarrow> pointer (entries m p ?i)" using pt_inv_pointer [OF inv, of "[]" p] by (auto simp: pointer_def)
  have 2: "entries m ?u ?j AND PTE_V \<noteq> 0 \<longleftrightarrow> pointer (entries m ?u ?j)" if "pointer (entries m p ?i)"
    using pt_inv_pointer [OF inv, of "[?i]" ?u] that by (auto simp: pointer_def walk.simps)
  show ?thesis using 1 2 by (auto simp: pagewalk_def descend_def walk.simps Let_def)
qed

lemma cow_fault_unmapped:
  assumes inv: "pt_inv (tables s) p"
    and none: "\<forall>t. walk (tables s) p [vpn PGD_SHIFT va, vpn PMD_SHIFT va] = Some t \<longrightarrow> entries (tables s) t (vpn PTE_SHIFT va) AND PTE_V = 0"
  shows "cow_fault p va s = Some (Inr (False, s\<lparr>sy_mm := tables s\<rparr>))"
proof -
  let ?r = "map_option (\<lambda>t. (t, vpn PTE_SHIFT va)) (walk (tables s) p [vpn PGD_SHIFT va, vpn PMD_SHIFT va])"
  have "on_mm (pagewalk p va False) s = Some (Inr (?r, s\<lparr>sy_mm := tables s\<rparr>))"
    using pagewalk_look [OF inv, of va] by (simp add: on_mm_def upd_mem_def tables_def)
  then have "cow_fault p va s = (case ?r of None \<Rightarrow> kret False | Some (t, i) \<Rightarrow>
      kbind (kget (\<lambda>s. entries (sy_mm s) t i)) (\<lambda>e. if e AND PTE_V \<noteq> 0 \<and> e AND PTE_W = 0
        then let old_page = push_bit 12 (drop_bit 10 e) + PAGE_OFFSET
             in kbind (kget (\<lambda>s. get_page_ref old_page (sy_heap s))) (\<lambda>n.
                kbind (if n > 1 then cow_copy t i e old_page else kmod (set_pte t i (e OR PTE_W))) (\<lambda>_. kret True))
        else kret False)) (s\<lparr>sy_mm := tables s\<rparr>)"
    unfolding cow_fault_def by (rule kbind_Inr)
  then show ?thesis using none by (cases "walk (tables s) p [vpn PGD_SHIFT va, vpn PMD_SHIFT va]") (simp_all add: kop_simps)
qed



section \<open>Denied accesses\<close>

text \<open>C40. An access outside the areas of the process, or of a kind its area does not permit, ends the process: the
  handler of the trap is the exit of the thread, and it changes nothing before. The causes are those of fetch (12),
  load (13) and store (15), and the bits of the permissions are read (1), write (2) and execute (4).\<close>

theorem denied_access_exits:
  assumes c: "load_regs regs (sy_mem s) R_cause = cause" "cause \<in> {12, 13, 15}" and t: "tp s \<noteq> 0"
    and d: "case find_vma (vmas (threads s (tp s))) (load_regs regs (sy_mem s) R_badaddr) of None \<Rightarrow> True | Some v \<Rightarrow>
      cause = 12 \<and> vm_prot v AND 4 = 0 \<or> cause = 13 \<and> vm_prot v AND 1 = 0 \<or> cause = 15 \<and> vm_prot v AND 2 = 0"
  shows "do_trap E regs s = thread_exit s"
proof -
  have "cause AND INTERRUPT = 0" using c(2) by (auto simp: INTERRUPT_def)
  moreover have "page_fault cause (load_regs regs (sy_mem s) R_badaddr) s = Some (Inr (False, s))"
    using t d by (auto simp: page_fault_def kop_simps permission_ok_def PROT_READ_def PROT_WRITE_def PROT_EXEC_def split: option.splits)
  ultimately show ?thesis using c by (auto simp: do_trap_def kop_simps kbind_Inr)
qed

theorem denied_access_exits_witness:
  "\<exists>s. load_regs 0x1000 (sy_mem s) R_cause = 13 \<and> vmas (threads s (tp s)) = [] \<and> (\<forall>E. do_trap E 0x1000 s = thread_exit s)"
proof -
  let ?s = "upd_mem (store64 (reg_addr 0x1000 R_cause) 13) demo_sys"
  have 1: "load_regs 0x1000 (sy_mem ?s) R_cause = 13" by (simp add: load_regs_def upd_mem_def)
  have 2: "tp ?s \<noteq> 0" "vmas (threads ?s (tp ?s)) = []" by (simp_all add: upd_mem_def demo_sys_def demo_thread_def zero_thread_def)
  have 3: "case find_vma (vmas (threads ?s (tp ?s))) (load_regs 0x1000 (sy_mem ?s) R_badaddr) of None \<Rightarrow> True | Some v \<Rightarrow>
      (13 :: u64) = 12 \<and> vm_prot v AND 4 = 0 \<or> (13 :: u64) = 13 \<and> vm_prot v AND 1 = 0 \<or> (13 :: u64) = 15 \<and> vm_prot v AND 2 = 0"
    unfolding 2(2) by (simp add: find_vma_def)
  have "do_trap E 0x1000 ?s = thread_exit ?s" for E by (rule denied_access_exits [OF 1 _ 2(1) 3]) simp
  with 1 2(2) show ?thesis by blast
qed

end
