(* ===== verification/Fork_Call.thy ===== *)
theory Fork_Call
  imports Signal_Props Fork_Props
begin

text \<open>
  The system call \<open>fork\<close>: the parts of the other theories put together. The child is a new thread of the run queue with
  a copy of the kernel stack and of the frame of its parent, the pages of its parent, its areas and its open files.
\<close>

section \<open>Regions of the heap\<close>

lemma heap_owned_bound:
  assumes inv: "heap_inv h" and o: "0 < heap_owners h r" "4096 \<le> snd r"
  shows "fst r + snd r < 2 ^ 64"
  using inv o(1)
proof (cases rule: heap_owned_cases)
  case (page i k)
  have bi: "buddy_inv (hp_buddy h)" using inv by (auto simp: heap_inv_def heap_ok_def)
  have "i + 2 ^ k \<le> G_MEM_TOTAL_PAGE (hp_buddy h)" using alloc_block [OF bi page(1)] by simp
  then have "(i + 2 ^ k) * 2 ^ PAGE_SHIFT \<le> G_MEM_TOTAL_PAGE (hp_buddy h) * 2 ^ PAGE_SHIFT" by (rule mult_le_mono1)
  then show ?thesis using bi page(2) by (auto simp: buddy_inv_def pool_ok_def page_region_def algebra_simps)
next
  case (chunk a i)
  from used_chunk_page [OF inv chunk(1)] have "i < CHUNK_POOL_COUNT" by blast
  then show ?thesis using pool_size_dvd [of i] chunk(2) o(2) by simp
qed

text \<open>A new block is apart from every block in use.\<close>

lemma allocate_region:
  assumes inv: "heap_inv h"
  obtains (null) h' where "allocate len h = Some (0, h')" "heap_inv h'" "heap_owners h' = heap_owners h"
    | (given) p h' l where "allocate len h = Some (p, h')" "p \<noteq> 0" "heap_inv h'" "unat len \<le> l" "\<And>r. heap_owners h r \<le> heap_owners h' r"
        "0 < heap_owners h' (unat p, l)" "\<And>r. 0 < heap_owners h r \<Longrightarrow> apart r (unat p, l)" "\<not> live h p"
  using inv
proof (cases rule: allocate_cases [where len = len])
  case (null h')
  then show thesis by (rule that(1))
next
  case (given p h' l)
  have ap: "apart r (unat p, l)" if "0 < heap_owners h r" for r
    using that given(5,6) by (intro heap_owned_apart [OF given(3)]) auto
  have "\<not> live h p"
  proof
    assume "live h p"
    then obtain k where "0 < heap_owners h (unat p, k)" by (auto simp: live_def)
    with ap [OF this] heap_owned_nonempty [OF inv this] heap_owned_nonempty [OF given(3), of "(unat p, l)"] given(5) show False by (auto simp: apart_def)
  qed
  with given ap show thesis by (intro that(2) [of p h' l]) auto
qed

lemma live_mono: "live h t \<Longrightarrow> (\<And>r. heap_owners h r \<le> heap_owners h' r) \<Longrightarrow> live h' t"
  unfolding live_def by (metis less_le_trans)

lemma copy_vma_list_grows:
  assumes "heap_inv h"
  shows "\<exists>ws h'. copy_vma_list vs h = Some (ws, h') \<and> heap_inv h' \<and> (\<forall>r. heap_owners h r \<le> heap_owners h' r) \<and>
    map (vm_addr_update (\<lambda>_. 0)) ws = map (vm_addr_update (\<lambda>_. 0)) (take (length ws) vs)"
  using assms
proof (induction vs arbitrary: h)
  case (Cons v vs)
  from Cons.prems show ?case
  proof (cases rule: allocate_region [where len = SIZEOF_VM_AREA])
    case (given p h' l)
    from Cons.IH [OF given(3)] obtain ws h2 where w: "copy_vma_list vs h' = Some (ws, h2)" "heap_inv h2" "\<forall>r. heap_owners h' r \<le> heap_owners h2 r"
      "map (vm_addr_update (\<lambda>_. 0)) ws = map (vm_addr_update (\<lambda>_. 0)) (take (length ws) vs)" by blast
    have "\<forall>r. heap_owners h r \<le> heap_owners h2 r" using given(5) w(3) le_trans by blast
    with w given(1,2) show ?thesis by simp
  qed simp
qed simp

section \<open>Frames\<close>

lemma load_regs_moved:
  assumes "frame_fits p" "frame_fits p'" "\<And>i. i < 280 \<Longrightarrow> m' (unat p' + i) = m (unat p + i)"
  shows "load_regs p' m' = load_regs p m"
proof
  fix r
  have "m' (unat (reg_addr p' r) + i) = m (unat (reg_addr p r) + i)" if "i < 8" for i
    using assms(3) [of "8 * reg_index r + i"] reg_index_less [of r] that by (simp add: unat_reg_addr assms(1,2) algebra_simps)
  then show "load_regs p' m' r = load_regs p m r" unfolding load_regs_def load64_def by (intro foldr_cong) auto
qed

section \<open>Open files\<close>

lemma share_fds_effect:
  "\<exists>s'. kfor (share_fd t) is s = Some (Inr ((), s')) \<and> same_but_files s s' \<and> threads s' = threads s \<and> sy_mem s' = sy_mem s \<and>
    refs_added (fd_refs is (fdt (threads s t))) (files (sy_vfs s)) (files (sy_vfs s'))"
proof (induction "is" arbitrary: s)
  case Nil
  then show ?case by (simp add: kret_def same_but_files_def refs_added_def fd_refs_def)
next
  case (Cons i "is")
  have "\<exists>s1. share_fd t i s = Some (Inr ((), s1)) \<and> same_but_files s s1 \<and> threads s1 = threads s \<and> sy_mem s1 = sy_mem s \<and>
      refs_added (fd_refs [i] (fdt (threads s t))) (files (sy_vfs s)) (files (sy_vfs s1))"
    by (auto simp: share_fd_def kop_simps share_file_def on_vfs_def same_but_files_def refs_added_def fd_refs_def)
  then obtain s1 where s1: "share_fd t i s = Some (Inr ((), s1))" "same_but_files s s1" "threads s1 = threads s" "sy_mem s1 = sy_mem s"
    "refs_added (fd_refs [i] (fdt (threads s t))) (files (sy_vfs s)) (files (sy_vfs s1))" by blast
  from Cons.IH [of s1] obtain s2 where s2: "kfor (share_fd t) is s1 = Some (Inr ((), s2))" "same_but_files s1 s2" "threads s2 = threads s1" "sy_mem s2 = sy_mem s1"
    "refs_added (fd_refs is (fdt (threads s1 t))) (files (sy_vfs s1)) (files (sy_vfs s2))" by blast
  have "kfor (share_fd t) (i # is) s = Some (Inr ((), s2))" using s1(1) s2(1) by (simp add: kbind_Inr)
  moreover have "refs_added (fd_refs (i # is) (fdt (threads s t))) (files (sy_vfs s)) (files (sy_vfs s2))"
    using s1(3,5) s2(5) by (auto simp: refs_added_def fd_refs_def)
  ultimately show ?case using s1(2-4) s2(2-4) by (auto simp: same_but_files_def)
qed

section \<open>The address space of the child\<close>

definition same_queue :: "sys \<Rightarrow> sys \<Rightarrow> bool" where
  "same_queue s s' \<longleftrightarrow> tp s' = tp s \<and> run_queue s' = run_queue s \<and> nr_threads s' = nr_threads s \<and> kernel_pgd s' = kernel_pgd s"

text \<open>Both sides of a copy in state \<open>m'\<close>, made from the table \<open>p\<close> in state \<open>m\<close>.\<close>

definition copied :: "u64 \<Rightarrow> u64 \<Rightarrow> mm \<Rightarrow> mm \<Rightarrow> bool" where
  "copied p c m m' \<longleftrightarrow> pt_inv m' p \<and> pt_inv m' c \<and> (\<forall>va. sv39 m' c va = sv39 m' p va) \<and>
     (\<forall>va. vpn PGD_SHIFT va < 256 \<longrightarrow> sv39 m' p va = map_option (apfst cow) (sv39 m p va)) \<and>
     (\<forall>va. 256 \<le> vpn PGD_SHIFT va \<longrightarrow> sv39 m' p va = sv39 m p va)"

lemma copied_cong:
  assumes "copied p c m m'" "entries m1 = entries m" "entries m2 = entries m'" "heap_inv (mm_heap m2)" "\<And>r. heap_owners (mm_heap m') r \<le> heap_owners (mm_heap m2) r"
  shows "copied p c m1 m2"
proof -
  have "page_owned (mm_heap m') \<le> page_owned (mm_heap m2)" by (rule page_owned_mono) (rule assms(5))
  then have "page_owned (mm_heap m2) u" if "page_owned (mm_heap m') u" for u using that by (auto simp: le_fun_def)
  then show ?thesis using assms(1) pt_inv_cong [OF _ assms(3,4)] unfolding copied_def pt_cong(2) [OF assms(2)] pt_cong(2) [OF assms(3)] by metis
qed

lemma fork_space_cases:
  assumes pt: "pt_inv (tables s) p" "leaves_owned (tables s) p" and p: "p \<noteq> 0" "p \<noteq> kernel_pgd s"
  obtains (short) s' where "fork_space p s = Some (Inr (0, s'))" "heap_inv (sy_heap s')" "threads s' = threads s" "same_queue s s'"
    | (full) c s' where "fork_space p s = Some (Inr (c, s'))" "c \<noteq> 0" "heap_inv (sy_heap s')" "threads s' = threads s" "same_queue s s'"
        "sy_mem s' = sy_mem s" "files (sy_vfs s') = files (sy_vfs s)" "copied p c (tables s) (tables s')"
        "\<And>r. heap_owners (sy_heap s) r \<le> heap_owners (sy_heap s') r"
proof -
  define st where "st m = upd_mem (\<lambda>_. mm_mem m) (s\<lparr>sy_mm := m, sy_heap := mm_heap m\<rparr>)" for m
  have ev: "fork_space p s = Some (Inr (c, st m))" if "copy_pgd p (tables s) = Some (c, m)" for c m
    using that p by (simp add: fork_space_def kop_simps on_mm_def tables_def st_def)
  have f: "threads (st m) = threads s" "same_queue s (st m)" "sy_heap (st m) = mm_heap m" "sy_mem (st m) = mm_mem m" "files (sy_vfs (st m)) = files (sy_vfs s)"
    "entries (tables (st m)) = entries m" "mm_heap (tables (st m)) = mm_heap m" for m
    by (simp_all add: upd_mem_def same_queue_def tables_def st_def)
  from pt show thesis
  proof (cases rule: copy_pgd_cases)
    case (none h)
    show thesis by (rule short [OF ev [OF none(1)]]) (use f none(2) in simp_all)
  next
    case (short s1 m D E N)
    show thesis by (rule that(1) [OF ev [OF short(1)]]) (use f short(4) in simp_all)
  next
    case (full m N)
    note I = copy_invD [OF full(3)] and T = copy_translation(1) [OF full(3) pt user_levels]
    have k: "[vpn PGD_SHIFT va, vpn PMD_SHIFT va, vpn PTE_SHIFT va] \<notin> user_leaves (tables s) p" if "256 \<le> vpn PGD_SHIFT va" for va
      using that by (auto simp: user_leaves_def user_path_def)
    have u: "sv39 m p va = map_option (apfst cow) (sv39 (tables s) p va)" if "vpn PGD_SHIFT va < 256" for va
      using T [of va] sv39_path [OF pt(1) _ that] by (cases "sv39 (tables s) p va") auto
    have "copied p (N []) (tables s) m"
      using u T k copy_parent [OF full(3) pt(1) user_levels] copy_child [OF full(3) pt(1)] copy_child_translation [OF full(3) pt] by (simp add: copied_def)
    then have "copied p (N []) (tables s) (tables (st m))" by (rule copied_cong [OF _ refl f(6)]) (simp_all add: f I(1))
    moreover have "sy_mem (st m) = sy_mem s" unfolding f(4) I(12) by (simp add: tables_def)
    moreover have "heap_owners (sy_heap s) r \<le> heap_owners (sy_heap (st m)) r" for r using I(11) [of r] unfolding f(3) by (simp add: tables_def)
    ultimately show thesis using ev [OF full(1)] full(2) I(1) f by (intro that(2) [of "N []" "st m"]) simp_all
  qed
qed

section \<open>The rest of the child\<close>

lemma store_frame_outside:
  assumes "frame_fits p" "x < unat p \<or> unat p + 280 \<le> x"
  shows "store64 (reg_addr p r) v m x = m x"
  using assms(2) reg_index_less [of r] by (auto simp: store64_byte unat_reg_addr [OF assms(1)])

definition child_frame :: "u64 \<Rightarrow> pt_regs \<Rightarrow> pt_regs" where
  "child_frame child f = f(R_a0 := 0, R_tp := child, R_epc := f R_epc + 4)"

lemma fork_frame_effect:
  assumes "frame_fits cr"
  shows "load_regs cr (sy_mem (fork_frame E child cr s)) = child_frame child (load_regs cr (sy_mem s))"
    "\<And>x. x < unat cr \<or> unat cr + 280 \<le> x \<Longrightarrow> sy_mem (fork_frame E child cr s) x = sy_mem s x"
    "threads (fork_frame E child cr s) = (threads s)(child := (threads s child)\<lparr>ctx_sp := cr, ctx_ra := ret_from_exception E\<rparr>)"
    "same_queue s (fork_frame E child cr s)" "sy_heap (fork_frame E child cr s) = sy_heap s" "sy_mm (fork_frame E child cr s) = sy_mm s"
    "files (sy_vfs (fork_frame E child cr s)) = files (sy_vfs s)"
proof -
  show "load_regs cr (sy_mem (fork_frame E child cr s)) = child_frame child (load_regs cr (sy_mem s))"
    by (simp add: fork_frame_def upd_thread_def put_reg_def upd_mem_def get_reg_def load_regs_store [OF assms] child_frame_def flip: load_regs_def)
  show "sy_mem (fork_frame E child cr s) x = sy_mem s x" if "x < unat cr \<or> unat cr + 280 \<le> x" for x
    using store_frame_outside [OF assms that] by (simp add: fork_frame_def upd_thread_def put_reg_def upd_mem_def)
  show "threads (fork_frame E child cr s) = (threads s)(child := (threads s child)\<lparr>ctx_sp := cr, ctx_ra := ret_from_exception E\<rparr>)"
    by (simp add: fork_frame_def upd_thread_def Let_def)
qed (simp_all add: fork_frame_def upd_thread_def same_queue_def put_reg_def upd_mem_def Let_def)

lemma fork_finish:
  assumes inv: "heap_inv (sy_heap s)" and cr: "frame_fits cr" and par: "par \<noteq> child"
  obtains s' ws where "kbind (fork_vmas par child) (\<lambda>_. kbind (kfor (share_fd child) [0..<16]) (\<lambda>_. kbind (kmod (fork_frame E child cr)) (\<lambda>_.
      kbind (kmod (enqueue child)) (\<lambda>_. kget (\<lambda>s. pid (threads s child)))))) s = Some (Inr (pid (threads s child), enqueue child s'))"
    "heap_inv (sy_heap s')" "\<And>r. heap_owners (sy_heap s) r \<le> heap_owners (sy_heap s') r" "same_queue s s'" "sy_mm s' = sy_mm s"
    "\<forall>u. u \<noteq> child \<longrightarrow> threads s' u = threads s u"
    "threads s' child = (threads s child)\<lparr>vmas := ws, ctx_sp := cr, ctx_ra := ret_from_exception E\<rparr>"
    "map (vm_addr_update (\<lambda>_. 0)) ws = map (vm_addr_update (\<lambda>_. 0)) (take (length ws) (vmas (threads s par)))"
    "refs_added (fd_refs [0..<16] (fdt (threads s child))) (files (sy_vfs s)) (files (sy_vfs s'))"
    "load_regs cr (sy_mem s') = child_frame child (load_regs cr (sy_mem s))"
    "\<And>x. x < unat cr \<or> unat cr + 280 \<le> x \<Longrightarrow> sy_mem s' x = sy_mem s x"
proof -
  from copy_vma_list_grows [OF inv, of "vmas (threads s par)"] obtain ws h where w: "copy_vma_list (vmas (threads s par)) (sy_heap s) = Some (ws, h)" "heap_inv h"
    "\<forall>r. heap_owners (sy_heap s) r \<le> heap_owners h r"
    "map (vm_addr_update (\<lambda>_. 0)) ws = map (vm_addr_update (\<lambda>_. 0)) (take (length ws) (vmas (threads s par)))" by blast
  define s1 where "s1 = upd_thread child (\<lambda>th. th\<lparr>vmas := ws\<rparr>) (s\<lparr>sy_heap := h\<rparr>)"
  have 1: "fork_vmas par child s = Some (Inr ((), s1))" using w(1) by (simp add: fork_vmas_def kop_simps on_heap_vmas_def s1_def)
  have s1: "sy_heap s1 = h" "sy_mm s1 = sy_mm s" "sy_vfs s1 = sy_vfs s" "same_queue s s1" "threads s1 = (threads s)(child := (threads s child)\<lparr>vmas := ws\<rparr>)"
    by (simp_all add: s1_def upd_thread_def same_queue_def)
  from share_fds_effect [of child "[0..<16]" s1] obtain s2 where s2: "kfor (share_fd child) [0..<16] s1 = Some (Inr ((), s2))" "same_but_files s1 s2"
    "threads s2 = threads s1" "sy_mem s2 = sy_mem s1" "refs_added (fd_refs [0..<16] (fdt (threads s1 child))) (files (sy_vfs s1)) (files (sy_vfs s2))" by blast
  note F = fork_frame_effect [OF cr, where E = E and child = child and s = s2]
  let ?s3 = "fork_frame E child cr s2"
  have p: "pid (threads (enqueue child ?s3) child) = pid (threads s child)" by (simp add: F(3) s2(3) s1(5))
  show thesis
  proof (rule that [of ?s3 ws])
    show "kbind (fork_vmas par child) (\<lambda>_. kbind (kfor (share_fd child) [0..<16]) (\<lambda>_. kbind (kmod (fork_frame E child cr)) (\<lambda>_.
        kbind (kmod (enqueue child)) (\<lambda>_. kget (\<lambda>s. pid (threads s child)))))) s = Some (Inr (pid (threads s child), enqueue child ?s3))"
      unfolding kbind_Inr [where m = "fork_vmas par child", OF 1] kbind_Inr [where m = "kfor (share_fd child) [0..<16]", OF s2(1)]
      using p by (simp add: kop_simps)
    show "heap_owners (sy_heap s) r \<le> heap_owners (sy_heap ?s3) r" for r
    proof -
      have "sy_heap ?s3 = h" using s1(1) s2(2) by (simp add: F(5) same_but_files_def)
      then show ?thesis using w(3) by metis
    qed
  qed (use w(2,4) s1 s2(2-5) F par in \<open>auto simp: same_queue_def same_but_files_def\<close>)
qed

section \<open>The system call\<close>

lemma leaves_owned_cong:
  assumes "leaves_owned m p" "entries m' = entries m" "\<And>t. page_owned (mm_heap m) t \<Longrightarrow> page_owned (mm_heap m') t"
  shows "leaves_owned m' p"
proof -
  have "entry_at m' = entry_at m" "user_path m' = user_path m" unfolding fun_eq_iff entry_at_def user_path_def pt_cong(1) [OF assms(2)] assms(2) by simp_all
  then show ?thesis using assms(1,3) by (simp add: leaves_owned_def)
qed

lemma queue_ok_cong:
  assumes "queue_ok us s" "\<forall>u \<in> set us. threads s' u = threads s u" "run_queue s' = run_queue s"
  shows "queue_ok us s'"
  using assms linked_cong [of us "threads s'" "threads s"] by (auto simp: queue_ok_def ring_def)

text \<open>The new thread before it gets an address space, and the state then.\<close>

definition new_child :: "sys \<Rightarrow> u64 \<Rightarrow> thread" where
  "new_child s ks = (threads s (tp s))\<lparr>pid := nr_threads s, th_status := THREAD_READY, th_parent := tp s, sigpending := 0,
     is_handling_signal := False, signal_stack_page := 0, signal_stack_vaddr := 0, kernel_stack := ks\<rparr>"

definition with_child :: "u64 \<Rightarrow> u64 \<Rightarrow> heap \<Rightarrow> sys \<Rightarrow> sys" where
  "with_child child ks h s = s\<lparr>nr_threads := nr_threads s + 1, sy_heap := h, threads := (threads s)(child := new_child s ks)\<rparr>"

lemma sys_fork_start:
  assumes "allocate SIZEOF_THREAD (sy_heap s) = Some (child, h)" "child \<noteq> 0" "allocate KERNEL_STACK_SIZE h = Some (ks, h')" "child \<noteq> tp s"
  defines "par \<equiv> threads s (tp s)"
  shows "sys_fork E regs s =
    (if ks = 0 then kbind (sys_free child) (\<lambda>_. kret (- 1)) (with_child child 0 h' s)
     else kbind (fork_space (pgd par)) (\<lambda>p.
         kbind (kmod (upd_thread child (\<lambda>th. th\<lparr>pgd := p\<rparr>))) (\<lambda>_.
         if p = 0 then kbind (sys_free ks) (\<lambda>_. kbind (sys_free child) (\<lambda>_. kret (- 1)))
         else
           kbind (fork_vmas (tp s) child) (\<lambda>_.
           kbind (kfor (share_fd child) [0..<16]) (\<lambda>_.
           kbind (kmod (fork_frame E child (regs + (ks - kernel_stack par)))) (\<lambda>_.
           kbind (kmod (enqueue child)) (\<lambda>_.
           kget (\<lambda>s. pid (threads s child))))))))
        (upd_mem (memcpy (unat ks) (unat (kernel_stack par)) (unat KERNEL_STACK_SIZE)) (with_child child ks h' s)))"
  unfolding par_def
  using assms(1-4) by (simp add: sys_fork_def sys_alloc_def kbind_Inr kop_simps upd_thread_def with_child_def new_child_def upd_mem_def cong: if_cong)

text \<open>Without memory: the queue, the threads in it and the heap are in order.\<close>

definition fork_failed :: "u64 list \<Rightarrow> sys \<Rightarrow> sys \<Rightarrow> bool" where
  "fork_failed us s s' \<longleftrightarrow> heap_inv (sy_heap s') \<and> queue_ok us s' \<and> tp s' = tp s \<and> (\<forall>u \<in> set us. threads s' u = threads s u)"

lemma sys_free_total: "heap_inv (sy_heap s) \<Longrightarrow> \<exists>h. sys_free p s = Some (Inr ((), s\<lparr>sy_heap := h\<rparr>)) \<and> heap_inv h"
  using free_owners [of "sy_heap s" p] by (auto simp: sys_free_def)

lemma fork_failedI:
  assumes "queue_ok us s" "child \<notin> set us" "heap_inv h" "tp s1 = tp s" "run_queue s1 = run_queue s" "\<forall>u. u \<noteq> child \<longrightarrow> threads s1 u = threads s u"
  shows "fork_failed us s (s1\<lparr>sy_heap := h\<rparr>)"
proof -
  have "\<forall>u \<in> set us. threads (s1\<lparr>sy_heap := h\<rparr>) u = threads s u" using assms(2,6) by auto
  with queue_ok_cong [OF assms(1) this] assms(3-5) show ?thesis by (simp add: fork_failed_def)
qed

text \<open>The copy of the stack of the parent: the frame is there at the same offset, and the parent's stays.\<close>

lemma stack_copy:
  assumes kp: "kp \<le> regs" "unat regs + 280 \<le> unat kp + 8192" and b: "unat kp + 8192 \<le> 2 ^ 64" "unat ks + 8192 \<le> 2 ^ 64"
    and ap: "unat kp + 8192 \<le> unat ks \<or> unat ks + 8192 \<le> unat kp"
  defines "cr \<equiv> regs + (ks - kp)"
  shows "frame_fits regs" "frame_fits cr" "load_regs cr (memcpy (unat ks) (unat kp) 8192 m) = load_regs regs m"
    "\<And>m'. (\<And>x. x < unat cr \<or> unat cr + 280 \<le> x \<Longrightarrow> m' x = memcpy (unat ks) (unat kp) 8192 m x) \<Longrightarrow> load_regs regs m' = load_regs regs m"
proof -
  have d: "unat (regs - kp) = unat regs - unat kp" "unat kp \<le> unat regs" using kp(1) by (simp_all add: unat_sub word_le_nat_alt)
  have "cr = ks + (regs - kp)" by (simp add: cr_def)
  moreover have "unat ks + unat (regs - kp) < 2 ^ 64" using kp(2) b(2) d by linarith
  ultimately have cr: "unat cr = unat ks + (unat regs - unat kp)" using d(1) by (simp add: unat_word_ariths)
  show f: "frame_fits regs" using kp(2) b(1) by (simp add: frame_fits_def)
  show f': "frame_fits cr" using kp(2) b(2) d(2) by (simp add: frame_fits_def cr)
  note C = memcpy_correct [OF ap, of m]
  show "load_regs cr (memcpy (unat ks) (unat kp) 8192 m) = load_regs regs m"
  proof (rule load_regs_moved [OF f f'])
    fix i :: nat assume "i < 280"
    then have "unat ks \<le> unat cr + i" "unat cr + i < unat ks + 8192" "unat kp + (unat cr + i - unat ks) = unat regs + i" using kp(2) d(2) by (simp_all add: cr)
    then show "memcpy (unat ks) (unat kp) 8192 m (unat cr + i) = m (unat regs + i)" by (simp add: C)
  qed
  show "load_regs regs m' = load_regs regs m" if "\<And>x. x < unat cr \<or> unat cr + 280 \<le> x \<Longrightarrow> m' x = memcpy (unat ks) (unat kp) 8192 m x" for m'
  proof (rule load_regs_cong [OF f])
    fix a assume a: "unat regs \<le> a" "a < unat regs + 280"
    then have "a < unat ks \<or> unat ks + 8192 \<le> a" using ap kp(2) d(2) by linarith
    moreover have "a < unat cr \<or> unat cr + 280 \<le> a" using a ap kp(2) d(2) unfolding cr by linarith
    ultimately show "m' a = m a" using that [of a] by (auto simp: C)
  qed
qed

text \<open>What a successful call leaves: the child \<open>t\<close> in the state \<open>s'\<close>.\<close>

definition forked :: "sys_env \<Rightarrow> u64 list \<Rightarrow> sys \<Rightarrow> u64 \<Rightarrow> u64 \<Rightarrow> sys \<Rightarrow> bool" where
  "forked E us s regs t s' \<longleftrightarrow> (let par = threads s (tp s); c = threads s' t in
     t \<notin> set us \<and> thread_inv (second t us) s' \<and> tp s' = tp s \<and>
     pid c = nr_threads s \<and> th_status c = THREAD_READY \<and> th_parent c = tp s \<and> sigpending c = 0 \<and> \<not> is_handling_signal c \<and>
     ctx_ra c = ret_from_exception E \<and> load_regs (ctx_sp c) (sy_mem s') = child_frame t (load_regs regs (sy_mem s)) \<and>
     load_regs regs (sy_mem s') = load_regs regs (sy_mem s) \<and> copied (pgd par) (pgd c) (tables s) (tables s') \<and>
     map (vm_addr_update (\<lambda>_. 0)) (vmas c) = map (vm_addr_update (\<lambda>_. 0)) (take (length (vmas c)) (vmas par)) \<and>
     fdt c = fdt par \<and> refs_added (fd_refs [0..<16] (fdt par)) (files (sy_vfs s)) (files (sy_vfs s')))"

lemma enqueue_thread_more [simp]:
  "th_parent (threads (enqueue t s) u) = th_parent (threads s u)" "sigpending (threads (enqueue t s) u) = sigpending (threads s u)"
  "is_handling_signal (threads (enqueue t s) u) = is_handling_signal (threads s u)" "pgd (threads (enqueue t s) u) = pgd (threads s u)"
  "vmas (threads (enqueue t s) u) = vmas (threads s u)" "sy_mm (enqueue t s) = sy_mm s"
  by (auto simp: enqueue_def upd_thread_def Let_def)

lemma sys_fork_full:
  assumes inv: "thread_inv us s" and t: "t \<notin> set us" "t \<noteq> tp s" "t \<noteq> 0"
    and s1: "threads s1 = (threads s)(t := new_child s ks)" "nr_threads s1 = nr_threads s + 1" "tp s1 = tp s" "run_queue s1 = run_queue s"
      "files (sy_vfs s1) = files (sy_vfs s)" "sy_mem s1 = memcpy (unat ks) (unat (kernel_stack (threads s (tp s)))) 8192 (sy_mem s)"
      "entries (tables s1) = entries (tables s)" "\<And>r. heap_owners (sy_heap s) r \<le> heap_owners (sy_heap s1) r" "live (sy_heap s1) t"
    and s2: "heap_inv (sy_heap s2)" "threads s2 = threads s1" "same_queue s1 s2" "sy_mem s2 = sy_mem s1" "files (sy_vfs s2) = files (sy_vfs s1)"
      "copied (pgd (threads s (tp s))) c (tables s1) (tables s2)" "\<And>r. heap_owners (sy_heap s1) r \<le> heap_owners (sy_heap s2) r"
    and fr: "kernel_stack (threads s (tp s)) \<le> regs" "unat regs + 280 \<le> unat (kernel_stack (threads s (tp s))) + 8192"
      "unat (kernel_stack (threads s (tp s))) + 8192 \<le> 2 ^ 64" "unat ks + 8192 \<le> 2 ^ 64"
      "unat (kernel_stack (threads s (tp s))) + 8192 \<le> unat ks \<or> unat ks + 8192 \<le> unat (kernel_stack (threads s (tp s)))"
  shows "\<exists>s'. kbind (fork_vmas (tp s) t) (\<lambda>_. kbind (kfor (share_fd t) [0..<16]) (\<lambda>_.
      kbind (kmod (fork_frame E t (regs + (ks - kernel_stack (threads s (tp s)))))) (\<lambda>_. kbind (kmod (enqueue t)) (\<lambda>_.
      kget (\<lambda>s. pid (threads s t)))))) (upd_thread t (\<lambda>th. th\<lparr>pgd := c\<rparr>) s2) = Some (Inr (nr_threads s, s')) \<and> forked E us s regs t s'"
proof -
  let ?par = "threads s (tp s)" and ?cr = "regs + (ks - kernel_stack (threads s (tp s)))"
  let ?s3 = "upd_thread t (\<lambda>th. th\<lparr>pgd := c\<rparr>) s2"
  note F = stack_copy [OF fr]
  have s3: "sy_heap ?s3 = sy_heap s2" "sy_mm ?s3 = sy_mm s2" "sy_vfs ?s3 = sy_vfs s2" "same_queue s2 ?s3"
    "threads ?s3 = (threads s)(t := (new_child s ks)\<lparr>pgd := c\<rparr>)"
    using s1(1) s2(2) by (simp_all add: upd_thread_def same_queue_def)
  have "heap_inv (sy_heap ?s3)" "tp s \<noteq> t" using s2(1) s3(1) t(2) by simp_all
  from fork_finish [OF this(1) F(2) this(2), of E] obtain s' ws where
    f: "kbind (fork_vmas (tp s) t) (\<lambda>_. kbind (kfor (share_fd t) [0..<16]) (\<lambda>_. kbind (kmod (fork_frame E t ?cr)) (\<lambda>_.
        kbind (kmod (enqueue t)) (\<lambda>_. kget (\<lambda>s. pid (threads s t)))))) ?s3 = Some (Inr (pid (threads ?s3 t), enqueue t s'))"
      "heap_inv (sy_heap s')" "\<And>r. heap_owners (sy_heap ?s3) r \<le> heap_owners (sy_heap s') r" "same_queue ?s3 s'" "sy_mm s' = sy_mm ?s3"
      "\<forall>u. u \<noteq> t \<longrightarrow> threads s' u = threads ?s3 u" "threads s' t = (threads ?s3 t)\<lparr>vmas := ws, ctx_sp := ?cr, ctx_ra := ret_from_exception E\<rparr>"
      "map (vm_addr_update (\<lambda>_. 0)) ws = map (vm_addr_update (\<lambda>_. 0)) (take (length ws) (vmas (threads ?s3 (tp s))))"
      "refs_added (fd_refs [0..<16] (fdt (threads ?s3 t))) (files (sy_vfs ?s3)) (files (sy_vfs s'))"
      "load_regs ?cr (sy_mem s') = child_frame t (load_regs ?cr (sy_mem ?s3))"
      "\<And>x. x < unat ?cr \<or> unat ?cr + 280 \<le> x \<Longrightarrow> sy_mem s' x = sy_mem ?s3 x" by blast
  have mono: "heap_owners (sy_heap s1) r \<le> heap_owners (sy_heap s') r" "heap_owners (sy_heap s2) r \<le> heap_owners (sy_heap s') r" for r
    using s2(7) [of r] f(3) [of r] unfolding s3(1) by simp_all
  have mono0: "heap_owners (sy_heap s) r \<le> heap_owners (sy_heap s') r" for r using s1(8) mono(1) by (rule le_trans)
  have ch: "threads s' t = (new_child s ks)\<lparr>pgd := c, vmas := ws, ctx_sp := ?cr, ctx_ra := ret_from_exception E\<rparr>" by (simp add: f(7) s3(5))
  have live: "\<forall>u \<in> insert t (set us). live (sy_heap s') u"
    using inv live_mono [OF s1(9) mono(1)] live_mono [OF _ mono0] by (auto simp: thread_inv_def)
  have "thread_inv (second t us) (enqueue t s')"
    using t s1(2-4) s2(3) s3(4,5) f(2,4,6) live ch by (intro thread_inv_enqueue [OF inv]) (auto simp: same_queue_def new_child_def)
  moreover have "copied (pgd ?par) c (tables s) (tables (enqueue t s'))"
    by (rule copied_cong [OF s2(6) s1(7) [symmetric]]) (simp_all add: f(2,5) s3(2) mono tables_def)
  moreover have "load_regs ?cr (sy_mem s') = child_frame t (load_regs regs (sy_mem s))" using f(10) F(3) by (simp add: s3(3) s2(4) s1(6))
  moreover have "load_regs regs (sy_mem s') = load_regs regs (sy_mem s)" using f(11) by (intro F(4)) (simp add: s3(3) s2(4) s1(6))
  ultimately have "forked E us s regs t (enqueue t s')"
    using t s1(3,5) s2(3,5) s3(3-5) f(4,8,9) by (simp add: forked_def Let_def ch new_child_def same_queue_def)
  moreover have "pid (threads ?s3 t) = nr_threads s" by (simp add: s3(5) new_child_def)
  ultimately show ?thesis using f(1) by auto
qed

text \<open>The call with memory for the thread \<open>t\<close> and its stack \<open>ks\<close>.\<close>

lemma sys_fork_stack:
  assumes inv: "thread_inv us s" and par: "par = threads s (tp s)" "pgd par \<noteq> 0" "pgd par \<noteq> kernel_pgd s"
    and pt: "pt_inv (tables s) (pgd par)" "leaves_owned (tables s) (pgd par)"
    and stack: "0 < heap_owners (sy_heap s) (unat (kernel_stack par), l)" "8192 \<le> l"
    and frame: "kernel_stack par \<le> regs" "unat regs + 280 \<le> unat (kernel_stack par) + 8192"
    and t: "t \<notin> set us" "t \<noteq> tp s" "t \<noteq> 0"
    and al: "allocate SIZEOF_THREAD (sy_heap s) = Some (t, h1)" "\<And>r. heap_owners (sy_heap s) r \<le> heap_owners h1 r" "0 < heap_owners h1 (unat t, l1)"
    and ks: "allocate KERNEL_STACK_SIZE h1 = Some (ks, h2)" "ks \<noteq> 0" "heap_inv h2" "unat KERNEL_STACK_SIZE \<le> l2" "\<And>r. heap_owners h1 r \<le> heap_owners h2 r"
      "0 < heap_owners h2 (unat ks, l2)" "\<forall>r. 0 < heap_owners h1 r \<longrightarrow> apart r (unat ks, l2)"
  shows "(\<exists>s'. sys_fork E regs s = Some (Inr (- 1, s')) \<and> fork_failed us s s') \<or>
    (\<exists>s'. sys_fork E regs s = Some (Inr (nr_threads s, s')) \<and> forked E us s regs t s')"
proof -
  have h: "heap_inv (sy_heap s)" and q: "queue_ok us s" using inv by (auto simp: thread_inv_def)
  define s1 where "s1 = upd_mem (memcpy (unat ks) (unat (kernel_stack par)) (unat KERNEL_STACK_SIZE)) (with_child t ks h2 s)"
  note ev = sys_fork_start [OF al(1) t(3) ks(1) t(2), of E regs, folded par(1), unfolded if_not_P [OF ks(2)], folded s1_def]
  have mono: "heap_owners (sy_heap s) r \<le> heap_owners h2 r" for r using al(2) ks(5) by (rule le_trans)
  have s1: "threads s1 = (threads s)(t := new_child s ks)" "nr_threads s1 = nr_threads s + 1" "tp s1 = tp s" "run_queue s1 = run_queue s"
    "files (sy_vfs s1) = files (sy_vfs s)" "sy_mem s1 = memcpy (unat ks) (unat (kernel_stack par)) 8192 (sy_mem s)"
    "entries (tables s1) = entries (tables s)" "sy_heap s1 = h2" "kernel_pgd s1 = kernel_pgd s" "mm_heap (tables s1) = h2" "mm_heap (tables s) = sy_heap s"
    by (simp_all add: s1_def with_child_def upd_mem_def tables_def KERNEL_STACK_SIZE_def)
  have own: "page_owned (mm_heap (tables s1)) u" if "page_owned (mm_heap (tables s)) u" for u
    using that page_owned_mono [of "sy_heap s" h2, OF mono] unfolding s1(10,11) by (auto simp: le_fun_def)
  have pt1: "pt_inv (tables s1) (pgd par)" "leaves_owned (tables s1) (pgd par)"
    using pt_inv_cong [OF pt(1) s1(7)] leaves_owned_cong [OF pt(2) s1(7)] own ks(3) by (simp_all add: s1(10))
  have k1: "pgd par \<noteq> kernel_pgd s1" using par(3) s1(9) by simp
  have kst: "0 < heap_owners h1 (unat (kernel_stack par), l)" using stack(1) al(2) by (rule less_le_trans)
  have l2: "8192 \<le> l2" using ks(4) by (simp add: KERNEL_STACK_SIZE_def)
  have fr: "unat (kernel_stack par) + 8192 \<le> 2 ^ 64" "unat ks + 8192 \<le> 2 ^ 64"
    "unat (kernel_stack par) + 8192 \<le> unat ks \<or> unat ks + 8192 \<le> unat (kernel_stack par)"
    using heap_owned_bound [OF h stack(1)] stack(2) heap_owned_bound [OF ks(3,6)] l2 ks(7) [rule_format, OF kst] by (auto simp: apart_def)
  have lt: "live h2 t" using live_mono [OF _ ks(5), of t] al(3) by (auto simp: live_def)
  from pt1 par(2) k1 show ?thesis
  proof (cases rule: fork_space_cases)
    case (short s2)
    let ?s3 = "upd_thread t (\<lambda>th. th\<lparr>pgd := 0\<rparr>) s2"
    obtain h3 where h3: "sys_free ks ?s3 = Some (Inr ((), ?s3\<lparr>sy_heap := h3\<rparr>))" "heap_inv h3"
      using sys_free_total [of ?s3 ks] short(2) by (auto simp: upd_thread_def)
    obtain h4 where h4: "sys_free t (?s3\<lparr>sy_heap := h3\<rparr>) = Some (Inr ((), ?s3\<lparr>sy_heap := h4\<rparr>))" "heap_inv h4"
      using sys_free_total [of "?s3\<lparr>sy_heap := h3\<rparr>" t] h3(2) by auto
    have "fork_failed us s (?s3\<lparr>sy_heap := h4\<rparr>)"
      using short(3,4) s1(1,3,4) by (intro fork_failedI [OF q t(1) h4(2)]) (auto simp: upd_thread_def same_queue_def)
    moreover have "sys_fork E regs s = Some (Inr (- 1, ?s3\<lparr>sy_heap := h4\<rparr>))"
      unfolding ev kbind_Inr [where m = "fork_space (pgd par)", OF short(1)] using h3(1) h4(1) by (simp add: kop_simps kbind_Inr)
    ultimately show ?thesis by blast
  next
    case (full c s2)
    from sys_fork_full [OF inv t s1(1-5) s1(6) [unfolded par(1)] s1(7), of s2 c regs E] obtain s' where
      s': "sys_fork E regs s = Some (Inr (nr_threads s, s'))" "forked E us s regs t s'"
      unfolding ev kbind_Inr [where m = "fork_space (pgd par)", OF full(1)] using full mono lt frame fr by (auto simp: kop_simps s1(8) par(1))
    then show ?thesis by blast
  qed
qed


text \<open>A heap with a kernel stack, a root table and a thread in it.\<close>

lemma heap4_stack:
  obtains ks h l where "allocate 8192 heap4 = Some (ks, h)" "page_room 2 h" "8192 \<le> l" "0 < heap_owners h (unat ks, l)"
proof -
  note inv = conjunct1 [OF heap4_inv]
  have "2048 < unat (8192 :: u64)" "(8192 :: u64) \<le> MAX_ALLOC_SIZE" by (simp_all add: MAX_ALLOC_SIZE_def word_le_nat_alt)
  from allocate_pages [OF inv this] obtain ord where
    o: "allocate 8192 heap4 = Some (fst (buddy_alloc_pages ord pool4), heap4\<lparr>hp_buddy := snd (buddy_alloc_pages ord pool4)\<rparr>)"
      "8192 \<le> 2 ^ ord * (4096 :: nat)" "\<forall>j < ord. 2 ^ j * 4096 < (8192 :: nat)" by (auto simp: heap4_def)
  have ord: "ord = 1"
  proof (rule ccontr)
    assume "ord \<noteq> 1"
    moreover have "ord \<noteq> 0" using o(2) by (cases "ord = 0") auto
    ultimately have "1 < ord" by simp
    with o(3) have "(2 :: nat) ^ 1 * 4096 < 8192" by blast
    then show False by simp
  qed
  have c: "card (free_pages (snd (buddy_alloc_pages 1 pool4))) = 2"
    using pool4_inv pool4_alloc
  proof (cases rule: alloc_success)
    case (1 j)
    then show ?thesis by (simp add: pool4_free card_Diff_subset)
  qed
  from inv show thesis
  proof (cases rule: allocate_region [where len = 8192])
    case (null h)
    then show thesis using o(1) ord pool4_alloc by simp
  next
    case (given p h l)
    then have "page_room 2 h" using o(1) ord c by (auto simp: page_room_def)
    with given show thesis by (intro that [of p h l]) simp_all
  qed
qed

definition fork_sys :: "heap \<Rightarrow> u64 \<Rightarrow> u64 \<Rightarrow> u64 \<Rightarrow> sys" where
  "fork_sys h t p ks = demo_sys\<lparr>sy_heap := h, sy_mm := mm_of h, tp := t, run_queue := t,
     threads := (\<lambda>_. zero_thread)(t := zero_thread\<lparr>pgd := p, kernel_stack := ks, th_next := t, pid := 3\<rparr>)\<rparr>"

lemma fork_sys_fields:
  "sy_heap (fork_sys h t p ks) = h" "tp (fork_sys h t p ks) = t" "run_queue (fork_sys h t p ks) = t" "nr_threads (fork_sys h t p ks) = 4"
  "kernel_pgd (fork_sys h t p ks) = 0" "sy_mm (fork_sys h t p ks) = mm_of h"
  "threads (fork_sys h t p ks) t = zero_thread\<lparr>pgd := p, kernel_stack := ks, th_next := t, pid := 3\<rparr>"
  by (simp_all add: fork_sys_def demo_sys_def)

lemma fork_sys_tables:
  assumes "heap_inv h" "page_owned h p"
  shows "pt_inv (tables (fork_sys h t p ks)) p" "leaves_owned (tables (fork_sys h t p ks)) p"
proof -
  have ent: "entries (tables (fork_sys h t p ks)) = entries (mm_of h)" "mm_heap (tables (fork_sys h t p ks)) = h" by (simp_all add: tables_def fork_sys_fields)
  show "pt_inv (tables (fork_sys h t p ks)) p" by (rule pt_inv_cong [OF mm_of_inv(1) [OF assms] ent(1)]) (simp_all add: ent(2) assms(1) mm_of_def)
  show "leaves_owned (tables (fork_sys h t p ks)) p"
    by (auto simp: leaves_owned_def user_path_def entry_at_def ent(1) mm_of_def split: option.splits)
qed

lemma fork_sys_inv: "heap_inv h \<Longrightarrow> live h t \<Longrightarrow> t \<noteq> 0 \<Longrightarrow> thread_inv [t] (fork_sys h t p ks)"
  by (simp add: thread_inv_def queue_ok_def ring_def fork_sys_fields)

lemma heap4_process:
  obtains h t p ks l where "heap_inv h" "live h t" "t \<noteq> 0" "page_owned h p" "p \<noteq> 0" "0 < heap_owners h (unat (ks :: u64), l)" "8192 \<le> l"
proof -
  obtain ks h1 l where ks: "page_room 2 h1" "8192 \<le> l" "0 < heap_owners h1 (unat (ks :: u64), l)" using heap4_stack by blast
  have "page_room (Suc 1) h1" using ks(1) by (simp add: numeral_eq_Suc)
  then obtain p h2 where p: "allocate PAGE_SIZE h1 = Some (p, h2)" "p \<noteq> 0" "page_room 1 h2" "page_owned h2 = (page_owned h1)(p := True)" by (rule allocate_room)
  have "page_room (Suc 0) h2" using p(3) by simp
  then obtain t h where t: "allocate PAGE_SIZE h2 = Some (t, h)" "t \<noteq> 0" "page_room 0 h" "page_owned h = (page_owned h2)(t := True)" by (rule allocate_room)
  have "grows h1 h2" "grows h2 h" using allocate_grows [of h1 PAGE_SIZE] allocate_grows [of h2 PAGE_SIZE] p(1,3) t(1) ks(1) by (auto simp: page_room_def)
  then have o: "0 < heap_owners h (unat ks, l)" using ks(3) by (simp add: grows_def)
  have "live h t" using t(4) by (auto simp: live_def page_owned_def fun_eq_iff)
  then show thesis using p t ks(2) o by (intro that [of h t p ks l]) (simp_all add: page_room_def)
qed


end
