(* ===== verification/Fdt.thy ===== *)
theory Fdt
  imports CString Align_Endian Vma
begin

text \<open>
  \<open>src/lib/fdt.c\<close>: the reader of the flattened device tree that the boot loader leaves in memory.
  Pointers are 64-bit words, offsets from the start of the tree are \<open>int\<close>s as in the source. String
  literals and the local path buffers are lists of bytes without the terminator. A walk over a tree
  that never ends is \<open>None\<close>; a path that does not fit its buffer on the stack is a fault.
\<close>

section \<open>Reading\<close>

type_synonym 'a fres = "(kernel_fault + 'a) option"

definition fret :: "'a \<Rightarrow> 'a fres" where
  "fret x = Some (Inr x)"

definition fbind :: "'a fres \<Rightarrow> ('a \<Rightarrow> 'b fres) \<Rightarrow> 'b fres" where
  "fbind r f = Option.bind r (\<lambda>x. case x of Inl e \<Rightarrow> Some (Inl e) | Inr x \<Rightarrow> f x)"

definition lit :: "string \<Rightarrow> u8 list" where
  "lit s = map of_char s"

definition load32 :: "mem \<Rightarrow> u64 \<Rightarrow> u32" where
  "load32 m a = foldr (\<lambda>i w. push_bit 8 w OR ucast (m (unat a + i))) [0..<4] 0"

definition be32 :: "mem \<Rightarrow> u64 \<Rightarrow> u32" where
  "be32 m a = bswap32 (load32 m a)"

definition FDT_BEGIN_NODE :: u32 where "FDT_BEGIN_NODE = 1"
definition FDT_END_NODE :: u32 where "FDT_END_NODE = 2"
definition FDT_PROP :: u32 where "FDT_PROP = 3"
definition FDT_NOP :: u32 where "FDT_NOP = 4"
definition FDT_END :: u32 where "FDT_END = 9"
definition FDT_MAGIC :: u32 where "FDT_MAGIC = 0xd00dfeed"

text \<open>The fields of the header that are used.\<close>

definition fdt_magic :: "mem \<Rightarrow> u64 \<Rightarrow> u32" where "fdt_magic m fdt = be32 m fdt"
definition totalsize :: "mem \<Rightarrow> u64 \<Rightarrow> u32" where "totalsize m fdt = be32 m (fdt + 4)"
definition off_dt_struct :: "mem \<Rightarrow> u64 \<Rightarrow> u32" where "off_dt_struct m fdt = be32 m (fdt + 8)"
definition off_dt_strings :: "mem \<Rightarrow> u64 \<Rightarrow> u32" where "off_dt_strings m fdt = be32 m (fdt + 12)"

definition offset_of :: "u64 \<Rightarrow> u64 \<Rightarrow> int" where
  "offset_of fdt p = sint (ucast (p - fdt) :: u32)"

text \<open>The bytes of a C string, and \<open>strcmp(p, s) == 0\<close> for a string \<open>s\<close> that is not in memory.\<close>

definition string_at :: "mem \<Rightarrow> u64 \<Rightarrow> u8 list option" where
  "string_at m p = map_option (\<lambda>n. map (\<lambda>i. m (unat p + i)) [0..<n]) (strlen m (unat p))"

fun str_eq :: "mem \<Rightarrow> nat \<Rightarrow> u8 list \<Rightarrow> bool" where
  "str_eq m p [] \<longleftrightarrow> m p = 0"
| "str_eq m p (c # cs) \<longleftrightarrow> m p = c \<and> str_eq m (p + 1) cs"

text \<open>Past a name, and past a property value of length \<open>len\<close>.\<close>

definition skip_name :: "u64 \<Rightarrow> nat \<Rightarrow> u64" where
  "skip_name p n = align_up_ptr (p + of_nat n + 1) 4"

definition skip_prop :: "u64 \<Rightarrow> u32 \<Rightarrow> u64" where
  "skip_prop p len = align_up_ptr (p + 8 + ucast len) 4"

section \<open>Finding a node by its path\<close>

abbreviation slash :: u8 where "slash \<equiv> 47"
abbreviation at_sign :: u8 where "at_sign \<equiv> 64"

text \<open>A unit address in the tree is optional in the path.\<close>

function match_path :: "u8 list \<Rightarrow> u8 list \<Rightarrow> bool" where
  "match_path current [] \<longleftrightarrow> current = [] \<or> hd current = at_sign"
| "match_path [] (p # ps) \<longleftrightarrow> False"
| "match_path (c # cs) (p # ps) \<longleftrightarrow>
     (if c = p then match_path cs ps
      else if c = at_sign \<and> p = slash then match_path (dropWhile (\<lambda>x. x \<noteq> slash) (c # cs)) (p # ps)
      else False)"
  by pat_completeness auto
termination
  by (relation "measure (\<lambda>(c, p). length c + length p)") (auto simp: le_imp_less_Suc length_dropWhile_le)

text \<open>The current path on the way into a node and out of it.\<close>

definition enter_node :: "u8 list \<Rightarrow> u8 list \<Rightarrow> u8 list" where
  "enter_node cur name =
     (if cur = [] then [slash] else if length cur > 1 then cur @ slash # name else cur @ name)"

definition leave_node :: "u8 list \<Rightarrow> u8 list" where
  "leave_node cur =
     (if length cur \<le> 1 then []
      else
        let cur = rev (dropWhile (\<lambda>c. c \<noteq> slash) (rev cur))
        in if length cur > 1 then butlast cur else cur)"

partial_function (option) path_loop :: "mem \<Rightarrow> u64 \<Rightarrow> u8 list \<Rightarrow> u64 \<Rightarrow> u8 list \<Rightarrow> int fres" where
  "path_loop m fdt path p cur =
     (let token = be32 m p; token_offset = offset_of fdt p; p = p + 4
      in if token = FDT_BEGIN_NODE
         then
           Option.bind (string_at m p) (\<lambda>name.
             let cur = enter_node cur name
             in if length cur \<ge> 1024 then Some (Inl Buffer_overrun)
                else if match_path cur path then Some (Inr token_offset)
                else path_loop m fdt path (skip_name p (length name)) cur)
         else if token = FDT_END_NODE then path_loop m fdt path p (leave_node cur)
         else if token = FDT_PROP then path_loop m fdt path (skip_prop p (be32 m p)) cur
         else if token = FDT_END then Some (Inr (- 1))
         else path_loop m fdt path p cur)"

definition fdt_path_offset :: "mem \<Rightarrow> u64 \<Rightarrow> u8 list \<Rightarrow> int fres" where
  "fdt_path_offset m fdt path =
     (if fdt_magic m fdt \<noteq> FDT_MAGIC then fret (- 1)
      else path_loop m fdt path (fdt + ucast (off_dt_struct m fdt)) [])"

section \<open>Properties\<close>

text \<open>The address and length of the value of a property; \<open>None\<close> is the null pointer.\<close>

partial_function (option) getprop_loop :: "mem \<Rightarrow> u64 \<Rightarrow> u8 list \<Rightarrow> u64 \<Rightarrow> (u64 \<times> int) option fres" where
  "getprop_loop m strings name p =
     (let token = be32 m p; p = p + 4
      in if token = FDT_PROP
         then
           let len = be32 m p; nameoff = be32 m (p + 4)
           in if str_eq m (unat (strings + ucast nameoff)) name then Some (Inr (Some (p + 8, sint len)))
              else getprop_loop m strings name (skip_prop p len)
         else if token = FDT_NOP then getprop_loop m strings name p
         else Some (Inr None))"

definition fdt_getprop :: "mem \<Rightarrow> u64 \<Rightarrow> int \<Rightarrow> u8 list \<Rightarrow> (u64 \<times> int) option fres" where
  "fdt_getprop m fdt nodeoffset name =
     (let p = fdt + of_int nodeoffset; strings = fdt + ucast (off_dt_strings m fdt)
      in if be32 m p \<noteq> FDT_BEGIN_NODE then fret None
         else Option.bind (strlen m (unat (p + 4))) (\<lambda>n. getprop_loop m strings name (skip_name (p + 4) n)))"

definition be64_at :: "mem \<Rightarrow> u64 \<Rightarrow> u64" where
  "be64_at m p = push_bit 32 (ucast (be32 m p)) OR ucast (be32 m (p + 4))"

definition be32_at :: "mem \<Rightarrow> u64 \<Rightarrow> u64" where
  "be32_at m p = ucast (be32 m p)"

text \<open>A path in memory as the argument of \<open>fdt_path_offset\<close>.\<close>

definition path_offset_at :: "mem \<Rightarrow> u64 \<Rightarrow> u64 \<Rightarrow> int fres" where
  "path_offset_at m fdt p = Option.bind (string_at m p) (fdt_path_offset m fdt)"

definition address_cells :: "mem \<Rightarrow> u64 \<Rightarrow> int fres" where
  "address_cells m fdt =
     fbind (fdt_path_offset m fdt (lit ''/'')) (\<lambda>root_offset.
     fbind (fdt_getprop m fdt root_offset (lit ''#address-cells'')) (\<lambda>ac_prop.
     fret (case ac_prop of Some (p, _) \<Rightarrow> sint (be32 m p) | None \<Rightarrow> 2)))"

section \<open>Console\<close>

abbreviation colon :: u8 where "colon \<equiv> 58"

text \<open>The base address of the console that \<open>init_uart_from_fdt\<close> sets.\<close>

definition uart_path :: "mem \<Rightarrow> u64 \<Rightarrow> u8 list \<Rightarrow> u8 list option fres" where
  "uart_path m fdt path =
     (if path \<noteq> [] \<and> hd path = slash then fret (Some path)
      else
        fbind (fdt_path_offset m fdt (lit ''/aliases'')) (\<lambda>aliases_offset.
        if aliases_offset < 0 then fret None
        else
          fbind (fdt_getprop m fdt aliases_offset path) (\<lambda>alias_prop.
          case alias_prop of None \<Rightarrow> fret None | Some (p, _) \<Rightarrow> map_option (\<lambda>s. Inr (Some s)) (string_at m p))))"

definition uart_reg :: "mem \<Rightarrow> u64 \<Rightarrow> u8 list \<Rightarrow> u64 option fres" where
  "uart_reg m fdt real_path =
     fbind (fdt_path_offset m fdt real_path) (\<lambda>uart_offset.
     if uart_offset < 0 then fret None
     else
       fbind (fdt_getprop m fdt uart_offset (lit ''reg'')) (\<lambda>reg_prop.
       case reg_prop of
         None \<Rightarrow> fret None
       | Some (reg, len) \<Rightarrow>
           if len < 4 then fret None
           else
             fbind (address_cells m fdt) (\<lambda>addr_cells.
             fret (Some (if addr_cells = 2 \<and> len \<ge> 8 then be64_at m reg else be32_at m reg)))))"

definition init_uart_from_fdt :: "mem \<Rightarrow> u64 \<Rightarrow> u64 fres" where
  "init_uart_from_fdt m fdt =
     fbind (fdt_path_offset m fdt (lit ''/chosen'')) (\<lambda>chosen_offset.
     if chosen_offset < 0 then fret 0x10000000
     else
       fbind (fdt_getprop m fdt chosen_offset (lit ''stdout-path'')) (\<lambda>prop.
       case prop of
         None \<Rightarrow> fret 0x10000000
       | Some (p, _) \<Rightarrow>
           Option.bind (string_at m p) (\<lambda>path.
           if length path \<ge> 256 then Some (Inl Buffer_overrun)
           else
             fbind (uart_path m fdt (takeWhile (\<lambda>c. c \<noteq> colon) path)) (\<lambda>r.
             case r of
               None \<Rightarrow> fret 0x10000000
             | Some real_path \<Rightarrow>
                 fbind (uart_reg m fdt real_path) (\<lambda>r. fret (case r of None \<Rightarrow> 0x10000000 | Some base \<Rightarrow> base))))))"

section \<open>Addresses and sizes\<close>

definition fdt_totalsize :: "mem \<Rightarrow> u64 \<Rightarrow> u64" where
  "fdt_totalsize m fdt =
     (if fdt = 0 then 0 else if fdt_magic m fdt \<noteq> FDT_MAGIC then 0 else ucast (totalsize m fdt))"

definition parse_addr_prop :: "mem \<Rightarrow> (u64 \<times> int) option \<Rightarrow> u64" where
  "parse_addr_prop m prop =
     (case prop of
        None \<Rightarrow> 0
      | Some (p, len) \<Rightarrow> if len = 4 then be32_at m p else if len = 8 then be64_at m p else 0)"

definition get_chosen_addr_prop :: "mem \<Rightarrow> u64 \<Rightarrow> u8 list \<Rightarrow> u8 list \<Rightarrow> u64 fres" where
  "get_chosen_addr_prop m fdt name fallback_name =
     (if fdt = 0 then fret 0
      else
        fbind (fdt_path_offset m fdt (lit ''/chosen'')) (\<lambda>chosen.
        if chosen < 0 then fret 0
        else
          fbind (fdt_getprop m fdt chosen name) (\<lambda>prop.
          fbind (if prop = None then fdt_getprop m fdt chosen fallback_name else fret prop) (\<lambda>prop.
          fret (parse_addr_prop m prop)))))"

definition get_initrd_start :: "mem \<Rightarrow> u64 \<Rightarrow> u64 fres" where
  "get_initrd_start m fdt = get_chosen_addr_prop m fdt (lit ''linux,initrd-start'') (lit ''initrd-start'')"

definition get_initrd_end :: "mem \<Rightarrow> u64 \<Rightarrow> u64 fres" where
  "get_initrd_end m fdt = get_chosen_addr_prop m fdt (lit ''linux,initrd-end'') (lit ''initrd-end'')"

text \<open>Start and size of a region; \<open>None\<close> is the result -1.\<close>

definition parse_start_and_size :: "mem \<Rightarrow> (u64 \<times> int) option \<Rightarrow> (u64 \<times> u64) option" where
  "parse_start_and_size m reg_prop =
     (case reg_prop of
        None \<Rightarrow> None
      | Some (p, len) \<Rightarrow>
          if len \<le> 0 then None
          else if len \<ge> 16 then Some (be64_at m p, be64_at m (p + 8))
          else if len \<ge> 8 then Some (be32_at m p, be32_at m (p + 4))
          else None)"

definition parse_alloc_ranges_with_size :: "mem \<Rightarrow> (u64 \<times> int) option \<Rightarrow> (u64 \<times> int) option \<Rightarrow> (u64 \<times> u64) option" where
  "parse_alloc_ranges_with_size m alloc_ranges_prop size_prop =
     (case parse_start_and_size m alloc_ranges_prop of
        None \<Rightarrow> None
      | Some (start, range_size) \<Rightarrow>
          (case size_prop of
             None \<Rightarrow> None
           | Some (p, size_len) \<Rightarrow>
               if size_len < 4 then None
               else
                 let requested_size = (if size_len \<ge> 8 then be64_at m p else be32_at m p)
                 in if requested_size = 0 then None
                    else Some (start, if range_size \<noteq> 0 \<and> requested_size > range_size then range_size else requested_size)))"

text \<open>The region that a child of \<open>/reserved-memory\<close> defines.\<close>

definition node_region :: "mem \<Rightarrow> u64 \<Rightarrow> int \<Rightarrow> (u64 \<times> u64) option fres" where
  "node_region m fdt off =
     fbind (fdt_getprop m fdt off (lit ''reg'')) (\<lambda>reg_prop.
     case parse_start_and_size m reg_prop of
       Some r \<Rightarrow> fret (Some r)
     | None \<Rightarrow>
         fbind (fdt_getprop m fdt off (lit ''alloc-ranges'')) (\<lambda>alloc_ranges_prop.
         fbind (fdt_getprop m fdt off (lit ''size'')) (\<lambda>size_prop.
         fret (parse_alloc_ranges_with_size m alloc_ranges_prop size_prop))))"

partial_function (option) region_loop :: "mem \<Rightarrow> u64 \<Rightarrow> int \<Rightarrow> u64 \<Rightarrow> int \<Rightarrow> int \<Rightarrow> (u64 \<times> u64) option fres" where
  "region_loop m fdt index p depth current =
     (if depth \<le> 0 then Some (Inr None)
      else
        let token = be32 m p; child_offset = offset_of fdt p; p = p + 4
        in if token = FDT_BEGIN_NODE
           then
             Option.bind (strlen m (unat p)) (\<lambda>n.
               if depth + 1 = 2
               then
                 Option.bind (node_region m fdt child_offset) (\<lambda>x.
                   if isl x then Some (Inl (projl x))
                   else if projr x = None then region_loop m fdt index (skip_name p n) (depth + 1) current
                   else if current = index then Some x
                   else region_loop m fdt index (skip_name p n) (depth + 1) (current + 1))
               else region_loop m fdt index (skip_name p n) (depth + 1) current)
           else if token = FDT_END_NODE then region_loop m fdt index p (depth - 1) current
           else if token = FDT_PROP then region_loop m fdt index (skip_prop p (be32 m p)) depth current
           else if token = FDT_END then Some (Inr None)
           else region_loop m fdt index p depth current)"

definition fdt_get_reserved_memory_region :: "mem \<Rightarrow> u64 \<Rightarrow> int \<Rightarrow> (u64 \<times> u64) option fres" where
  "fdt_get_reserved_memory_region m fdt index =
     (if fdt = 0 \<or> index < 0 then fret None
      else
        fbind (fdt_path_offset m fdt (lit ''/reserved-memory'')) (\<lambda>reserved_offset.
        if reserved_offset < 0 then fret None
        else
          fbind (fdt_getprop m fdt reserved_offset (lit ''reg'')) (\<lambda>reg_prop.
          let own = parse_start_and_size m reg_prop;
              current = (if own = None then 0 else 1);
              p = fdt + of_int reserved_offset
          in if own \<noteq> None \<and> index = 0 then fret own
             else if be32 m p \<noteq> FDT_BEGIN_NODE then fret None
             else Option.bind (strlen m (unat (p + 4))) (\<lambda>n. region_loop m fdt index (skip_name (p + 4) n) 1 current))))"

definition fdt_get_timebase_frequency :: "mem \<Rightarrow> u64 \<Rightarrow> u64 \<Rightarrow> u64 fres" where
  "fdt_get_timebase_frequency m fdt default_freq =
     (if fdt = 0 then fret default_freq
      else
        fbind (fdt_path_offset m fdt (lit ''/cpus'')) (\<lambda>cpus_offset.
        if cpus_offset < 0 then fret default_freq
        else
          fbind (fdt_getprop m fdt cpus_offset (lit ''timebase-frequency'')) (\<lambda>prop.
          fret (case prop of
                  None \<Rightarrow> default_freq
                | Some (p, len) \<Rightarrow> if len < 4 then default_freq else be32_at m p))))"

section \<open>Interrupts\<close>

partial_function (option) phandle_loop :: "mem \<Rightarrow> u64 \<Rightarrow> u64 \<Rightarrow> u32 \<Rightarrow> u64 \<Rightarrow> int \<Rightarrow> int fres" where
  "phandle_loop m fdt strings phandle p current_node_offset =
     (let token = be32 m p; token_offset = offset_of fdt p; p = p + 4
      in if token = FDT_BEGIN_NODE
         then Option.bind (strlen m (unat p)) (\<lambda>n. phandle_loop m fdt strings phandle (skip_name p n) token_offset)
         else if token = FDT_PROP
         then
           let len = be32 m p; prop_name = unat (strings + ucast (be32 m (p + 4)))
           in if (str_eq m prop_name (lit ''phandle'') \<or> str_eq m prop_name (lit ''linux,phandle'')) \<and> len \<ge> 4 \<and> be32 m (p + 8) = phandle
              then Some (Inr current_node_offset)
              else phandle_loop m fdt strings phandle (skip_prop p len) current_node_offset
         else if token = FDT_END then Some (Inr (- 1))
         else phandle_loop m fdt strings phandle p current_node_offset)"

definition fdt_get_node_by_phandle :: "mem \<Rightarrow> u64 \<Rightarrow> u32 \<Rightarrow> int fres" where
  "fdt_get_node_by_phandle m fdt phandle =
     (if fdt_magic m fdt \<noteq> FDT_MAGIC then fret (- 1)
      else
        let p = fdt + ucast (off_dt_struct m fdt)
        in phandle_loop m fdt (fdt + ucast (off_dt_strings m fdt)) phandle p (offset_of fdt p))"

text \<open>The bytes that the loops over \<open>stdout-path\<close> copy to a buffer of 256 bytes.\<close>

fun path_prefix :: "mem \<Rightarrow> nat \<Rightarrow> nat \<Rightarrow> u8 list" where
  "path_prefix m p 0 = []"
| "path_prefix m p (Suc n) = (if m p \<noteq> 0 \<and> m p \<noteq> colon then m p # path_prefix m (p + 1) n else [])"

text \<open>The node of the console, as \<open>fdt_get_plic_base\<close> and \<open>uart_get_irq\<close> look for it.\<close>

definition stdout_node :: "mem \<Rightarrow> u64 \<Rightarrow> int fres" where
  "stdout_node m fdt =
     fbind (fdt_path_offset m fdt (lit ''/chosen'')) (\<lambda>chosen.
     if chosen < 0 then fret chosen
     else
       fbind (fdt_getprop m fdt chosen (lit ''stdout-path'')) (\<lambda>prop.
       case prop of
         None \<Rightarrow> fret chosen
       | Some (p, len) \<Rightarrow>
           let path = path_prefix m (unat p) (nat len)
           in if length path \<ge> 256 then Some (Inl Buffer_overrun)
              else
                fbind (fdt_path_offset m fdt path) (\<lambda>uart_offset.
                if uart_offset \<ge> 0 then fret uart_offset
                else
                  fbind (fdt_path_offset m fdt (lit ''/aliases'')) (\<lambda>aliases_offset.
                  if aliases_offset < 0 then fret uart_offset
                  else
                    fbind (fdt_getprop m fdt aliases_offset path) (\<lambda>alias_prop.
                    case alias_prop of None \<Rightarrow> fret uart_offset | Some (a, _) \<Rightarrow> path_offset_at m fdt a)))))"

definition fdt_get_plic_base :: "mem \<Rightarrow> u64 \<Rightarrow> u64 fres" where
  "fdt_get_plic_base m fdt =
     fbind (stdout_node m fdt) (\<lambda>uart_offset.
     if uart_offset < 0 then fret 0
     else
       fbind (fdt_getprop m fdt uart_offset (lit ''interrupt-parent'')) (\<lambda>iparent.
       case iparent of
         None \<Rightarrow> fret 0
       | Some (p, _) \<Rightarrow>
           fbind (fdt_get_node_by_phandle m fdt (be32 m p)) (\<lambda>plic_offset.
           if plic_offset < 0 then fret 0
           else
             fbind (fdt_getprop m fdt plic_offset (lit ''reg'')) (\<lambda>reg.
             case reg of
               None \<Rightarrow> fret 0
             | Some (r, _) \<Rightarrow>
                 fbind (address_cells m fdt) (\<lambda>addr_cells.
                 fret (if addr_cells = 2 then be64_at m r else be32_at m r))))))"

text \<open>The interrupt number of the console, which is also stored in \<open>g_uart_irq\<close> unless \<open>fdt\<close> is null.\<close>

definition uart_get_irq :: "mem \<Rightarrow> u64 \<Rightarrow> int fres" where
  "uart_get_irq m fdt =
     (if fdt = 0 then fret 10
      else
        fbind (stdout_node m fdt) (\<lambda>uart_offset.
        if uart_offset < 0 then fret 10
        else
          fbind (fdt_getprop m fdt uart_offset (lit ''interrupts'')) (\<lambda>irq_prop.
          fret (case irq_prop of
                  None \<Rightarrow> 10
                | Some (p, len) \<Rightarrow> if len \<ge> 4 then sint (be32 m p) else 10))))"

end
