(* ===== verification/Fdt_Props.thy ===== *)
theory Fdt_Props
  imports Fdt Cpio
begin

text \<open>
  Reading a well-formed device tree: the walk over the tokens in memory finds the first node, in the
  order of the tree, whose path matches, and the first property of the name in it.
\<close>

section \<open>Tokens in memory\<close>

datatype dtok = Begin "u8 list" | Prop u32 "u8 list" | Nop | End

fun tok_size :: "dtok \<Rightarrow> nat" where
  "tok_size (Begin n) = 4 + align4 (length n + 1)"
| "tok_size (Prop k v) = 12 + align4 (length v)"
| "tok_size Nop = 4"
| "tok_size End = 4"

definition toks_size :: "dtok list \<Rightarrow> nat" where
  "toks_size ts = sum_list (map tok_size ts)"

definition word_at :: "mem \<Rightarrow> nat \<Rightarrow> u32 \<Rightarrow> bool" where
  "word_at m a w \<longleftrightarrow> be32 m (of_nat a) = w"

fun tok_at :: "mem \<Rightarrow> nat \<Rightarrow> dtok \<Rightarrow> bool" where
  "tok_at m a (Begin n) \<longleftrightarrow> word_at m a FDT_BEGIN_NODE \<and> cstr m (a + 4) n"
| "tok_at m a (Prop k v) \<longleftrightarrow> word_at m a FDT_PROP \<and> word_at m (a + 4) (of_nat (length v)) \<and> word_at m (a + 8) k \<and>
     length v < 2 ^ 31 \<and> (\<forall>i < length v. m (a + 12 + i) = v ! i)"
| "tok_at m a Nop \<longleftrightarrow> word_at m a FDT_NOP"
| "tok_at m a End \<longleftrightarrow> word_at m a FDT_END_NODE"

fun toks_at :: "mem \<Rightarrow> nat \<Rightarrow> dtok list \<Rightarrow> bool" where
  "toks_at m a [] \<longleftrightarrow> word_at m a FDT_END"
| "toks_at m a (t # ts) \<longleftrightarrow> tok_at m a t \<and> toks_at m (a + tok_size t) ts"

lemma align4_le: "n \<le> align4 n" "align4 n \<le> n + 3"
  unfolding align4_def by (simp_all add: div_mult_mod_eq flip: minus_mod_eq_div_mult)

lemma align4_add: "4 dvd a \<Longrightarrow> align4 (a + n) = a + align4 n"
  by (auto simp: align4_def add.assoc elim!: dvdE)

lemma dvd_align4 [simp]: "4 dvd align4 n"
  by (simp add: align4_def)

lemma align_up_ptr_4:
  assumes "n + 4 \<le> 2 ^ 64"
  shows "align_up_ptr (of_nat n) 4 = of_nat (align4 n)"
proof -
  have n: "unat (of_nat n :: u64) = n" using assms by (simp add: unat_of_nat)
  have "unat (align_up_ul (of_nat n) (2 ^ 2)) = (n + 3) - (n + 3) mod 4" using unat_align_up [of 2 "of_nat n"] assms n by (simp add: add.commute)
  also have "\<dots> = align4 n" by (simp add: align4_def minus_mod_eq_div_mult)
  finally have "unat (align_up_ptr (of_nat n) 4) = align4 n" by (simp add: align_up_ptr_def align_up_ul_def)
  moreover have "unat (of_nat (align4 n) :: u64) = align4 n" using assms align4_le(2) [of n] by (simp add: unat_of_nat)
  ultimately show ?thesis using unat_eq_imp by metis
qed

lemma skip_name_at:
  assumes "4 dvd a" "a + n + 9 \<le> 2 ^ 64"
  shows "skip_name (of_nat a + 4) n = of_nat (a + 4 + align4 (n + 1))"
proof -
  have "skip_name (of_nat a + 4) n = align_up_ptr (of_nat (a + 4 + (n + 1))) 4" by (simp add: skip_name_def ac_simps)
  also have "\<dots> = of_nat (align4 (a + 4 + (n + 1)))" using assms(2) by (intro align_up_ptr_4) simp
  finally show ?thesis using align4_add [of "a + 4" "n + 1"] assms(1) by simp
qed

lemma skip_prop_at:
  assumes "4 dvd a" "a + n + 16 \<le> 2 ^ 64" "n < 2 ^ 32"
  shows "skip_prop (of_nat a + 4) (of_nat n) = of_nat (a + 12 + align4 n)"
proof -
  have "ucast (of_nat n :: u32) = (of_nat n :: u64)" using assms(3) by (simp add: word_unat_eq_iff unsigned_ucast_eq unat_of_nat take_bit_eq_mod)
  then have "skip_prop (of_nat a + 4) (of_nat n) = align_up_ptr (of_nat (a + 12 + n)) 4" by (simp add: skip_prop_def ac_simps)
  also have "\<dots> = of_nat (align4 (a + 12 + n))" using assms(2) by (intro align_up_ptr_4) simp
  finally show ?thesis using align4_add [of "a + 12" n] assms(1) by simp
qed

section \<open>The walk over the tokens\<close>

fun scan :: "u8 list \<Rightarrow> nat \<Rightarrow> u8 list \<Rightarrow> dtok list \<Rightarrow> kernel_fault + int" where
  "scan path d cur [] = Inr (- 1)"
| "scan path d cur (Begin n # ts) =
     (let cur = enter_node cur n
      in if length cur \<ge> 1024 then Inl Buffer_overrun
         else if match_path cur path then Inr (int d)
         else scan path (d + tok_size (Begin n)) cur ts)"
| "scan path d cur (End # ts) = scan path (d + tok_size End) (leave_node cur) ts"
| "scan path d cur (t # ts) = scan path (d + tok_size t) cur ts"

lemma token_values [simp]:
  "FDT_BEGIN_NODE \<noteq> FDT_END_NODE" "FDT_BEGIN_NODE \<noteq> FDT_PROP" "FDT_BEGIN_NODE \<noteq> FDT_NOP" "FDT_BEGIN_NODE \<noteq> FDT_END"
  "FDT_END_NODE \<noteq> FDT_BEGIN_NODE" "FDT_END_NODE \<noteq> FDT_PROP" "FDT_END_NODE \<noteq> FDT_NOP" "FDT_END_NODE \<noteq> FDT_END"
  "FDT_PROP \<noteq> FDT_BEGIN_NODE" "FDT_PROP \<noteq> FDT_END_NODE" "FDT_PROP \<noteq> FDT_NOP" "FDT_PROP \<noteq> FDT_END"
  "FDT_NOP \<noteq> FDT_BEGIN_NODE" "FDT_NOP \<noteq> FDT_END_NODE" "FDT_NOP \<noteq> FDT_PROP" "FDT_NOP \<noteq> FDT_END"
  "FDT_END \<noteq> FDT_BEGIN_NODE" "FDT_END \<noteq> FDT_END_NODE" "FDT_END \<noteq> FDT_PROP" "FDT_END \<noteq> FDT_NOP"
  by (simp_all add: FDT_BEGIN_NODE_def FDT_END_NODE_def FDT_PROP_def FDT_NOP_def FDT_END_def)

lemma offset_of_at:
  assumes "unat fdt + d < 2 ^ 64" "d < 2 ^ 31"
  shows "offset_of fdt (of_nat (unat fdt + d)) = int d"
proof -
  have "of_nat (unat fdt + d) - fdt = (of_nat d :: u64)" by simp
  moreover have "ucast (of_nat d :: u64) = (of_nat d :: u32)" using assms(2) by (simp add: word_unat_eq_iff unsigned_ucast_eq unat_of_nat take_bit_eq_mod)
  moreover have "sint (of_nat d :: u32) = int d" using assms(2) by (simp add: signed_of_nat signed_take_bit_int_eq_self)
  ultimately show ?thesis by (simp add: offset_of_def)
qed

lemma string_at_cstr: "a < 2 ^ 64 \<Longrightarrow> cstr m a n \<Longrightarrow> string_at m (of_nat a) = Some n"
  using cstr_nth [of m a n] by (simp add: string_at_def strlen_cstr unat_of_nat) (auto intro: nth_equalityI)

lemma path_loop_scan:
  assumes "toks_at m (unat fdt + d) ts" "4 dvd unat fdt + d" "unat fdt + d + toks_size ts + 4 \<le> 2 ^ 64" "d + toks_size ts < 2 ^ 31"
  shows "path_loop m fdt path (of_nat (unat fdt + d)) cur = Some (scan path d cur ts)"
  using assms
proof (induction ts arbitrary: d cur)
  case Nil
  then show ?case by (simp add: path_loop.simps word_at_def Let_def)
next
  case (Cons t ts)
  let ?a = "unat fdt + d"
  have sz: "toks_size (t # ts) = tok_size t + toks_size ts" by (simp add: toks_size_def)
  have "4 dvd tok_size t" by (cases t) simp_all
  then have "4 dvd unat fdt + (d + tok_size t)" using Cons.prems(2) by (metis add.assoc dvd_add)
  then have IH: "path_loop m fdt path (of_nat (?a + tok_size t)) cur = Some (scan path (d + tok_size t) cur ts)" for cur
    using Cons.prems sz Cons.IH [of "d + tok_size t"] by (simp add: add.assoc)
  show ?case
  proof (cases t)
    case (Begin n)
    have l: "length n + 1 \<le> align4 (length n + 1)" by (rule align4_le)
    have s: "string_at m (of_nat ?a + 4) = Some n"
      using string_at_cstr [of "?a + 4" m n] Cons.prems(1,3) Begin l sz by (simp add: add.commute)
    have k: "skip_name (of_nat ?a + 4) (length n) = of_nat (?a + tok_size t)"
      using skip_name_at [OF Cons.prems(2), of "length n"] Cons.prems(3) sz l Begin by (simp add: add.assoc)
    have f: "offset_of fdt (of_nat ?a) = int d" using Cons.prems(3,4) by (intro offset_of_at) simp_all
    show ?thesis
      unfolding path_loop.simps [of m fdt path "of_nat ?a"] Let_def f s k bind.simps IH
      using Cons.prems(1) Begin by (simp add: word_at_def Let_def)
  next
    case (Prop n v)
    have l: "length v \<le> align4 (length v)" by (rule align4_le)
    have w: "be32 m (of_nat ?a) = FDT_PROP" "be32 m (of_nat ?a + 4) = of_nat (length v)" "length v < 2 ^ 31"
      using Cons.prems(1) Prop by (simp_all add: word_at_def add.commute)
    have k: "skip_prop (of_nat ?a + 4) (of_nat (length v)) = of_nat (?a + tok_size t)"
      using skip_prop_at [OF Cons.prems(2), of "length v"] Cons.prems(3) sz l Prop w(3) by (simp add: add.assoc)
    show ?thesis
      unfolding path_loop.simps [of m fdt path "of_nat ?a"] Let_def w k IH using Prop by simp
  next
    case Nop
    have w: "be32 m (of_nat ?a) = FDT_NOP" "of_nat ?a + 4 = (of_nat (?a + tok_size t) :: u64)"
      using Cons.prems(1) Nop by (simp_all add: word_at_def)
    show ?thesis unfolding path_loop.simps [of m fdt path "of_nat ?a"] Let_def w IH using Nop by simp
  next
    case End
    have w: "be32 m (of_nat ?a) = FDT_END_NODE" "of_nat ?a + 4 = (of_nat (?a + tok_size t) :: u64)"
      using Cons.prems(1) End by (simp_all add: word_at_def)
    show ?thesis unfolding path_loop.simps [of m fdt path "of_nat ?a"] Let_def w IH using End by simp
  qed
qed

section \<open>Trees\<close>

datatype dnode = DNode (dn_name: "u8 list") (dn_props: "(u32 \<times> u8 list) list") (dn_kids: "dnode list")

definition prop_toks :: "(u32 \<times> u8 list) list \<Rightarrow> dtok list" where
  "prop_toks ps = map (\<lambda>(k, v). Prop k v) ps"

fun toks :: "dnode \<Rightarrow> dtok list" where
  "toks (DNode n ps ks) = Begin n # prop_toks ps @ concat (map toks ks) @ [End]"

text \<open>All nodes in the order of the tree, each with its offset and its full path.\<close>

fun nodes_in :: "nat \<Rightarrow> u8 list \<Rightarrow> dnode \<Rightarrow> (nat \<times> u8 list \<times> dnode) list"
  and kids_in :: "nat \<Rightarrow> u8 list \<Rightarrow> dnode list \<Rightarrow> (nat \<times> u8 list \<times> dnode) list" where
  "nodes_in d cur (DNode n ps ks) =
     (d, enter_node cur n, DNode n ps ks) # kids_in (d + tok_size (Begin n) + toks_size (prop_toks ps)) (enter_node cur n) ks"
| "kids_in d cur [] = []"
| "kids_in d cur (k # ks) = nodes_in d cur k @ kids_in (d + toks_size (toks k)) cur ks"

fun names_ok :: "dnode \<Rightarrow> bool" where
  "names_ok (DNode n ps ks) \<longleftrightarrow> (\<forall>k \<in> set ks. dn_name k \<noteq> [] \<and> slash \<notin> set (dn_name k) \<and> names_ok k)"

lemma toks_size_simps [simp]:
  "toks_size [] = 0" "toks_size (t # ts) = tok_size t + toks_size ts" "toks_size (ts @ us) = toks_size ts + toks_size us"
  by (simp_all add: toks_size_def)

lemma scan_props: "scan path d cur (prop_toks ps @ ts) = scan path (d + toks_size (prop_toks ps)) cur ts"
  by (induction ps arbitrary: d) (auto simp: prop_toks_def ac_simps)

text \<open>Leaving a node gives back the path of its parent.\<close>

definition path_ok :: "u8 list \<Rightarrow> bool" where
  "path_ok cur \<longleftrightarrow> cur = [slash] \<or> length cur > 1"

lemma leave_enter:
  assumes "path_ok cur" "n \<noteq> []" "slash \<notin> set n"
  shows "leave_node (enter_node cur n) = cur" "path_ok (enter_node cur n)"
proof -
  have d: "dropWhile (\<lambda>c. c \<noteq> slash) (rev n @ slash # xs) = slash # xs" for xs
    using assms(3) by (subst dropWhile_append2) auto
  show "leave_node (enter_node cur n) = cur"
    using assms(1,2) d by (cases "length cur > 1") (auto simp: leave_node_def enter_node_def path_ok_def)
  show "path_ok (enter_node cur n)" using assms(1,2) by (cases n) (auto simp: enter_node_def path_ok_def)
qed

lemma leave_root: "leave_node (enter_node [] n) = []" "path_ok (enter_node [] n)"
  by (simp_all add: leave_node_def enter_node_def path_ok_def)

abbreviation matching :: "u8 list \<Rightarrow> nat \<times> u8 list \<times> dnode \<Rightarrow> bool" where
  "matching path x \<equiv> match_path (fst (snd x)) path"

definition found :: "(nat \<times> u8 list \<times> dnode) option \<Rightarrow> kernel_fault + int \<Rightarrow> kernel_fault + int" where
  "found r otherwise = (case r of Some (d, _) \<Rightarrow> Inr (int d) | None \<Rightarrow> otherwise)"

lemma find_append: "List.find P (xs @ ys) = (case List.find P xs of None \<Rightarrow> List.find P ys | r \<Rightarrow> r)"
  by (induction xs) auto

lemma scan_tree:
  "names_ok t \<Longrightarrow> cur = [] \<or> path_ok cur \<and> dn_name t \<noteq> [] \<and> slash \<notin> set (dn_name t) \<Longrightarrow>
     \<forall>x \<in> set (nodes_in d cur t). length (fst (snd x)) < 1024 \<Longrightarrow>
     scan path d cur (toks t @ ts) = found (List.find (matching path) (nodes_in d cur t)) (scan path (d + toks_size (toks t)) cur ts)"
  "\<forall>k \<in> set ks. dn_name k \<noteq> [] \<and> slash \<notin> set (dn_name k) \<and> names_ok k \<Longrightarrow> path_ok cur \<Longrightarrow>
     \<forall>x \<in> set (kids_in d cur ks). length (fst (snd x)) < 1024 \<Longrightarrow>
     scan path d cur (concat (map toks ks) @ ts) =
       found (List.find (matching path) (kids_in d cur ks)) (scan path (d + toks_size (concat (map toks ks))) cur ts)"
proof (induction d cur t and d cur ks arbitrary: ts and ts rule: nodes_in_kids_in.induct)
  case (1 d cur n ps ks)
  let ?c = "enter_node cur n"
  have c: "leave_node ?c = cur" "path_ok ?c" using 1(3) leave_enter [of cur n] leave_root [of n] by auto
  let ?d = "d + tok_size (Begin n) + toks_size (prop_toks ps)"
  have short: "length ?c < 1024" using 1(4) by simp
  have "scan path ?d ?c (concat (map toks ks) @ End # ts) =
      found (List.find (matching path) (kids_in ?d ?c ks)) (scan path (?d + toks_size (concat (map toks ks))) ?c (End # ts))"
    using 1(2,4) c(2) by (intro 1(1)) auto
  then show ?case using short
    by (simp add: Let_def scan_props c(1) found_def ac_simps del: tok_size.simps(1))
next
  case (2 d cur)
  then show ?case by (simp add: found_def)
next
  case (3 d cur k ks)
  have "scan path d cur (toks k @ concat (map toks ks) @ ts) =
      found (List.find (matching path) (nodes_in d cur k)) (scan path (d + toks_size (toks k)) cur (concat (map toks ks) @ ts))"
    using 3(3-5) by (intro 3(1)) auto
  moreover have "scan path (d + toks_size (toks k)) cur (concat (map toks ks) @ ts) =
      found (List.find (matching path) (kids_in (d + toks_size (toks k)) cur ks))
        (scan path (d + toks_size (toks k) + toks_size (concat (map toks ks))) cur ts)"
    using 3(3-5) by (intro 3(2)) auto
  ultimately show ?case by (auto simp: found_def find_append ac_simps split: option.split)
qed

section \<open>Properties of a node\<close>

fun prop_find :: "mem \<Rightarrow> u64 \<Rightarrow> u8 list \<Rightarrow> nat \<Rightarrow> (u32 \<times> u8 list) list \<Rightarrow> (u64 \<times> int) option" where
  "prop_find m strings name a [] = None"
| "prop_find m strings name a ((k, v) # ps) =
     (if str_eq m (unat (strings + ucast k)) name then Some (of_nat (a + 12), int (length v))
      else prop_find m strings name (a + 12 + align4 (length v)) ps)"

definition closes :: "dtok list \<Rightarrow> bool" where
  "closes ts \<longleftrightarrow> (case ts of [] \<Rightarrow> True | Begin n # _ \<Rightarrow> True | End # _ \<Rightarrow> True | _ \<Rightarrow> False)"

lemma getprop_loop_find:
  assumes "toks_at m a (prop_toks ps @ ts)" "closes ts" "4 dvd a" "a + toks_size (prop_toks ps) + 4 \<le> 2 ^ 64"
  shows "getprop_loop m strings name (of_nat a) = Some (Inr (prop_find m strings name a ps))"
  using assms
proof (induction ps arbitrary: a)
  case Nil
  then have "be32 m (of_nat a) \<notin> {FDT_PROP, FDT_NOP}"
    by (auto simp: closes_def prop_toks_def word_at_def split: list.splits dtok.splits)
  then show ?case by (simp add: getprop_loop.simps Let_def)
next
  case (Cons p ps)
  obtain k v where p: "p = (k, v)" by (cases p)
  have l: "length v \<le> align4 (length v)" by (rule align4_le)
  have w: "be32 m (of_nat a) = FDT_PROP" "be32 m (of_nat a + 4) = of_nat (length v)" "be32 m (of_nat a + 4 + 4) = k" "length v < 2 ^ 31"
    using Cons.prems(1) p by (simp_all add: word_at_def prop_toks_def add.commute)
  have s: "skip_prop (of_nat a + 4) (of_nat (length v)) = of_nat (a + 12 + align4 (length v))"
    using skip_prop_at [OF Cons.prems(3), of "length v"] Cons.prems(4) l p w(4) by (simp add: prop_toks_def)
  have "sint (of_nat (length v) :: u32) = int (length v)" using w(4) by (simp add: signed_of_nat signed_take_bit_int_eq_self)
  moreover have "4 dvd a + 12 + align4 (length v)" using Cons.prems(3) by (intro dvd_add) simp_all
  then have "getprop_loop m strings name (of_nat (a + 12 + align4 (length v))) =
      Some (Inr (prop_find m strings name (a + 12 + align4 (length v)) ps))"
    using Cons.prems p by (intro Cons.IH) (simp_all add: prop_toks_def ac_simps)
  ultimately show ?case
    unfolding getprop_loop.simps [of m strings name "of_nat a"] Let_def w s using p by (simp add: add.commute)
qed

lemma prop_find_correct:
  assumes "toks_at m a (prop_toks ps @ ts)" "a + toks_size (prop_toks ps) \<le> 2 ^ 64"
  shows "(List.find (\<lambda>(k, v). str_eq m (unat (strings + ucast k)) name) ps = None \<longrightarrow> prop_find m strings name a ps = None) \<and>
    (\<forall>k v. List.find (\<lambda>(k, v). str_eq m (unat (strings + ucast k)) name) ps = Some (k, v) \<longrightarrow>
      (\<exists>q. prop_find m strings name a ps = Some (q, int (length v)) \<and> (\<forall>i < length v. m (unat q + i) = v ! i)))"
  using assms
proof (induction ps arbitrary: a)
  case (Cons p ps)
  obtain k v where p: "p = (k, v)" by (cases p)
  have l: "length v \<le> align4 (length v)" by (rule align4_le)
  show ?case
  proof (cases "str_eq m (unat (strings + ucast k)) name \<and> v \<noteq> []")
    case True
    then have "unat (of_nat (a + 12) :: u64) = a + 12"
      using Cons.prems(2) p l by (cases v) (simp_all add: prop_toks_def unat_of_nat del: of_nat_add)
    with True p Cons.prems(1) show ?thesis by (auto simp: prop_toks_def intro!: exI [of _ "of_nat (a + 12)"])
  next
    case False
    then show ?thesis using Cons.IH [of "a + 12 + align4 (length v)"] Cons.prems p by (auto simp: prop_toks_def ac_simps)
  qed
qed simp

lemma toks_at_append: "toks_at m a (ts @ us) \<Longrightarrow> toks_at m (a + toks_size ts) us"
  by (induction ts arbitrary: a) (auto simp flip: add.assoc)

lemma dvd_toks_size: "4 dvd toks_size ts"
proof (induction ts)
  case (Cons t ts)
  then show ?case by (cases t) auto
qed simp

text \<open>Every node of the tree is where its offset says.\<close>

definition lies_at :: "mem \<Rightarrow> nat \<Rightarrow> nat \<Rightarrow> nat \<times> u8 list \<times> dnode \<Rightarrow> bool" where
  "lies_at m b z x \<longleftrightarrow> (\<exists>us. toks_at m (b + fst x) (toks (snd (snd x)) @ us) \<and> fst x + toks_size (toks (snd (snd x))) \<le> z \<and> 4 dvd b + fst x)"

lemma lies_at_mono: "lies_at m b z x \<Longrightarrow> z \<le> z' \<Longrightarrow> lies_at m b z' x"
  unfolding lies_at_def by (meson le_trans)

lemma nodes_lie:
  "toks_at m (b + d) (toks t @ ts) \<Longrightarrow> 4 dvd b + d \<Longrightarrow> x \<in> set (nodes_in d cur t) \<Longrightarrow> lies_at m b (d + toks_size (toks t)) x"
  "toks_at m (b + d) (concat (map toks ks) @ ts) \<Longrightarrow> 4 dvd b + d \<Longrightarrow> x \<in> set (kids_in d cur ks) \<Longrightarrow>
     lies_at m b (d + toks_size (concat (map toks ks))) x"
proof (induction d cur t and d cur ks arbitrary: ts and ts rule: nodes_in_kids_in.induct)
  case (1 d cur n ps ks)
  let ?h = "Begin n # prop_toks ps"
  have "toks_at m (b + d + toks_size ?h) (concat (map toks ks) @ End # ts)"
    using toks_at_append [of m "b + d" ?h] 1(2) by simp
  moreover have "4 dvd b + d + toks_size ?h" using 1(3) dvd_toks_size [of ?h] by (rule dvd_add)
  ultimately have kids: "x \<in> set (kids_in (d + toks_size ?h) (enter_node cur n) ks) \<Longrightarrow>
      lies_at m b (d + toks_size ?h + toks_size (concat (map toks ks))) x"
    using 1(1) [of "End # ts"] by (simp add: add.assoc)
  from 1(4) consider "x = (d, enter_node cur n, DNode n ps ks)" | "x \<in> set (kids_in (d + toks_size ?h) (enter_node cur n) ks)"
    by (auto simp: add.assoc)
  then show ?case
  proof cases
    case 1
    then show ?thesis using \<open>toks_at m (b + d) (toks (DNode n ps ks) @ ts)\<close> \<open>4 dvd b + d\<close> unfolding lies_at_def by auto
  next
    case 2
    then show ?thesis using lies_at_mono [OF kids] by simp
  qed
next
  case (3 d cur k ks)
  have "toks_at m (b + (d + toks_size (toks k))) (concat (map toks ks) @ ts)"
    using toks_at_append [of m "b + d" "toks k"] 3(3) by (simp add: add.assoc)
  moreover have "4 dvd b + (d + toks_size (toks k))" using dvd_add [OF 3(4) dvd_toks_size [of "toks k"]] by (simp add: add.assoc)
  ultimately have r: "x \<in> set (kids_in (d + toks_size (toks k)) cur ks) \<Longrightarrow> lies_at m b (d + toks_size (toks k) + toks_size (concat (map toks ks))) x"
    by (rule 3(2))
  have l: "x \<in> set (nodes_in d cur k) \<Longrightarrow> lies_at m b (d + toks_size (toks k)) x"
    using 3(1) [of "concat (map toks ks) @ ts"] 3(3,4) by simp
  show ?case using 3(5) r lies_at_mono [OF l] by (auto simp: add.assoc)
qed simp

section \<open>Lookup in a device tree\<close>

definition device_tree :: "mem \<Rightarrow> u64 \<Rightarrow> dnode \<Rightarrow> bool" where
  "device_tree m fdt t \<longleftrightarrow>
     (let d = unat (off_dt_struct m fdt)
      in fdt_magic m fdt = FDT_MAGIC \<and> names_ok t \<and> toks_at m (unat fdt + d) (toks t) \<and> 4 dvd unat fdt + d \<and>
         unat fdt + d + toks_size (toks t) + 4 \<le> 2 ^ 64 \<and> d + toks_size (toks t) < 2 ^ 31 \<and>
         (\<forall>x \<in> set (nodes_in d [] t). length (fst (snd x)) < 1024))"

definition tree_nodes :: "mem \<Rightarrow> u64 \<Rightarrow> dnode \<Rightarrow> (nat \<times> u8 list \<times> dnode) list" where
  "tree_nodes m fdt t = nodes_in (unat (off_dt_struct m fdt)) [] t"

lemma getprop_at:
  assumes "lies_at m (unat fdt) z (d, p, DNode n ps ks)" "unat fdt + z + 4 \<le> 2 ^ 64"
  shows "\<exists>a ts. toks_at m a (prop_toks ps @ ts) \<and> a + toks_size (prop_toks ps) \<le> 2 ^ 64 \<and>
    fdt_getprop m fdt (int d) name = Some (Inr (prop_find m (fdt + ucast (off_dt_strings m fdt)) name a ps))"
proof -
  let ?b = "unat fdt + d"
  let ?a = "?b + tok_size (Begin n)"
  from assms(1) obtain us where us: "toks_at m ?b (toks (DNode n ps ks) @ us)" "d + toks_size (toks (DNode n ps ks)) \<le> z" "4 dvd ?b"
    by (auto simp: lies_at_def)
  have sz: "?a + toks_size (prop_toks ps) + 4 \<le> 2 ^ 64" using us(2) assms(2) by simp
  have l: "length n + 1 \<le> align4 (length n + 1)" by (rule align4_le)
  have beg: "be32 m (of_nat ?b) = FDT_BEGIN_NODE" "cstr m (?b + 4) n" using us(1) by (simp_all add: word_at_def)
  have "of_nat ?b + 4 = (of_nat (?b + 4) :: u64)" by simp
  moreover have "unat (of_nat (?b + 4) :: u64) = ?b + 4" using sz l by (simp add: unat_of_nat del: of_nat_add)
  ultimately have "unat (of_nat ?b + 4 :: u64) = ?b + 4" by metis
  then have len: "strlen m (unat (of_nat ?b + 4 :: u64)) = Some (length n)" using beg(2) by (simp add: strlen_cstr)
  have skip: "skip_name (of_nat ?b + 4) (length n) = of_nat ?a" using skip_name_at [OF us(3), of "length n"] sz l by (simp add: add.assoc)
  have rest: "toks_at m ?a (prop_toks ps @ (concat (map toks ks) @ End # us))" using us(1) by simp
  have "closes (concat (map toks ks) @ End # us)"
  proof (cases ks)
    case (Cons k ks')
    then show ?thesis by (cases k) (simp add: closes_def)
  qed (simp add: closes_def)
  moreover have "4 dvd ?a" using dvd_add [OF us(3), of "tok_size (Begin n)"] by simp
  ultimately have "getprop_loop m (fdt + ucast (off_dt_strings m fdt)) name (of_nat ?a) =
      Some (Inr (prop_find m (fdt + ucast (off_dt_strings m fdt)) name ?a ps))"
    using rest sz by (intro getprop_loop_find)
  moreover have "fdt + of_int (int d) = of_nat ?b" by simp
  ultimately have "fdt_getprop m fdt (int d) name = Some (Inr (prop_find m (fdt + ucast (off_dt_strings m fdt)) name ?a ps))"
    unfolding fdt_getprop_def Let_def using beg(1) len skip by (simp only: bind.simps if_False simp_thms)
  with rest sz show ?thesis by (intro exI [of _ ?a] exI conjI) auto
qed

text \<open>C27. On a well-formed device tree the search by path returns the offset of the first node, in the
  order of the tree, whose full path matches, or -1 when there is none. At the offset of any node of
  the tree, the search for a property returns the address and the length of the value of the first
  property with the name, or null when the node has none.\<close>

theorem fdt_lookup_correct:
  assumes "device_tree m fdt t"
  shows "fdt_path_offset m fdt path = Some (found (List.find (matching path) (tree_nodes m fdt t)) (Inr (- 1))) \<and>
    (\<forall>d p node name. (d, p, node) \<in> set (tree_nodes m fdt t) \<longrightarrow>
      (\<exists>r. fdt_getprop m fdt (int d) name = Some (Inr r) \<and>
        (let value = List.find (\<lambda>(k, v). str_eq m (unat (fdt + ucast (off_dt_strings m fdt) + ucast k)) name) (dn_props node)
         in (value = None \<longrightarrow> r = None) \<and>
            (\<forall>k v. value = Some (k, v) \<longrightarrow> (\<exists>q. r = Some (q, int (length v)) \<and> (\<forall>i < length v. m (unat q + i) = v ! i))))))"
proof -
  let ?d = "unat (off_dt_struct m fdt)"
  have dt: "fdt_magic m fdt = FDT_MAGIC" "names_ok t" "toks_at m (unat fdt + ?d) (toks t)" "4 dvd unat fdt + ?d"
    "unat fdt + ?d + toks_size (toks t) + 4 \<le> 2 ^ 64" "?d + toks_size (toks t) < 2 ^ 31"
    "\<forall>x \<in> set (nodes_in ?d [] t). length (fst (snd x)) < 1024"
    using assms by (simp_all add: device_tree_def Let_def)
  have "fdt + ucast (off_dt_struct m fdt) = of_nat (unat fdt + ?d)" by simp
  then have "fdt_path_offset m fdt path = Some (scan path ?d [] (toks t))"
    using path_loop_scan [OF dt(3-6), of path "[]"] dt(1) by (simp add: fdt_path_offset_def)
  also have "scan path ?d [] (toks t) = found (List.find (matching path) (tree_nodes m fdt t)) (Inr (- 1))"
    using scan_tree(1) [OF dt(2) _ dt(7), of path "[]"] by (simp add: tree_nodes_def)
  finally have path: "fdt_path_offset m fdt path = Some (found (List.find (matching path) (tree_nodes m fdt t)) (Inr (- 1)))" .
  have "\<exists>r. fdt_getprop m fdt (int d) name = Some (Inr r) \<and>
        (let value = List.find (\<lambda>(k, v). str_eq m (unat (fdt + ucast (off_dt_strings m fdt) + ucast k)) name) (dn_props node)
         in (value = None \<longrightarrow> r = None) \<and>
            (\<forall>k v. value = Some (k, v) \<longrightarrow> (\<exists>q. r = Some (q, int (length v)) \<and> (\<forall>i < length v. m (unat q + i) = v ! i))))"
    if "(d, p, node) \<in> set (tree_nodes m fdt t)" for d p node name
  proof -
    obtain n ps ks where node: "node = DNode n ps ks" by (cases node)
    have "lies_at m (unat fdt) (?d + toks_size (toks t)) (d, p, node)"
      using nodes_lie(1) [of m "unat fdt" ?d t "[]"] dt(3,4) that by (simp add: tree_nodes_def)
    with getprop_at [of m fdt "?d + toks_size (toks t)" d p n ps ks name] dt(5) node obtain a ts where
      a: "toks_at m a (prop_toks ps @ ts)" "a + toks_size (prop_toks ps) \<le> 2 ^ 64"
      "fdt_getprop m fdt (int d) name = Some (Inr (prop_find m (fdt + ucast (off_dt_strings m fdt)) name a ps))" by (auto simp: add.assoc)
    from prop_find_correct [OF a(1,2)] a(3) node show ?thesis by (simp add: Let_def)
  qed
  with path show ?thesis by blast
qed

text \<open>A tree with one node \<^verbatim>\<open>u@1\<close> that has a property \<^verbatim>\<open>r\<close> of one byte.\<close>

definition demo_blob :: "u8 list" where
  "demo_blob =
     [0xd0, 0x0d, 0xfe, 0xed, 0, 0, 0, 62, 0, 0, 0, 16, 0, 0, 0, 60,
      0, 0, 0, 1, 0, 0, 0, 0, 0, 0, 0, 1, 117, 64, 49, 0, 0, 0, 0, 3, 0, 0, 0, 1, 0, 0, 0, 0, 7, 0, 0, 0,
      0, 0, 0, 2, 0, 0, 0, 2, 0, 0, 0, 9, 114, 0]"

definition demo_dtb :: mem where
  "demo_dtb a = (if 0x1000 \<le> a \<and> a < 0x1000 + 62 then demo_blob ! (a - 0x1000) else 0)"

definition demo_tree :: dnode where
  "demo_tree = DNode [] [] [DNode [117, 64, 49] [(0, [7])] []]"

lemma demo_words:
  "be32 demo_dtb 0x1000 = FDT_MAGIC" "off_dt_struct demo_dtb 0x1000 = 16" "off_dt_strings demo_dtb 0x1000 = 60"
  "be32 demo_dtb 0x1010 = FDT_BEGIN_NODE" "be32 demo_dtb 0x1018 = FDT_BEGIN_NODE" "be32 demo_dtb 0x1020 = FDT_PROP" "be32 demo_dtb 0x1024 = 1"
  "be32 demo_dtb 0x1028 = 0" "be32 demo_dtb 0x1030 = FDT_END_NODE" "be32 demo_dtb 0x1034 = FDT_END_NODE" "be32 demo_dtb 0x1038 = FDT_END"
  by (simp_all add: be32_def load32_def bswap32_def off_dt_struct_def off_dt_strings_def demo_dtb_def demo_blob_def upt_rec FDT_MAGIC_def
      FDT_BEGIN_NODE_def FDT_END_NODE_def FDT_PROP_def FDT_END_def)

lemma demo_toks:
  "toks demo_tree = [Begin [], Begin [117, 64, 49], Prop 0 [7], End, End]" "toks_size (toks demo_tree) = 40"
  by (simp_all add: demo_tree_def prop_toks_def align4_def)

lemma demo_bytes:
  "demo_dtb 4116 = 0" "demo_dtb 4124 = 117" "demo_dtb 4125 = 64" "demo_dtb 4126 = 49" "demo_dtb 4127 = 0" "demo_dtb 4140 = 7"
  "demo_dtb 4156 = 114" "demo_dtb 4157 = 0"
  by (simp_all add: demo_dtb_def demo_blob_def)

lemma demo_device_tree: "device_tree demo_dtb 0x1000 demo_tree"
proof -
  have "toks_at demo_dtb 0x1010 (toks demo_tree)"
    unfolding demo_toks(1) by (simp add: word_at_def demo_words align4_def demo_bytes)
  moreover have "\<forall>x \<in> set (nodes_in 16 [] demo_tree). length (fst (snd x)) < 1024" "names_ok demo_tree"
    by (simp_all add: demo_tree_def enter_node_def)
  ultimately show ?thesis by (simp add: device_tree_def Let_def fdt_magic_def demo_words demo_toks(2))
qed

theorem fdt_lookup_correct_witness:
  "fdt_path_offset demo_dtb 0x1000 (lit ''/u'') = Some (Inr 24) \<and>
     (\<exists>q. fdt_getprop demo_dtb 0x1000 24 (lit ''r'') = Some (Inr (Some (q, 1))) \<and> demo_dtb (unat q) = 7)"
proof -
  note F = fdt_lookup_correct [OF demo_device_tree]
  have n: "tree_nodes demo_dtb 0x1000 demo_tree = [(16, [47], demo_tree), (24, [47, 117, 64, 49], DNode [117, 64, 49] [(0, [7])] [])]"
    by (simp add: tree_nodes_def demo_words demo_tree_def enter_node_def align4_def prop_toks_def)
  have "\<not> match_path [47] (lit ''/u'')" "match_path [47, 117, 64, 49] (lit ''/u'')" by (simp_all add: lit_def)
  then have "fdt_path_offset demo_dtb 0x1000 (lit ''/u'') = Some (Inr 24)" using conjunct1 [OF F [of "lit ''/u''"]] by (simp add: n found_def)
  moreover have s: "str_eq demo_dtb (unat ((0x1000 :: u64) + ucast (off_dt_strings demo_dtb 0x1000) + ucast (0 :: u32))) (lit ''r'')"
    by (simp add: demo_words lit_def demo_bytes)
  have "(24, [47, 117, 64, 49], DNode [117, 64, 49] [(0, [7])] []) \<in> set (tree_nodes demo_dtb 0x1000 demo_tree)" by (simp add: n)
  from conjunct2 [OF F, rule_format, OF this, of "lit ''r''"] obtain q where
    "fdt_getprop demo_dtb 0x1000 (int 24) (lit ''r'') = Some (Inr (Some (q, int (length [7 :: u8]))))" "\<forall>i < length [7 :: u8]. demo_dtb (unat q + i) = [7] ! i"
    using s by (auto simp: Let_def)
  ultimately show ?thesis by auto
qed

end
