(* ===== verification/Stdio.thy ===== *)
theory Stdio
  imports Fdt
begin

text \<open>
  \<open>src/lib/stdio.c\<close>: formatted output. The result is the list of bytes given to \<open>uart_putc\<close>, or a
  fault when a width does not fit the local buffer. The variable arguments are the words of the
  argument list in order.
\<close>

section \<open>Numbers\<close>

definition digit :: "'a::len word \<Rightarrow> u8" where
  "digit rem = (if rem < 10 then 48 + ucast rem else 97 + ucast rem - 10)"

text \<open>The digits in the buffer, lowest first; the bases are 10 and 16.\<close>

function digits :: "'a::len word \<Rightarrow> 'a word \<Rightarrow> u8 list" where
  "digits base num = (if num = 0 \<or> base \<le> 1 then [] else digit (num mod base) # digits base (num div base))"
  by pat_completeness auto
termination
proof (relation "measure (\<lambda>(base, num). unat num)")
  fix base num :: "'a word" assume a: "\<not> (num = 0 \<or> base \<le> 1)"
  then have "0 < unat num" by (simp add: unat_gt_0)
  moreover have "1 < unat base" using a by (simp add: not_le word_less_nat_alt)
  ultimately show "((base, num div base), base, num) \<in> measure (\<lambda>(base, num). unat num)" by (simp add: unat_div)
qed simp

declare digits.simps [simp del]

text \<open>\<open>print_uint\<close> and \<open>print_long\<close>, which differ in the type of the number and the size of the buffer.\<close>

definition print_num :: "nat \<Rightarrow> 'a::len word \<Rightarrow> 'a word \<Rightarrow> nat \<Rightarrow> u8 \<Rightarrow> kernel_fault + u8 list" where
  "print_num bufsize num base width pad =
     (let buf = (if num = 0 then [48] else digits base num);
          buf = buf @ replicate (width - length buf) pad
      in if length buf > bufsize then Inl Buffer_overrun else Inr (rev buf))"

definition print_uint :: "u32 \<Rightarrow> u32 \<Rightarrow> nat \<Rightarrow> u8 \<Rightarrow> kernel_fault + u8 list" where
  "print_uint = print_num 32"

definition print_long :: "u64 \<Rightarrow> u64 \<Rightarrow> nat \<Rightarrow> u8 \<Rightarrow> kernel_fault + u8 list" where
  "print_long = print_num 64"

definition print_int :: "u32 \<Rightarrow> nat \<Rightarrow> u8 \<Rightarrow> kernel_fault + u8 list" where
  "print_int num width pad =
     (if sint num < 0 then map_sum id (\<lambda>out. 45 # out) (print_uint (- num) 10 (width - 1) pad)
      else print_uint num 10 width pad)"

section \<open>printf\<close>

text \<open>The flags of a conversion: padding, width and the number of \<open>l\<close>s, and the rest of the format.\<close>

definition is_dec :: "u8 \<Rightarrow> bool" where
  "is_dec c \<longleftrightarrow> 48 \<le> c \<and> c \<le> 57"

definition dec_value :: "u8 list \<Rightarrow> nat" where
  "dec_value cs = foldl (\<lambda>w c. w * 10 + unat (c - 48)) 0 cs"

definition pad_flag :: "u8 list \<Rightarrow> u8 \<times> u8 list" where
  "pad_flag p = (if p \<noteq> [] \<and> hd p = 48 then (48, tl p) else (32, p))"

definition flags :: "u8 list \<Rightarrow> u8 \<times> nat \<times> bool \<times> u8 list" where
  "flags p =
     (let (pad, p) = pad_flag p;
          width = dec_value (takeWhile is_dec p);
          p = dropWhile is_dec p
      in (pad, width, takeWhile (\<lambda>c. c = 108) p \<noteq> [], dropWhile (\<lambda>c. c = 108) p))"

text \<open>One conversion with its argument; \<open>False\<close> when no argument is taken.\<close>

definition convert :: "mem \<Rightarrow> u8 \<Rightarrow> u8 \<Rightarrow> nat \<Rightarrow> bool \<Rightarrow> u64 \<Rightarrow> (bool \<times> u8 list) fres" where
  "convert m c pad width l a =
     (if c = 100 then Some (map_sum id (Pair True) (print_int (ucast a) width pad))
      else if c = 117 then Some (map_sum id (Pair True) (if l then print_long a 10 width pad else print_uint (ucast a) 10 width pad))
      else if c = 120 then Some (map_sum id (Pair True) (if l then print_long a 16 width pad else print_uint (ucast a) 16 width pad))
      else if c = 115 then (if a = 0 then fret (True, lit ''(null)'') else map_option (\<lambda>s. Inr (True, s)) (string_at m a))
      else if c = 99 then fret (True, [ucast a])
      else if c = 112 then Some (map_sum id (\<lambda>out. (True, lit ''0x'' @ out)) (print_long a 16 0 32))
      else fret (False, [37, c]))"

definition prepend :: "u8 list \<Rightarrow> u8 list fres \<Rightarrow> u8 list fres" where
  "prepend out r = map_option (map_sum id (\<lambda>rest. out @ rest)) r"

lemma flags_shorter:
  assumes "flags p = (pad, width, l, q)"
  shows "length q \<le> length p"
proof -
  have "q = dropWhile (\<lambda>c. c = 108) (dropWhile is_dec (snd (pad_flag p)))" using assms by (auto simp: flags_def Let_def split_beta)
  moreover have "length (snd (pad_flag p)) \<le> length p" by (simp add: pad_flag_def)
  ultimately show ?thesis by (metis le_trans length_dropWhile_le)
qed

text \<open>
  The loop over the format, for a function \<open>cv\<close> that does one conversion. A conversion without an
  argument left has no meaning in C; it reads zero here.
\<close>

function format :: "(u8 \<Rightarrow> u8 \<Rightarrow> nat \<Rightarrow> bool \<Rightarrow> u64 \<Rightarrow> (bool \<times> u8 list) fres) \<Rightarrow> u8 list \<Rightarrow> u64 list \<Rightarrow> u8 list fres" where
  "format cv [] args = fret []"
| "format cv (c # p) args =
     (if c \<noteq> 37 then prepend [c] (format cv p args)
      else if p \<noteq> [] \<and> hd p = 37 then prepend [37] (format cv (tl p) args)
      else
        let (pad, width, l, q) = flags p; a = (if args = [] then 0 else hd args)
        in case q of
             [] \<Rightarrow> fret [37]
           | d # q' \<Rightarrow>
               (case cv d pad width l a of
                  None \<Rightarrow> None
                | Some (Inl e) \<Rightarrow> Some (Inl e)
                | Some (Inr (taken, out)) \<Rightarrow> prepend out (format cv q' (if taken then tl args else args))))"
  by pat_completeness auto
termination
  by (relation "measure (\<lambda>(cv, p, args). length p)") (auto dest!: flags_shorter [OF sym] simp: neq_Nil_conv)

definition printf :: "mem \<Rightarrow> u8 list \<Rightarrow> u64 list \<Rightarrow> u8 list fres" where
  "printf m = format (convert m)"

section \<open>Printed numbers\<close>

text \<open>The number that a list of digits, lowest first, stands for.\<close>

definition digit_value :: "u8 \<Rightarrow> nat" where
  "digit_value c = (if c \<ge> 97 then unat c - 87 else unat c - 48)"

fun digits_value :: "nat \<Rightarrow> u8 list \<Rightarrow> nat" where
  "digits_value b [] = 0"
| "digits_value b (c # cs) = digit_value c + b * digits_value b cs"

lemma digit_value_digit:
  fixes r :: "'a::len word"
  assumes "unat r < 16" "8 \<le> LENGTH('a)"
  shows "digit_value (digit r) = unat r"
proof -
  have "(2 :: nat) ^ 8 \<le> 2 ^ LENGTH('a)" using assms(2) by (rule power_increasing) simp
  then have t: "unat (10 :: 'a word) = 10" by (simp add: take_bit_nat_eq_self_iff)
  have less: "r < 10 \<longleftrightarrow> unat r < 10" using t by (simp add: word_less_nat_alt)
  have u: "unat (ucast r :: u8) = unat r" using assms(1) by (simp add: unsigned_ucast_eq take_bit_nat_eq_self_iff)
  have "unat (48 + ucast r :: u8) = 48 + unat r" "unat (87 + ucast r :: u8) = 87 + unat r" using u assms(1) by (simp_all add: unat_word_ariths)
  moreover have "97 + ucast r - 10 = (87 + ucast r :: u8)" by simp
  ultimately show ?thesis using less by (auto simp: digit_value_def digit_def word_le_nat_alt)
qed

lemma digits_value_digits:
  fixes num :: "'a::len word"
  assumes "1 < unat base" "unat base \<le> 16" "8 \<le> LENGTH('a)"
  shows "digits_value (unat base) (digits base num) = unat num"
  using assms(1,2)
proof (induction base num rule: digits.induct)
  case (1 base num)
  show ?case
  proof (cases "num = 0")
    case False
    have b: "\<not> base \<le> 1" using 1(2) by (simp add: word_le_nat_alt)
    have m: "unat (num mod base) = unat num mod unat base" "unat (num div base) = unat num div unat base" by (simp_all add: unat_mod unat_div)
    have "unat num mod unat base < 16" using 1(2,3) by (meson less_le_trans mod_less_divisor zero_less_one order.strict_trans)
    then have "digit_value (digit (num mod base)) = unat num mod unat base" using digit_value_digit [OF _ assms(3), of "num mod base"] m by simp
    then show ?thesis using 1 False b by (simp add: digits.simps [of base num] m)
  qed (simp add: digits.simps)
qed

text \<open>The digits printed, without padding, stand for the number.\<close>

lemma print_num_value:
  fixes num :: "'a::len word"
  assumes "base \<in> {10, 16}" "8 \<le> LENGTH('a)" "print_num n num base width pad = Inr out"
  shows "\<exists>cs. out = replicate (width - length cs) pad @ cs \<and> cs \<noteq> [] \<and> digits_value (unat base) (rev cs) = unat num"
proof -
  have "(2 :: nat) ^ 8 \<le> 2 ^ LENGTH('a)" using assms(2) by (rule power_increasing) simp
  then have "take_bit LENGTH('a) (10 :: nat) = 10" "take_bit LENGTH('a) (16 :: nat) = 16" by (auto simp: take_bit_nat_eq_self_iff)
  then have b: "1 < unat base" "unat base \<le> 16" using assms(1) by auto
  let ?cs = "if num = 0 then [48] else digits base num"
  have "digits_value (unat base) ?cs = unat num" using digits_value_digits [OF b assms(2), of num] by (simp add: digit_value_def)
  moreover have "?cs \<noteq> []" using b by (simp add: digits.simps [of base num] word_le_nat_alt)
  moreover have "out = replicate (width - length ?cs) pad @ rev ?cs"
    using assms(3) by (auto simp: print_num_def Let_def split: if_splits)
  ultimately show ?thesis by (intro exI [of _ "rev ?cs"]) auto
qed

end
