(* ===== verification/Devices.thy ===== *)
theory Devices
  imports Stdio
begin

text \<open>
  The drivers with little state of their own: \<open>src/src/plic.c\<close> (interrupt controller), \<open>src/lib/sbi.c\<close>
  (firmware) and \<open>src/src/video.c\<close> (display). Device registers are words by address. The firmware
  call and the transfer of the configuration device are parameters; the frame buffer is memory.
\<close>

section \<open>Interrupt controller\<close>

record plic =
  plic_base :: u64
  plic_regs :: "u64 \<Rightarrow> u32"
  csr_sie :: u64

definition PLIC_S_CONTEXT :: u32 where "PLIC_S_CONTEXT = 1"

definition PLIC_PRIORITY :: "plic \<Rightarrow> int \<Rightarrow> u64" where
  "PLIC_PRIORITY p irq = plic_base p + of_int (irq * 4)"

definition PLIC_ENABLE_WORD :: "plic \<Rightarrow> u32 \<Rightarrow> u32 \<Rightarrow> u64" where
  "PLIC_ENABLE_WORD p ctx n = plic_base p + 0x002000 + 0x80 * ucast ctx + 4 * ucast n"

definition PLIC_THRESHOLD :: "plic \<Rightarrow> u32 \<Rightarrow> u64" where
  "PLIC_THRESHOLD p ctx = plic_base p + 0x200000 + 0x1000 * ucast ctx"

definition PLIC_CLAIM :: "plic \<Rightarrow> u32 \<Rightarrow> u64" where
  "PLIC_CLAIM p ctx = plic_base p + 0x200004 + 0x1000 * ucast ctx"

definition set_plic_reg :: "u64 \<Rightarrow> u32 \<Rightarrow> plic \<Rightarrow> plic" where
  "set_plic_reg a v p = p\<lparr>plic_regs := (plic_regs p)(a := v)\<rparr>"

definition plic_enable_irq :: "u32 \<Rightarrow> u32 \<Rightarrow> plic \<Rightarrow> plic" where
  "plic_enable_irq ctx irq p =
     (let word = irq div 32; b = irq mod 32; a = PLIC_ENABLE_WORD p ctx word
      in set_plic_reg a (plic_regs p a OR push_bit (unat b) 1) p)"

definition plic_init :: "mem \<Rightarrow> u64 \<Rightarrow> plic \<Rightarrow> plic fres" where
  "plic_init m fdt p = fbind (fdt_get_plic_base m fdt) (\<lambda>b. fret (p\<lparr>plic_base := b\<rparr>))"

definition plic_enable_interrupt :: "int \<Rightarrow> plic \<Rightarrow> plic" where
  "plic_enable_interrupt irq p =
     (if plic_base p = 0 then p
      else
        let p = set_plic_reg (PLIC_PRIORITY p irq) 1 p;
            p = plic_enable_irq PLIC_S_CONTEXT (of_int irq) p;
            p = set_plic_reg (PLIC_THRESHOLD p PLIC_S_CONTEXT) 0 p
        in p\<lparr>csr_sie := csr_sie p OR push_bit 9 1\<rparr>)"

definition plic_claim :: "plic \<Rightarrow> int" where
  "plic_claim p = (if plic_base p = 0 then 0 else sint (plic_regs p (PLIC_CLAIM p PLIC_S_CONTEXT)))"

definition plic_complete :: "int \<Rightarrow> plic \<Rightarrow> plic" where
  "plic_complete irq p =
     (if plic_base p = 0 then p else set_plic_reg (PLIC_CLAIM p PLIC_S_CONTEXT) (of_int irq) p)"

section \<open>Firmware\<close>

text \<open>The firmware takes the registers \<open>a0\<close> to \<open>a7\<close> and returns \<open>a0\<close> and \<open>a1\<close>; a \<open>struct sbiret\<close> is the pair of error and value.\<close>

type_synonym firmware = "u64 list \<Rightarrow> u64 \<times> u64"

definition sbi_ecall :: "firmware \<Rightarrow> int \<Rightarrow> int \<Rightarrow> u64 list \<Rightarrow> int \<times> int" where
  "sbi_ecall fw ext fid args = (let (a0, a1) = fw (args @ [of_int fid, of_int ext]) in (sint a0, sint a1))"

definition SBI_EXT_BASE :: int where "SBI_EXT_BASE = 0x10"
definition SBI_EXT_BASE_GET_SPEC_VERSION :: int where "SBI_EXT_BASE_GET_SPEC_VERSION = 0"
definition SBI_EXT_BASE_GET_IMP_ID :: int where "SBI_EXT_BASE_GET_IMP_ID = 1"
definition SBI_EXT_BASE_GET_IMP_VERSION :: int where "SBI_EXT_BASE_GET_IMP_VERSION = 2"
definition SBI_EXT_BASE_PROBE_EXT :: int where "SBI_EXT_BASE_PROBE_EXT = 3"

definition sbi_get_spec_version :: "firmware \<Rightarrow> int" where
  "sbi_get_spec_version fw = snd (sbi_ecall fw SBI_EXT_BASE SBI_EXT_BASE_GET_SPEC_VERSION [0, 0, 0, 0, 0, 0])"

definition sbi_probe_extension :: "firmware \<Rightarrow> int \<Rightarrow> int" where
  "sbi_probe_extension fw extid = snd (sbi_ecall fw SBI_EXT_BASE SBI_EXT_BASE_PROBE_EXT [of_int extid, 0, 0, 0, 0, 0])"

definition sbi_get_impl_id :: "firmware \<Rightarrow> int" where
  "sbi_get_impl_id fw = snd (sbi_ecall fw SBI_EXT_BASE SBI_EXT_BASE_GET_IMP_ID [0, 0, 0, 0, 0, 0])"

definition sbi_get_impl_version :: "firmware \<Rightarrow> int" where
  "sbi_get_impl_version fw = snd (sbi_ecall fw SBI_EXT_BASE SBI_EXT_BASE_GET_IMP_VERSION [0, 0, 0, 0, 0, 0])"

definition sbi_set_timer :: "firmware \<Rightarrow> u64 \<Rightarrow> int \<times> int" where
  "sbi_set_timer fw stime_value = sbi_ecall fw 0 0 [stime_value, 0, 0, 0, 0, 0]"

section \<open>Display\<close>

definition FB_WIDTH :: nat where "FB_WIDTH = 1920"
definition FB_HEIGHT :: nat where "FB_HEIGHT = 1080"
definition FB_BPP :: nat where "FB_BPP = 4"

definition FB_BASE :: "bool \<Rightarrow> u64" where
  "FB_BASE qemu = (if qemu then 0x87000000 else 0x7f700000) + PAGE_OFFSET"

definition bswap16 :: "16 word \<Rightarrow> 16 word" where
  "bswap16 x = push_bit 8 (x AND 0x00FF) OR drop_bit 8 (x AND 0xFF00)"

text \<open>A request to the configuration device, as it is stored; \<open>dma\<close> is what the device does with it.\<close>

record dma_access =
  dma_control :: u32
  dma_length :: u32
  dma_address :: u64

definition FW_CFG_DMA_CTL_READ :: u32 where "FW_CFG_DMA_CTL_READ = 0x02"
definition FW_CFG_DMA_CTL_SELECT :: u32 where "FW_CFG_DMA_CTL_SELECT = 0x08"
definition FW_CFG_DMA_CTL_WRITE :: u32 where "FW_CFG_DMA_CTL_WRITE = 0x10"
definition FW_CFG_FILE_DIR :: int where "FW_CFG_FILE_DIR = 0x19"

definition fw_cfg_dma_transfer :: "(dma_access \<Rightarrow> mem \<Rightarrow> mem) \<Rightarrow> u64 \<Rightarrow> u32 \<Rightarrow> u32 \<Rightarrow> mem \<Rightarrow> mem" where
  "fw_cfg_dma_transfer dma a len control =
     dma \<lparr>dma_control = bswap32 control, dma_length = bswap32 len, dma_address = bswap64 (a AND NOT PAGE_OFFSET)\<rparr>"

definition fw_cfg_read_entry :: "(dma_access \<Rightarrow> mem \<Rightarrow> mem) \<Rightarrow> u64 \<Rightarrow> int \<Rightarrow> u32 \<Rightarrow> mem \<Rightarrow> mem" where
  "fw_cfg_read_entry dma buf e len =
     fw_cfg_dma_transfer dma buf len (push_bit 16 (of_int e) OR FW_CFG_DMA_CTL_SELECT OR FW_CFG_DMA_CTL_READ)"

definition fw_cfg_write_entry :: "(dma_access \<Rightarrow> mem \<Rightarrow> mem) \<Rightarrow> u64 \<Rightarrow> int \<Rightarrow> u32 \<Rightarrow> mem \<Rightarrow> mem" where
  "fw_cfg_write_entry dma buf e len =
     fw_cfg_dma_transfer dma buf len (push_bit 16 (of_int e) OR FW_CFG_DMA_CTL_SELECT OR FW_CFG_DMA_CTL_WRITE)"

text \<open>The entries of the directory are read one after the other to \<open>file\<close>: size, selector, name.\<close>

definition load16 :: "mem \<Rightarrow> u64 \<Rightarrow> 16 word" where
  "load16 m a = ucast (m (unat a)) OR push_bit 8 (ucast (m (unat a + 1)))"

fun find_cfg_file :: "(dma_access \<Rightarrow> mem \<Rightarrow> mem) \<Rightarrow> u64 \<Rightarrow> u64 \<Rightarrow> nat \<Rightarrow> mem \<Rightarrow> int \<times> mem" where
  "find_cfg_file dma name file 0 m = (- 1, m)"
| "find_cfg_file dma name file (Suc n) m =
     (let m = fw_cfg_dma_transfer dma file 64 FW_CFG_DMA_CTL_READ m
      in if strncmp m (unat name) (unat (file + 8)) 56 = 0 then (int (unat (bswap16 (load16 m (file + 4)))), m)
         else find_cfg_file dma name file n m)"

definition fw_cfg_find_file :: "(dma_access \<Rightarrow> mem \<Rightarrow> mem) \<Rightarrow> u64 \<Rightarrow> u64 \<Rightarrow> u64 \<Rightarrow> mem \<Rightarrow> int \<times> mem" where
  "fw_cfg_find_file dma cnt file name m =
     (let m = fw_cfg_read_entry dma cnt FW_CFG_FILE_DIR 4 (memset (unat cnt) 0 4 m)
      in find_cfg_file dma name file (unat (be32 m cnt)) m)"

text \<open>Big-endian fields in memory, and the configuration of the display at \<open>cfg\<close>.\<close>

definition store_be :: "u64 \<Rightarrow> u8 list \<Rightarrow> mem \<Rightarrow> mem" where
  "store_be a bs m = (\<lambda>x. if unat a \<le> x \<and> x < unat a + length bs then bs ! (x - unat a) else m x)"

definition be_bytes :: "nat \<Rightarrow> u64 \<Rightarrow> u8 list" where
  "be_bytes n v = map (\<lambda>i. ucast (drop_bit (8 * i) v)) (rev [0..<n])"

definition ramfb_cfg :: "u8 list" where
  "ramfb_cfg = be_bytes 8 (FB_BASE True AND NOT PAGE_OFFSET) @ be_bytes 4 875713112 @ be_bytes 4 0 @
     be_bytes 4 (of_nat FB_WIDTH) @ be_bytes 4 (of_nat FB_HEIGHT) @ be_bytes 4 (of_nat (FB_WIDTH * FB_BPP))"

definition video_init :: "bool \<Rightarrow> (dma_access \<Rightarrow> mem \<Rightarrow> mem) \<Rightarrow> u64 \<Rightarrow> u64 \<Rightarrow> u64 \<Rightarrow> u64 \<Rightarrow> mem \<Rightarrow> mem" where
  "video_init qemu dma cfg cnt file name m =
     (if qemu
      then
        let (file_select, m) = fw_cfg_find_file dma cnt file name (store_be cfg ramfb_cfg m)
        in if file_select \<noteq> - 1 then fw_cfg_write_entry dma cfg file_select 28 m else m
      else m)"

definition video_get_info :: "nat \<times> nat \<times> nat" where
  "video_get_info = (FB_WIDTH, FB_HEIGHT, FB_BPP)"

text \<open>The addresses of the cache lines that are flushed.\<close>

definition CACHE_BLOCK_SIZE :: u64 where "CACHE_BLOCK_SIZE = 64"

partial_function (option) flush_lines :: "u64 \<Rightarrow> u64 \<Rightarrow> u64 list option" where
  "flush_lines line lim =
     (if line < lim then Option.bind (flush_lines (line + CACHE_BLOCK_SIZE) lim) (\<lambda>ls. Some (line # ls)) else Some [])"

definition flush_dcache :: "bool \<Rightarrow> u64 \<Rightarrow> u64 \<Rightarrow> u64 list option" where
  "flush_dcache qemu a len = (if qemu then Some [] else flush_lines (a AND NOT (CACHE_BLOCK_SIZE - 1)) (a + len))"

definition video_flush :: "bool \<Rightarrow> u64 \<Rightarrow> u64 \<Rightarrow> u64 list option" where
  "video_flush = flush_dcache"

definition video_get_base :: "bool \<Rightarrow> u64" where
  "video_get_base = FB_BASE"

text \<open>Division of \<open>int\<close>s in C rounds towards zero.\<close>

definition half :: "int \<Rightarrow> int" where
  "half x = (if x < 0 then - (- x div 2) else x div 2)"

definition row_dst :: "u64 \<Rightarrow> u32 \<Rightarrow> u32 \<Rightarrow> int \<Rightarrow> u64" where
  "row_dst fb width height y =
     (let start_x = half (int FB_WIDTH - sint width); start_y = half (int FB_HEIGHT - sint height)
      in fb + of_int (4 * ((start_y + y) * int FB_WIDTH + start_x)))"

definition copy_row :: "u64 \<Rightarrow> u64 \<Rightarrow> u32 \<Rightarrow> u32 \<Rightarrow> nat \<Rightarrow> mem \<Rightarrow> mem" where
  "copy_row fb bmp width height y =
     memcpy (unat (row_dst fb width height (int y))) (unat (bmp + 4 * ucast (of_nat y * width))) (unat (ucast width * 4 :: u64))"

definition video_bmp_display :: "u64 \<Rightarrow> u64 \<Rightarrow> u32 \<Rightarrow> u32 \<Rightarrow> mem \<Rightarrow> mem" where
  "video_bmp_display fb bmp width height = fold (copy_row fb bmp width height) [0..<nat (sint height)]"

section \<open>Properties\<close>

text \<open>Where the row \<open>y\<close> of a picture of \<open>w\<close> times \<open>h\<close> pixels belongs in the frame buffer.\<close>

definition row_at :: "nat \<Rightarrow> nat \<Rightarrow> nat \<Rightarrow> nat" where
  "row_at w h y = 4 * (((FB_HEIGHT - h) div 2 + y) * FB_WIDTH + (FB_WIDTH - w) div 2)"

text \<open>A picture that fits the screen, apart from the frame buffer in memory.\<close>

definition picture_ok :: "u64 \<Rightarrow> u64 \<Rightarrow> nat \<Rightarrow> nat \<Rightarrow> bool" where
  "picture_ok fb bmp w h \<longleftrightarrow> w \<le> FB_WIDTH \<and> h \<le> FB_HEIGHT \<and> unat fb + 4 * FB_WIDTH * FB_HEIGHT < 2 ^ 64 \<and>
     unat bmp + 4 * w * h < 2 ^ 64 \<and>
     (unat bmp + 4 * w * h \<le> unat fb \<or> unat fb + 4 * FB_WIDTH * FB_HEIGHT \<le> unat bmp)"

lemma row_inside:
  assumes "w \<le> FB_WIDTH" "h \<le> FB_HEIGHT" "y < h"
  shows "row_at w h y + 4 * w \<le> 4 * FB_WIDTH * FB_HEIGHT"
proof -
  have "(FB_HEIGHT - h) div 2 + y + 1 \<le> FB_HEIGHT" using assms(2,3) by (simp add: FB_HEIGHT_def)
  then have "((FB_HEIGHT - h) div 2 + y + 1) * FB_WIDTH \<le> FB_HEIGHT * FB_WIDTH" by (rule mult_le_mono1)
  moreover have "(FB_WIDTH - w) div 2 + w \<le> FB_WIDTH" using assms(1) by (simp add: FB_WIDTH_def)
  ultimately show ?thesis by (simp add: row_at_def algebra_simps)
qed

lemma row_dst_at:
  assumes "picture_ok fb bmp w h" "y < h"
  shows "unat (row_dst fb (of_nat w) (of_nat h) (int y)) = unat fb + row_at w h y"
proof -
  have s: "sint (of_nat w :: u32) = int w" "sint (of_nat h :: u32) = int h"
    using assms by (simp_all add: picture_ok_def FB_WIDTH_def FB_HEIGHT_def signed_of_nat signed_take_bit_int_eq_self)
  have "half (int FB_WIDTH - int w) = int ((FB_WIDTH - w) div 2)" "half (int FB_HEIGHT - int h) = int ((FB_HEIGHT - h) div 2)"
    using assms by (simp_all add: half_def picture_ok_def of_nat_diff zdiv_int)
  then have "row_dst fb (of_nat w) (of_nat h) (int y) = fb + of_int (int (row_at w h y))"
    unfolding row_dst_def Let_def s row_at_def by (simp only: of_nat_mult of_nat_add of_nat_numeral)
  also have "\<dots> = of_nat (unat fb + row_at w h y)" by simp
  finally have "row_dst fb (of_nat w) (of_nat h) (int y) = of_nat (unat fb + row_at w h y)" .
  moreover have "unat fb + row_at w h y < 2 ^ 64" using row_inside [of w h y] assms by (simp add: picture_ok_def)
  ultimately show ?thesis by (simp only: unat_of_nat) (simp del: of_nat_add)
qed

lemma row_src_at:
  assumes "picture_ok fb bmp w h" "y < h"
  shows "unat (bmp + 4 * ucast (of_nat y * of_nat w :: u32)) = unat bmp + 4 * (y * w)" "unat (ucast (of_nat w :: u32) * 4 :: u64) = 4 * w"
proof -
  have w: "w \<le> 1920" "y < 1080" using assms by (simp_all add: picture_ok_def FB_WIDTH_def FB_HEIGHT_def)
  then have "y * w \<le> 1080 * 1920" by (intro mult_le_mono) simp_all
  then have "ucast (of_nat (y * w) :: u32) = (of_nat (y * w) :: u64)"
    by (simp add: word_unat_eq_iff unsigned_ucast_eq unat_of_nat take_bit_eq_mod del: of_nat_mult)
  then have "bmp + 4 * ucast (of_nat y * of_nat w :: u32) = of_nat (unat bmp + 4 * (y * w))" by simp
  moreover have "y * w \<le> h * w" using assms(2) by (intro mult_le_mono1) simp
  then have "4 * (y * w) \<le> 4 * w * h" using mult_le_mono2 [of "y * w" "h * w" 4] by (simp add: ac_simps)
  then have "unat bmp + 4 * (y * w) < 2 ^ 64" using assms(1) unfolding picture_ok_def by linarith
  ultimately show "unat (bmp + 4 * ucast (of_nat y * of_nat w :: u32)) = unat bmp + 4 * (y * w)"
    by (simp only: unat_of_nat) (simp del: of_nat_add of_nat_mult)
  show "unat (ucast (of_nat w :: u32) * 4 :: u64) = 4 * w"
    using w(1) by (simp add: unat_word_ariths unsigned_ucast_eq unat_of_nat take_bit_eq_mod)
qed

lemma copy_row_effect:
  assumes ok: "picture_ok fb bmp w h" and y: "y < h"
  shows "copy_row fb bmp (of_nat w) (of_nat h) y m =
    (\<lambda>a. if unat fb + row_at w h y \<le> a \<and> a < unat fb + row_at w h y + 4 * w then m (unat bmp + 4 * (y * w) + (a - (unat fb + row_at w h y))) else m a)"
proof -
  have r: "row_at w h y + 4 * w \<le> 4 * FB_WIDTH * FB_HEIGHT" using row_inside ok y by (simp add: picture_ok_def)
  have "(y + 1) * w \<le> h * w" using y by (intro mult_le_mono1) simp
  then have "4 * (y * w) + 4 * w \<le> 4 * w * h" by (simp add: algebra_simps)
  then have "unat bmp + 4 * (y * w) + 4 * w \<le> unat fb + row_at w h y \<or> unat fb + row_at w h y + 4 * w \<le> unat bmp + 4 * (y * w)"
    using ok r unfolding picture_ok_def by linarith
  from memcpy_correct [OF this, of m] show ?thesis
    unfolding copy_row_def row_dst_at [OF ok y] row_src_at [OF ok y] .
qed

lemma rows_apart: "w \<le> FB_WIDTH \<Longrightarrow> x < y \<Longrightarrow> row_at w h x + 4 * w \<le> row_at w h y"
proof -
  assume w: "w \<le> FB_WIDTH" and "x < y"
  then have "((FB_HEIGHT - h) div 2 + x + 1) * FB_WIDTH \<le> ((FB_HEIGHT - h) div 2 + y) * FB_WIDTH" by (intro mult_le_mono1) simp
  then show ?thesis using w by (simp add: row_at_def algebra_simps)
qed

text \<open>The rows that are copied, up to row \<open>n\<close>.\<close>

lemma copy_rows:
  assumes ok: "picture_ok fb bmp w h" and "n \<le> h"
  shows "(\<forall>y < n. \<forall>i < 4 * w. fold (copy_row fb bmp (of_nat w) (of_nat h)) [0..<n] m (unat fb + row_at w h y + i) = m (unat bmp + 4 * (y * w) + i)) \<and>
    (\<forall>a. a < unat fb \<or> unat fb + 4 * FB_WIDTH * FB_HEIGHT \<le> a \<longrightarrow> fold (copy_row fb bmp (of_nat w) (of_nat h)) [0..<n] m a = m a)"
  using assms(2)
proof (induction n)
  case (Suc n)
  let ?m = "fold (copy_row fb bmp (of_nat w) (of_nat h)) [0..<n] m"
  have n: "n < h" using Suc.prems by simp
  have r: "row_at w h n + 4 * w \<le> 4 * FB_WIDTH * FB_HEIGHT" using row_inside ok n by (simp add: picture_ok_def)
  have IH: "\<And>y i. y < n \<Longrightarrow> i < 4 * w \<Longrightarrow> ?m (unat fb + row_at w h y + i) = m (unat bmp + 4 * (y * w) + i)"
    "\<And>a. a < unat fb \<or> unat fb + 4 * FB_WIDTH * FB_HEIGHT \<le> a \<Longrightarrow> ?m a = m a" using Suc by auto
  have f: "fold (copy_row fb bmp (of_nat w) (of_nat h)) [0..<Suc n] m = copy_row fb bmp (of_nat w) (of_nat h) n ?m" by simp
  have "copy_row fb bmp (of_nat w) (of_nat h) n ?m (unat fb + row_at w h y + i) = m (unat bmp + 4 * (y * w) + i)"
    if "y < Suc n" "i < 4 * w" for y i
  proof (cases "y = n")
    case True
    have "(n + 1) * w \<le> h * w" using n by (intro mult_le_mono1) simp
    then have "4 * (n * w) + 4 * w \<le> 4 * w * h" by (simp add: algebra_simps)
    then have "?m (unat bmp + 4 * (n * w) + i) = m (unat bmp + 4 * (n * w) + i)"
      using ok that(2) unfolding picture_ok_def by (intro IH(2)) linarith
    with True that(2) show ?thesis unfolding copy_row_effect [OF ok n] by simp
  next
    case False
    then have "row_at w h y + 4 * w \<le> row_at w h n" using rows_apart ok that(1) by (simp add: picture_ok_def)
    with False that IH(1) show ?thesis unfolding copy_row_effect [OF ok n] by simp
  qed
  moreover have "copy_row fb bmp (of_nat w) (of_nat h) n ?m a = m a" if "a < unat fb \<or> unat fb + 4 * FB_WIDTH * FB_HEIGHT \<le> a" for a
    using that IH(2) [OF that] r unfolding copy_row_effect [OF ok n] by auto
  ultimately show ?case unfolding f by blast
qed simp

text \<open>A picture that fits is shown in the centre of the screen, and nothing outside of the frame buffer is written.\<close>

lemma video_bmp_display_correct:
  assumes "picture_ok fb bmp w h"
  shows "\<forall>y < h. \<forall>i < 4 * w. video_bmp_display fb bmp (of_nat w) (of_nat h) m (unat fb + row_at w h y + i) = m (unat bmp + 4 * (y * w) + i)"
    "\<forall>a. a < unat fb \<or> unat fb + 4 * FB_WIDTH * FB_HEIGHT \<le> a \<longrightarrow> video_bmp_display fb bmp (of_nat w) (of_nat h) m a = m a"
proof -
  have "nat (sint (of_nat h :: u32)) = h"
    using assms by (simp add: picture_ok_def FB_HEIGHT_def signed_of_nat signed_take_bit_int_eq_self)
  then show "\<forall>y < h. \<forall>i < 4 * w. video_bmp_display fb bmp (of_nat w) (of_nat h) m (unat fb + row_at w h y + i) = m (unat bmp + 4 * (y * w) + i)"
    "\<forall>a. a < unat fb \<or> unat fb + 4 * FB_WIDTH * FB_HEIGHT \<le> a \<longrightarrow> video_bmp_display fb bmp (of_nat w) (of_nat h) m a = m a"
    using copy_rows [OF assms order.refl, of m] by (auto simp: video_bmp_display_def)
qed

end
