(* ===== verification/Shell.thy ===== *)
theory Shell
  imports Trap Devices Uart
begin

text \<open>
  \<open>src/main.c\<close>: the start of the kernel, the shell thread and its commands. Output goes byte by byte to
  the console of the environment. The addresses of string literals, functions and local buffers are
  further fields of the environment. The endless loops of the shell and of the idle thread are modelled
  by one round each, and by any number of rounds.
\<close>

record shell_env = trap_env +
  sh_getc :: "u8 sop"
  sh_sbi :: firmware
  sh_lit :: "string \<Rightarrow> u64"
  sh_buffer :: u64
  sh_test_buf :: u64
  kernel_fdt :: u64
  timeout_callback_addr :: u64
  user_program_loader_addr :: u64
  shell_thread_addr :: u64
  idle_addr :: u64
  wrapper_addr :: u64

abbreviation sys_of :: "shell_env \<Rightarrow> sys_env" where
  "sys_of E \<equiv> sys_env.truncate E"

section \<open>Output\<close>

definition crlf :: "u8 list" where "crlf = [13, 10]"

definition say :: "shell_env \<Rightarrow> u8 list \<Rightarrow> u64 list \<Rightarrow> unit sop" where
  "say E fmt args s =
     (case printf (sy_mem s) fmt args of
        None \<Rightarrow> None
      | Some (Inl e) \<Rightarrow> Some (Inl e)
      | Some (Inr out) \<Rightarrow> kfor (se_putc E) out s)"

definition say_line :: "shell_env \<Rightarrow> string \<Rightarrow> u64 list \<Rightarrow> unit sop" where
  "say_line E fmt = say E (lit fmt @ crlf)"

definition say_hex :: "shell_env \<Rightarrow> int \<Rightarrow> unit sop" where
  "say_hex E h = kfor (se_putc E) ([48, 120] @ map (\<lambda>i. hex_char (of_int h) (60 - 4 * i)) [0..<16])"

text \<open>What the archive functions print.\<close>

definition emit :: "shell_env \<Rightarrow> cpio_out \<Rightarrow> unit sop" where
  "emit E out =
     (case out of
        Listed n nm \<Rightarrow> say E (lit ''%d '' @ [9] @ lit '' %s'' @ crlf) [of_int n, of_nat nm]
      | Invalid_magic \<Rightarrow> say_line E ''Invalid magic'' []
      | Putc c \<Rightarrow> se_putc E c
      | Newline \<Rightarrow> say E crlf []
      | Not_found nm \<Rightarrow> say_line E ''File %s not found'' [of_nat nm])"

definition emit_all :: "shell_env \<Rightarrow> (mem \<Rightarrow> cpio_out list option) \<Rightarrow> unit sop" where
  "emit_all E f s = Option.bind (f (sy_mem s)) (\<lambda>out. kfor (emit E) out s)"

definition of_fdt :: "(mem \<Rightarrow> 'a fres) \<Rightarrow> 'a sop" where
  "of_fdt f s = map_option (map_sum id (\<lambda>x. (x, s))) (f (sy_mem s))"

definition initrd_addr :: "u64 \<Rightarrow> u64 sop" where
  "initrd_addr dt =
     kbind (of_fdt (\<lambda>m. get_initrd_start m dt)) (\<lambda>a. kret (if a \<noteq> 0 \<and> a < PAGE_OFFSET then a + PAGE_OFFSET else a))"

section \<open>The command setTimeout\<close>

text \<open>\<open>struct timeout_args\<close> in memory: the message, the duration and the time of the command.\<close>

definition SIZEOF_TIMEOUT_ARGS :: u64 where "SIZEOF_TIMEOUT_ARGS = 24"

definition store32 :: "u64 \<Rightarrow> u32 \<Rightarrow> mem \<Rightarrow> mem" where
  "store32 a v m = fold (\<lambda>i m. m(unat a + i := ucast (drop_bit (8 * i) v))) [0..<4] m"

definition timeout_callback :: "shell_env \<Rightarrow> u64 \<Rightarrow> unit sop" where
  "timeout_callback E targs =
     kbind (kget (\<lambda>s. get_time_in_seconds (se_now E) (sy_timers s))) (\<lambda>current_time.
     kbind (kget (\<lambda>s. load64 targs (sy_mem s))) (\<lambda>message.
     kbind (kget (\<lambda>s. load32 (sy_mem s) (targs + 8))) (\<lambda>duration.
     kbind (kget (\<lambda>s. load64 (targs + 16) (sy_mem s))) (\<lambda>executed_time.
     kbind (say E (crlf @ lit ''[%lu] setTimeout: %s (Command executed at: %lu, duration: %d seconds)'' @ crlf @ lit ''# '')
              [current_time, message, executed_time, ucast duration]) (\<lambda>_.
     kbind (sys_free message) (\<lambda>_. sys_free targs))))))"

definition my_atoi :: "u8 list \<Rightarrow> int" where
  "my_atoi str = sint (foldl (\<lambda>res c. res * 10 + (ucast c - 48)) (0 :: u32) (takeWhile is_dec str))"

definition sys_strcpy :: "u64 \<Rightarrow> u64 \<Rightarrow> unit sop" where
  "sys_strcpy d p s = map_option (\<lambda>m. Inr ((), upd_mem (\<lambda>_. m) s)) (strcpy (unat d) (unat p) (sy_mem s))"

text \<open>The command from the text after its name, which lies at \<open>p\<close>.\<close>

definition cmd_setTimeout :: "shell_env \<Rightarrow> u64 \<Rightarrow> u8 list \<Rightarrow> unit sop" where
  "cmd_setTimeout E p text =
     (let args = dropWhile (\<lambda>c. c = 32) text;
          msg = dropWhile (\<lambda>c. c = 32) (dropWhile is_dec args)
      in if args = [] \<or> \<not> is_dec (hd args) \<or> msg = [] then say_line E ''Usage: setTimeout SECONDS MESSAGE'' []
         else
           let sec = my_atoi args; q = p + of_nat (length text - length msg)
           in kbind (sys_alloc (of_nat (length msg + 1))) (\<lambda>msg_copy.
              if msg_copy = 0 then say_line E ''Failed to allocate memory for setTimeout'' []
              else
                kbind (sys_strcpy msg_copy q) (\<lambda>_.
                kbind (sys_alloc SIZEOF_TIMEOUT_ARGS) (\<lambda>targs.
                if targs = 0
                then kbind (sys_free msg_copy) (\<lambda>_. say_line E ''Failed to allocate memory for setTimeout arguments'' [])
                else
                  kbind (kmod (upd_mem (store64 targs msg_copy))) (\<lambda>_.
                  kbind (kmod (upd_mem (store32 (targs + 8) (of_int sec)))) (\<lambda>_.
                  kbind (kmod (\<lambda>s. upd_mem (store64 (targs + 16) (get_time_in_seconds (se_now E) (sy_timers s))) s)) (\<lambda>_.
                  kbind (on_timers (add_timer (se_now E) (timeout_callback_addr E) targs sec)) (\<lambda>_. kret ()))))))))"

section \<open>The command exec\<close>

text \<open>\<open>user_program_loader\<close>, the function of the new thread.\<close>

definition user_program_loader :: "shell_env \<Rightarrow> unit sop" where
  "user_program_loader E =
     kbind (kget (\<lambda>s. if tp s \<noteq> 0 then th_arg (threads s (tp s)) else 0)) (\<lambda>filename.
     kbind (initrd_addr (kernel_fdt E)) (\<lambda>initrd.
     if filename = 0 then say_line E ''No program specified for exec wrapper'' []
     else
       kbind (exec (trap_env.truncate E) filename initrd) (\<lambda>r.
       if r < 0 then sys_free filename else kret ())))"

text \<open>The loop that gives up the processor until the thread has ended.\<close>

partial_function (option) wait_end :: "shell_env \<Rightarrow> u64 \<Rightarrow> sys \<Rightarrow> (kernel_fault + unit \<times> sys) option" where
  "wait_end E t s =
     (if zombie (threads s t) then Some (Inr ((), s))
      else Option.bind (yield (se_others E) s) (\<lambda>r.
        if isl r then Some (Inl (projl r)) else wait_end E t (snd (projr r))))"

definition cmd_exec :: "shell_env \<Rightarrow> u64 \<Rightarrow> u8 list \<Rightarrow> unit sop" where
  "cmd_exec E p nm =
     kbind (sys_alloc (of_nat (length nm + 1))) (\<lambda>prog.
     if prog = 0 then say_line E ''Failed to allocate memory for program name'' []
     else
       kbind (sys_strcpy prog p) (\<lambda>_.
       kbind (thread_create (wrapper_addr E) (user_program_loader_addr E)) (\<lambda>t.
       if t = 0
       then kbind (sys_free prog) (\<lambda>_. say_line E ''Failed to create thread for program %s'' [prog])
       else
         kbind (kmod (upd_thread t (\<lambda>th. th\<lparr>th_arg := prog\<rparr>))) (\<lambda>_.
         kbind (kget (\<lambda>s. of_int (pid (threads s t)))) (\<lambda>n.
         kbind (say_line E ''Launched %s as PID: %d'' [prog, n]) (\<lambda>_. wait_end E t))))))"

section \<open>The command \<open>vfs_test\<close>\<close>

definition quoted :: "string \<Rightarrow> string" where
  "quoted s = CHR 0x27 # s @ [CHR 0x27]"

definition test_open :: "shell_env \<Rightarrow> string \<Rightarrow> u32 \<Rightarrow> u64 option sop" where
  "test_open E path fl = kbind (kget cur_cwd) (\<lambda>dir. on_vfs (vfs_open (se_fs E) dir (lit path) fl))"

definition test_lookup :: "shell_env \<Rightarrow> string \<Rightarrow> u64 option sop" where
  "test_lookup E path = kbind (kget cur_cwd) (\<lambda>dir. on_vfs (vfs_lookup (se_fs E) dir (lit path)))"

definition test_mkdir :: "shell_env \<Rightarrow> string \<Rightarrow> unit sop" where
  "test_mkdir E path = kbind (kget cur_cwd) (\<lambda>dir. kbind (on_vfs (vfs_mkdir (se_fs E) dir (lit path))) (\<lambda>_. kret ()))"

definition test_chdir :: "shell_env \<Rightarrow> string \<Rightarrow> unit sop" where
  "test_chdir E path = kbind (sys_chdir (sys_of E) (sh_lit E path)) (\<lambda>_. kret ())"

definition write_close :: "shell_env \<Rightarrow> u64 \<Rightarrow> string \<Rightarrow> unit sop" where
  "write_close E a text =
     kbind (on_vfs (vfs_write (se_fs E) a (sh_lit E text) (of_nat (length text)))) (\<lambda>_.
     kbind (on_vfs (vfs_close a)) (\<lambda>_. kret ()))"

text \<open>Reading a file through a descriptor, with what to print after success and on failure.\<close>

definition read_back :: "shell_env \<Rightarrow> string \<Rightarrow> u64 \<Rightarrow> string \<Rightarrow> string \<Rightarrow> unit sop" where
  "read_back E path n good bad =
     kbind (sys_open (sys_of E) (sh_lit E path) 0) (\<lambda>fd.
     if fd \<ge> 0
     then
       kbind (kmod (upd_mem (memset (unat (sh_test_buf E)) 0 100))) (\<lambda>_.
       kbind (sys_read (sys_of E) fd (sh_test_buf E) n) (\<lambda>_.
       kbind (say_line E (good @ quoted ''%s'') [sh_test_buf E]) (\<lambda>_.
       kbind (sys_close fd) (\<lambda>_. kret ()))))
     else say_line E bad [])"

definition is_root :: "u64 option \<Rightarrow> sys \<Rightarrow> bool" where
  "is_root r s \<longleftrightarrow> r = Some (mt_root (mounts (sy_vfs s) (rootfs (sy_vfs s))))"

text \<open>The parts of the test in their order: relative paths, dots, descriptors, mounts, the read-only file system.\<close>

definition test_relative :: "shell_env \<Rightarrow> unit sop" where
  "test_relative E =
     kbind (test_mkdir E ''/dir1'') (\<lambda>_.
     kbind (test_chdir E ''/dir1'') (\<lambda>_.
     kbind (say_line E ''2. mkdir /dir1 and chdir to /dir1'' []) (\<lambda>_.
     kbind (test_open E ''relative_file'' O_CREAT) (\<lambda>r.
     case r of
       Some a \<Rightarrow>
         kbind (write_close E a ''Relative Path Success'') (\<lambda>_.
         say_line E (''   Success: Created '' @ quoted ''relative_file'' @ '' inside /dir1 using relative path'') [])
     | None \<Rightarrow> say_line E (''   Fail: Could not create '' @ quoted ''relative_file'' @ '' using relative path'') []))))"

definition test_dots :: "shell_env \<Rightarrow> unit sop" where
  "test_dots E =
     kbind (test_lookup E ''.'') (\<lambda>r.
     kbind (if r \<noteq> None then say_line E (''3. Lookup '' @ quoted ''.'' @ '' success'') [] else kret ()) (\<lambda>_.
     kbind (test_lookup E ''..'') (\<lambda>r.
     kbind (kget (is_root r)) (\<lambda>root.
     kbind (if root then say_line E (''   Lookup '' @ quoted ''..'' @ '' resolved to root success'') [] else kret ()) (\<lambda>_.
     kbind (test_chdir E ''/'') (\<lambda>_.
     kbind (test_open E ''dir1/../test_file'' 0) (\<lambda>r.
     case r of
       Some a \<Rightarrow>
         kbind (say_line E (''   Lookup '' @ quoted ''dir1/../test_file'' @ '' success'') []) (\<lambda>_.
         kbind (on_vfs (vfs_close a)) (\<lambda>_. kret ()))
     | None \<Rightarrow> kret ())))))))"

definition test_mount :: "shell_env \<Rightarrow> unit sop" where
  "test_mount E =
     kbind (test_mkdir E ''/mnt'') (\<lambda>_.
     kbind (kget cur_cwd) (\<lambda>dir.
     kbind (on_vfs (vfs_mount (se_fs E) dir (lit ''/mnt'') (lit ''tmpfs''))) (\<lambda>_.
     kbind (test_chdir E ''/mnt'') (\<lambda>_.
     kbind (test_lookup E ''..'') (\<lambda>r.
     kbind (kget (is_root r)) (\<lambda>root.
     if root
     then say_line E (''5. Mounted tmpfs at /mnt, '' @ quoted ''..'' @ '' from /mnt correctly resolved to root'') []
     else kret ()))))))"

definition test_ramfs :: "shell_env \<Rightarrow> unit sop" where
  "test_ramfs E =
     kbind (say_line E ''6. Testing /ramfs (Basic Exercise 4)'' []) (\<lambda>_.
     kbind (read_back E ''/ramfs/hello.txt'' 12 ''   Read /ramfs/hello.txt: ''
              (''   Could not open /ramfs/hello.txt (might not exist in cpio, but that'' @ [CHR 0x27] @ ''s okay if lookup works)'')) (\<lambda>_.
     kbind (sys_open (sys_of E) (sh_lit E ''/ramfs/test_write'') O_CREAT) (\<lambda>fd.
     if fd \<ge> 0
     then
       kbind (say_line E ''   Fail: Should not be able to create file in /ramfs'' []) (\<lambda>_.
       kbind (sys_close fd) (\<lambda>_. kret ()))
     else say_line E ''   Success: Create file in /ramfs failed as expected'' [])))"

definition vfs_test :: "shell_env \<Rightarrow> unit sop" where
  "vfs_test E =
     kbind (say_line E ''--- VFS Exercise 3 Test Start ---'' []) (\<lambda>_.
     kbind (test_open E ''/test_file'' O_CREAT) (\<lambda>r.
     case r of
       None \<Rightarrow> say_line E ''vfs_open failed'' []
     | Some a \<Rightarrow>
         kbind (write_close E a ''Hello VFS!'') (\<lambda>_.
         kbind (say_line E ''1. Created and wrote to /test_file'' []) (\<lambda>_.
         kbind (test_relative E) (\<lambda>_.
         kbind (test_dots E) (\<lambda>_.
         kbind (read_back E ''/test_file'' 10 ''4. sys_open and sys_read success: '' ''4. sys_open failed'') (\<lambda>_.
         kbind (test_mount E) (\<lambda>_.
         kbind (test_ramfs E) (\<lambda>_.
         say_line E ''--- VFS Exercise 3 Test End ---'' [])))))))))"

section \<open>The shell\<close>

text \<open>Reading a line into \<open>buffer[256]\<close>; the result is its length.\<close>

definition put_char :: "shell_env \<Rightarrow> nat \<Rightarrow> u8 \<Rightarrow> unit sop" where
  "put_char E idx c = kmod (upd_mem (\<lambda>m. m(unat (sh_buffer E) + idx := c)))"

partial_function (option) read_line :: "shell_env \<Rightarrow> nat \<Rightarrow> sys \<Rightarrow> (kernel_fault + nat \<times> sys) option" where
  "read_line E idx s =
     Option.bind (sh_getc E s) (\<lambda>r.
       if isl r then Some (Inl (projl r))
       else if fst (projr r) = 10 \<or> fst (projr r) = 13
       then kbind (say E crlf []) (\<lambda>_. kbind (put_char E idx 0) (\<lambda>_. kret idx)) (snd (projr r))
       else if idx < 255
       then Option.bind (kbind (put_char E idx (fst (projr r))) (\<lambda>_. se_putc E (fst (projr r))) (snd (projr r))) (\<lambda>r.
              if isl r then Some (Inl (projl r)) else read_line E (idx + 1) (snd (projr r)))
       else read_line E idx (snd (projr r)))"

text \<open>The terminator fits into the buffer.\<close>

lemma read_line_bound:
  assumes "read_line E idx s = Some (Inr (n, s'))" "idx \<le> 255"
  shows "n \<le> 255"
proof -
  have "idx \<le> 255 \<longrightarrow> (\<forall>n s'. y = Inr (n, s') \<longrightarrow> n \<le> 255)" if "read_line E idx s = Some y" for y
    using that
  proof (rule read_line.raw_induct [rotated])
    fix rec :: "shell_env \<Rightarrow> nat \<Rightarrow> sys \<Rightarrow> (kernel_fault + nat \<times> sys) option" and E idx s y
    assume IH: "\<And>E idx s y. rec E idx s = Some y \<Longrightarrow> idx \<le> 255 \<longrightarrow> (\<forall>n s'. y = Inr (n, s') \<longrightarrow> n \<le> 255)"
      and y: "Option.bind (sh_getc E s) (\<lambda>r.
        if isl r then Some (Inl (projl r))
        else if fst (projr r) = 10 \<or> fst (projr r) = 13
        then kbind (say E crlf []) (\<lambda>_. kbind (put_char E idx 0) (\<lambda>_. kret idx)) (snd (projr r))
        else if idx < 255
        then Option.bind (kbind (put_char E idx (fst (projr r))) (\<lambda>_. se_putc E (fst (projr r))) (snd (projr r))) (\<lambda>r.
               if isl r then Some (Inl (projl r)) else rec E (idx + 1) (snd (projr r)))
        else rec E idx (snd (projr r))) = Some y"
    have e: "kbind (say E crlf []) (\<lambda>_. kbind (put_char E idx 0) (\<lambda>_. kret idx)) t = Some (Inr (n, s')) \<Longrightarrow> n = idx" for t n s'
      by (auto simp: kbind_def put_char_def kmod_def kret_def split: option.splits sum.splits)
    show "idx \<le> 255 \<longrightarrow> (\<forall>n s'. y = Inr (n, s') \<longrightarrow> n \<le> 255)"
      using y by (auto simp: bind_eq_Some_conv split: if_splits dest!: IH e)
  qed
  with assms show ?thesis by blast
qed

definition cmd_help :: "shell_env \<Rightarrow> unit sop" where
  "cmd_help E = kfor (\<lambda>l. say_line E l [])
     [''Avalible commands:'', ''  help - show all commands.'', ''  hello - print Hello world.'', ''  info - print system info.'',
      ''  vfs_test - run VFS and tmpfs basic tests.'', ''  ls - list files in initramfs.'',
      ''  cat [file] - print file content in initramfs.'', ''  exec [file] - execute user program in U-mode.'',
      ''  setTimeout SECONDS MESSAGE - set a timeout with a message.'', ''  signal - register a signal handler.'',
      ''  kill [pid] - send SIGTERM to a process.'']"

definition cmd_info :: "shell_env \<Rightarrow> unit sop" where
  "cmd_info E =
     kbind (say_line E ''System information:'' []) (\<lambda>_.
     kfor (\<lambda>(l, v). kbind (say E (lit l) []) (\<lambda>_. kbind (say_hex E v) (\<lambda>_. say E crlf [])))
       [(''  OpenSBI specification version: '', sbi_get_spec_version (sh_sbi E)),
        (''  Implementation ID: '', sbi_get_impl_id (sh_sbi E)),
        (''  Implementation version: '', sbi_get_impl_version (sh_sbi E))])"

definition cmd_kill :: "shell_env \<Rightarrow> u8 list \<Rightarrow> unit sop" where
  "cmd_kill E text =
     (let target_pid = my_atoi text
      in kbind (sys_kill (sys_of E) target_pid 15) (\<lambda>r.
         say_line E (if r = 0 then ''Sent SIGTERM to PID %d'' else ''Failed to send signal to PID %d'') [of_int target_pid]))"

text \<open>A command of the shell; \<open>line\<close> is the string in the buffer.\<close>

definition run_command :: "shell_env \<Rightarrow> u64 \<Rightarrow> u8 list \<Rightarrow> unit sop" where
  "run_command E initrd line =
     (let m = lit_magic E; t = lit_trailer E; b = sh_buffer E
      in if line = lit ''help'' then cmd_help E
         else if line = lit ''hello'' then say_line E ''Hello world.'' []
         else if line = lit ''vfs_test'' then vfs_test E
         else if line = lit ''info'' then cmd_info E
         else if line = lit ''ls''
         then if initrd \<noteq> 0 then emit_all E (\<lambda>mem. initrd_list mem m t (unat initrd)) else say_line E ''No initrd found'' []
         else if take 3 line = lit ''cat''
         then if take 1 (drop 3 line) = lit '' ''
              then if initrd \<noteq> 0 then emit_all E (\<lambda>mem. initrd_cat mem m t (unat (b + 4)) (unat initrd)) else say_line E ''No initrd found'' []
              else say_line E ''Usage: cat [file]'' []
         else if take 4 line = lit ''exec''
         then if take 1 (drop 4 line) = lit '' ''
              then if initrd \<noteq> 0 then cmd_exec E (b + 5) (drop 5 line) else say_line E ''No initrd found'' []
              else say_line E ''Usage: exec [file]'' []
         else if take 11 line = lit ''setTimeout '' then cmd_setTimeout E (b + 11) (drop 11 line)
         else if line = lit ''signal'' then say_line E ''signal command is usually for user shell.'' []
         else if take 5 line = lit ''kill '' then cmd_kill E (drop 5 line)
         else
           kbind (say E (lit ''Unknown command: '') []) (\<lambda>_.
           kbind (say E line []) (\<lambda>_.
           say E (crlf @ lit ''Use help to get commands.'' @ crlf) [])))"

definition shell_round :: "shell_env \<Rightarrow> u64 \<Rightarrow> unit sop" where
  "shell_round E initrd =
     kbind (say E (crlf @ lit ''# '') []) (\<lambda>_.
     kbind (read_line E 0) (\<lambda>idx.
     if idx = 0 then kret () else kbind (get_path (sh_buffer E)) (\<lambda>line. run_command E initrd line)))"

text \<open>\<open>run_shell\<close> for \<open>n\<close> rounds.\<close>

definition run_shell :: "shell_env \<Rightarrow> u64 \<Rightarrow> nat \<Rightarrow> unit sop" where
  "run_shell E dt n = kbind (initrd_addr dt) (\<lambda>initrd. kfor (\<lambda>_. shell_round E initrd) [0..<n])"

definition shell_thread :: "shell_env \<Rightarrow> nat \<Rightarrow> unit sop" where
  "shell_thread E n =
     kbind (kfor (\<lambda>_. kbind (sys_open (sys_of E) (sh_lit E ''/dev/uart'') 0) (\<lambda>_. kret ())) [0..<3]) (\<lambda>_.
     kbind (kget (\<lambda>s. of_int (pid (threads s (tp s))))) (\<lambda>p.
     kbind (say E (crlf @ lit ''Starting Shell (PID: %d)...'' @ crlf) [p]) (\<lambda>_.
     run_shell E (kernel_fdt E) n)))"

section \<open>The start of the kernel\<close>

text \<open>What the allocator takes from the device tree at \<open>dt\<close>.\<close>

definition memory_prop :: "mem \<Rightarrow> u64 \<Rightarrow> (int \<times> u64 \<times> u64 \<times> u32 \<times> u32) option fres" where
  "memory_prop m dt =
     fbind (fdt_path_offset m dt (lit ''/memory'')) (\<lambda>memory_offset.
     if memory_offset < 0 then fret None
     else
       fbind (fdt_getprop m dt memory_offset (lit ''reg'')) (\<lambda>prop.
       fret (map_option (\<lambda>(p, len). (len, load64 p m, load64 (p + 8) m, load32 m p, load32 m (p + 4))) prop)))"

partial_function (option) reserved_regions :: "mem \<Rightarrow> u64 \<Rightarrow> int \<Rightarrow> (u64 \<times> u64) list fres" where
  "reserved_regions m dt idx =
     Option.bind (fdt_get_reserved_memory_region m dt idx) (\<lambda>x.
       if isl x then Some (Inl (projl x))
       else if projr x = None then Some (Inr [])
       else Option.bind (reserved_regions m dt (idx + 1)) (\<lambda>y. Some (map_sum id (\<lambda>rs. the (projr x) # rs) y)))"

definition read_fdt_info :: "mem \<Rightarrow> u64 \<Rightarrow> fdt_info option fres" where
  "read_fdt_info m dt =
     (if dt = 0 then fret None
      else
        fbind (memory_prop m dt) (\<lambda>reg.
        fbind (get_initrd_start m dt) (\<lambda>first.
        fbind (get_initrd_end m dt) (\<lambda>last.
        fbind (reserved_regions m dt 0) (\<lambda>rs.
        fret (Some \<lparr>fdt_ptr = dt, fdt_totalsize = Fdt.fdt_totalsize m dt, memory_reg = reg, initrd_start = first, initrd_end = last,
                    reserved_memory = rs\<rparr>))))))"

text \<open>The kernel with the two devices that the start sets up, and the constants of the linked image.\<close>

record 'd board =
  bd_sys :: sys
  bd_uart :: "'d uart"
  bd_plic :: plic

record 'd image =
  im_pc :: u64
  im_start :: u64
  im_end :: u64
  im_text_end :: u64
  im_rodata_end :: u64
  im_device :: "'d device"
  im_periodic :: u64
  im_scheduler :: u64
  im_dma :: "dma_access \<Rightarrow> mem \<Rightarrow> mem"
  im_cfg :: u64
  im_cnt :: u64
  im_file :: u64

type_synonym ('a, 'd) bop = "('a, 'd board) kcomp"

definition on_sys :: "'a sop \<Rightarrow> ('a, 'd) bop" where
  "on_sys f b = map_option (map_sum id (\<lambda>(x, s). (x, b\<lparr>bd_sys := s\<rparr>))) (f (bd_sys b))"

definition start_uart :: "u64 \<Rightarrow> (unit, 'd) bop" where
  "start_uart dt =
     kbind (on_sys (of_fdt (\<lambda>m. init_uart_from_fdt m dt))) (\<lambda>a.
     kmod (\<lambda>b. b\<lparr>bd_uart := (bd_uart b)\<lparr>uart_base_addr := to_virtual a\<rparr>\<rparr>))"

definition start_allocator :: "'d image \<Rightarrow> u64 \<Rightarrow> unit sop" where
  "start_allocator I dt =
     kbind (of_fdt (\<lambda>m. read_fdt_info m dt)) (\<lambda>info s.
     map_option (\<lambda>h. Inr ((), s\<lparr>sy_heap := h\<rparr>)) (allocator_init (im_start I) (im_end I) info (sy_heap s)))"

definition start_plic :: "u64 \<Rightarrow> (unit, 'd) bop" where
  "start_plic dt b =
     map_option (map_sum id (\<lambda>p. ((), b\<lparr>bd_plic := if plic_base p \<noteq> 0 then p\<lparr>plic_base := to_virtual (plic_base p)\<rparr> else p\<rparr>)))
       (plic_init (sy_mem (bd_sys b)) dt (bd_plic b))"

definition start_mmu :: "'d image \<Rightarrow> (unit, 'd) bop" where
  "start_mmu I =
     kbind (kget id) (\<lambda>b.
     kbind (on_sys (on_mm (mmu_init (im_start I) (im_text_end I) (im_rodata_end I) (uart_base_addr (bd_uart b)) (plic_base (bd_plic b))))) (\<lambda>p.
     on_sys (kmod (\<lambda>s. s\<lparr>kernel_pgd := p\<rparr>))))"

definition start_timers :: "shell_env \<Rightarrow> 'd image \<Rightarrow> u64 \<Rightarrow> unit sop" where
  "start_timers E I dt =
     kbind (kget (\<lambda>s. time_freq (sy_timers s))) (\<lambda>f.
     kbind (of_fdt (\<lambda>m. fdt_get_timebase_frequency m dt f)) (\<lambda>f.
     on_timers (\<lambda>k. map_option (Pair ()) (timer_init (\<lambda>_. f) (im_periodic I) (im_scheduler I) (se_now E) (se_now E) k))))"

text \<open>\<open>start_kernel\<close> with \<open>n\<close> rounds of the idle thread.\<close>

definition start_kernel :: "shell_env \<Rightarrow> 'd image \<Rightarrow> u64 \<Rightarrow> nat \<Rightarrow> (unit, 'd) bop" where
  "start_kernel E I dt n =
     kbind (start_uart dt) (\<lambda>_.
     kbind (on_sys (say_line E ''Kernel is now running in virtual memory at PC: 0x%lx'' [im_pc I])) (\<lambda>_.
     kbind (on_sys (start_allocator I dt)) (\<lambda>_.
     kbind (start_plic dt) (\<lambda>_.
     kbind (start_mmu I) (\<lambda>_.
     kbind (on_sys (of_fdt (\<lambda>m. uart_get_irq m dt))) (\<lambda>irq.
     kbind (kmod (\<lambda>b. b\<lparr>bd_plic := plic_enable_interrupt irq (bd_plic b)\<rparr>)) (\<lambda>_.
     kbind (on_sys (start_timers E I dt)) (\<lambda>_.
     kbind (on_sys (kmod (upd_mem (video_init True (im_dma I) (im_cfg I) (im_cnt I) (im_file I) (sh_lit E ''etc/ramfb''))))) (\<lambda>_.
     kbind (on_sys (kbind (kget cur_cwd) (\<lambda>dir. on_vfs (vfs_init (se_fs E) dir)))) (\<lambda>_.
     kbind (on_sys (say_line E ''Hello from Main Kernel! Initialization done.'' [])) (\<lambda>_.
     kbind (kmod (\<lambda>b. b\<lparr>bd_uart := uart_setup_interrupts (im_device I) (bd_uart b)\<rparr>)) (\<lambda>_.
     kbind (on_sys (init_thread_system (wrapper_addr E) (idle_addr E))) (\<lambda>_.
     kbind (on_sys (thread_create (wrapper_addr E) (shell_thread_addr E))) (\<lambda>_.
     on_sys (kfor (\<lambda>_. idle_round (se_others E)) [0..<n])))))))))))))))"

end
