(* ===== verification/Boot_Lib.thy ===== *)
theory Boot_Lib
  imports Stdio Cpio
begin

text \<open>
  \<open>src/bootloader/lib\<close>: the libraries of the boot loader, which has copies of its own of the string functions, the number
  printers, the archive reader and the device-tree reader. They are modelled from their own source; the lemmas say which of them
  compute the same as the kernel's, so that the theorems on the kernel's functions hold for them.
\<close>

lemma option_same: "(\<And>y. r = Some y \<Longrightarrow> q = Some y) \<Longrightarrow> (\<And>y. q = Some y \<Longrightarrow> r = Some y) \<Longrightarrow> r = q"
  by (metis option.exhaust)

section \<open>Strings\<close>

partial_function (option) bl_strcmp :: "mem \<Rightarrow> nat \<Rightarrow> nat \<Rightarrow> int option" where
  "bl_strcmp m s1 s2 =
     (if m s1 \<noteq> 0 \<and> m s1 = m s2 then bl_strcmp m (s1 + 1) (s2 + 1)
      else Some (uint (m s1) - uint (m s2)))"

partial_function (option) bl_strlen_loop :: "mem \<Rightarrow> nat \<Rightarrow> nat \<Rightarrow> nat option" where
  "bl_strlen_loop m s len = (if m (s + len) \<noteq> 0 then bl_strlen_loop m s (len + 1) else Some len)"

definition bl_strlen :: "mem \<Rightarrow> nat \<Rightarrow> nat option" where
  "bl_strlen m s = bl_strlen_loop m s 0"

fun bl_strncmp :: "mem \<Rightarrow> nat \<Rightarrow> nat \<Rightarrow> nat \<Rightarrow> int" where
  "bl_strncmp m s1 s2 0 = 0"
| "bl_strncmp m s1 s2 (Suc n) =
     (if m s1 \<noteq> 0 \<and> m s1 = m s2 then bl_strncmp m (s1 + 1) (s2 + 1) n
      else uint (m s1) - uint (m s2))"

partial_function (option) bl_strcpy :: "nat \<Rightarrow> nat \<Rightarrow> mem \<Rightarrow> mem option" where
  "bl_strcpy d s m =
     (let m' = m(d := m s) in if m' d \<noteq> 0 then bl_strcpy (d + 1) (s + 1) m' else Some m')"

fun bl_memset :: "nat \<Rightarrow> u8 \<Rightarrow> nat \<Rightarrow> mem \<Rightarrow> mem" where
  "bl_memset p c 0 m = m"
| "bl_memset p c (Suc n) m = bl_memset (p + 1) c n (m(p := c))"

lemma bl_strcmp_same: "bl_strcmp m s1 s2 = strcmp m s1 s2"
proof (rule option_same)
  show "strcmp m s1 s2 = Some y" if b: "bl_strcmp m s1 s2 = Some y" for y
    by (rule bl_strcmp.raw_induct [where P = "\<lambda>m s1 s2 y. strcmp m s1 s2 = Some y", OF _ b]) (subst strcmp.simps, auto simp: Let_def split: if_splits option.splits)
  show "bl_strcmp m s1 s2 = Some y" if b: "strcmp m s1 s2 = Some y" for y
    by (rule strcmp.raw_induct [where P = "\<lambda>m s1 s2 y. bl_strcmp m s1 s2 = Some y", OF _ b]) (subst bl_strcmp.simps, auto simp: Let_def split: if_splits option.splits)
qed

lemma bl_strlen_loop_same: "bl_strlen_loop m s len = strlen_loop m s len"
proof (rule option_same)
  show "strlen_loop m s len = Some y" if b: "bl_strlen_loop m s len = Some y" for y
    by (rule bl_strlen_loop.raw_induct [where P = "\<lambda>m s len y. strlen_loop m s len = Some y", OF _ b]) (subst strlen_loop.simps, auto simp: Let_def split: if_splits option.splits)
  show "bl_strlen_loop m s len = Some y" if b: "strlen_loop m s len = Some y" for y
    by (rule strlen_loop.raw_induct [where P = "\<lambda>m s len y. bl_strlen_loop m s len = Some y", OF _ b]) (subst bl_strlen_loop.simps, auto simp: Let_def split: if_splits option.splits)
qed

lemma bl_strcpy_same: "bl_strcpy d s m = strcpy d s m"
proof (rule option_same)
  show "strcpy d s m = Some y" if b: "bl_strcpy d s m = Some y" for y
    by (rule bl_strcpy.raw_induct [where P = "\<lambda>d s m y. strcpy d s m = Some y", OF _ b]) (subst strcpy.simps, auto simp: Let_def split: if_splits option.splits)
  show "bl_strcpy d s m = Some y" if b: "strcpy d s m = Some y" for y
    by (rule strcpy.raw_induct [where P = "\<lambda>d s m y. bl_strcpy d s m = Some y", OF _ b]) (subst bl_strcpy.simps, auto simp: Let_def split: if_splits option.splits)
qed

lemma bl_string_same: "bl_strcmp = strcmp" "bl_strlen = strlen" "bl_strncmp = strncmp" "bl_strcpy = strcpy" "bl_memset = memset"
proof -
  show "bl_strcmp = strcmp" by (simp add: fun_eq_iff bl_strcmp_same)
  show "bl_strlen = strlen" by (simp add: fun_eq_iff bl_strlen_def strlen_def bl_strlen_loop_same)
  have "bl_strncmp m s1 s2 n = strncmp m s1 s2 n" for m s1 s2 n by (induction m s1 s2 n rule: bl_strncmp.induct) auto
  then show "bl_strncmp = strncmp" by (simp add: fun_eq_iff)
  show "bl_strcpy = strcpy" by (simp add: fun_eq_iff bl_strcpy_same)
  have "bl_memset p c n m = memset p c n m" for p c n m by (induction n arbitrary: p m) simp_all
  then show "bl_memset = memset" by (simp add: fun_eq_iff)
qed

section \<open>Numbers\<close>

definition bl_print_uint :: "u32 \<Rightarrow> u32 \<Rightarrow> nat \<Rightarrow> u8 \<Rightarrow> kernel_fault + u8 list" where
  "bl_print_uint num base width pad =
     (let buf = (if num = 0 then [48] else digits base num);
          buf = buf @ replicate (width - length buf) pad
      in if length buf > 32 then Inl Buffer_overrun else Inr (rev buf))"

definition bl_print_int :: "u32 \<Rightarrow> nat \<Rightarrow> u8 \<Rightarrow> kernel_fault + u8 list" where
  "bl_print_int num width pad =
     (if sint num < 0 then map_sum id (\<lambda>out. 45 # out) (bl_print_uint (- num) 10 (width - 1) pad)
      else bl_print_uint num 10 width pad)"

definition bl_print_long :: "u64 \<Rightarrow> u64 \<Rightarrow> nat \<Rightarrow> u8 \<Rightarrow> kernel_fault + u8 list" where
  "bl_print_long num base width pad =
     (let buf = (if num = 0 then [48] else digits base num);
          buf = buf @ replicate (width - length buf) pad
      in if length buf > 64 then Inl Buffer_overrun else Inr (rev buf))"

lemma bl_print_same: "bl_print_uint = print_uint" "bl_print_int = print_int" "bl_print_long = print_long"
proof -
  show u: "bl_print_uint = print_uint" by (simp add: fun_eq_iff bl_print_uint_def print_uint_def print_num_def)
  show "bl_print_int = print_int" by (simp add: fun_eq_iff bl_print_int_def print_int_def u)
  show "bl_print_long = print_long" by (simp add: fun_eq_iff bl_print_long_def print_long_def print_num_def)
qed

section \<open>Archive\<close>

fun bl_hextoi_loop :: "mem \<Rightarrow> nat \<Rightarrow> nat \<Rightarrow> u32 \<Rightarrow> u32" where
  "bl_hextoi_loop m s 0 r = r"
| "bl_hextoi_loop m s (Suc n) r =
     (let r = push_bit 4 r in
      if m s \<ge> 65 then bl_hextoi_loop m (s + 1) n (r + (ucast (m s) - 65 + 10))
      else if m s \<ge> 48 then bl_hextoi_loop m (s + 1) n (r + (ucast (m s) - 48))
      else bl_hextoi_loop m s n r)"

definition bl_hextoi :: "mem \<Rightarrow> nat \<Rightarrow> nat \<Rightarrow> int" where
  "bl_hextoi m s n = sint (bl_hextoi_loop m s n 0)"

definition bl_align :: "int \<Rightarrow> int \<Rightarrow> int" where
  "bl_align n byte = (n + byte - 1) AND NOT (byte - 1)"

definition bl_cpio_namesize :: "mem \<Rightarrow> nat \<Rightarrow> int" where
  "bl_cpio_namesize m p = bl_hextoi m (p + NAMESIZE_OFF) 8"

definition bl_cpio_filesize :: "mem \<Rightarrow> nat \<Rightarrow> int" where
  "bl_cpio_filesize m p = bl_hextoi m (p + FILESIZE_OFF) 8"

definition bl_cpio_data :: "mem \<Rightarrow> nat \<Rightarrow> nat" where
  "bl_cpio_data m p = nat (int p + bl_align (int SIZEOF_CPIO + bl_cpio_namesize m p) 4)"

definition bl_cpio_next :: "mem \<Rightarrow> nat \<Rightarrow> nat" where
  "bl_cpio_next m p = nat (int p + (bl_align (int SIZEOF_CPIO + bl_cpio_namesize m p) 4 + bl_align (bl_cpio_filesize m p) 4))"

partial_function (option) bl_initrd_list :: "mem \<Rightarrow> nat \<Rightarrow> nat \<Rightarrow> nat \<Rightarrow> cpio_out list option" where
  "bl_initrd_list m magic trailer p =
     (if bl_strncmp m p magic 6 \<noteq> 0 then Some [Invalid_magic]
      else case bl_strcmp m (p + SIZEOF_CPIO) trailer of
          None \<Rightarrow> None
        | Some r \<Rightarrow>
            if r = 0 then Some []
            else Option.bind (bl_initrd_list m magic trailer (bl_cpio_next m p))
                   (\<lambda>out. Some (Listed (bl_cpio_filesize m p) (p + SIZEOF_CPIO) # out)))"

partial_function (option) bl_initrd_cat :: "mem \<Rightarrow> nat \<Rightarrow> nat \<Rightarrow> nat \<Rightarrow> nat \<Rightarrow> cpio_out list option" where
  "bl_initrd_cat m magic trailer filename p =
     (if bl_strncmp m p magic 6 \<noteq> 0 then Some [Invalid_magic, Not_found filename]
      else case bl_strcmp m (p + SIZEOF_CPIO) trailer of
          None \<Rightarrow> None
        | Some r \<Rightarrow>
            if r = 0 then Some [Not_found filename]
            else case bl_strcmp m (p + SIZEOF_CPIO) filename of
                None \<Rightarrow> None
              | Some r \<Rightarrow>
                  if r = 0 then Some (cat_data m (bl_cpio_data m p) (bl_cpio_filesize m p) @ [Newline])
                  else bl_initrd_cat m magic trailer filename (bl_cpio_next m p))"

lemma bl_cpio_same: "bl_cpio_namesize = cpio_namesize" "bl_cpio_filesize = cpio_filesize" "bl_cpio_data = cpio_data" "bl_cpio_next = cpio_next"
proof -
  have "bl_hextoi_loop m s n r = hextoi_loop m s n r" for m s n r by (induction m s n r rule: bl_hextoi_loop.induct) (auto simp: Let_def)
  then have h: "bl_hextoi = hextoi" by (simp add: fun_eq_iff bl_hextoi_def hextoi_def)
  have a: "bl_align = align_up_int" by (simp add: fun_eq_iff bl_align_def align_up_int_def)
  show n: "bl_cpio_namesize = cpio_namesize" and f: "bl_cpio_filesize = cpio_filesize"
    by (simp_all add: fun_eq_iff h bl_cpio_namesize_def bl_cpio_filesize_def cpio_namesize_def cpio_filesize_def)
  show d: "bl_cpio_data = cpio_data" and x: "bl_cpio_next = cpio_next"
    by (simp_all add: fun_eq_iff n f a bl_cpio_data_def bl_cpio_next_def cpio_data_def cpio_next_def)
qed

lemmas bl_list_simps = bl_initrd_list.simps [unfolded bl_string_same bl_cpio_same]
lemmas bl_list_induct = bl_initrd_list.raw_induct [unfolded bl_string_same bl_cpio_same]
lemmas bl_cat_simps = bl_initrd_cat.simps [unfolded bl_string_same bl_cpio_same]
lemmas bl_cat_induct = bl_initrd_cat.raw_induct [unfolded bl_string_same bl_cpio_same]

lemma bl_initrd_list_same: "bl_initrd_list m magic trailer p = initrd_list m magic trailer p"
proof (rule option_same)
  show "initrd_list m magic trailer p = Some y" if b: "bl_initrd_list m magic trailer p = Some y" for y
    by (rule bl_list_induct [where P = "\<lambda>m magic trailer p y. initrd_list m magic trailer p = Some y", OF _ b]) (subst initrd_list.simps, auto simp: bind_eq_Some_conv split: if_splits option.splits)
  show "bl_initrd_list m magic trailer p = Some y" if b: "initrd_list m magic trailer p = Some y" for y
    by (rule initrd_list.raw_induct [where P = "\<lambda>m magic trailer p y. bl_initrd_list m magic trailer p = Some y", OF _ b]) (subst bl_list_simps, auto simp: bind_eq_Some_conv split: if_splits option.splits)
qed

lemma bl_initrd_cat_same: "bl_initrd_cat m magic trailer filename p = initrd_cat m magic trailer filename p"
proof (rule option_same)
  show "initrd_cat m magic trailer filename p = Some y" if b: "bl_initrd_cat m magic trailer filename p = Some y" for y
    by (rule bl_cat_induct [where P = "\<lambda>m magic trailer filename p y. initrd_cat m magic trailer filename p = Some y", OF _ b]) (subst initrd_cat.simps, auto simp: Let_def split: if_splits option.splits)
  show "bl_initrd_cat m magic trailer filename p = Some y" if b: "initrd_cat m magic trailer filename p = Some y" for y
    by (rule initrd_cat.raw_induct [where P = "\<lambda>m magic trailer filename p y. bl_initrd_cat m magic trailer filename p = Some y", OF _ b]) (subst bl_cat_simps, auto simp: Let_def split: if_splits option.splits)
qed


section \<open>Device tree\<close>

definition bl_bswap32 :: "u32 \<Rightarrow> u32" where
  "bl_bswap32 x = drop_bit 24 (x AND 0xff000000) OR drop_bit 8 (x AND 0x00ff0000) OR
     push_bit 8 (x AND 0x0000ff00) OR push_bit 24 (x AND 0x000000ff)"

definition bl_bswap64 :: "u64 \<Rightarrow> u64" where
  "bl_bswap64 x = push_bit 32 (ucast (bl_bswap32 (ucast (x AND 0xFFFFFFFF)))) OR ucast (bl_bswap32 (ucast (drop_bit 32 x)))"

definition bl_align_up :: "u64 \<Rightarrow> u64 \<Rightarrow> u64" where
  "bl_align_up ptr alignment = (ptr + alignment - 1) AND NOT (alignment - 1)"

definition bl_be32 :: "mem \<Rightarrow> u64 \<Rightarrow> u32" where
  "bl_be32 m a = bl_bswap32 (load32 m a)"

text \<open>A big-endian number of 64 bits, read by one load.\<close>

definition bl_be64 :: "mem \<Rightarrow> u64 \<Rightarrow> u64" where
  "bl_be64 m a = bl_bswap64 (foldr (\<lambda>i w. push_bit 8 w OR ucast (m (unat a + i))) [0..<8] 0)"

function bl_match_path :: "u8 list \<Rightarrow> u8 list \<Rightarrow> bool" where
  "bl_match_path current [] \<longleftrightarrow> current = [] \<or> hd current = at_sign"
| "bl_match_path [] (p # ps) \<longleftrightarrow> False"
| "bl_match_path (c # cs) (p # ps) \<longleftrightarrow>
     (if c = p then bl_match_path cs ps
      else if c = at_sign \<and> p = slash then bl_match_path (dropWhile (\<lambda>x. x \<noteq> slash) (c # cs)) (p # ps)
      else False)"
  by pat_completeness auto
termination
  by (relation "measure (\<lambda>(c, p). length c + length p)") (auto simp: le_imp_less_Suc length_dropWhile_le)

text \<open>The current path on the way into a node and out of it.\<close>

definition bl_enter_node :: "u8 list \<Rightarrow> u8 list \<Rightarrow> u8 list" where
  "bl_enter_node cur name =
     (if cur = [] then [slash] else if length cur > 1 then cur @ slash # name else cur @ name)"

definition bl_leave_node :: "u8 list \<Rightarrow> u8 list" where
  "bl_leave_node cur =
     (if length cur \<le> 1 then []
      else
        let cur = rev (dropWhile (\<lambda>c. c \<noteq> slash) (rev cur))
        in if length cur > 1 then butlast cur else cur)"

definition bl_string_at :: "mem \<Rightarrow> u64 \<Rightarrow> u8 list option" where
  "bl_string_at m p = map_option (\<lambda>n. map (\<lambda>i. m (unat p + i)) [0..<n]) (bl_strlen m (unat p))"

partial_function (option) bl_path_loop :: "mem \<Rightarrow> u64 \<Rightarrow> u8 list \<Rightarrow> u64 \<Rightarrow> u8 list \<Rightarrow> int fres" where
  "bl_path_loop m fdt path p cur =
     (let token = bl_be32 m p; token_offset = offset_of fdt p; p = p + 4
      in if token = FDT_BEGIN_NODE
         then
           Option.bind (bl_string_at m p) (\<lambda>name.
             let cur = bl_enter_node cur name
             in if length cur \<ge> 1024 then Some (Inl Buffer_overrun)
                else if bl_match_path cur path then Some (Inr token_offset)
                else bl_path_loop m fdt path (bl_align_up (p + of_nat (length name) + 1) 4) cur)
         else if token = FDT_END_NODE then bl_path_loop m fdt path p (bl_leave_node cur)
         else if token = FDT_PROP then bl_path_loop m fdt path (bl_align_up (p + 8 + ucast (bl_be32 m p)) 4) cur
         else if token = FDT_END then Some (Inr (- 1))
         else bl_path_loop m fdt path p cur)"

definition bl_fdt_path_offset :: "mem \<Rightarrow> u64 \<Rightarrow> u8 list \<Rightarrow> int fres" where
  "bl_fdt_path_offset m fdt path =
     (if bl_be32 m fdt \<noteq> FDT_MAGIC then fret (- 1)
      else bl_path_loop m fdt path (fdt + ucast (bl_be32 m (fdt + 8))) [])"

partial_function (option) bl_getprop_loop :: "mem \<Rightarrow> u64 \<Rightarrow> u8 list \<Rightarrow> u64 \<Rightarrow> (u64 \<times> int) option fres" where
  "bl_getprop_loop m strings name p =
     (let token = bl_be32 m p; p = p + 4
      in if token = FDT_PROP
         then
           let len = bl_be32 m p; nameoff = bl_be32 m (p + 4)
           in if str_eq m (unat (strings + ucast nameoff)) name then Some (Inr (Some (p + 8, sint len)))
              else bl_getprop_loop m strings name (bl_align_up (p + 8 + ucast len) 4)
         else if token = FDT_NOP then bl_getprop_loop m strings name p
         else Some (Inr None))"

definition bl_fdt_getprop :: "mem \<Rightarrow> u64 \<Rightarrow> int \<Rightarrow> u8 list \<Rightarrow> (u64 \<times> int) option fres" where
  "bl_fdt_getprop m fdt nodeoffset name =
     (let p = fdt + of_int nodeoffset; strings = fdt + ucast (bl_be32 m (fdt + 12))
      in if bl_be32 m p \<noteq> FDT_BEGIN_NODE then fret None
         else Option.bind (bl_strlen m (unat (p + 4))) (\<lambda>n. bl_getprop_loop m strings name (bl_align_up (p + 4 + of_nat n + 1) 4)))"

text \<open>The address of the initial ramdisk; the boot loader never calls it.\<close>

definition bl_get_initrd_start :: "mem \<Rightarrow> u64 \<Rightarrow> u64 fres" where
  "bl_get_initrd_start m fdt =
     (if fdt = 0 then fret 0
      else
        fbind (bl_fdt_path_offset m fdt (lit ''/chosen'')) (\<lambda>chosen.
        if chosen < 0 then fret 0
        else
          fbind (bl_fdt_getprop m fdt chosen (lit ''linux,initrd-start'')) (\<lambda>prop.
          fbind (if prop = None then bl_fdt_getprop m fdt chosen (lit ''initrd-start'') else fret prop) (\<lambda>prop.
          fret (case prop of
                  None \<Rightarrow> 0
                | Some (p, len) \<Rightarrow> if len = 4 then ucast (bl_be32 m p) else if len = 8 then bl_be64 m p else 0)))))"

lemma bl_fdt_parts: "bl_be32 = be32" "bl_align_up = align_up_ptr" "bl_match_path = match_path" "bl_enter_node = enter_node" "bl_leave_node = leave_node"
  "bl_string_at = string_at"
proof -
  show "bl_be32 = be32" by (simp add: fun_eq_iff bl_be32_def be32_def bl_bswap32_def bswap32_def)
  show "bl_align_up = align_up_ptr" by (simp add: fun_eq_iff bl_align_up_def align_up_ptr_def)
  have "bl_match_path c p = match_path c p" for c p by (induction c p rule: match_path.induct) auto
  then show "bl_match_path = match_path" by (simp add: fun_eq_iff)
  show "bl_enter_node = enter_node" "bl_leave_node = leave_node" by (simp_all add: fun_eq_iff bl_enter_node_def enter_node_def bl_leave_node_def leave_node_def)
  show "bl_string_at = string_at" by (simp add: fun_eq_iff bl_string_at_def string_at_def bl_string_same)
qed

lemmas bl_path_loop_simps = bl_path_loop.simps [unfolded bl_fdt_parts, folded skip_name_def skip_prop_def]
lemmas bl_path_loop_induct = bl_path_loop.raw_induct [unfolded bl_fdt_parts, folded skip_name_def skip_prop_def]
lemmas bl_getprop_loop_simps = bl_getprop_loop.simps [unfolded bl_fdt_parts, folded skip_prop_def]
lemmas bl_getprop_loop_induct = bl_getprop_loop.raw_induct [unfolded bl_fdt_parts, folded skip_prop_def]

lemma bl_path_loop_same: "bl_path_loop m fdt path p cur = path_loop m fdt path p cur"
proof (rule option_same)
  show "path_loop m fdt path p cur = Some y" if b: "bl_path_loop m fdt path p cur = Some y" for y
    by (rule bl_path_loop_induct [where P = "\<lambda>m fdt path p cur y. path_loop m fdt path p cur = Some y", OF _ b]) (subst path_loop.simps, auto simp: Let_def bind_eq_Some_conv split: if_splits)
  show "bl_path_loop m fdt path p cur = Some y" if b: "path_loop m fdt path p cur = Some y" for y
    by (rule path_loop.raw_induct [where P = "\<lambda>m fdt path p cur y. bl_path_loop m fdt path p cur = Some y", OF _ b]) (subst bl_path_loop_simps, auto simp: Let_def bind_eq_Some_conv split: if_splits)
qed

lemma bl_getprop_loop_same: "bl_getprop_loop m strings name p = getprop_loop m strings name p"
proof (rule option_same)
  show "getprop_loop m strings name p = Some y" if b: "bl_getprop_loop m strings name p = Some y" for y
    by (rule bl_getprop_loop_induct [where P = "\<lambda>m strings name p y. getprop_loop m strings name p = Some y", OF _ b]) (subst getprop_loop.simps, auto simp: Let_def bind_eq_Some_conv split: if_splits)
  show "bl_getprop_loop m strings name p = Some y" if b: "getprop_loop m strings name p = Some y" for y
    by (rule getprop_loop.raw_induct [where P = "\<lambda>m strings name p y. bl_getprop_loop m strings name p = Some y", OF _ b]) (subst bl_getprop_loop_simps, auto simp: Let_def bind_eq_Some_conv split: if_splits)
qed

lemma bl_fdt_same: "bl_fdt_path_offset = fdt_path_offset" "bl_fdt_getprop = fdt_getprop"
  by (simp_all add: fun_eq_iff bl_fdt_path_offset_def fdt_path_offset_def bl_fdt_getprop_def fdt_getprop_def bl_fdt_parts bl_string_same
    bl_path_loop_same bl_getprop_loop_same fdt_magic_def off_dt_struct_def off_dt_strings_def skip_name_def Let_def)

end
