(* ===== verification/Bootloader.thy ===== *)
theory Bootloader
  imports Boot_Lib Uart Fs_State
begin

text \<open>
  The boot loader (\<open>src/bootloader\<close>), a program of its own: a shell whose command \<open>load\<close> receives the
  kernel over the serial line and jumps to it. Its state is the input that has still to arrive, the output
  sent, the memory and the base address of the console. Waiting for a byte that never arrives is a
  computation that does not end. Its libraries are in \<open>Boot_Lib\<close>.
\<close>

record boot =
  bl_in :: "u8 list"
  bl_out :: "u8 list"
  bl_mem :: mem
  bl_uart :: u64

type_synonym 'a blop = "('a, boot) kcomp"

definition KERNEL_LOAD_ADDR :: nat where "KERNEL_LOAD_ADDR = 0x80200000"
definition BOOT_MAGIC :: u64 where "BOOT_MAGIC = 0x544F4F42"

section \<open>Console\<close>

definition bl_getc_raw :: "u8 blop" where
  "bl_getc_raw s = (case bl_in s of [] \<Rightarrow> None | c # cs \<Rightarrow> Some (Inr (c, s\<lparr>bl_in := cs\<rparr>)))"

definition bl_getc :: "u8 blop" where
  "bl_getc = kbind bl_getc_raw (\<lambda>c. kret (if c = 13 then 10 else c))"

definition bl_sent :: "u8 \<Rightarrow> u8 list" where
  "bl_sent c = (if c = 10 then [13, 10] else [c])"

definition bl_puts :: "u8 list \<Rightarrow> unit blop" where
  "bl_puts cs = kmod (\<lambda>s. s\<lparr>bl_out := bl_out s @ concat (map bl_sent cs)\<rparr>)"

definition bl_hex :: "u64 \<Rightarrow> unit blop" where
  "bl_hex h = bl_puts ([48, 120] @ map (\<lambda>i. hex_char h (60 - 4 * i)) [0..<16])"

text \<open>The conversions of this \<open>printf\<close>, which has no \<open>%p\<close>.\<close>

definition bl_convert :: "mem \<Rightarrow> u8 \<Rightarrow> u8 \<Rightarrow> nat \<Rightarrow> bool \<Rightarrow> u64 \<Rightarrow> (bool \<times> u8 list) fres" where
  "bl_convert m c pad width l a =
     (if c = 100 then Some (map_sum id (Pair True) (bl_print_int (ucast a) width pad))
      else if c = 117 then Some (map_sum id (Pair True) (if l then bl_print_long a 10 width pad else bl_print_uint (ucast a) 10 width pad))
      else if c = 120 then Some (map_sum id (Pair True) (if l then bl_print_long a 16 width pad else bl_print_uint (ucast a) 16 width pad))
      else if c = 115 then (if a = 0 then fret (True, lit ''(null)'') else map_option (\<lambda>s. Inr (True, s)) (bl_string_at m a))
      else if c = 99 then fret (True, [ucast a])
      else fret (False, [37, c]))"

definition bl_printf :: "u8 list \<Rightarrow> u64 list \<Rightarrow> unit blop" where
  "bl_printf fmt args s =
     (case format (bl_convert (bl_mem s)) fmt args of
        None \<Rightarrow> None
      | Some (Inl e) \<Rightarrow> Some (Inl e)
      | Some (Inr out) \<Rightarrow> bl_puts out s)"

abbreviation newline :: "u8 list" where "newline \<equiv> [13, 10]"

section \<open>Receiving the kernel\<close>

definition word4 :: "u8 \<Rightarrow> u8 \<Rightarrow> u8 \<Rightarrow> u8 \<Rightarrow> u64" where
  "word4 a b c d = ucast a OR push_bit 8 (ucast b) OR push_bit 16 (ucast c) OR push_bit 24 (ucast d)"

definition get_word :: "u64 blop" where
  "get_word =
     kbind bl_getc_raw (\<lambda>a. kbind bl_getc_raw (\<lambda>b. kbind bl_getc_raw (\<lambda>c. kbind bl_getc_raw (\<lambda>d. kret (word4 a b c d)))))"

partial_function (option) wait_magic :: "boot \<Rightarrow> (kernel_fault + unit \<times> boot) option" where
  "wait_magic s =
     Option.bind (get_word s) (\<lambda>r.
       if isl r then Some (Inl (projl r))
       else if fst (projr r) = BOOT_MAGIC then Some (Inr ((), snd (projr r)))
       else wait_magic (snd (projr r)))"

fun receive :: "nat \<Rightarrow> nat \<Rightarrow> unit blop" where
  "receive target 0 = kret ()"
| "receive target (Suc n) =
     kbind bl_getc_raw (\<lambda>c.
     kbind (kmod (\<lambda>s. s\<lparr>bl_mem := (bl_mem s)(target := c)\<rparr>)) (\<lambda>_. receive (target + 1) n))"

text \<open>The result is the call of the new kernel: its address and the two arguments.\<close>

definition load_kernel :: "u64 \<Rightarrow> u64 \<Rightarrow> (nat \<times> u64 \<times> u64) blop" where
  "load_kernel hartid dt =
     kbind (bl_printf (lit ''Waiting for kernel...'' @ newline) []) (\<lambda>_.
     kbind wait_magic (\<lambda>_.
     kbind get_word (\<lambda>size.
     kbind (bl_printf (lit ''Kernel size: '') []) (\<lambda>_.
     kbind (bl_hex size) (\<lambda>_.
     kbind (bl_printf (newline @ lit ''Loading...'' @ newline) []) (\<lambda>_.
     kbind (receive KERNEL_LOAD_ADDR (unat size)) (\<lambda>_.
     kbind (bl_printf (lit ''Kernel loaded. Jumping to it...'' @ newline) []) (\<lambda>_.
     kret (KERNEL_LOAD_ADDR, hartid, dt)))))))))"

section \<open>The shell\<close>

partial_function (option) bl_read_line :: "u8 list \<Rightarrow> boot \<Rightarrow> (kernel_fault + u8 list \<times> boot) option" where
  "bl_read_line buf s =
     Option.bind (bl_getc s) (\<lambda>r.
       if isl r then Some (Inl (projl r))
       else if fst (projr r) = 10 \<or> fst (projr r) = 13
       then kbind (bl_printf newline []) (\<lambda>_. kret buf) (snd (projr r))
       else if length buf < 255
       then Option.bind (bl_puts [fst (projr r)] (snd (projr r))) (\<lambda>q.
              if isl q then Some (Inl (projl q)) else bl_read_line (buf @ [fst (projr r)]) (snd (projr q)))
       else bl_read_line buf (snd (projr r)))"

text \<open>One round of the loop; the result is the call of the new kernel, if there is one.\<close>

definition bl_round :: "u64 \<Rightarrow> u64 \<Rightarrow> (nat \<times> u64 \<times> u64) option blop" where
  "bl_round hartid dt =
     kbind (bl_printf (newline @ lit ''# '') []) (\<lambda>_.
     kbind (bl_read_line []) (\<lambda>buffer.
     let line = takeWhile (\<lambda>c. c \<noteq> 0) buffer
     in if buffer = [] then kret None
        else if line = lit ''help''
        then kbind (bl_printf (lit ''Avalible commands:'' @ newline) []) (\<lambda>_.
             kbind (bl_printf (lit ''  help - show all commands.'' @ newline) []) (\<lambda>_.
             kbind (bl_printf (lit ''  hello - print Hello world.'' @ newline) []) (\<lambda>_.
             kbind (bl_printf (lit ''  load - load kernel over UART.'' @ newline) []) (\<lambda>_. kret None))))
        else if line = lit ''hello'' then kbind (bl_printf (lit ''Hello world.'' @ newline) []) (\<lambda>_. kret None)
        else if line = lit ''load'' then kbind (load_kernel hartid dt) (\<lambda>call. kret (Some call))
        else kbind (bl_printf (lit ''Unknown command: '') []) (\<lambda>_.
             kbind (bl_printf line []) (\<lambda>_.
             kbind (bl_printf (newline @ lit ''Use help to get commands.'' @ newline) []) (\<lambda>_. kret None)))))"

partial_function (option) bl_run_shell :: "u64 \<Rightarrow> u64 \<Rightarrow> boot \<Rightarrow> (kernel_fault + (nat \<times> u64 \<times> u64) \<times> boot) option" where
  "bl_run_shell hartid dt s =
     Option.bind (bl_round hartid dt s) (\<lambda>r.
       if isl r then Some (Inl (projl r))
       else if fst (projr r) \<noteq> None then Some (Inr (the (fst (projr r)), snd (projr r)))
       else bl_run_shell hartid dt (snd (projr r)))"

text \<open>The base address of the console; unlike the kernel's, this one always reads 64 bits.\<close>

definition bl_uart_path :: "mem \<Rightarrow> u64 \<Rightarrow> u8 list \<Rightarrow> u8 list option fres" where
  "bl_uart_path m dt path =
     (if path \<noteq> [] \<and> hd path = slash then fret (Some path)
      else
        fbind (bl_fdt_path_offset m dt (lit ''/aliases'')) (\<lambda>aliases_offset.
        if aliases_offset < 0 then fret None
        else
          fbind (bl_fdt_getprop m dt aliases_offset path) (\<lambda>alias_prop.
          case alias_prop of None \<Rightarrow> fret None | Some (p, _) \<Rightarrow> map_option (\<lambda>s. Inr (Some s)) (bl_string_at m p))))"

definition bl_uart_reg :: "mem \<Rightarrow> u64 \<Rightarrow> u8 list \<Rightarrow> u64 option fres" where
  "bl_uart_reg m dt real_path =
     fbind (bl_fdt_path_offset m dt real_path) (\<lambda>uart_offset.
     if uart_offset < 0 then fret None
     else
       fbind (bl_fdt_getprop m dt uart_offset (lit ''reg'')) (\<lambda>reg_prop.
       fret (map_option (\<lambda>(reg, len). bl_be64 m reg) reg_prop)))"

definition bl_init_uart_from_fdt :: "mem \<Rightarrow> u64 \<Rightarrow> u64 fres" where
  "bl_init_uart_from_fdt m dt =
     fbind (bl_fdt_path_offset m dt (lit ''/chosen'')) (\<lambda>chosen_offset.
     if chosen_offset < 0 then fret 0x10000000
     else
       fbind (bl_fdt_getprop m dt chosen_offset (lit ''stdout-path'')) (\<lambda>prop.
       case prop of
         None \<Rightarrow> fret 0x10000000
       | Some (p, _) \<Rightarrow>
           Option.bind (bl_string_at m p) (\<lambda>path.
           if length path \<ge> 256 then Some (Inl Buffer_overrun)
           else
             fbind (bl_uart_path m dt (takeWhile (\<lambda>c. c \<noteq> colon) path)) (\<lambda>r.
             case r of
               None \<Rightarrow> fret 0x10000000
             | Some real_path \<Rightarrow>
                 fbind (bl_uart_reg m dt real_path) (\<lambda>r. fret (case r of None \<Rightarrow> 0x10000000 | Some base \<Rightarrow> base))))))"

definition bl_start_kernel :: "u64 \<Rightarrow> u64 \<Rightarrow> (nat \<times> u64 \<times> u64) blop" where
  "bl_start_kernel hartid dt s =
     (case bl_init_uart_from_fdt (bl_mem s) dt of
        None \<Rightarrow> None
      | Some (Inl e) \<Rightarrow> Some (Inl e)
      | Some (Inr base) \<Rightarrow>
          kbind (bl_printf (lit ''Start Bootloader...:'' @ newline) []) (\<lambda>_. bl_run_shell hartid dt) (s\<lparr>bl_uart := base\<rparr>))"

section \<open>A kernel sent over the line arrives\<close>

text \<open>What the sender writes: words in little-endian order.\<close>

definition le32 :: "u32 \<Rightarrow> u8 list" where
  "le32 w = [ucast w, ucast (drop_bit 8 w), ucast (drop_bit 16 w), ucast (drop_bit 24 w)]"

lemma word4_le32: "word4 (ucast w) (ucast (drop_bit 8 w)) (ucast (drop_bit 16 w)) (ucast (drop_bit 24 w)) = ucast (w :: u32)"
proof (rule bit_word_eqI)
  fix n assume "n < LENGTH(64)"
  then have "n < 8 \<or> 8 \<le> n \<and> n < 16 \<or> 16 \<le> n \<and> n < 24 \<or> 24 \<le> n \<and> n < 32 \<or> 32 \<le> n" by arith
  then show "bit (word4 (ucast w) (ucast (drop_bit 8 w)) (ucast (drop_bit 16 w)) (ucast (drop_bit 24 w))) n = bit (ucast w :: u64) n"
    by (auto simp: word4_def bit_simps dest: bit_imp_le_length)
qed

lemma get_word_le32: "bl_in s = le32 w @ r \<Longrightarrow> get_word s = Some (Inr (ucast w, s\<lparr>bl_in := r\<rparr>))"
  by (simp add: le32_def get_word_def kbind_def bl_getc_raw_def kret_def word4_le32)

lemma ucast_magic: "ucast (w :: u32) = BOOT_MAGIC \<longleftrightarrow> w = 0x544F4F42"
proof -
  have "unat (ucast w :: u64) = unat w" using unsigned_less [of w, where ?'a = nat] by (simp add: unsigned_ucast_eq take_bit_nat_eq_self_iff)
  then show ?thesis by (simp add: word_unat_eq_iff BOOT_MAGIC_def)
qed

lemma wait_magic_finds:
  "bl_in s = concat (map le32 ws) @ le32 0x544F4F42 @ r \<Longrightarrow> 0x544F4F42 \<notin> set ws \<Longrightarrow>
    wait_magic s = Some (Inr ((), s\<lparr>bl_in := r\<rparr>))"
proof (induction ws arbitrary: s)
  case Nil
  then show ?case by (simp add: wait_magic.simps [of s] get_word_le32 BOOT_MAGIC_def)
next
  case (Cons w ws)
  then have "get_word s = Some (Inr (ucast w, s\<lparr>bl_in := concat (map le32 ws) @ le32 0x544F4F42 @ r\<rparr>))" by (simp add: get_word_le32)
  then show ?case using Cons by (simp add: wait_magic.simps [of s] ucast_magic)
qed

definition stored :: "nat \<Rightarrow> u8 list \<Rightarrow> mem \<Rightarrow> mem" where
  "stored a cs m x = (if a \<le> x \<and> x < a + length cs then cs ! (x - a) else m x)"

lemma stored_Nil: "stored a [] m = m"
  by (auto simp: stored_def fun_eq_iff)

lemma stored_Cons: "stored (a + 1) cs (m(a := c)) = stored a (c # cs) m"
proof
  fix x show "stored (a + 1) cs (m(a := c)) x = stored a (c # cs) m x"
    by (auto simp: stored_def nth_Cons Suc_le_eq diff_Suc split: nat.splits)
qed

lemma receive_stores:
  "bl_in s = img @ r \<Longrightarrow> receive a (length img) s = Some (Inr ((), s\<lparr>bl_in := r, bl_mem := stored a img (bl_mem s)\<rparr>))"
proof (induction img arbitrary: a s)
  case Nil
  then show ?case by (simp add: kret_def stored_Nil)
next
  case (Cons c img)
  let ?s = "s\<lparr>bl_in := img @ r, bl_mem := (bl_mem s)(a := c)\<rparr>"
  have "receive a (length (c # img)) s = receive (a + 1) (length img) ?s"
    using Cons.prems by (simp add: kbind_def bl_getc_raw_def kmod_def)
  also have "\<dots> = Some (Inr ((), ?s\<lparr>bl_in := r, bl_mem := stored (a + 1) img (bl_mem ?s)\<rparr>))" by (rule Cons.IH) simp
  finally show ?case using stored_Cons [of a img "bl_mem s" c] by simp
qed

lemma format_plain: "37 \<notin> set fmt \<Longrightarrow> format cv fmt args = fret fmt"
  by (induction fmt) (auto simp: prepend_def fret_def)

lemma kbind_puts: "kbind (bl_puts cs) f s = f () (s\<lparr>bl_out := bl_out s @ concat (map bl_sent cs)\<rparr>)"
  by (simp add: kbind_def bl_puts_def kmod_def)

lemma kbind_printf: "37 \<notin> set fmt \<Longrightarrow> kbind (bl_printf fmt args) f s = f () (s\<lparr>bl_out := bl_out s @ concat (map bl_sent fmt)\<rparr>)"
  by (simp add: kbind_def bl_printf_def format_plain fret_def bl_puts_def kmod_def)

definition load_messages :: "nat \<Rightarrow> u8 list" where
  "load_messages n = concat (map bl_sent (lit ''Waiting for kernel...'' @ newline @ lit ''Kernel size: '' @
     [48, 120] @ map (\<lambda>i. hex_char (of_nat n) (60 - 4 * i)) [0..<16] @
     newline @ lit ''Loading...'' @ newline @ lit ''Kernel loaded. Jumping to it...'' @ newline))"

lemma load_kernel_receives:
  assumes i: "bl_in s = concat (map le32 ws) @ le32 0x544F4F42 @ le32 (of_nat (length img)) @ img @ r"
    and w: "0x544F4F42 \<notin> set ws" and n: "length img < 2 ^ 32"
  shows "load_kernel hartid dt s = Some (Inr ((KERNEL_LOAD_ADDR, hartid, dt),
    s\<lparr>bl_in := r, bl_out := bl_out s @ load_messages (length img), bl_mem := stored KERNEL_LOAD_ADDR img (bl_mem s)\<rparr>))"
proof -
  have sz: "ucast (of_nat (length img) :: u32) = (of_nat (length img) :: u64)" "unat (of_nat (length img) :: u64) = length img"
    using n by (auto intro!: unat_eq_imp simp: unsigned_ucast_eq unat_of_nat take_bit_eq_mod)
  have p: "37 \<notin> set (lit ''Waiting for kernel...'' @ newline)" "37 \<notin> set (lit ''Kernel size: '')" "37 \<notin> set (newline @ lit ''Loading...'' @ newline)"
    "37 \<notin> set (lit ''Kernel loaded. Jumping to it...'' @ newline)" by (simp_all add: lit_def)
  note P = p [THEN kbind_printf]
  let ?o1 = "concat (map bl_sent (lit ''Waiting for kernel...'' @ newline))" and ?o2 = "concat (map bl_sent (lit ''Kernel size: ''))"
  let ?o3 = "concat (map bl_sent ([48, 120] @ map (\<lambda>i. hex_char (of_nat (length img)) (60 - 4 * i)) [0..<16]))"
  let ?o4 = "concat (map bl_sent (newline @ lit ''Loading...'' @ newline))"
  let ?s1 = "s\<lparr>bl_out := bl_out s @ ?o1\<rparr>"
  have w1: "wait_magic ?s1 = Some (Inr ((), ?s1\<lparr>bl_in := le32 (of_nat (length img)) @ img @ r\<rparr>))"
    by (rule wait_magic_finds [OF _ w]) (simp add: i)
  have w2: "get_word (?s1\<lparr>bl_in := le32 (of_nat (length img)) @ img @ r\<rparr>) = Some (Inr (of_nat (length img), ?s1\<lparr>bl_in := img @ r\<rparr>))"
    by (simp add: get_word_le32 sz(1))
  let ?s2 = "?s1\<lparr>bl_in := img @ r\<rparr>"
  let ?s3 = "?s2\<lparr>bl_out := bl_out ?s2 @ ?o2\<rparr>"
  let ?s4 = "?s3\<lparr>bl_out := bl_out ?s3 @ ?o3\<rparr>"
  let ?s5 = "?s4\<lparr>bl_out := bl_out ?s4 @ ?o4\<rparr>"
  have rc: "receive KERNEL_LOAD_ADDR (length img) ?s5 = Some (Inr ((), ?s5\<lparr>bl_in := r, bl_mem := stored KERNEL_LOAD_ADDR img (bl_mem s)\<rparr>))"
    using receive_stores [of ?s5 img r KERNEL_LOAD_ADDR] by simp
  note steps = kbind_Inr [where m = wait_magic, OF w1] kbind_Inr [where m = get_word, OF w2]
    kbind_Inr [where m = "receive KERNEL_LOAD_ADDR (length img)", OF rc]
  show ?thesis unfolding load_kernel_def P bl_hex_def kbind_puts steps sz(2) by (simp add: kret_def load_messages_def)
qed

lemma kbind_getc: "bl_in s = c # cs \<Longrightarrow> bl_getc s = Some (Inr (if c = 13 then 10 else c, s\<lparr>bl_in := cs\<rparr>))"
  by (simp add: bl_getc_def kbind_def bl_getc_raw_def kret_def)

lemma bl_read_line_line:
  "bl_in s = cs @ 10 # r \<Longrightarrow> 10 \<notin> set cs \<Longrightarrow> 13 \<notin> set cs \<Longrightarrow> length buf + length cs \<le> 255 \<Longrightarrow>
    bl_read_line buf s = Some (Inr (buf @ cs, s\<lparr>bl_in := r, bl_out := bl_out s @ concat (map bl_sent (cs @ newline))\<rparr>))"
proof (induction cs arbitrary: buf s)
  case Nil
  then show ?case by (simp add: bl_read_line.simps [of buf s] kbind_getc kbind_printf kret_def)
next
  case (Cons c cs)
  let ?s = "s\<lparr>bl_in := cs @ 10 # r, bl_out := bl_out s @ bl_sent c\<rparr>"
  have "bl_read_line buf s = bl_read_line (buf @ [c]) ?s"
    using Cons.prems by (simp add: bl_read_line.simps [of buf s] kbind_getc bl_puts_def kmod_def)
  also have "\<dots> = Some (Inr ((buf @ [c]) @ cs, ?s\<lparr>bl_in := r, bl_out := bl_out ?s @ concat (map bl_sent (cs @ newline))\<rparr>))"
    using Cons.prems by (intro Cons.IH) auto
  finally show ?case by simp
qed

text \<open>C29. The command \<open>load\<close> followed by a kernel image, framed by the magic number and its size as the sender does,
  and possibly after other words: the boot loader returns from its shell with a call of the
  load address, the image is in memory there byte by byte, nothing else in memory has changed, and exactly the frame has
  been consumed.\<close>

theorem load_command_boots:
  assumes "bl_in s = lit ''load'' @ 10 # concat (map le32 ws) @ le32 0x544F4F42 @ le32 (of_nat (length img)) @ img @ r"
    and "0x544F4F42 \<notin> set ws" "length img < 2 ^ 32"
  shows "\<exists>s'. bl_run_shell hartid dt s = Some (Inr ((KERNEL_LOAD_ADDR, hartid, dt), s')) \<and> bl_in s' = r \<and>
    (\<forall>i < length img. bl_mem s' (KERNEL_LOAD_ADDR + i) = img ! i) \<and>
    (\<forall>a. a < KERNEL_LOAD_ADDR \<or> KERNEL_LOAD_ADDR + length img \<le> a \<longrightarrow> bl_mem s' a = bl_mem s a)"
proof -
  have p: "37 \<notin> set (newline @ lit ''# '')" "10 \<notin> set (lit ''load'')" "13 \<notin> set (lit ''load'')" "length (lit ''load'') \<le> 255"
    "takeWhile (\<lambda>c. c \<noteq> 0) (lit ''load'') = lit ''load''" "lit ''load'' \<noteq> lit ''help''" "lit ''load'' \<noteq> lit ''hello''" "lit ''load'' \<noteq> []"
    by (simp_all add: lit_def)
  let ?i = "concat (map le32 ws) @ le32 0x544F4F42 @ le32 (of_nat (length img)) @ img @ r"
  let ?s1 = "s\<lparr>bl_out := bl_out s @ concat (map bl_sent (newline @ lit ''# ''))\<rparr>"
  let ?s2 = "?s1\<lparr>bl_in := ?i, bl_out := bl_out ?s1 @ concat (map bl_sent (lit ''load'' @ newline))\<rparr>"
  have l: "bl_read_line [] ?s1 = Some (Inr (lit ''load'', ?s2))"
    using bl_read_line_line [of ?s1 "lit ''load''" ?i "[]"] assms(1) p(2-4) by simp
  have "bl_in ?s2 = ?i" by simp
  from load_kernel_receives [OF this assms(2,3)] obtain s' where
    s': "load_kernel hartid dt ?s2 = Some (Inr ((KERNEL_LOAD_ADDR, hartid, dt), s'))" "bl_in s' = r" "bl_mem s' = stored KERNEL_LOAD_ADDR img (bl_mem s)" by simp
  have "bl_round hartid dt s = Some (Inr (Some (KERNEL_LOAD_ADDR, hartid, dt), s'))"
    unfolding bl_round_def kbind_printf [OF p(1)] kbind_Inr [where m = "bl_read_line []", OF l] Let_def p(5)
      if_not_P [OF p(6)] if_not_P [OF p(7)] if_not_P [OF p(8)] if_P [OF refl] kbind_Inr [where m = "load_kernel hartid dt", OF s'(1)]
    by (rule kret_def)
  then have "bl_run_shell hartid dt s = Some (Inr ((KERNEL_LOAD_ADDR, hartid, dt), s'))" by (simp add: bl_run_shell.simps [of hartid dt s])
  with s'(2,3) show ?thesis by (intro exI [of _ s']) (simp add: stored_def)
qed

theorem load_command_boots_witness:
  "\<exists>s'. bl_run_shell 0 0x87000000 \<lparr>bl_in = lit ''load'' @ 10 # le32 0x544F4F42 @ le32 2 @ [7, 8] @ [9], bl_out = [], bl_mem = \<lambda>_. 0, bl_uart = 0\<rparr> =
       Some (Inr ((KERNEL_LOAD_ADDR, 0, 0x87000000), s')) \<and> bl_in s' = [9] \<and> bl_mem s' (KERNEL_LOAD_ADDR + 1) = 8"
  using load_command_boots [where s = "\<lparr>bl_in = lit ''load'' @ 10 # le32 0x544F4F42 @ le32 2 @ [7, 8] @ [9], bl_out = [], bl_mem = \<lambda>_. 0, bl_uart = 0\<rparr>"
    and ws = "[]" and img = "[7, 8]" and r = "[9]" and hartid = 0 and dt = "0x87000000"]
  by auto

text \<open>A stray byte before the frame shifts the words the loader looks at, and it waits forever.\<close>

lemma magic_misaligned:
  assumes "bl_in s = 10 # le32 0x544F4F42 @ le32 4 @ [1, 2, 3, 4]"
  shows "wait_magic s = None"
proof -
  have g: "get_word s = None" if "length (bl_in s) < 4" for s
    using that by (auto simp: get_word_def kbind_def bl_getc_raw_def kret_def split: list.splits)
  have w: "get_word s = Some (Inr (word4 a b c d, s\<lparr>bl_in := r\<rparr>))" if "bl_in s = a # b # c # d # r" for s a b c d r
    using that by (simp add: get_word_def kbind_def bl_getc_raw_def kret_def)
  show ?thesis using assms
    by (simp add: le32_def wait_magic.simps [of s] wait_magic.simps w g word4_def BOOT_MAGIC_def)
qed

end
