(* ===== verification/Assembly.thy ===== *)
theory Assembly
  imports Sys_State
begin

text \<open>
  The assembly code of the kernel: entry and return of traps (\<open>src/src/trap.S\<close>), the context switch
  (\<open>src/src/thread_switch.S\<close>), the return from a signal handler (\<open>src/src/trampoline.S\<close>) and the start
  (\<open>src/src/start.S\<close>), as programs of an instruction datatype with an interpreter. The C functions that the code
  calls are an argument of the interpreter. The register names are those of the trap frame.
\<close>

section \<open>Machine\<close>

datatype csr = SEPC | SSTATUS | SCAUSE | STVAL | SSCRATCH | STVEC

text \<open>\<open>bias\<close> is the difference between the addresses the code runs at and the addresses it was linked to.\<close>

record machine =
  gpr :: "reg \<Rightarrow> u64"
  csrs :: "csr \<Rightarrow> u64"
  memory :: mem
  bias :: u64

text \<open>Labels and symbols are strings. \<open>sd zero\<close>, \<open>csrw csr, zero\<close> have constructors of their own.\<close>

datatype instr =
    Sd reg u64 reg | Sd_zero u64 reg | Ld reg u64 reg
  | Addi reg reg u64 | Add reg reg reg | And reg reg reg | Mv reg reg | Li reg u64 | La reg string
  | Csrr reg csr | Csrw csr reg | Csrw_zero csr | Csrrw reg csr reg
  | Label string | Bnez reg string | Bge reg reg string | Blt reg reg string
  | Call string | Tail string | Jr reg | Ret | Sret | Ecall

text \<open>How a program ends: a return to the address in \<open>ra\<close>, a jump, the end of a trap, a call into the kernel, and the jump to
  another function.\<close>

datatype code_exit = Return u64 | Jump u64 | Trap_return | Environment_call | Tail_call string

definition set_gpr :: "reg \<Rightarrow> u64 \<Rightarrow> machine \<Rightarrow> machine" where
  "set_gpr r v m = m\<lparr>gpr := (gpr m)(r := v)\<rparr>"

definition set_csr :: "csr \<Rightarrow> u64 \<Rightarrow> machine \<Rightarrow> machine" where
  "set_csr c v m = m\<lparr>csrs := (csrs m)(c := v)\<rparr>"

definition set_mem :: "u64 \<Rightarrow> u64 \<Rightarrow> machine \<Rightarrow> machine" where
  "set_mem a v m = m\<lparr>memory := store64 a v (memory m)\<rparr>"

text \<open>The instructions that do not transfer control; \<open>addr\<close> gives the linked address of a symbol.\<close>

fun exec_instr :: "(string \<Rightarrow> u64) \<Rightarrow> instr \<Rightarrow> machine \<Rightarrow> machine option" where
  "exec_instr addr (Sd r off b) m = Some (set_mem (gpr m b + off) (gpr m r) m)"
| "exec_instr addr (Sd_zero off b) m = Some (set_mem (gpr m b + off) 0 m)"
| "exec_instr addr (Ld r off b) m = Some (set_gpr r (load64 (gpr m b + off) (memory m)) m)"
| "exec_instr addr (Addi r b v) m = Some (set_gpr r (gpr m b + v) m)"
| "exec_instr addr (Add r b c) m = Some (set_gpr r (gpr m b + gpr m c) m)"
| "exec_instr addr (And r b c) m = Some (set_gpr r (gpr m b AND gpr m c) m)"
| "exec_instr addr (Mv r b) m = Some (set_gpr r (gpr m b) m)"
| "exec_instr addr (Li r v) m = Some (set_gpr r v m)"
| "exec_instr addr (La r l) m = Some (set_gpr r (addr l + bias m) m)"
| "exec_instr addr (Csrr r c) m = Some (set_gpr r (csrs m c) m)"
| "exec_instr addr (Csrw c r) m = Some (set_csr c (gpr m r) m)"
| "exec_instr addr (Csrw_zero c) m = Some (set_csr c 0 m)"
| "exec_instr addr (Csrrw r c b) m = Some (set_gpr r (csrs m c) (set_csr c (gpr m b) m))"
| "exec_instr addr (Label l) m = Some m"
| "exec_instr addr _ m = None"

fun run_block :: "(string \<Rightarrow> u64) \<Rightarrow> instr list \<Rightarrow> machine \<Rightarrow> machine option" where
  "run_block addr [] m = Some m"
| "run_block addr (i # is) m = Option.bind (exec_instr addr i m) (run_block addr is)"

text \<open>The code after a label, and the target of an instruction that transfers control within the program.\<close>

fun code_after :: "string \<Rightarrow> instr list \<Rightarrow> instr list" where
  "code_after l [] = []"
| "code_after l (i # is) = (if i = Label l then is else code_after l is)"

fun branch_to :: "instr list \<Rightarrow> instr \<Rightarrow> instr list \<Rightarrow> machine \<Rightarrow> instr list option" where
  "branch_to prog (Bnez r l) is m = Some (if gpr m r \<noteq> 0 then code_after l prog else is)"
| "branch_to prog (Bge r b l) is m = Some (if sint (gpr m r) \<ge> sint (gpr m b) then code_after l prog else is)"
| "branch_to prog (Blt r b l) is m = Some (if sint (gpr m r) < sint (gpr m b) then code_after l prog else is)"
| "branch_to prog i is m = None"

fun leave :: "instr \<Rightarrow> machine \<Rightarrow> code_exit option" where
  "leave Ret m = Some (Return (gpr m R_ra))"
| "leave (Jr r) m = Some (Jump (gpr m r))"
| "leave Sret m = Some Trap_return"
| "leave Ecall m = Some Environment_call"
| "leave (Tail f) m = Some (Tail_call f)"
| "leave i m = None"

text \<open>\<open>call\<close> runs a C function on the state of the machine.\<close>

partial_function (option) run_code ::
  "(string \<Rightarrow> u64) \<Rightarrow> (string \<Rightarrow> machine \<Rightarrow> machine option) \<Rightarrow> instr list \<Rightarrow> instr list \<Rightarrow> machine \<Rightarrow> (code_exit \<times> machine) option" where
  "run_code addr call prog rest m =
     (case rest of
        [] \<Rightarrow> None
      | i # is \<Rightarrow>
          (case leave i m of
             Some e \<Rightarrow> Some (e, m)
           | None \<Rightarrow>
               (case branch_to prog i is m of
                  Some is' \<Rightarrow> run_code addr call prog is' m
                | None \<Rightarrow>
                    Option.bind (case i of Call f \<Rightarrow> call f m | _ \<Rightarrow> exec_instr addr i m) (run_code addr call prog is))))"

section \<open>Programs\<close>

definition switch_to_code :: "instr list" where
  "switch_to_code =
    [Sd R_ra 0 R_a0, Sd R_sp 8 R_a0, Sd R_s0 16 R_a0, Sd R_s1 24 R_a0, Sd R_s2 32 R_a0, Sd R_s3 40 R_a0, Sd R_s4 48 R_a0,
     Sd R_s5 56 R_a0, Sd R_s6 64 R_a0, Sd R_s7 72 R_a0, Sd R_s8 80 R_a0, Sd R_s9 88 R_a0, Sd R_s10 96 R_a0, Sd R_s11 104 R_a0,
     Ld R_ra 0 R_a1, Ld R_sp 8 R_a1, Ld R_s0 16 R_a1, Ld R_s1 24 R_a1, Ld R_s2 32 R_a1, Ld R_s3 40 R_a1, Ld R_s4 48 R_a1,
     Ld R_s5 56 R_a1, Ld R_s6 64 R_a1, Ld R_s7 72 R_a1, Ld R_s8 80 R_a1, Ld R_s9 88 R_a1, Ld R_s10 96 R_a1, Ld R_s11 104 R_a1,
     Mv R_tp R_a1, Ret]"

definition save_code :: "instr list" where
  "save_code =
    [Addi R_sp R_sp (- 8 * 35),
     Sd R_ra (8 * 0) R_sp, Sd R_gp (8 * 2) R_sp, Sd R_tp (8 * 3) R_sp, Sd R_t0 (8 * 4) R_sp, Sd R_t1 (8 * 5) R_sp,
     Sd R_t2 (8 * 6) R_sp, Sd R_s0 (8 * 7) R_sp, Sd R_s1 (8 * 8) R_sp, Sd R_a0 (8 * 9) R_sp, Sd R_a1 (8 * 10) R_sp,
     Sd R_a2 (8 * 11) R_sp, Sd R_a3 (8 * 12) R_sp, Sd R_a4 (8 * 13) R_sp, Sd R_a5 (8 * 14) R_sp, Sd R_a6 (8 * 15) R_sp,
     Sd R_a7 (8 * 16) R_sp, Sd R_s2 (8 * 17) R_sp, Sd R_s3 (8 * 18) R_sp, Sd R_s4 (8 * 19) R_sp, Sd R_s5 (8 * 20) R_sp,
     Sd R_s6 (8 * 21) R_sp, Sd R_s7 (8 * 22) R_sp, Sd R_s8 (8 * 23) R_sp, Sd R_s9 (8 * 24) R_sp, Sd R_s10 (8 * 25) R_sp,
     Sd R_s11 (8 * 26) R_sp, Sd R_t3 (8 * 27) R_sp, Sd R_t4 (8 * 28) R_sp, Sd R_t5 (8 * 29) R_sp, Sd R_t6 (8 * 30) R_sp,
     Csrr R_s0 SSCRATCH, Csrr R_s1 SEPC, Csrr R_s2 SSTATUS, Csrr R_s3 SCAUSE, Csrr R_s4 STVAL,
     Sd R_s0 (8 * 1) R_sp, Sd R_s1 (8 * 31) R_sp, Sd R_s2 (8 * 32) R_sp, Sd R_s3 (8 * 33) R_sp, Sd R_s4 (8 * 34) R_sp,
     Csrw_zero SSCRATCH, Mv R_a0 R_sp]"

definition restore_code :: "instr list" where
  "restore_code =
    [Ld R_s1 (8 * 31) R_sp, Ld R_s2 (8 * 32) R_sp, Csrw SEPC R_s1, Csrw SSTATUS R_s2,
     Ld R_ra (8 * 0) R_sp, Ld R_gp (8 * 2) R_sp, Ld R_tp (8 * 3) R_sp, Ld R_t0 (8 * 4) R_sp, Ld R_t1 (8 * 5) R_sp,
     Ld R_t2 (8 * 6) R_sp, Ld R_s0 (8 * 7) R_sp, Ld R_s1 (8 * 8) R_sp, Ld R_a0 (8 * 9) R_sp, Ld R_a1 (8 * 10) R_sp,
     Ld R_a2 (8 * 11) R_sp, Ld R_a3 (8 * 12) R_sp, Ld R_a4 (8 * 13) R_sp, Ld R_a5 (8 * 14) R_sp, Ld R_a6 (8 * 15) R_sp,
     Ld R_a7 (8 * 16) R_sp, Ld R_s2 (8 * 17) R_sp, Ld R_s3 (8 * 18) R_sp, Ld R_s4 (8 * 19) R_sp, Ld R_s5 (8 * 20) R_sp,
     Ld R_s6 (8 * 21) R_sp, Ld R_s7 (8 * 22) R_sp, Ld R_s8 (8 * 23) R_sp, Ld R_s9 (8 * 24) R_sp, Ld R_s10 (8 * 25) R_sp,
     Ld R_s11 (8 * 26) R_sp, Ld R_t3 (8 * 27) R_sp, Ld R_t4 (8 * 28) R_sp, Ld R_t5 (8 * 29) R_sp, Ld R_t6 (8 * 30) R_sp,
     Ld R_sp (8 * 1) R_sp]"

definition ret_from_exception_code :: "instr list" where
  "ret_from_exception_code =
    [Ld R_s0 (8 * 32) R_sp, Li R_s1 0x100, And R_s0 R_s0 R_s1, Bnez R_s0 ''1'',
     Addi R_s0 R_sp (8 * 35), Csrw SSCRATCH R_s0, Label ''1''] @ restore_code @ [Sret]"

definition handle_exception_code :: "instr list" where
  "handle_exception_code =
    [Csrrw R_sp SSCRATCH R_sp, Bnez R_sp ''save_context'', Csrr R_sp SSCRATCH, Label ''save_context''] @
    save_code @ [Call ''do_trap'', Label ''ret_from_exception''] @ ret_from_exception_code"

text \<open>The start runs at the addresses the kernel was loaded to, up to the jump \<open>jr t0\<close>, and at those it was linked to from the
  label \<open>1\<close> on.\<close>

definition start_code :: "instr list" where
  "start_code =
    [Mv R_s0 R_a0, Mv R_s1 R_a1, La R_t0 ''__bss_start'', La R_t1 ''__bss_stop'', Bge R_t0 R_t1 ''clear_bss_done'',
     Label ''clear_bss'', Sd_zero 0 R_t0, Addi R_t0 R_t0 8, Blt R_t0 R_t1 ''clear_bss'',
     Label ''clear_bss_done'', La R_sp ''_end'', Mv R_s0 R_a0, Mv R_s1 R_a1,
     Addi R_sp R_sp (- 16), Sd R_s0 0 R_sp, Sd R_s1 8 R_sp, Call ''setup_vm'', Ld R_s0 0 R_sp, Ld R_s1 8 R_sp, Addi R_sp R_sp 16,
     La R_t0 ''1'', Add R_t0 R_t0 R_a0, Jr R_t0]"

definition start_high_code :: "instr list" where
  "start_high_code =
    [La R_sp ''_end'', Call ''drop_identity_map'', Mv R_a0 R_s0, Mv R_a1 R_s1, Li R_t0 0xffffffc000000000, Add R_a1 R_a1 R_t0,
     La R_t0 ''handle_exception'', Csrw STVEC R_t0, Csrw_zero SSCRATCH, Li R_tp 0, Tail ''start_kernel'']"

definition kernel_start :: "(string \<Rightarrow> u64) \<Rightarrow> (string \<Rightarrow> machine \<Rightarrow> machine option) \<Rightarrow> machine \<Rightarrow> (code_exit \<times> machine) option" where
  "kernel_start addr call m =
     Option.bind (run_code addr call start_code start_code m) (\<lambda>(e, m).
       if e = Jump (addr ''1'') then run_code addr call start_high_code start_high_code (m\<lparr>bias := 0\<rparr>) else None)"

definition sigreturn_stub :: "instr list" where
  "sigreturn_stub = [Li R_a7 11, Ecall]"

section \<open>Straight-line code\<close>

lemma run_code_simps [simp]:
  "run_code addr call prog (Ret # is) m = Some (Return (gpr m R_ra), m)"
  "run_code addr call prog (Jr r # is) m = Some (Jump (gpr m r), m)"
  "run_code addr call prog (Sret # is) m = Some (Trap_return, m)"
  "run_code addr call prog (Tail f # is) m = Some (Tail_call f, m)"
  "run_code addr call prog (Bnez r l # is) m = run_code addr call prog (if gpr m r \<noteq> 0 then code_after l prog else is) m"
  "run_code addr call prog (Bge r b l # is) m = run_code addr call prog (if sint (gpr m r) \<ge> sint (gpr m b) then code_after l prog else is) m"
  "run_code addr call prog (Blt r b l # is) m = run_code addr call prog (if sint (gpr m r) < sint (gpr m b) then code_after l prog else is) m"
  "run_code addr call prog (Call f # is) m = Option.bind (call f m) (run_code addr call prog is)"
  by (simp_all add: run_code.simps)

lemma run_code_instr: "exec_instr addr i m = Some m' \<Longrightarrow> run_code addr call prog (i # is) m = run_code addr call prog is m'"
  by (subst run_code.simps) (cases i; simp)

lemma run_code_block: "run_block addr is m = Some m' \<Longrightarrow> run_code addr call prog (is @ rest) m = run_code addr call prog rest m'"
proof (induction "is" arbitrary: m)
  case (Cons i "is")
  then show ?case by (auto simp: bind_eq_Some_conv run_code_instr)
qed simp

lemma run_block_trans: "run_block addr is m = Some m' \<Longrightarrow> run_block addr js m' = Some m'' \<Longrightarrow> run_block addr (is @ js) m = Some m''"
proof (induction "is" arbitrary: m)
  case (Cons i "is")
  then show ?case by (cases "exec_instr addr i m") simp_all
qed simp

lemmas machine_simps = set_gpr_def set_csr_def set_mem_def

text \<open>Blocks that store or load registers at consecutive words from a base register.\<close>

definition store_all :: "(reg \<Rightarrow> u64) \<Rightarrow> (reg \<times> u64) list \<Rightarrow> mem \<Rightarrow> mem" where
  "store_all f = fold (\<lambda>(r, a). store64 a (f r))"

lemma store_all_simps [simp]:
  "store_all f [] m = m" "store_all f ((r, a) # ras) m = store_all f ras (store64 a (f r) m)"
  by (simp_all add: store_all_def)

lemma run_block_Sd:
  "run_block addr (map (\<lambda>(r, off). Sd r off b) rs) m =
     Some (m\<lparr>memory := store_all (gpr m) (map (\<lambda>(r, off). (r, gpr m b + off)) rs) (memory m)\<rparr>)"
  by (induction rs arbitrary: m) (auto simp: machine_simps)

lemma run_block_Ld:
  "b \<notin> fst ` set rs \<Longrightarrow> distinct (map fst rs) \<Longrightarrow>
   run_block addr (map (\<lambda>(r, off). Ld r off b) rs) m =
     Some (m\<lparr>gpr := \<lambda>r. case map_of rs r of None \<Rightarrow> gpr m r | Some off \<Rightarrow> load64 (gpr m b + off) (memory m)\<rparr>)"
proof (induction rs arbitrary: m)
  case (Cons p rs)
  obtain q off where p: "p = (q, off)" by (cases p)
  have "map_of rs q = None" using Cons.prems(2) by (simp add: p map_of_eq_None_iff)
  then show ?case using Cons by (auto simp: p machine_simps fun_eq_iff split: option.splits)
qed simp

text \<open>Distinct words: a store to one of them is read back.\<close>

definition apart64 :: "u64 \<Rightarrow> u64 \<Rightarrow> bool" where
  "apart64 a b \<longleftrightarrow> unat a + 8 \<le> unat b \<or> unat b + 8 \<le> unat a"

lemma load64_store_all_other: "\<forall>(r, a)\<in>set ras. apart64 a b \<Longrightarrow> load64 b (store_all f ras m) = load64 b m"
proof (induction ras arbitrary: m)
  case (Cons p ras)
  obtain r a where p: "p = (r, a)" by (cases p)
  then have "load64 b (store64 a (f r) m) = load64 b m" using Cons.prems by (intro load64_store64_other) (simp add: apart64_def)
  then show ?case using Cons by (simp add: p)
qed simp

lemma load64_store_all:
  "(r, b) \<in> set ras \<Longrightarrow> \<forall>(q, a)\<in>set ras. (q, a) = (r, b) \<or> apart64 a b \<Longrightarrow> load64 b (store_all f ras m) = f r"
proof (induction ras arbitrary: m)
  case (Cons p ras)
  obtain q a where p: "p = (q, a)" by (cases p)
  show ?case
  proof (cases "(r, b) \<in> set ras")
    case True
    then show ?thesis using Cons by (simp add: p)
  next
    case False
    then have "p = (r, b)" "\<forall>(q, a)\<in>set ras. apart64 a b" using Cons.prems by auto
    then show ?thesis by (simp add: load64_store_all_other)
  qed
qed simp

lemma store_all_outside: "\<forall>(r, a)\<in>set ras. x < unat a \<or> unat a + 8 \<le> x \<Longrightarrow> store_all f ras m x = m x"
proof (induction ras arbitrary: m)
  case (Cons p ras)
  obtain r a where p: "p = (r, a)" by (cases p)
  then have "store64 a (f r) m x = m x" using Cons.prems by (auto simp: store64_byte)
  then show ?case using Cons by (simp add: p)
qed simp

section \<open>Traps\<close>

text \<open>The registers that the entry saves before it uses any of them, with their places in the frame.\<close>

definition saved_regs :: "reg list" where
  "saved_regs = [R_ra, R_gp, R_tp, R_t0, R_t1, R_t2, R_s0, R_s1, R_a0, R_a1, R_a2, R_a3, R_a4, R_a5, R_a6, R_a7,
     R_s2, R_s3, R_s4, R_s5, R_s6, R_s7, R_s8, R_s9, R_s10, R_s11, R_t3, R_t4, R_t5, R_t6]"

abbreviation frame_slots :: "reg list \<Rightarrow> (reg \<times> u64) list" where
  "frame_slots \<equiv> map (\<lambda>r. (r, 8 * of_nat (reg_index r)))"

lemma save_code_blocks:
  "save_code = [Addi R_sp R_sp (- 8 * 35)] @ map (\<lambda>(r, off). Sd r off R_sp) (frame_slots saved_regs) @
     [Csrr R_s0 SSCRATCH, Csrr R_s1 SEPC, Csrr R_s2 SSTATUS, Csrr R_s3 SCAUSE, Csrr R_s4 STVAL,
      Sd R_s0 (8 * 1) R_sp, Sd R_s1 (8 * 31) R_sp, Sd R_s2 (8 * 32) R_sp, Sd R_s3 (8 * 33) R_sp, Sd R_s4 (8 * 34) R_sp,
      Csrw_zero SSCRATCH, Mv R_a0 R_sp]"
  by (simp add: save_code_def saved_regs_def)

lemma restore_code_blocks:
  "restore_code = [Ld R_s1 (8 * 31) R_sp, Ld R_s2 (8 * 32) R_sp, Csrw SEPC R_s1, Csrw SSTATUS R_s2] @
     map (\<lambda>(r, off). Ld r off R_sp) (frame_slots saved_regs) @ [Ld R_sp (8 * 1) R_sp]"
  by (simp add: restore_code_def saved_regs_def)

text \<open>What a trap has to save: the registers and the reason of the trap.\<close>

fun trapped :: "machine \<Rightarrow> pt_regs" where
  "trapped m R_epc = csrs m SEPC"
| "trapped m R_status = csrs m SSTATUS"
| "trapped m R_cause = csrs m SCAUSE"
| "trapped m R_badaddr = csrs m STVAL"
| "trapped m r = gpr m r"

definition is_gpr :: "reg \<Rightarrow> bool" where
  "is_gpr r \<longleftrightarrow> r \<notin> {R_epc, R_status, R_cause, R_badaddr}"

text \<open>The stack of the kernel at a trap: \<open>sscratch\<close> holds it while a user program runs, and zero otherwise.\<close>

definition trap_stack :: "machine \<Rightarrow> u64" where
  "trap_stack m = (if csrs m SSCRATCH \<noteq> 0 then csrs m SSCRATCH else gpr m R_sp)"

lemma load_regs_store_all:
  assumes "frame_fits p"
  shows "load_regs p (store_all f (map (\<lambda>(r, off). (r, p + off)) (frame_slots rs)) m) = (\<lambda>r. if r \<in> set rs then f r else load_regs p m r)"
proof (induction rs arbitrary: m)
  case (Cons q rs)
  then show ?case using load_regs_store [OF assms, of q] by (auto simp: fun_eq_iff reg_addr_def)
qed simp

lemma store_all_frame:
  assumes "frame_fits p" "x < unat p \<or> unat p + 280 \<le> x"
  shows "store_all f (map (\<lambda>(r, off). (r, p + off)) (frame_slots rs)) m x = m x"
proof (rule store_all_outside)
  have "x < unat (p + 8 * word_of_nat (reg_index r)) \<or> unat (p + 8 * word_of_nat (reg_index r)) + 8 \<le> x" for r
    using unat_reg_addr [OF assms(1), of r] reg_index_less [of r] assms(2) by (auto simp: reg_addr_def)
  then show "\<forall>(r, a)\<in>set (map (\<lambda>(r, off). (r, p + off)) (frame_slots rs)). x < unat a \<or> unat a + 8 \<le> x" by auto
qed

lemma store_reg_frame:
  assumes "frame_fits p" "x < unat p \<or> unat p + 280 \<le> x"
  shows "store64 (reg_addr p r) v m x = m x"
  using store_all_frame [OF assms, of "\<lambda>_. v" "[r]" m] by (simp add: reg_addr_def)

lemma frame_slot_addr:
  "p + 8 = reg_addr p R_sp" "p + 248 = reg_addr p R_epc" "p + 256 = reg_addr p R_status" "p + 264 = reg_addr p R_cause"
  "p + 272 = reg_addr p R_badaddr" "p = reg_addr p R_ra"
  by (simp_all add: reg_addr_def)

text \<open>The entry, after it has found its stack \<open>sp\<close>.\<close>

lemma run_save_code:
  assumes f: "frame_fits p" "gpr m R_sp = p + 280" and sc: "csrs m SSCRATCH = usp"
  shows "\<exists>m'. run_block addr save_code m = Some m' \<and> gpr m' R_a0 = p \<and> gpr m' R_sp = p \<and> gpr m' R_tp = gpr m R_tp \<and>
    load_regs p (memory m') = (trapped m)(R_sp := usp) \<and> csrs m' = (csrs m)(SSCRATCH := 0) \<and>
    (\<forall>x. x < unat p \<or> unat p + 280 \<le> x \<longrightarrow> memory m' x = memory m x)"
proof -
  let ?m1 = "m\<lparr>gpr := (gpr m)(R_sp := p)\<rparr>"
  let ?mem = "store_all (gpr ?m1) (map (\<lambda>(r, off). (r, p + off)) (frame_slots saved_regs)) (memory m)"
  let ?mem' = "store64 (reg_addr p R_badaddr) (csrs m STVAL) (store64 (reg_addr p R_cause) (csrs m SCAUSE)
    (store64 (reg_addr p R_status) (csrs m SSTATUS) (store64 (reg_addr p R_epc) (csrs m SEPC) (store64 (reg_addr p R_sp) usp ?mem))))"
  let ?m' = "m\<lparr>gpr := (gpr m)(R_sp := p, R_s0 := usp, R_s1 := csrs m SEPC, R_s2 := csrs m SSTATUS, R_s3 := csrs m SCAUSE, R_s4 := csrs m STVAL, R_a0 := p),
    csrs := (csrs m)(SSCRATCH := 0), memory := ?mem'\<rparr>"
  have 1: "run_block addr [Addi R_sp R_sp (- 8 * 35)] m = Some ?m1" using f(2) by (simp add: machine_simps)
  have 2: "run_block addr (map (\<lambda>(r, off). Sd r off R_sp) (frame_slots saved_regs)) ?m1 = Some (?m1\<lparr>memory := ?mem\<rparr>)"
    using run_block_Sd [of addr R_sp "frame_slots saved_regs" ?m1] by simp
  have 3: "run_block addr [Csrr R_s0 SSCRATCH, Csrr R_s1 SEPC, Csrr R_s2 SSTATUS, Csrr R_s3 SCAUSE, Csrr R_s4 STVAL,
      Sd R_s0 (8 * 1) R_sp, Sd R_s1 (8 * 31) R_sp, Sd R_s2 (8 * 32) R_sp, Sd R_s3 (8 * 33) R_sp, Sd R_s4 (8 * 34) R_sp,
      Csrw_zero SSCRATCH, Mv R_a0 R_sp] (?m1\<lparr>memory := ?mem\<rparr>) = Some ?m'"
    by (simp add: machine_simps frame_slot_addr(1-5) sc)
  have "run_block addr save_code m = Some ?m'"
    unfolding save_code_blocks by (rule run_block_trans [OF 1 run_block_trans [OF 2 3]])
  moreover have "load_regs p ?mem' = (trapped m)(R_sp := usp)"
  proof
    fix r show "load_regs p ?mem' r = ((trapped m)(R_sp := usp)) r"
      unfolding load_regs_store [OF f(1)] load_regs_store_all [OF f(1)] by (cases r) (simp_all add: saved_regs_def)
  qed
  moreover have "?mem' x = memory m x" if "x < unat p \<or> unat p + 280 \<le> x" for x
    using store_reg_frame [OF f(1) that] store_all_frame [OF f(1) that] by simp
  ultimately show ?thesis by (intro exI [of _ ?m'] conjI allI impI) simp_all
qed

lemma trap_entry:
  assumes p: "p = trap_stack m - 280" and f: "frame_fits p"
  obtains m1 where "run_code addr call handle_exception_code handle_exception_code m =
      Option.bind (call ''do_trap'' m1) (run_code addr call handle_exception_code ret_from_exception_code)"
    "gpr m1 R_a0 = p" "gpr m1 R_sp = p" "gpr m1 R_tp = gpr m R_tp" "load_regs p (memory m1) = trapped m" "csrs m1 = (csrs m)(SSCRATCH := 0)"
    "\<forall>x. x < unat p \<or> unat p + 280 \<le> x \<longrightarrow> memory m1 x = memory m x"
proof -
  let ?m = "m\<lparr>csrs := (csrs m)(SSCRATCH := gpr m R_sp), gpr := (gpr m)(R_sp := trap_stack m)\<rparr>"
  have "gpr ?m R_sp = p + 280" "csrs ?m SSCRATCH = gpr m R_sp" using p by simp_all
  from run_save_code [OF f this, of addr] obtain m1 where m1: "run_block addr save_code ?m = Some m1" "gpr m1 R_a0 = p" "gpr m1 R_sp = p"
    "gpr m1 R_tp = gpr ?m R_tp" "load_regs p (memory m1) = (trapped ?m)(R_sp := gpr m R_sp)" "csrs m1 = (csrs ?m)(SSCRATCH := 0)"
    "\<forall>x. x < unat p \<or> unat p + 280 \<le> x \<longrightarrow> memory m1 x = memory ?m x" by blast
  let ?rest = "Call ''do_trap'' # Label ''ret_from_exception'' # ret_from_exception_code"
  have "run_code addr call handle_exception_code handle_exception_code m = run_code addr call handle_exception_code (save_code @ ?rest) ?m"
    by (subst (2) handle_exception_code_def) (auto simp: run_code_instr machine_simps trap_stack_def handle_exception_code_def)
  also have "\<dots> = run_code addr call handle_exception_code ?rest m1" by (rule run_code_block [OF m1(1)])
  also have "\<dots> = Option.bind (call ''do_trap'' m1) (run_code addr call handle_exception_code ret_from_exception_code)"
    by (cases "call ''do_trap'' m1") (simp_all add: run_code_instr)
  finally have run: "run_code addr call handle_exception_code handle_exception_code m = \<dots>" .
  have "(trapped ?m)(R_sp := gpr m R_sp) = trapped m"
  proof
    fix r show "((trapped ?m)(R_sp := gpr m R_sp)) r = trapped m r" by (cases r) simp_all
  qed
  with m1 run show thesis by (intro that [of m1]) simp_all
qed

lemma run_restore_code:
  assumes "gpr m R_sp = p"
  shows "\<exists>m'. run_block addr restore_code m = Some m' \<and> (\<forall>r. is_gpr r \<longrightarrow> gpr m' r = load_regs p (memory m) r) \<and>
    csrs m' = (csrs m)(SEPC := load_regs p (memory m) R_epc, SSTATUS := load_regs p (memory m) R_status) \<and> memory m' = memory m"
proof -
  let ?f = "load_regs p (memory m)"
  let ?m1 = "m\<lparr>gpr := (gpr m)(R_s1 := ?f R_epc, R_s2 := ?f R_status), csrs := (csrs m)(SEPC := ?f R_epc, SSTATUS := ?f R_status)\<rparr>"
  let ?m2 = "?m1\<lparr>gpr := \<lambda>r. case map_of (frame_slots saved_regs) r of None \<Rightarrow> gpr ?m1 r | Some off \<Rightarrow> load64 (gpr ?m1 R_sp + off) (memory ?m1)\<rparr>"
  let ?m' = "?m2\<lparr>gpr := (gpr ?m2)(R_sp := ?f R_sp)\<rparr>"
  have 1: "run_block addr [Ld R_s1 (8 * 31) R_sp, Ld R_s2 (8 * 32) R_sp, Csrw SEPC R_s1, Csrw SSTATUS R_s2] m = Some ?m1"
    using assms by (simp add: machine_simps load_regs_def frame_slot_addr(2,3))
  have 2: "run_block addr (map (\<lambda>(r, off). Ld r off R_sp) (frame_slots saved_regs)) ?m1 = Some ?m2"
    by (rule run_block_Ld) (simp_all add: saved_regs_def)
  have 3: "run_block addr [Ld R_sp (8 * 1) R_sp] ?m2 = Some ?m'"
    using assms by (simp add: machine_simps load_regs_def frame_slot_addr(1) saved_regs_def)
  have "run_block addr restore_code m = Some ?m'" unfolding restore_code_blocks by (rule run_block_trans [OF 1 run_block_trans [OF 2 3]])
  moreover have "gpr ?m' r = ?f r" if "is_gpr r" for r
    using that assms by (cases r) (simp_all add: is_gpr_def saved_regs_def load_regs_def reg_addr_def)
  ultimately show ?thesis by (intro exI [of _ ?m'] conjI allI impI) simp_all
qed

lemma trap_return:
  assumes sp: "gpr m R_sp = p" and prog: "code_after ''1'' prog = restore_code @ [Sret]"
  obtains m' where "run_code addr call prog ret_from_exception_code m = Some (Trap_return, m')"
    "\<forall>r. is_gpr r \<longrightarrow> gpr m' r = load_regs p (memory m) r" "csrs m' SEPC = load_regs p (memory m) R_epc" "csrs m' SSTATUS = load_regs p (memory m) R_status"
    "csrs m' SSCRATCH = (if load_regs p (memory m) R_status AND 0x100 = 0 then p + 280 else csrs m SSCRATCH)" "memory m' = memory m"
proof -
  let ?st = "load_regs p (memory m) R_status"
  let ?m = "m\<lparr>gpr := (gpr m)(R_s1 := 0x100, R_s0 := if ?st AND 0x100 = 0 then p + 280 else ?st AND 0x100),
    csrs := (csrs m)(SSCRATCH := if ?st AND 0x100 = 0 then p + 280 else csrs m SSCRATCH)\<rparr>"
  have "run_code addr call prog ret_from_exception_code m = run_code addr call prog (restore_code @ [Sret]) ?m"
    using sp prog by (auto simp: ret_from_exception_code_def run_code_instr machine_simps load_regs_def frame_slot_addr(3))
  moreover from run_restore_code [of ?m p addr] obtain m' where m': "run_block addr restore_code ?m = Some m'"
    "\<forall>r. is_gpr r \<longrightarrow> gpr m' r = load_regs p (memory ?m) r"
    "csrs m' = (csrs ?m)(SEPC := load_regs p (memory ?m) R_epc, SSTATUS := load_regs p (memory ?m) R_status)" "memory m' = memory ?m"
    using sp by auto
  ultimately have "run_code addr call prog ret_from_exception_code m = Some (Trap_return, m')" using run_code_block [OF m'(1)] by simp
  then show thesis by (rule that) (use m'(2-) in simp_all)
qed

lemma code_after_restore: "code_after ''1'' handle_exception_code = restore_code @ [Sret]" "code_after ''1'' ret_from_exception_code = restore_code @ [Sret]"
  by (simp_all add: handle_exception_code_def save_code_def ret_from_exception_code_def)

text \<open>C30. A trap, from a user program or from the kernel: the handler is called with the address of a frame right below the
  stack of the kernel, which holds all registers, the program counter, the status and the reason of the trap as they were, and it still sees
  the thread pointer of the interrupted code. If it returns with the stack pointer it was called with and leaves the frame \<open>f\<close>, the
  code returns from the trap with all registers, the program counter and the status of \<open>f\<close>, and \<open>sscratch\<close> is again the
  stack of the kernel if the return is to a user program and zero if it is to the kernel.\<close>

theorem trap_round_trip:
  assumes p: "p = trap_stack m - 280" and fits: "frame_fits p"
    and do_trap: "\<forall>m1. gpr m1 R_a0 = p \<and> gpr m1 R_sp = p \<and> gpr m1 R_tp = gpr m R_tp \<and> load_regs p (memory m1) = trapped m \<and> csrs m1 SSCRATCH = 0 \<and>
        (\<forall>x. x < unat p \<or> unat p + 280 \<le> x \<longrightarrow> memory m1 x = memory m x) \<longrightarrow>
      (\<exists>m2. call ''do_trap'' m1 = Some m2 \<and> gpr m2 R_sp = p \<and> load_regs p (memory m2) = f \<and> csrs m2 SSCRATCH = 0)"
  shows "\<exists>m'. run_code addr call handle_exception_code handle_exception_code m = Some (Trap_return, m') \<and>
    (\<forall>r. is_gpr r \<longrightarrow> gpr m' r = f r) \<and> csrs m' SEPC = f R_epc \<and> csrs m' SSTATUS = f R_status \<and>
    csrs m' SSCRATCH = (if f R_status AND 0x100 = 0 then trap_stack m else 0)"
proof -
  from trap_entry [OF p fits, of addr call] obtain m1 where m1: "run_code addr call handle_exception_code handle_exception_code m =
      Option.bind (call ''do_trap'' m1) (run_code addr call handle_exception_code ret_from_exception_code)"
    "gpr m1 R_a0 = p" "gpr m1 R_sp = p" "gpr m1 R_tp = gpr m R_tp" "load_regs p (memory m1) = trapped m" "csrs m1 = (csrs m)(SSCRATCH := 0)"
    "\<forall>x. x < unat p \<or> unat p + 280 \<le> x \<longrightarrow> memory m1 x = memory m x" .
  then obtain m2 where m2: "call ''do_trap'' m1 = Some m2" "gpr m2 R_sp = p" "load_regs p (memory m2) = f" "csrs m2 SSCRATCH = 0"
    using do_trap by (metis fun_upd_same)
  from trap_return [OF m2(2) code_after_restore(1), of addr call] obtain m' where
    "run_code addr call handle_exception_code ret_from_exception_code m2 = Some (Trap_return, m')"
    "\<forall>r. is_gpr r \<longrightarrow> gpr m' r = f r" "csrs m' SEPC = f R_epc" "csrs m' SSTATUS = f R_status"
    "csrs m' SSCRATCH = (if f R_status AND 0x100 = 0 then p + 280 else 0)" unfolding m2(3,4) .
  then show ?thesis unfolding m1(1) m2(1) p by (intro exI [of _ m']) simp
qed

text \<open>A system call of a user program whose handler only steps over the instruction and puts a result into \<open>a0\<close>.\<close>

definition skip_call :: "u64 \<Rightarrow> machine \<Rightarrow> machine option" where
  "skip_call v m = (let p = gpr m R_a0 in Some (set_mem (reg_addr p R_a0) v (set_mem (reg_addr p R_epc) (load_regs p (memory m) R_epc + 4) m)))"

theorem trap_round_trip_witness:
  "\<exists>m'. run_code (\<lambda>_. 0) (\<lambda>_. skip_call 5) handle_exception_code handle_exception_code
      \<lparr>gpr = (\<lambda>_. 7)(R_sp := 0x3FF000), csrs = (\<lambda>_. 0)(SSCRATCH := 0x9000, SEPC := 0x1000), memory = \<lambda>_. 0, bias = 0\<rparr> = Some (Trap_return, m') \<and>
    gpr m' R_a0 = 5 \<and> gpr m' R_a1 = 7 \<and> gpr m' R_sp = 0x3FF000 \<and> csrs m' SEPC = 0x1004 \<and> csrs m' SSCRATCH = 0x9000"
proof -
  let ?m = "\<lparr>gpr = (\<lambda>_. 7)(R_sp := 0x3FF000), csrs = (\<lambda>_. 0)(SSCRATCH := 0x9000, SEPC := 0x1000), memory = \<lambda>_. 0, bias = 0\<rparr>"
  let ?f = "(trapped ?m)(R_epc := 0x1004, R_a0 := 5)"
  have 1: "0x8EE8 = trap_stack ?m - 280" and 2: "frame_fits 0x8EE8" by (simp_all add: trap_stack_def frame_fits_def)
  have "\<exists>m2. skip_call 5 m1 = Some m2 \<and> gpr m2 R_sp = 0x8EE8 \<and> load_regs 0x8EE8 (memory m2) = ?f \<and> csrs m2 SSCRATCH = 0"
    if "gpr m1 R_a0 = 0x8EE8" "gpr m1 R_sp = 0x8EE8" "load_regs 0x8EE8 (memory m1) = trapped ?m" "csrs m1 SSCRATCH = 0" for m1
    using that by (simp add: skip_call_def set_mem_def load_regs_store [OF 2])
  then have "\<exists>m'. run_code (\<lambda>_. 0) (\<lambda>_. skip_call 5) handle_exception_code handle_exception_code ?m = Some (Trap_return, m') \<and>
      (\<forall>r. is_gpr r \<longrightarrow> gpr m' r = ?f r) \<and> csrs m' SEPC = ?f R_epc \<and> csrs m' SSTATUS = ?f R_status \<and>
      csrs m' SSCRATCH = (if ?f R_status AND 0x100 = 0 then trap_stack ?m else 0)"
    by (intro trap_round_trip [OF 1 2]) blast
  then show ?thesis by (elim ex_forward) (simp add: is_gpr_def trap_stack_def)
qed

section \<open>Context switch\<close>

text \<open>The registers of \<open>struct thread_context\<close>, the first field of a thread, with their places.\<close>

definition context_regs :: "(reg \<times> u64) list" where
  "context_regs = zip [R_ra, R_sp, R_s0, R_s1, R_s2, R_s3, R_s4, R_s5, R_s6, R_s7, R_s8, R_s9, R_s10, R_s11]
     (map (\<lambda>i. 8 * of_nat i) [0..<14])"

lemma context_regs_list:
  "context_regs = [(R_ra, 0), (R_sp, 8), (R_s0, 16), (R_s1, 24), (R_s2, 32), (R_s3, 40), (R_s4, 48), (R_s5, 56), (R_s6, 64),
     (R_s7, 72), (R_s8, 80), (R_s9, 88), (R_s10, 96), (R_s11, 104)]"
  by (simp add: context_regs_def upt_rec)

definition callee_saved :: "reg \<Rightarrow> bool" where
  "callee_saved r \<longleftrightarrow> r \<in> fst ` set context_regs"

definition load_context :: "u64 \<Rightarrow> mem \<Rightarrow> reg \<Rightarrow> u64" where
  "load_context t m r = (case map_of context_regs r of None \<Rightarrow> 0 | Some off \<Rightarrow> load64 (t + off) m)"

lemma switch_to_blocks:
  "switch_to_code = map (\<lambda>(r, off). Sd r off R_a0) context_regs @ map (\<lambda>(r, off). Ld r off R_a1) context_regs @ [Mv R_tp R_a1, Ret]"
  by (simp add: switch_to_code_def context_regs_list)

definition context_fits :: "u64 \<Rightarrow> bool" where
  "context_fits t \<longleftrightarrow> unat t + 112 \<le> 2 ^ 64"

lemma context_offset: "(r, off) \<in> set context_regs \<Longrightarrow> unat off \<le> 104 \<and> 8 dvd unat off"
  by (auto simp: context_regs_list)

lemma context_unique: "(r, off) \<in> set context_regs \<Longrightarrow> (q, off) \<in> set context_regs \<Longrightarrow> r = q"
  by (auto simp: context_regs_list)

lemma unat_context: "context_fits t \<Longrightarrow> (r, off) \<in> set context_regs \<Longrightarrow> unat (t + off) = unat t + unat off"
  using context_offset [of r off] by (auto simp: context_fits_def unat_word_ariths)

lemma context_apart:
  assumes "context_fits t" "(r, off) \<in> set context_regs" "(q, off') \<in> set context_regs" "(r, off) \<noteq> (q, off')"
  shows "apart64 (t + off) (t + off')"
proof -
  have "unat off \<noteq> unat off'" using assms(2-4) context_unique by (metis word_unat_eq_iff)
  moreover have "8 dvd unat off" "8 dvd unat off'" using context_offset assms(2,3) by blast+
  ultimately have "unat off + 8 \<le> unat off' \<or> unat off' + 8 \<le> unat off" by (auto elim!: dvdE)
  then show ?thesis using unat_context [OF assms(1)] assms(2,3) by (auto simp: apart64_def)
qed

lemma load_context_stored:
  assumes "context_fits t" "callee_saved r"
  shows "load_context t (store_all f (map (\<lambda>(r, off). (r, t + off)) context_regs) m) r = f r"
proof -
  from assms(2) obtain off where off: "(r, off) \<in> set context_regs" by (auto simp: callee_saved_def)
  moreover have "distinct (map fst context_regs)" by (simp add: context_regs_list)
  ultimately have "map_of context_regs r = Some off" by simp
  moreover have "load64 (t + off) (store_all f (map (\<lambda>(r, off). (r, t + off)) context_regs) m) = f r"
    using off context_apart [OF assms(1) _ off] by (intro load64_store_all) auto
  ultimately show ?thesis by (simp add: load_context_def)
qed

text \<open>The memory of one context is not touched by a switch away from another.\<close>

definition contexts_apart :: "u64 \<Rightarrow> u64 \<Rightarrow> bool" where
  "contexts_apart t u \<longleftrightarrow> context_fits t \<and> context_fits u \<and> (unat t + 112 \<le> unat u \<or> unat u + 112 \<le> unat t)"

lemma load_context_other:
  assumes "contexts_apart t u"
  shows "load_context u (store_all f (map (\<lambda>(r, off). (r, t + off)) context_regs) m) r = load_context u m r"
proof (cases "map_of context_regs r")
  case (Some off)
  then have off: "(r, off) \<in> set context_regs" by (rule map_of_SomeD)
  have "apart64 (t + off') (u + off)" if "(q, off') \<in> set context_regs" for q off'
    using assms unat_context [of t, OF _ that] unat_context [of u, OF _ off] context_offset [OF that] context_offset [OF off]
    by (auto simp: contexts_apart_def apart64_def)
  then have "load64 (u + off) (store_all f (map (\<lambda>(r, off). (r, t + off)) context_regs) m) = load64 (u + off) m"
    by (intro load64_store_all_other) auto
  with Some show ?thesis by (simp add: load_context_def)
qed (simp add: load_context_def)

lemma store_context_outside:
  assumes "context_fits t" "x < unat t \<or> unat t + 112 \<le> x"
  shows "store_all f (map (\<lambda>(r, off). (r, t + off)) context_regs) m x = m x"
proof (rule store_all_outside)
  have "x < unat (t + off) \<or> unat (t + off) + 8 \<le> x" if "(r, off) \<in> set context_regs" for r off
    using unat_context [OF assms(1) that] context_offset [OF that] assms(2) by auto
  then show "\<forall>(r, a)\<in>set (map (\<lambda>(r, off). (r, t + off)) context_regs). x < unat a \<or> unat a + 8 \<le> x" by auto
qed

lemma switch_to_runs:
  assumes a: "gpr m R_a0 = t" "gpr m R_a1 = u" and ap: "contexts_apart t u"
  obtains m' where "run_code addr call switch_to_code switch_to_code m = Some (Return (load_context u (memory m) R_ra), m')"
    "\<forall>r. callee_saved r \<longrightarrow> gpr m' r = load_context u (memory m) r" "gpr m' R_tp = u" "csrs m' = csrs m"
    "\<forall>r. callee_saved r \<longrightarrow> load_context t (memory m') r = gpr m r"
    "\<forall>x. x < unat t \<or> unat t + 112 \<le> x \<longrightarrow> memory m' x = memory m x"
proof -
  let ?mem = "store_all (gpr m) (map (\<lambda>(r, off). (r, t + off)) context_regs) (memory m)"
  let ?m1 = "m\<lparr>memory := ?mem\<rparr>"
  let ?m2 = "?m1\<lparr>gpr := \<lambda>r. case map_of context_regs r of None \<Rightarrow> gpr ?m1 r | Some off \<Rightarrow> load64 (gpr ?m1 R_a1 + off) (memory ?m1)\<rparr>"
  let ?m' = "?m2\<lparr>gpr := (gpr ?m2)(R_tp := u)\<rparr>"
  have tu: "context_fits t" using ap by (simp add: contexts_apart_def)
  have 1: "run_block addr (map (\<lambda>(r, off). Sd r off R_a0) context_regs) m = Some ?m1" using run_block_Sd [of addr R_a0 context_regs m] a by simp
  have 2: "run_block addr (map (\<lambda>(r, off). Ld r off R_a1) context_regs) ?m1 = Some ?m2" by (rule run_block_Ld) (simp_all add: context_regs_list)
  have ctx: "gpr ?m2 r = load_context u (memory m) r" if "callee_saved r" for r
  proof -
    from that obtain off where "map_of context_regs r = Some off" by (auto simp: callee_saved_def context_regs_list)
    then have "gpr ?m2 r = load_context u ?mem r" using a by (simp add: load_context_def)
    then show ?thesis by (simp add: load_context_other [OF ap])
  qed
  have "run_code addr call switch_to_code switch_to_code m = run_code addr call switch_to_code [Mv R_tp R_a1, Ret] ?m2"
    by (subst (2) switch_to_blocks) (simp only: run_code_block [OF 1] run_code_block [OF 2])
  moreover have "gpr ?m2 R_a1 = u" using a by (simp add: context_regs_list)
  moreover have "gpr ?m2 R_ra = load_context u (memory m) R_ra" by (rule ctx) (simp add: callee_saved_def context_regs_list)
  ultimately have "run_code addr call switch_to_code switch_to_code m = Some (Return (load_context u (memory m) R_ra), ?m')"
    by (simp add: run_code_instr machine_simps)
  moreover have "gpr ?m' r = load_context u (memory m) r" if "callee_saved r" for r
  proof -
    have "r \<noteq> R_tp" using that by (auto simp: callee_saved_def context_regs_list)
    then show ?thesis using ctx [OF that] by simp
  qed
  ultimately show thesis using load_context_stored [OF tu] store_context_outside [OF tu] by (intro that [of ?m']) simp_all
qed

text \<open>C31. \<open>switch_to\<close> away from thread \<open>t\<close> keeps its context, and any later switch back to \<open>t\<close>, from whatever thread, returns to the
  place \<open>t\<close> called it from, with the stack and the saved registers of \<open>t\<close> and \<open>t\<close> in the thread pointer, provided
  the context of \<open>t\<close> was left alone in between.\<close>

theorem switch_round_trip:
  assumes m: "gpr m R_a0 = t" "gpr m R_a1 = u" "contexts_apart t u"
  shows "\<exists>m1. run_code addr call switch_to_code switch_to_code m = Some (Return (load_context u (memory m) R_ra), m1) \<and>
    gpr m1 R_tp = u \<and> (\<forall>r. callee_saved r \<longrightarrow> gpr m1 r = load_context u (memory m) r) \<and>
    (\<forall>x. x < unat t \<or> unat t + 112 \<le> x \<longrightarrow> memory m1 x = memory m x) \<and>
    (\<forall>w m2. gpr m2 R_a0 = w \<and> gpr m2 R_a1 = t \<and> contexts_apart w t \<and> (\<forall>r. load_context t (memory m2) r = load_context t (memory m1) r) \<longrightarrow>
      (\<exists>m3. run_code addr call switch_to_code switch_to_code m2 = Some (Return (gpr m R_ra), m3) \<and>
        (\<forall>r. callee_saved r \<longrightarrow> gpr m3 r = gpr m r) \<and> gpr m3 R_tp = t))"
proof -
  from switch_to_runs [OF m, of addr call] obtain m1 where
    m1: "run_code addr call switch_to_code switch_to_code m = Some (Return (load_context u (memory m) R_ra), m1)"
      "\<forall>r. callee_saved r \<longrightarrow> gpr m1 r = load_context u (memory m) r" "gpr m1 R_tp = u" "csrs m1 = csrs m"
      "\<forall>r. callee_saved r \<longrightarrow> load_context t (memory m1) r = gpr m r"
      "\<forall>x. x < unat t \<or> unat t + 112 \<le> x \<longrightarrow> memory m1 x = memory m x" .
  have ra: "callee_saved R_ra" by (simp add: callee_saved_def context_regs_list)
  have "\<exists>m3. run_code addr call switch_to_code switch_to_code m2 = Some (Return (gpr m R_ra), m3) \<and>
      (\<forall>r. callee_saved r \<longrightarrow> gpr m3 r = gpr m r) \<and> gpr m3 R_tp = t"
    if m2: "gpr m2 R_a0 = w" "gpr m2 R_a1 = t" "contexts_apart w t" "\<forall>r. load_context t (memory m2) r = load_context t (memory m1) r" for w m2
    using switch_to_runs [OF m2(1-3), of addr call] m2(4) m1(5) ra by metis
  with m1 show ?thesis by (intro exI [of _ m1]) blast
qed

theorem switch_round_trip_witness:
  "\<exists>m1. run_code (\<lambda>_. 0) (\<lambda>_. Some) switch_to_code switch_to_code
      \<lparr>gpr = (\<lambda>_. 7)(R_a0 := 0x1000, R_a1 := 0x2000), csrs = \<lambda>_. 0, memory = store64 0x2000 0x1234 (\<lambda>_. 0), bias = 0\<rparr> = Some (Return 0x1234, m1) \<and>
    gpr m1 R_tp = 0x2000 \<and>
    (\<exists>m3. run_code (\<lambda>_. 0) (\<lambda>_. Some) switch_to_code switch_to_code (m1\<lparr>gpr := (gpr m1)(R_a0 := 0x3000, R_a1 := 0x1000)\<rparr>) = Some (Return 7, m3) \<and>
      gpr m3 R_s11 = 7 \<and> gpr m3 R_tp = 0x1000)"
proof -
  let ?m = "\<lparr>gpr = (\<lambda>_. 7)(R_a0 := 0x1000, R_a1 := 0x2000), csrs = \<lambda>_. 0, memory = store64 0x2000 0x1234 (\<lambda>_. 0), bias = 0\<rparr>"
  have a: "gpr ?m R_a0 = 0x1000" "gpr ?m R_a1 = 0x2000" "contexts_apart 0x1000 0x2000" "contexts_apart 0x3000 0x1000"
    by (simp_all add: contexts_apart_def context_fits_def)
  have ld: "load_context 0x2000 (memory ?m) R_ra = 0x1234" by (simp add: load_context_def context_regs_list)
  have s: "callee_saved R_s11" by (simp add: callee_saved_def context_regs_list)
  from switch_round_trip [OF a(1-3), of "\<lambda>_. 0" "\<lambda>_. Some"] obtain m1 where
    m1: "run_code (\<lambda>_. 0) (\<lambda>_. Some) switch_to_code switch_to_code ?m = Some (Return 0x1234, m1)" "gpr m1 R_tp = 0x2000"
    and again: "\<forall>w m2. gpr m2 R_a0 = w \<and> gpr m2 R_a1 = 0x1000 \<and> contexts_apart w 0x1000 \<and>
        (\<forall>r. load_context 0x1000 (memory m2) r = load_context 0x1000 (memory m1) r) \<longrightarrow>
      (\<exists>m3. run_code (\<lambda>_. 0) (\<lambda>_. Some) switch_to_code switch_to_code m2 = Some (Return (gpr ?m R_ra), m3) \<and>
        (\<forall>r. callee_saved r \<longrightarrow> gpr m3 r = gpr ?m r) \<and> gpr m3 R_tp = 0x1000)" unfolding ld by blast
  have "\<exists>m3. run_code (\<lambda>_. 0) (\<lambda>_. Some) switch_to_code switch_to_code (m1\<lparr>gpr := (gpr m1)(R_a0 := 0x3000, R_a1 := 0x1000)\<rparr>) = Some (Return (gpr ?m R_ra), m3) \<and>
        (\<forall>r. callee_saved r \<longrightarrow> gpr m3 r = gpr ?m r) \<and> gpr m3 R_tp = 0x1000"
    by (rule again [rule_format, where w = "0x3000"]) (simp add: a(4))
  with m1 s show ?thesis by (intro exI [of _ m1]) auto
qed

text \<open>The first switch to a process made by \<open>fork\<close>, whose context has the return address \<open>ret_from_exception\<close> and whose stack is at its trap
  frame, goes on with \<open>ret_from_exception\<close>, which starts the process with the registers of that frame.\<close>

lemma forked_starts:
  assumes m: "gpr m R_a0 = t" "gpr m R_a1 = u" "contexts_apart t u"
    and ctx: "load_context u (memory m) R_ra = addr ''ret_from_exception''" "load_context u (memory m) R_sp = p"
    and fr: "load_regs p (memory m) = f" "frame_fits p" "unat t + 112 \<le> unat p \<or> unat p + 280 \<le> unat t" "f R_status AND 0x100 = 0"
  obtains m1 m2 where "run_code addr call switch_to_code switch_to_code m = Some (Return (addr ''ret_from_exception''), m1)"
    "run_code addr call ret_from_exception_code ret_from_exception_code m1 = Some (Trap_return, m2)"
    "\<forall>r. is_gpr r \<longrightarrow> gpr m2 r = f r" "csrs m2 SEPC = f R_epc" "csrs m2 SSCRATCH = p + 280"
proof -
  from switch_to_runs [OF m, of addr call] obtain m1 where
    m1: "run_code addr call switch_to_code switch_to_code m = Some (Return (load_context u (memory m) R_ra), m1)"
      "\<forall>r. callee_saved r \<longrightarrow> gpr m1 r = load_context u (memory m) r"
      "\<forall>x. x < unat t \<or> unat t + 112 \<le> x \<longrightarrow> memory m1 x = memory m x" .
  have sp: "gpr m1 R_sp = p" using m1(2) ctx(2) by (simp add: callee_saved_def context_regs_list)
  have "load_regs p (memory m1) r = f r" for r
    unfolding fr(1) [symmetric] load_regs_def
    using m1(3) fr(3) unat_reg_addr [OF fr(2), of r] reg_index_less [of r] by (intro load64_cong) auto
  then have f: "load_regs p (memory m1) = f" by blast
  from trap_return [OF sp code_after_restore(2), of addr call] obtain m2 where
    "run_code addr call ret_from_exception_code ret_from_exception_code m1 = Some (Trap_return, m2)"
    "\<forall>r. is_gpr r \<longrightarrow> gpr m2 r = f r" "csrs m2 SEPC = f R_epc"
    "csrs m2 SSCRATCH = (if f R_status AND 0x100 = 0 then p + 280 else csrs m1 SSCRATCH)" unfolding f .
  then show thesis using m1(1) ctx(1) fr(4) by (intro that [of m1 m2]) simp_all
qed

section \<open>Start\<close>

lemma unat_less_sint: "unat (a :: u64) < 2 ^ 63 \<Longrightarrow> sint a = int (unat a)"
proof -
  assume "unat a < 2 ^ 63"
  then have "int (unat a) < 2 ^ 63" by (simp only: of_nat_less_numeral_power_cancel_iff)
  moreover have "- (2 ^ 63) \<le> int (unat a)" by (rule order_trans [of _ 0]) simp_all
  ultimately have "signed_take_bit 63 (int (unat a)) = int (unat a)" by (intro signed_take_bit_int_eq_self)
  then show ?thesis by (simp add: sint_uint)
qed

lemma clear_bss_loop:
  assumes prog: "code_after ''clear_bss'' prog = [Sd_zero 0 R_t0, Addi R_t0 R_t0 8, Blt R_t0 R_t1 ''clear_bss''] @ rest"
  shows "unat (gpr m R_t0) = a \<Longrightarrow> unat (gpr m R_t1) = a + n \<Longrightarrow> 0 < n \<Longrightarrow> a + n + 8 \<le> 2 ^ 63 \<Longrightarrow>
    \<exists>m'. run_code addr call prog (code_after ''clear_bss'' prog) m = run_code addr call prog rest m' \<and>
      memory m' = (\<lambda>x. if a \<le> x \<and> x < a + 8 * ((n + 7) div 8) then 0 else memory m x) \<and>
      (\<forall>r. r \<noteq> R_t0 \<longrightarrow> gpr m' r = gpr m r) \<and> csrs m' = csrs m \<and> bias m' = bias m"
proof (induction n arbitrary: m a rule: less_induct)
  case (less n)
  let ?m = "m\<lparr>memory := store64 (gpr m R_t0) 0 (memory m), gpr := (gpr m)(R_t0 := gpr m R_t0 + 8)\<rparr>"
  have t0: "unat (gpr m R_t0 + 8) = a + 8" using less.prems by (subst unat_add_lem [THEN iffD1]) simp_all
  have "sint (gpr m R_t0 + 8) = int (a + 8)" "sint (gpr m R_t1) = int (a + n)" using t0 less.prems by (simp_all add: unat_less_sint)
  then have run: "run_code addr call prog (code_after ''clear_bss'' prog) m = run_code addr call prog (if 8 < n then code_after ''clear_bss'' prog else rest) ?m"
    by (subst (1) prog) (simp add: run_code_instr machine_simps)
  have zero: "store64 (gpr m R_t0) 0 (memory m) = (\<lambda>x. if a \<le> x \<and> x < a + 8 then 0 else memory m x)"
    using less.prems(1) by (simp add: store64_byte fun_eq_iff)
  show ?case
  proof (cases "8 < n")
    case True
    have "unat (gpr ?m R_t0) = a + 8" "unat (gpr ?m R_t1) = a + 8 + (n - 8)" "0 < n - 8" "a + 8 + (n - 8) + 8 \<le> 2 ^ 63"
      using t0 True less.prems by simp_all
    then obtain m' where m': "run_code addr call prog (code_after ''clear_bss'' prog) ?m = run_code addr call prog rest m'"
      "memory m' = (\<lambda>x. if a + 8 \<le> x \<and> x < a + 8 + 8 * ((n - 8 + 7) div 8) then 0 else memory ?m x)"
      "\<forall>r. r \<noteq> R_t0 \<longrightarrow> gpr m' r = gpr ?m r" "csrs m' = csrs ?m" "bias m' = bias ?m" using less.IH [of "n - 8" ?m "a + 8"] True by auto
    have "a + 8 + 8 * ((n - 8 + 7) div 8) = a + 8 * ((n + 7) div 8)" using True by (simp add: le_div_geq)
    then have "memory m' = (\<lambda>x. if a \<le> x \<and> x < a + 8 * ((n + 7) div 8) then 0 else memory m x)"
      unfolding m'(2) using True by (auto simp: zero fun_eq_iff)
    with run True m' show ?thesis by (intro exI [of _ m']) simp
  next
    case False
    then have "(n + 7) div 8 = 1" using less.prems(3) by (intro div_nat_eqI) simp_all
    with run False zero show ?thesis by (intro exI [of _ ?m]) simp
  qed
qed

text \<open>The part up to the call of \<open>setup_vm\<close>.\<close>

definition bss_cleared :: "nat \<Rightarrow> nat \<Rightarrow> mem \<Rightarrow> bool" where
  "bss_cleared a n m \<longleftrightarrow> (\<forall>x. a \<le> x \<and> x < a + n \<longrightarrow> m x = 0)"

lemma start_code_parts:
  "start_code = [Mv R_s0 R_a0, Mv R_s1 R_a1, La R_t0 ''__bss_start'', La R_t1 ''__bss_stop'', Bge R_t0 R_t1 ''clear_bss_done'', Label ''clear_bss''] @
     code_after ''clear_bss'' start_code"
  "code_after ''clear_bss'' start_code = [Sd_zero 0 R_t0, Addi R_t0 R_t0 8, Blt R_t0 R_t1 ''clear_bss''] @
     Label ''clear_bss_done'' # code_after ''clear_bss_done'' start_code"
  "code_after ''clear_bss_done'' start_code = [La R_sp ''_end'', Mv R_s0 R_a0, Mv R_s1 R_a1,
     Addi R_sp R_sp (- 16), Sd R_s0 0 R_sp, Sd R_s1 8 R_sp, Call ''setup_vm'', Ld R_s0 0 R_sp, Ld R_s1 8 R_sp, Addi R_sp R_sp 16,
     La R_t0 ''1'', Add R_t0 R_t0 R_a0, Jr R_t0]"
  by (simp_all add: start_code_def)

lemma start_clears_bss:
  assumes bss: "unat (addr ''__bss_start'' + bias m) = a" "unat (addr ''__bss_stop'' + bias m) = a + n" "a + n + 8 \<le> 2 ^ 63"
  obtains m1 where "run_code addr call start_code start_code m = run_code addr call start_code (code_after ''clear_bss_done'' start_code) m1"
    "bss_cleared a n (memory m1)" "gpr m1 R_a0 = gpr m R_a0" "gpr m1 R_a1 = gpr m R_a1" "csrs m1 = csrs m" "bias m1 = bias m"
proof -
  let ?m = "m\<lparr>gpr := (gpr m)(R_s0 := gpr m R_a0, R_s1 := gpr m R_a1, R_t0 := addr ''__bss_start'' + bias m, R_t1 := addr ''__bss_stop'' + bias m)\<rparr>"
  have s: "sint (addr ''__bss_start'' + bias m) = int a" "sint (addr ''__bss_stop'' + bias m) = int (a + n)" using bss by (simp_all add: unat_less_sint)
  have run: "run_code addr call start_code start_code m =
      run_code addr call start_code (if n = 0 then code_after ''clear_bss_done'' start_code else code_after ''clear_bss'' start_code) ?m"
    by (subst (2) start_code_parts(1)) (use s in \<open>simp add: run_code_instr machine_simps\<close>)
  show thesis
  proof (cases "n = 0")
    case True
    then have "bss_cleared a n (memory ?m)" by (auto simp: bss_cleared_def)
    with run True show ?thesis by (intro that [of ?m]) simp_all
  next
    case False
    with bss obtain m1 where m1: "run_code addr call start_code (code_after ''clear_bss'' start_code) ?m =
        run_code addr call start_code (Label ''clear_bss_done'' # code_after ''clear_bss_done'' start_code) m1"
      "memory m1 = (\<lambda>x. if a \<le> x \<and> x < a + 8 * ((n + 7) div 8) then 0 else memory ?m x)"
      "\<forall>r. r \<noteq> R_t0 \<longrightarrow> gpr m1 r = gpr ?m r" "csrs m1 = csrs ?m" "bias m1 = bias ?m"
      using clear_bss_loop [OF start_code_parts(2), of ?m a n addr call] by auto
    have "n \<le> 8 * ((n + 7) div 8)" by linarith
    then have "bss_cleared a n (memory m1)" by (auto simp: bss_cleared_def m1(2))
    with run False m1 show ?thesis by (intro that [of m1]) (simp_all add: run_code_instr)
  qed
qed

lemma kernel_start_correct:
  assumes b: "bias m = - PAGE_OFFSET"
    and bss: "unat (addr ''__bss_start'' + bias m) = a" "unat (addr ''__bss_stop'' + bias m) = a + n" "a + n + 24 \<le> unat (addr ''_end'' + bias m)"
      "unat (addr ''_end'' + bias m) < 2 ^ 63"
    and vm: "\<forall>m1. gpr m1 R_sp = addr ''_end'' + bias m - 16 \<and> bss_cleared a n (memory m1) \<longrightarrow>
      (\<exists>m2. call ''setup_vm'' m1 = Some m2 \<and> gpr m2 R_a0 = PAGE_OFFSET \<and> gpr m2 R_sp = gpr m1 R_sp \<and> bias m2 = bias m1 \<and>
        load64 (gpr m1 R_sp) (memory m2) = load64 (gpr m1 R_sp) (memory m1) \<and> load64 (gpr m1 R_sp + 8) (memory m2) = load64 (gpr m1 R_sp + 8) (memory m1))"
    and id_map: "\<forall>m1. \<exists>m2. call ''drop_identity_map'' m1 = Some m2 \<and> gpr m2 R_sp = gpr m1 R_sp \<and> gpr m2 R_s0 = gpr m1 R_s0 \<and> gpr m2 R_s1 = gpr m1 R_s1 \<and> bias m2 = bias m1"
  shows "\<exists>m'. kernel_start addr call m = Some (Tail_call ''start_kernel'', m') \<and> gpr m' R_a0 = gpr m R_a0 \<and> gpr m' R_a1 = gpr m R_a1 + PAGE_OFFSET \<and>
    gpr m' R_sp = addr ''_end'' \<and> gpr m' R_tp = 0 \<and> csrs m' STVEC = addr ''handle_exception'' \<and> csrs m' SSCRATCH = 0"
proof -
  have "a + n + 8 \<le> 2 ^ 63" using bss(3,4) by linarith
  then obtain m1 where m1: "run_code addr call start_code start_code m = run_code addr call start_code (code_after ''clear_bss_done'' start_code) m1"
    "bss_cleared a n (memory m1)" "gpr m1 R_a0 = gpr m R_a0" "gpr m1 R_a1 = gpr m R_a1" "bias m1 = bias m" using start_clears_bss [OF bss(1,2)] by metis
  let ?sp = "addr ''_end'' + bias m - 16"
  have sp: "unat ?sp = unat (addr ''_end'' + bias m) - 16" "unat (?sp + 8) = unat ?sp + 8"
    using bss(3,4) by (simp_all add: unat_sub_if' unat_word_ariths)
  let ?mem = "store64 (?sp + 8) (gpr m R_a1) (store64 ?sp (gpr m R_a0) (memory m1))"
  let ?m = "m1\<lparr>gpr := (gpr m1)(R_s0 := gpr m R_a0, R_s1 := gpr m R_a1, R_sp := ?sp), memory := ?mem\<rparr>"
  have "bss_cleared a n ?mem" using m1(2) sp bss(3) by (auto simp: bss_cleared_def store64_byte)
  then obtain m2 where m2: "call ''setup_vm'' ?m = Some m2" "gpr m2 R_a0 = PAGE_OFFSET" "gpr m2 R_sp = ?sp" "bias m2 = bias m"
    "load64 ?sp (memory m2) = load64 ?sp ?mem" "load64 (?sp + 8) (memory m2) = load64 (?sp + 8) ?mem"
    using vm [rule_format, of ?m] m1(5) by auto
  have l: "load64 ?sp ?mem = gpr m R_a0" "load64 (?sp + 8) ?mem = gpr m R_a1"
    using load64_store64_other [of "?sp + 8" ?sp] sp(2) by simp_all
  let ?m3 = "m2\<lparr>gpr := (gpr m2)(R_s0 := gpr m R_a0, R_s1 := gpr m R_a1, R_sp := ?sp + 16, R_t0 := addr ''1'')\<rparr>"
  have "run_code addr call start_code (code_after ''clear_bss_done'' start_code) m1 =
      Option.bind (call ''setup_vm'' ?m) (run_code addr call start_code
        [Ld R_s0 0 R_sp, Ld R_s1 8 R_sp, Addi R_sp R_sp 16, La R_t0 ''1'', Add R_t0 R_t0 R_a0, Jr R_t0])"
    by (subst start_code_parts(3)) (use m1(3-5) in \<open>simp add: run_code_instr machine_simps algebra_simps\<close>)
  also have "\<dots> = Some (Jump (addr ''1''), ?m3)" using m2 l b by (simp add: run_code_instr machine_simps)
  finally have "kernel_start addr call m = run_code addr call start_high_code start_high_code (?m3\<lparr>bias := 0\<rparr>)"
    by (simp add: kernel_start_def m1(1))
  moreover obtain m4 where "call ''drop_identity_map'' (?m3\<lparr>bias := 0, gpr := (gpr ?m3)(R_sp := addr ''_end'')\<rparr>) = Some m4"
    "gpr m4 R_sp = addr ''_end''" "gpr m4 R_s0 = gpr m R_a0" "gpr m4 R_s1 = gpr m R_a1" "bias m4 = 0"
    using id_map [rule_format, of "?m3\<lparr>bias := 0, gpr := (gpr ?m3)(R_sp := addr ''_end'')\<rparr>"] by auto
  ultimately show ?thesis
    by (subst (asm) (2) start_high_code_def) (simp add: run_code_instr machine_simps PAGE_OFFSET_def)
qed

end
