(* ===== verification/Spec2Isabelle.thy ===== *)
theory Spec2Isabelle
  imports Uart Signal_Props Fork_Props Fault_Props Fork_Call Fdt_Props Shell Bootloader Assembly
begin

text \<open>
  \<^bold>\<open>A verification library for the bare-metal RISC-V kernel\<close>

  The program is a small operating system for a 64-bit RISC-V board.  After the assembly entry the
  shell of \<^verbatim>\<open>src/main.c\<close> sets up the memory allocator from the device tree, the
  page tables, the console, the timers and the virtual file system, and then runs threads and user
  processes.  The parts call each other as follows: the kernel heap (\<^verbatim>\<open>allocator.c\<close>)
  takes pages from the buddy system (\<^verbatim>\<open>buddy.c\<close>), which keeps its free blocks in
  intrusive lists (\<^verbatim>\<open>list.h\<close>); tasks, timers, page tables, memory areas and all file
  system objects are memory of the kernel heap; the timer interrupt and the console interrupt defer
  their work to the task queue; the virtual file system dispatches to \<^verbatim>\<open>tmpfs\<close>,
  \<^verbatim>\<open>ramfs\<close> (which unpacks the cpio archive) and \<^verbatim>\<open>devfs\<close>
  (console and framebuffer).

  \<^bold>\<open>Conventions\<close>

  Machine integers keep their width: \<^verbatim>\<open>unsigned long\<close> and addresses are
  \<open>64 word\<close>, \<^verbatim>\<open>int\<close> is \<open>32 word\<close> or a bounded \<open>int\<close>
  where the code never leaves the range, bytes are \<open>8 word\<close>.  A struct is a \<open>record\<close>
  and a pointer to one is either an index (page descriptors) or an address looked up in a map (list
  heads, tasks, timers, areas, nodes), so aliasing is visible.  Byte memory is a function from
  addresses to bytes.  A loop that the types do not bound is a \<open>partial_function (option)\<close>:
  \<open>None\<close> means that it does not end, and the theorems state that the result is
  \<open>Some\<close>; no definition takes fuel.  Where the source follows a pointer that it did not
  test, or writes past a local buffer, the result is a value of \<open>kernel_fault\<close>.  Code outside
  the sources a theory models (hardware registers, firmware calls, callbacks of tasks and timers)
  is an argument of the definitions.

  \<^bold>\<open>Theories\<close>

  \<^descr> \<^verbatim>\<open>Prelude\<close>: types, the collections of simplification rules, lemmas on
  words and lists shared by all components, and the constants of \<^verbatim>\<open>src/src/config.h\<close>.

  \<^descr> \<^verbatim>\<open>Align_Endian\<close>: \<^verbatim>\<open>lib/align.c\<close> and
  \<^verbatim>\<open>lib/endian.c\<close>; rounding up gives the least multiple, byte reversal is an involution
  that reverses the bytes.

  \<^descr> \<^verbatim>\<open>List_Head\<close>: the circular lists of \<^verbatim>\<open>lib/list.h\<close> as a store of
  \<open>next\<close> and \<open>prev\<close> pointers, with a representation predicate and the effect of every
  operation on it.

  \<^descr> \<^verbatim>\<open>Buddy\<close>, \<^verbatim>\<open>Buddy_Inv\<close>,
  \<^verbatim>\<open>Buddy_Correct\<close>, \<^verbatim>\<open>Buddy_Init\<close>,
  \<^verbatim>\<open>Buddy_Spec\<close>, \<^verbatim>\<open>Buddy_Props\<close>: the page allocator of
  \<^verbatim>\<open>lib/buddy.c\<close>.  The invariant says that the free lists, the page states and the
  orders agree and that no two free buddies stay unmerged; allocation, release, initialisation and
  reservation are shown to keep it, allocation is shown to succeed whenever a block of the order
  exists, and allocated blocks are exclusive.

  \<^descr> \<^verbatim>\<open>Alloc_Interface\<close>: the contract of an allocator as a locale, with the lemma on
  arbitrary runs of allocations and releases; interpreted on the page allocator in
  \<^verbatim>\<open>Buddy_Props\<close> and on the heap in \<^verbatim>\<open>Allocator_Props\<close>.

  \<^descr> \<^verbatim>\<open>Allocator\<close>, \<^verbatim>\<open>Chunk_Pools\<close>,
  \<^verbatim>\<open>Allocator_Inv\<close>, \<^verbatim>\<open>Allocator_Props\<close>: the kernel heap of
  \<^verbatim>\<open>src/allocator.c\<close>: chunk pools on pages of the page allocator, reference counts of
  pages, and the same contract as for pages.

  \<^descr> \<^verbatim>\<open>CString\<close>: \<^verbatim>\<open>lib/string.c\<close> on byte memory, including the
  overrun of \<^verbatim>\<open>strncpy\<close>.

  \<^descr> \<^verbatim>\<open>Cpio\<close>: the archive reader of \<^verbatim>\<open>lib/cpio.c\<close>; finding a
  file in a well-formed archive is looking it up in the list of its entries.

  \<^descr> \<^verbatim>\<open>Stable_Queue\<close>, \<^verbatim>\<open>Task\<close>: the priority queue of deferred
  work of \<^verbatim>\<open>src/task.c\<close>.  Insertion is stable insertion by priority, a task is entered
  exactly once or dropped when memory is out, and running the queue runs every task that is not
  masked by a running one of higher priority.

  \<^descr> \<^verbatim>\<open>Timer\<close>: \<^verbatim>\<open>src/timer.c\<close>; the list of timers refines
  a list ordered by expiry with first-come ties, and the interrupt fires exactly the expired
  timers and programs the hardware for the next one.

  \<^descr> \<^verbatim>\<open>Uart\<close>: \<^verbatim>\<open>src/uart.c\<close>.  The rings refine a bounded
  queue (a locale interpreted on the ring), output leaves in the order it was written, and an
  interrupt in the middle of a removal breaks the ring.

  \<^descr> \<^verbatim>\<open>Vma\<close>, \<^verbatim>\<open>Mmap\<close>: the memory areas of a process and
  \<^verbatim>\<open>sys_mmap\<close>, \<^verbatim>\<open>sys_munmap\<close> of
  \<^verbatim>\<open>src/syscall.c\<close>; the areas stay sorted and disjoint and the search for a free
  region ends with the lowest one.

  \<^descr> \<^verbatim>\<open>Mmu\<close>, \<^verbatim>\<open>Mmu_Props\<close>:
  \<^verbatim>\<open>src/mmu.c\<close> against a specification of the three-level translation of the hardware:
  mapping a page gives exactly that translation and leaves every other one alone.

  \<^descr> \<^verbatim>\<open>Fs_State\<close>, \<^verbatim>\<open>Tmpfs\<close>, \<^verbatim>\<open>Ramfs\<close>,
  \<^verbatim>\<open>Devfs\<close>, \<^verbatim>\<open>Vfs\<close>: the file systems.  \<^verbatim>\<open>Fs_State\<close>
  has their common state (nodes, open files, mounts, the heap and memory) and a monad of kernel
  operations; the other theories have one definition for each function of the source.  Reading
  back a write, finding a created file and resolving a path component by component are proved.

  \<^descr> \<^verbatim>\<open>Sys_State\<close>: the state of the whole kernel: one heap, one memory, the parts of the other
  components, and the threads of \<^verbatim>\<open>src/thread.h\<close> by address; trap frames as words in memory;
  and lifts that run an operation of another component on its part of the state.

  \<^descr> \<^verbatim>\<open>Thread\<close>, \<^verbatim>\<open>Thread_Props\<close>: \<^verbatim>\<open>src/thread.c\<close>.
  The run queue is a ring; the scheduler takes the next ready thread in it and every ready thread
  gets its turn within one round, new threads join the ring, and zombies leave it.  A context switch
  is the end of an operation; where code of the same thread goes on after it, the argument
  \<open>others\<close> is what the rest of the system does meanwhile.

  \<^descr> \<^verbatim>\<open>Syscall\<close>, \<^verbatim>\<open>Trap\<close>: the system calls with their dispatcher
  (\<^verbatim>\<open>src/syscall.c\<close>) and the trap handler with page faults and signals
  (\<^verbatim>\<open>src/exception.c\<close>).  Console, display, interrupt controller, the time and the
  addresses of code are fields of an environment record.

  \<^descr> \<^verbatim>\<open>Trap_Props\<close>, \<^verbatim>\<open>Signal_Props\<close>: a write to a shared page gives the
  writer a private copy of the same contents, and a signal handler returns to the frame and the
  areas the process had when it was interrupted.

  \<^descr> \<^verbatim>\<open>Fork_Props\<close>: the copy of an address space by \<^verbatim>\<open>copy_pgd\<close> of
  \<^verbatim>\<open>src/mmu.c\<close>, which \<^verbatim>\<open>sys_fork\<close> uses: the child gets tables of its own, both sides see the
  same pages without the write permission, and every user page has at least two owners, which is where the copy on
  a write starts from.

  \<^descr> \<^verbatim>\<open>Fork_Call\<close>: the system call \<^verbatim>\<open>fork\<close> as a whole, from the allocation of the thread to its
  place in the run queue: the child goes on with the frame of its parent, on the same pages, with its areas and open files.

  \<^descr> \<^verbatim>\<open>Fault_Props\<close>: page faults outside the copy on write.  The first access to a page that its
  area permits gives the process a fresh page with the bytes of the file behind the area; an access that no area
  permits ends the process.

  \<^descr> \<^verbatim>\<open>Fdt\<close>, \<^verbatim>\<open>Fdt_Props\<close>: the device-tree reader of \<^verbatim>\<open>lib/fdt.c\<close> on
  byte memory.  On the bytes of a tree the search for a path finds the first matching node in tree order, and
  the search for a property finds its value.

  \<^descr> \<^verbatim>\<open>Stdio\<close>: \<^verbatim>\<open>lib/stdio.c\<close>, with the bytes that reach the console as the result;
  the digits printed for a number stand for that number.

  \<^descr> \<^verbatim>\<open>Devices\<close>: the interrupt controller (\<^verbatim>\<open>src/plic.c\<close>), the firmware calls
  (\<^verbatim>\<open>lib/sbi.c\<close>) and the display (\<^verbatim>\<open>src/video.c\<close>); a picture that fits the screen is copied
  row by row to its middle and nothing else in memory changes.

  \<^descr> \<^verbatim>\<open>Shell\<close>: \<^verbatim>\<open>src/main.c\<close>, which puts the parts together: the order in which the kernel
  starts them, and the shell with its commands on the state of the whole kernel.  A line of input always fits the
  buffer with its terminator.  The two endless loops are given by one round, and by any number of rounds.

  \<^descr> \<^verbatim>\<open>Boot_Lib\<close>, \<^verbatim>\<open>Bootloader\<close>: \<^verbatim>\<open>src/bootloader\<close>, a program of its own.  Its copies of the
  library functions compute what those of the kernel do.  A kernel image that the
  sender frames with the magic number and its size arrives in memory byte by byte, and the loader jumps to it; a
  stray byte before the frame makes it wait forever.

  \<^descr> \<^verbatim>\<open>Assembly\<close>: the assembly code \<^verbatim>\<open>src/src/trap.S\<close>, \<^verbatim>\<open>thread_switch.S\<close>, \<^verbatim>\<open>start.S\<close> and
  \<^verbatim>\<open>trampoline.S\<close>, instruction by instruction, with an interpreter.  A trap saves all registers in the frame
  that \<^verbatim>\<open>Sys_State\<close> reads and returns with those of the frame the handler leaves; a thread that is switched away from
  goes on where it was when it is switched back to; and the start clears the static data and calls the kernel with
  its arguments.

  \<^bold>\<open>Not modelled\<close>

  The relocation of the boot loader (\<^verbatim>\<open>src/bootloader/src/start.S\<close>), which copies the running program, and the
  constants of the Orange Pi board: the theories have those of the QEMU target.
\<close>

end
